(* ===== verification/Prelude.thy ===== *)
theory Prelude imports Main "HOL-Library.Word" begin

text \<open>
  Shared base of the development: the C integer types the sources use as words, the
  collections of simplification rules the component theories fill, and the generic facts on
  words, bits and lists that more than one component needs.
\<close>

unbundle bit_operations_syntax

section \<open>C integer types\<close>

text \<open>
  \<open>uint8_t\<close>, \<open>uint16_t\<close>, \<open>uint32_t\<close> and \<open>uint64_t\<close> are words; a signed C integer is a word
  of the same width read with \<open>sint\<close>. \<open>char\<close> and \<open>uint8_t\<close> buffers are lists of \<open>u8\<close>.
\<close>

type_synonym u8 = "8 word"
type_synonym u16 = "16 word"
type_synonym u32 = "32 word"
type_synonym u64 = "64 word"
type_synonym s32 = "32 word"
type_synonym s64 = "64 word"

abbreviation int32_max :: s32 where "int32_max \<equiv> 0x7FFFFFFF"

named_theorems c_simps "evaluation of the C level helpers"
named_theorems bit_split "case splits on a bit position below a fixed width"

section \<open>Bits of bounded words\<close>

lemma take_bit_of_less_exp:
  fixes w :: "'a::len word"
  assumes "w < 2 ^ k"
  shows "take_bit k w = w"
  using less_mask_eq [OF assms] by (simp add: take_bit_eq_mask)

lemma not_bit_of_less_exp:
  fixes w :: "'a::len word"
  assumes "w < 2 ^ k" "k \<le> n"
  shows "\<not> bit w n"
  using take_bit_of_less_exp [OF assms(1)] assms(2) by (metis bit_take_bit_iff not_le)

lemma less_exp_of_not_bit:
  fixes w :: "'a::len word"
  assumes "\<And>n. k \<le> n \<Longrightarrow> n < LENGTH('a) \<Longrightarrow> \<not> bit w n" "k < LENGTH('a)"
  shows "w < 2 ^ k"
proof -
  have "w AND mask k = w"
    by (rule bit_word_eqI) (use assms(1) leI in \<open>simp add: bit_simps; blast\<close>)
  then show ?thesis
    using and_mask_less_size [of k w] assms(2) by (simp add: word_size)
qed

lemma less_exp_of_take_bit:
  fixes w :: "'a::len word"
  assumes "take_bit k w = w" "k < LENGTH('a)"
  shows "w < 2 ^ k"
  using and_mask_less_size [of k w] assms by (simp add: word_size take_bit_eq_mask)

text \<open>Every bit position below a fixed width, one case each.\<close>

lemma nat_less_8_cases [bit_split]:
  "n < 8 \<Longrightarrow> (n = 7 \<or> n = 6 \<or> n = 5 \<or> n = 4 \<or> n = 3 \<or> n = 2 \<or> n = 1 \<or> n = 0)" for n :: nat
  by auto

lemma nat_less_32_cases [bit_split]:
  "n < 32 \<Longrightarrow> (n = 31 \<or> n = 30 \<or> n = 29 \<or> n = 28 \<or> n = 27 \<or> n = 26 \<or> n = 25 \<or> n = 24
      \<or> n = 23 \<or> n = 22 \<or> n = 21 \<or> n = 20 \<or> n = 19 \<or> n = 18 \<or> n = 17 \<or> n = 16
      \<or> n = 15 \<or> n = 14 \<or> n = 13 \<or> n = 12 \<or> n = 11 \<or> n = 10 \<or> n = 9 \<or> n = 8
      \<or> n = 7 \<or> n = 6 \<or> n = 5 \<or> n = 4 \<or> n = 3 \<or> n = 2 \<or> n = 1 \<or> n = 0)" for n :: nat
  by presburger

lemma unat_ucast_up:
  fixes w :: "'a::len word"
  assumes "LENGTH('a) \<le> LENGTH('b)"
  shows "unat (ucast w :: 'b::len word) = unat w"
proof -
  have "unat w < 2 ^ LENGTH('b)"
    by (rule less_le_trans [OF unsigned_less]) (simp add: assms)
  then show ?thesis
    by (simp add: unsigned_ucast_eq take_bit_nat_eq_self)
qed

lemma u8_bits:
  fixes b :: u8
  obtains b0 b1 b2 b3 b4 b5 b6 b7 where
    "unat b = of_bool b0 + 2 * of_bool b1 + 4 * of_bool b2 + 8 * of_bool b3
       + 16 * of_bool b4 + 32 * of_bool b5 + 64 * of_bool b6 + 128 * of_bool b7"
    "bit b 0 = b0" "bit b 1 = b1" "bit b 2 = b2" "bit b 3 = b3"
    "bit b 4 = b4" "bit b 5 = b5" "bit b 6 = b6" "bit b 7 = b7"
proof -
  have "unat b = take_bit 8 (unat b)"
    using unsigned_less [of b] by (intro take_bit_nat_eq_self [symmetric]) simp
  also have "\<dots> = horner_sum of_bool 2 (map (bit (unat b)) [0..<8])"
    by (simp add: horner_sum_bit_eq_take_bit)
  also have "bit (unat b) = bit b"
    by (rule ext) (simp add: bit_unsigned_iff)
  finally have "unat b = horner_sum of_bool 2 (map (bit b) [0..<8])" .
  moreover have "[0..<8] = [0, 1, 2, 3, 4, 5, 6, 7 :: nat]"
    by (simp add: upt_rec)
  ultimately show thesis
    by (intro that) (simp_all add: algebra_simps)
qed

text \<open>The ranges the UTF-8 coder tests, as bits of the byte.\<close>

lemma u8_range_bits:
  "(b :: u8) < 0x80 \<longleftrightarrow> \<not> bit b 7"
  "ucast b < (0x80 :: u32) \<longleftrightarrow> \<not> bit b 7"
  "ucast b < (0xc0 :: u32) \<longleftrightarrow> \<not> (bit b 7 \<and> bit b 6)"
  "ucast b < (0xe0 :: u32) \<longleftrightarrow> \<not> (bit b 7 \<and> bit b 6 \<and> bit b 5)"
  "ucast b < (0xf0 :: u32) \<longleftrightarrow> \<not> (bit b 7 \<and> bit b 6 \<and> bit b 5 \<and> bit b 4)"
  "ucast b < (0xf8 :: u32) \<longleftrightarrow> \<not> (bit b 7 \<and> bit b 6 \<and> bit b 5 \<and> bit b 4 \<and> bit b 3)"
  by (rule u8_bits [of b]; simp add: word_less_nat_alt unat_ucast_up split: if_splits; auto)+

lemma u32_eqI:
  fixes v w :: u32
  assumes "bit v 0 = bit w 0" "bit v 1 = bit w 1" "bit v 2 = bit w 2" "bit v 3 = bit w 3"
    "bit v 4 = bit w 4" "bit v 5 = bit w 5" "bit v 6 = bit w 6" "bit v 7 = bit w 7"
    "bit v 8 = bit w 8" "bit v 9 = bit w 9" "bit v 10 = bit w 10" "bit v 11 = bit w 11"
    "bit v 12 = bit w 12" "bit v 13 = bit w 13" "bit v 14 = bit w 14" "bit v 15 = bit w 15"
    "bit v 16 = bit w 16" "bit v 17 = bit w 17" "bit v 18 = bit w 18" "bit v 19 = bit w 19"
    "bit v 20 = bit w 20" "bit v 21 = bit w 21" "bit v 22 = bit w 22" "bit v 23 = bit w 23"
    "bit v 24 = bit w 24" "bit v 25 = bit w 25" "bit v 26 = bit w 26" "bit v 27 = bit w 27"
    "bit v 28 = bit w 28" "bit v 29 = bit w 29" "bit v 30 = bit w 30" "bit v 31 = bit w 31"
  shows "v = w"
proof (rule bit_word_eqI)
  fix n assume "n < LENGTH(32)"
  then have "n < 32" by simp
  from nat_less_32_cases [OF this] show "bit v n = bit w n"
    by (elim disjE) (simp_all only: assms)
qed

lemma u8_eqI:
  fixes v w :: u8
  assumes "bit v 0 = bit w 0" "bit v 1 = bit w 1" "bit v 2 = bit w 2" "bit v 3 = bit w 3"
    "bit v 4 = bit w 4" "bit v 5 = bit w 5" "bit v 6 = bit w 6" "bit v 7 = bit w 7"
  shows "v = w"
proof (rule bit_word_eqI)
  fix n assume "n < LENGTH(8)"
  then have "n < 8" by simp
  from nat_less_8_cases [OF this] show "bit v n = bit w n"
    by (elim disjE) (simp_all only: assms)
qed

section \<open>Prefixes of lists\<close>

lemma take_nth1: "1 \<le> length p \<Longrightarrow> take (Suc 0) p = [p ! 0]"
  by (cases p) auto

lemma take_nth2: "2 \<le> length p \<Longrightarrow> take 2 p = [p ! 0, p ! 1]"
  by (simp add: numeral_2_eq_2 take_Suc_conv_app_nth take_nth1)

lemma take_nth3: "3 \<le> length p \<Longrightarrow> take 3 p = [p ! 0, p ! 1, p ! 2]"
  by (simp add: eval_nat_numeral take_Suc_conv_app_nth take_nth1)

lemma take_nth4: "4 \<le> length p \<Longrightarrow> take 4 p = [p ! 0, p ! 1, p ! 2, p ! 3]"
  by (simp add: eval_nat_numeral take_Suc_conv_app_nth take_nth1)

section \<open>Masks, shifts and packing as arithmetic\<close>

lemma unat_and_mask: "unat (w AND mask n) = unat w mod 2 ^ n" for w :: "'a::len word"
  by (simp add: unsigned_take_bit_eq flip: take_bit_eq_mask take_bit_eq_mod)

lemma unat_drop_bit: "unat (drop_bit n w) = unat w div 2 ^ n" for w :: "'a::len word"
proof -
  have "unat (drop_bit n w) = drop_bit n (take_bit LENGTH('a) (unat w))"
    by (rule unsigned_drop_bit_eq)
  then show ?thesis
    unfolding drop_bit_eq_div take_bit_eq_mod using unsigned_less [of w, where 'a = nat] by simp
qed

lemma bit_unat_less: "unat w < 2 ^ n \<Longrightarrow> n \<le> m \<Longrightarrow> \<not> bit w m" for w :: "'a::len word"
proof -
  assume w: "unat w < 2 ^ n" and m: "n \<le> m"
  have "(2::nat) ^ n \<le> 2 ^ m" using m by simp
  with w have "unat w < 2 ^ m" by (rule less_le_trans)
  then have "\<not> bit (unat w) m" by (simp add: bit_iff_odd)
  then show ?thesis by (metis bit_unsigned_iff bit_imp_le_length possible_bit_nat possible_bit_def)
qed

lemma or_push_bit_add: "unat x < 2 ^ n \<Longrightarrow> x OR push_bit n y = x + push_bit n y" for x y :: "'a::len word"
proof -
  assume x: "unat x < 2 ^ n"
  have "x AND push_bit n y = 0"
    using bit_unat_less [OF x] by (intro bit_word_eqI) (auto simp: bit_simps)
  then show ?thesis by (simp add: disjunctive_add_eq_or)
qed

lemma unat_push_bit: "unat y * 2 ^ n < 2 ^ LENGTH('a) \<Longrightarrow> unat (push_bit n y) = unat y * 2 ^ n" for y :: "'a::len word"
proof -
  assume lt: "unat y * 2 ^ n < 2 ^ LENGTH('a)"
  have "unat (push_bit n y) = take_bit LENGTH('a) (push_bit n (unat y))"
    by (rule unsigned_push_bit_eq)
  also have "\<dots> = unat y * 2 ^ n"
    unfolding push_bit_eq_mult by (rule take_bit_nat_eq_self [OF lt])
  finally show ?thesis .
qed

lemma unat_add_small: "unat x + unat y < 2 ^ LENGTH('a) \<Longrightarrow> unat (x + y) = unat x + unat y" for x y :: "'a::len word"
  by (simp add: unat_word_ariths)

lemma unat_or_push_bit:
  fixes x y :: "'a::len word"
  assumes "unat x < 2 ^ n" "unat x + unat y * 2 ^ n < 2 ^ LENGTH('a)"
  shows "unat (x OR push_bit n y) = unat x + unat y * 2 ^ n"
proof -
  have p: "unat (push_bit n y) = unat y * 2 ^ n" using assms(2) by (intro unat_push_bit) simp
  show ?thesis unfolding or_push_bit_add [OF assms(1)]
    using assms(2) p by (subst unat_add_small) simp_all
qed

lemma u32_bound: "unat (c :: u32) < 2 ^ 32"
  by (rule order_less_le_trans [OF unsigned_less]) simp

lemma u64_bound: "unat (c :: u64) < 2 ^ 64"
  by (rule order_less_le_trans [OF unsigned_less]) simp

lemma unat_ucast_mod: "unat (ucast w :: 'b::len word) = unat w mod 2 ^ LENGTH('b)" for w :: "'a::len word"
  by (simp add: unsigned_ucast_eq take_bit_eq_mod)

lemma drop_bit_eq_0: "drop_bit n (x :: u32) = 0 \<longleftrightarrow> unat x < 2 ^ n"
proof -
  have "drop_bit n x = 0 \<longleftrightarrow> unat (drop_bit n x) = 0" by (rule unat_eq_zero [symmetric])
  then show ?thesis by (simp add: unat_drop_bit div_eq_0_iff)
qed

lemma sint_of_nat_small: "n < 2 ^ 31 \<Longrightarrow> sint (of_nat n :: s32) = int n"
  using int_word_sint [of "int n", where 'a = 32] by simp

end
