(* ===== verification/Cutils.thy ===== *)
theory Cutils imports Prelude begin

text \<open>
  The C utilities of \<open>native/mquickjs/cutils.h\<close> and \<open>cutils.c\<close>: integer helpers, bit scans,
  unaligned little endian loads and stores, byte swaps and NUL terminated string helpers (the
  UTF-8 coder of the same files is in theory \<open>Utf8\<close>). Byte buffers are lists of \<open>u8\<close>; a function that
  writes through a pointer returns the bytes it wrote or the updated buffer. The targets of the
  build (arm64, armv7, x86) are little endian.
\<close>

unbundle bit_operations_syntax

section \<open>Integer helpers\<close>

definition max_int :: "int \<Rightarrow> int \<Rightarrow> int" where
  "max_int a b = (if a > b then a else b)"

definition min_int :: "int \<Rightarrow> int \<Rightarrow> int" where
  "min_int a b = (if a < b then a else b)"

definition max_uint32 :: "u32 \<Rightarrow> u32 \<Rightarrow> u32" where
  "max_uint32 a b = (if a > b then a else b)"

definition min_uint32 :: "u32 \<Rightarrow> u32 \<Rightarrow> u32" where
  "min_uint32 a b = (if a < b then a else b)"

lemma min_int_min [simp]: "min_int a b = min a b"
  by (simp add: min_int_def)

lemma max_int_max [simp]: "max_int a b = max a b"
  by (simp add: max_int_def)

lemma max_uint32_max [simp]: "max_uint32 a b = max a b"
  by (auto simp: max_uint32_def max_def)

lemma min_uint32_min [simp]: "min_uint32 a b = min a b"
  by (auto simp: min_uint32_def min_def)

text \<open>
  \<open>__builtin_clz\<close> and \<open>__builtin_ctz\<close> count the zero bits above the highest and below the
  lowest set bit. The compiler leaves the argument 0 undefined; here it yields the width.
\<close>

definition clz32 :: "u32 \<Rightarrow> nat" where
  "clz32 a = length (takeWhile (\<lambda>n. \<not> bit a n) (rev [0..<32]))"

definition clz64 :: "u64 \<Rightarrow> nat" where
  "clz64 a = length (takeWhile (\<lambda>n. \<not> bit a n) (rev [0..<64]))"

definition ctz32 :: "u32 \<Rightarrow> nat" where
  "ctz32 a = length (takeWhile (\<lambda>n. \<not> bit a n) [0..<32])"

definition ctz64 :: "u64 \<Rightarrow> nat" where
  "ctz64 a = length (takeWhile (\<lambda>n. \<not> bit a n) [0..<64])"

section \<open>Unaligned loads and stores, byte swaps\<close>

definition get_u8 :: "u8 list \<Rightarrow> nat \<Rightarrow> u32" where
  "get_u8 tab i = ucast (tab ! i)"

definition get_u16 :: "u8 list \<Rightarrow> nat \<Rightarrow> u32" where
  "get_u16 tab i = ucast (tab ! i) OR push_bit 8 (ucast (tab ! (i + 1)))"

definition get_u32 :: "u8 list \<Rightarrow> nat \<Rightarrow> u32" where
  "get_u32 tab i = ucast (tab ! i) OR push_bit 8 (ucast (tab ! (i + 1)))
     OR push_bit 16 (ucast (tab ! (i + 2))) OR push_bit 24 (ucast (tab ! (i + 3)))"

definition get_u64 :: "u8 list \<Rightarrow> nat \<Rightarrow> u64" where
  "get_u64 tab i = ucast (get_u32 tab i) OR push_bit 32 (ucast (get_u32 tab (i + 4)))"

definition get_i32 :: "u8 list \<Rightarrow> nat \<Rightarrow> int" where
  "get_i32 tab i = sint (get_u32 tab i)"

definition get_i16 :: "u8 list \<Rightarrow> nat \<Rightarrow> int" where
  "get_i16 tab i = sint (ucast (get_u16 tab i) :: u16)"

definition get_i8 :: "u8 list \<Rightarrow> nat \<Rightarrow> int" where
  "get_i8 tab i = sint (tab ! i)"

definition put_u8 :: "u8 list \<Rightarrow> nat \<Rightarrow> u8 \<Rightarrow> u8 list" where
  "put_u8 tab i v = tab[i := v]"

definition put_u16 :: "u8 list \<Rightarrow> nat \<Rightarrow> u16 \<Rightarrow> u8 list" where
  "put_u16 tab i v = tab[i := ucast v, i + 1 := ucast (drop_bit 8 v)]"

definition put_u32 :: "u8 list \<Rightarrow> nat \<Rightarrow> u32 \<Rightarrow> u8 list" where
  "put_u32 tab i v = tab[i := ucast v, i + 1 := ucast (drop_bit 8 v),
     i + 2 := ucast (drop_bit 16 v), i + 3 := ucast (drop_bit 24 v)]"

definition put_u64 :: "u8 list \<Rightarrow> nat \<Rightarrow> u64 \<Rightarrow> u8 list" where
  "put_u64 tab i v = put_u32 (put_u32 tab i (ucast v)) (i + 4) (ucast (drop_bit 32 v))"

definition bswap16 :: "u16 \<Rightarrow> u16" where
  "bswap16 x = drop_bit 8 x OR push_bit 8 x"

definition bswap32 :: "u32 \<Rightarrow> u32" where
  "bswap32 v = drop_bit 24 (v AND 0xff000000) OR drop_bit 8 (v AND 0x00ff0000)
     OR push_bit 8 (v AND 0x0000ff00) OR push_bit 24 (v AND 0x000000ff)"

definition bswap64 :: "u64 \<Rightarrow> u64" where
  "bswap64 v =
     drop_bit 56 (v AND push_bit (7 * 8) 0xff) OR drop_bit 40 (v AND push_bit (6 * 8) 0xff)
     OR drop_bit 24 (v AND push_bit (5 * 8) 0xff) OR drop_bit 8 (v AND push_bit (4 * 8) 0xff)
     OR push_bit 8 (v AND push_bit (3 * 8) 0xff) OR push_bit 24 (v AND push_bit (2 * 8) 0xff)
     OR push_bit 40 (v AND push_bit (1 * 8) 0xff) OR push_bit 56 (v AND push_bit (0 * 8) 0xff)"

definition get_be32 :: "u8 list \<Rightarrow> nat \<Rightarrow> u32" where
  "get_be32 d i = bswap32 (get_u32 d i)"

definition put_be32 :: "u8 list \<Rightarrow> nat \<Rightarrow> u32 \<Rightarrow> u8 list" where
  "put_be32 d i v = put_u32 d i (bswap32 v)"

section \<open>NUL terminated strings\<close>

text \<open>A C string is the list of its bytes before the NUL.\<close>

fun pstrcpy_loop :: "nat \<Rightarrow> u8 list \<Rightarrow> u8 list" where
  "pstrcpy_loop room [] = []"
| "pstrcpy_loop room (c # str) = (if room = 0 then [] else c # pstrcpy_loop (room - 1) str)"

text \<open>The result is the new content of \<open>buf\<close>; with \<open>buf_size <= 0\<close> nothing is written.\<close>

definition pstrcpy :: "u8 list \<Rightarrow> int \<Rightarrow> u8 list \<Rightarrow> u8 list" where
  "pstrcpy buf buf_size str =
     (if buf_size \<le> 0 then buf else pstrcpy_loop (nat (buf_size - 1)) str)"

definition pstrcat :: "u8 list \<Rightarrow> int \<Rightarrow> u8 list \<Rightarrow> u8 list" where
  "pstrcat buf buf_size s =
     (let len = int (length buf) in
      if len < buf_size then buf @ pstrcpy [] (buf_size - len) s else buf)"

text \<open>\<open>Some\<close> of the rest of the string stands for the result 1 with \<open>*ptr\<close> set.\<close>

fun strstart :: "u8 list \<Rightarrow> u8 list \<Rightarrow> u8 list option" where
  "strstart p [] = Some p"
| "strstart [] (q # qs) = None"
| "strstart (p # ps) (q # qs) = (if p \<noteq> q then None else strstart ps qs)"

definition has_suffix :: "u8 list \<Rightarrow> u8 list \<Rightarrow> bool" where
  "has_suffix str suffix =
     (let len = length str; slen = length suffix in
      len \<ge> slen \<and> drop (len - slen) str = suffix)"

definition from_hex :: "int \<Rightarrow> int" where
  "from_hex c = (if 48 \<le> c \<and> c \<le> 57 then c - 48
     else if 65 \<le> c \<and> c \<le> 70 then c - 65 + 10
     else if 97 \<le> c \<and> c \<le> 102 then c - 97 + 10
     else -1)"

section \<open>Properties of the bit scans\<close>

lemma takeWhile_rev_upt:
  fixes N :: nat and P :: "nat \<Rightarrow> bool"
  defines "k \<equiv> length (takeWhile (\<lambda>n. \<not> P n) (rev [0..<N]))"
  shows "k \<le> N" "N - k \<le> n \<Longrightarrow> n < N \<Longrightarrow> \<not> P n" "k < N \<Longrightarrow> P (N - 1 - k)"
proof -
  have le: "k \<le> N"
    using length_takeWhile_le [of "\<lambda>n. \<not> P n" "rev [0..<N]"] by (simp add: k_def)
  then show "k \<le> N" .
  show "P (N - 1 - k)" if "k < N"
    using that nth_length_takeWhile [of "\<lambda>n. \<not> P n" "rev [0..<N]"]
    by (simp add: k_def rev_nth)
  show "\<not> P n" if "N - k \<le> n" "n < N"
  proof -
    have "N - 1 - n < k" using that le by simp
    then have "takeWhile (\<lambda>n. \<not> P n) (rev [0..<N]) ! (N - 1 - n) = n"
      using that by (simp add: k_def takeWhile_nth rev_nth)
    with \<open>N - 1 - n < k\<close> have "n \<in> set (takeWhile (\<lambda>n. \<not> P n) (rev [0..<N]))"
      unfolding k_def by (metis nth_mem)
    then show ?thesis by (auto dest: set_takeWhileD)
  qed
qed

lemma clz32_le: "clz32 a \<le> 32"
  unfolding clz32_def by (rule takeWhile_rev_upt)

lemma clz64_le: "clz64 a \<le> 64"
  unfolding clz64_def by (rule takeWhile_rev_upt)

lemma clz32_bounds:
  assumes "a \<noteq> 0"
  shows "clz32 a < 32" "2 ^ (31 - clz32 a) \<le> unat a" "unat a < 2 ^ (32 - clz32 a)"
proof -
  note tw = takeWhile_rev_upt [where N = 32 and P = "bit a", folded clz32_def]
  show lt: "clz32 a < 32"
  proof (rule ccontr)
    assume "\<not> clz32 a < 32"
    then have "\<not> bit a n" if "n < 32" for n
      using tw(2) [of n] that by simp
    then have "a = 0"
      by (intro bit_word_eqI) simp
    with assms show False ..
  qed
  have "bit (unat a) (31 - clz32 a)"
    using tw(3) lt by (simp add: bit_unsigned_iff)
  then show "2 ^ (31 - clz32 a) \<le> unat a"
    by (metis bit_iff_odd div_less even_zero not_less)
  have "\<not> bit (unat a) n" if "32 - clz32 a \<le> n" for n
    using tw(2) [of n] that by (cases "n < 32") (auto simp: bit_unsigned_iff dest: bit_imp_le_length)
  then have "take_bit (32 - clz32 a) (unat a) = unat a"
    by (intro bit_eqI) (simp add: bit_take_bit_iff, meson leI)
  then show "unat a < 2 ^ (32 - clz32 a)"
    by (simp add: take_bit_nat_eq_self_iff)
qed

lemma clz64_bounds:
  assumes "a \<noteq> 0"
  shows "clz64 a < 64" "2 ^ (63 - clz64 a) \<le> unat a" "unat a < 2 ^ (64 - clz64 a)"
proof -
  note tw = takeWhile_rev_upt [where N = 64 and P = "bit a", folded clz64_def]
  show lt: "clz64 a < 64"
  proof (rule ccontr)
    assume "\<not> clz64 a < 64"
    then have "\<not> bit a n" if "n < 64" for n
      using tw(2) [of n] that by simp
    then have "a = 0"
      by (intro bit_word_eqI) simp
    with assms show False ..
  qed
  have "bit (unat a) (63 - clz64 a)"
    using tw(3) lt by (simp add: bit_unsigned_iff)
  then show "2 ^ (63 - clz64 a) \<le> unat a"
    by (metis bit_iff_odd div_less even_zero not_less)
  have "\<not> bit (unat a) n" if "64 - clz64 a \<le> n" for n
    using tw(2) [of n] that by (cases "n < 64") (auto simp: bit_unsigned_iff dest: bit_imp_le_length)
  then have "take_bit (64 - clz64 a) (unat a) = unat a"
    by (intro bit_eqI) (simp add: bit_take_bit_iff, meson leI)
  then show "unat a < 2 ^ (64 - clz64 a)"
    by (simp add: take_bit_nat_eq_self_iff)
qed

section \<open>Properties of the byte swaps\<close>

lemma bswap32_involutive [simp]: "bswap32 (bswap32 v) = v"
  by (rule u32_eqI) (simp_all add: bswap32_def bit_simps)

lemma get_put_u32 [simp]:
  "i + 3 < length tab \<Longrightarrow> get_u32 (put_u32 tab i v) i = v"
  by (rule u32_eqI) (simp_all add: get_u32_def put_u32_def bit_simps)

lemma get_put_be32 [simp]:
  "i + 3 < length tab \<Longrightarrow> get_be32 (put_be32 tab i v) i = v"
  by (simp add: get_be32_def put_be32_def)

lemma length_put [simp]:
  "length (put_u8 tab i v8) = length tab" "length (put_u16 tab i v16) = length tab"
  "length (put_u32 tab i v) = length tab" "length (put_be32 tab i v) = length tab"
  by (simp_all add: put_u8_def put_u16_def put_u32_def put_be32_def)

end
