(* ===== verification/JsValue.thy ===== *)
theory JsValue imports Cutils begin

text \<open>
  The tagged value word of the engine (\<open>native/mquickjs/mquickjs.h\<close>, the value macros and
  constructors of \<open>mquickjs.c\<close>) in the 64 bit configuration (\<open>JSW\<close> = 8, short floats on).
  The low bits of the word tell small integers, pointers, short floats and the special values
  apart; the lemmas show that the classes are disjoint, that the constructors land in their
  class and that the payload is read back.
\<close>

unbundle bit_operations_syntax

type_synonym JSValue = u64
type_synonym JSWord = u64

section \<open>Tags\<close>

definition JSW :: nat where "JSW = 8"

definition JS_TAG_INT :: u64 where "JS_TAG_INT = 0"
definition JS_TAG_PTR :: u64 where "JS_TAG_PTR = 1"
definition JS_TAG_SPECIAL :: u64 where "JS_TAG_SPECIAL = 3"
definition JS_TAG_BOOL :: u64 where "JS_TAG_BOOL = JS_TAG_SPECIAL OR push_bit 2 0"
definition JS_TAG_NULL :: u64 where "JS_TAG_NULL = JS_TAG_SPECIAL OR push_bit 2 1"
definition JS_TAG_UNDEFINED :: u64 where "JS_TAG_UNDEFINED = JS_TAG_SPECIAL OR push_bit 2 2"
definition JS_TAG_EXCEPTION :: u64 where "JS_TAG_EXCEPTION = JS_TAG_SPECIAL OR push_bit 2 3"
definition JS_TAG_SHORT_FUNC :: u64 where "JS_TAG_SHORT_FUNC = JS_TAG_SPECIAL OR push_bit 2 4"
definition JS_TAG_UNINITIALIZED :: u64 where "JS_TAG_UNINITIALIZED = JS_TAG_SPECIAL OR push_bit 2 5"
definition JS_TAG_STRING_CHAR :: u64 where "JS_TAG_STRING_CHAR = JS_TAG_SPECIAL OR push_bit 2 6"
definition JS_TAG_CATCH_OFFSET :: u64 where "JS_TAG_CATCH_OFFSET = JS_TAG_SPECIAL OR push_bit 2 7"
definition JS_TAG_SHORT_FLOAT :: u64 where "JS_TAG_SHORT_FLOAT = 5"

lemmas js_tags = JS_TAG_INT_def JS_TAG_PTR_def JS_TAG_SPECIAL_def JS_TAG_BOOL_def
  JS_TAG_NULL_def JS_TAG_UNDEFINED_def JS_TAG_EXCEPTION_def JS_TAG_SHORT_FUNC_def
  JS_TAG_UNINITIALIZED_def JS_TAG_STRING_CHAR_def JS_TAG_CATCH_OFFSET_def JS_TAG_SHORT_FLOAT_def

text \<open>
  \<open>(int)(v)\<close> keeps the low 32 bits; \<open>>>\<close> on \<open>int\<close> is arithmetic. \<open>JS_VALUE_MAKE_SPECIAL\<close> is
  applied to \<open>int\<close> payloads, so the shift happens at 32 bits and the result is sign extended.
\<close>

definition JS_VALUE_GET_INT :: "JSValue \<Rightarrow> s32" where
  "JS_VALUE_GET_INT v = signed_drop_bit 1 (ucast v)"

definition JS_VALUE_GET_SPECIAL_VALUE :: "JSValue \<Rightarrow> s32" where
  "JS_VALUE_GET_SPECIAL_VALUE v = signed_drop_bit 5 (ucast v)"

definition JS_VALUE_GET_SPECIAL_TAG :: "JSValue \<Rightarrow> u64" where
  "JS_VALUE_GET_SPECIAL_TAG v = v AND (push_bit 5 1 - 1)"

definition JS_VALUE_MAKE_SPECIAL :: "u64 \<Rightarrow> s32 \<Rightarrow> JSValue" where
  "JS_VALUE_MAKE_SPECIAL tag v = scast (ucast tag OR push_bit 5 v :: s32)"

definition JS_NULL :: JSValue where "JS_NULL = JS_VALUE_MAKE_SPECIAL JS_TAG_NULL 0"
definition JS_UNDEFINED :: JSValue where "JS_UNDEFINED = JS_VALUE_MAKE_SPECIAL JS_TAG_UNDEFINED 0"
definition JS_UNINITIALIZED :: JSValue where
  "JS_UNINITIALIZED = JS_VALUE_MAKE_SPECIAL JS_TAG_UNINITIALIZED 0"
definition JS_FALSE :: JSValue where "JS_FALSE = JS_VALUE_MAKE_SPECIAL JS_TAG_BOOL 0"
definition JS_TRUE :: JSValue where "JS_TRUE = JS_VALUE_MAKE_SPECIAL JS_TAG_BOOL 1"
definition JS_EX_NORMAL :: s32 where "JS_EX_NORMAL = 0"
definition JS_EX_CALL :: s32 where "JS_EX_CALL = 1"
definition JS_EXCEPTION :: JSValue where
  "JS_EXCEPTION = JS_VALUE_MAKE_SPECIAL JS_TAG_EXCEPTION JS_EX_NORMAL"

lemmas js_consts = JS_NULL_def JS_UNDEFINED_def JS_UNINITIALIZED_def JS_FALSE_def JS_TRUE_def
  JS_EX_NORMAL_def JS_EX_CALL_def JS_EXCEPTION_def

text \<open>\<open>JS_VALUE_FROM_PTR\<close> tags a block address, \<open>JS_VALUE_TO_PTR\<close> takes the tag off.\<close>

definition JS_VALUE_FROM_PTR :: "u64 \<Rightarrow> JSValue" where
  "JS_VALUE_FROM_PTR ptr = ptr + 1"

definition JS_VALUE_TO_PTR :: "JSValue \<Rightarrow> u64" where
  "JS_VALUE_TO_PTR v = v - 1"

section \<open>Tests and constructors that need no memory\<close>

definition JS_IsInt :: "JSValue \<Rightarrow> bool" where
  "JS_IsInt v \<longleftrightarrow> v AND 1 = JS_TAG_INT"

definition JS_IsPtr :: "JSValue \<Rightarrow> bool" where
  "JS_IsPtr v \<longleftrightarrow> v AND (of_nat JSW - 1) = JS_TAG_PTR"

definition JS_IsShortFloat :: "JSValue \<Rightarrow> bool" where
  "JS_IsShortFloat v \<longleftrightarrow> v AND (of_nat JSW - 1) = JS_TAG_SHORT_FLOAT"

definition JS_IsBool :: "JSValue \<Rightarrow> bool" where
  "JS_IsBool v \<longleftrightarrow> JS_VALUE_GET_SPECIAL_TAG v = JS_TAG_BOOL"

definition JS_IsNull :: "JSValue \<Rightarrow> bool" where
  "JS_IsNull v \<longleftrightarrow> v = JS_NULL"

definition JS_IsUndefined :: "JSValue \<Rightarrow> bool" where
  "JS_IsUndefined v \<longleftrightarrow> v = JS_UNDEFINED"

definition JS_IsUninitialized :: "JSValue \<Rightarrow> bool" where
  "JS_IsUninitialized v \<longleftrightarrow> v = JS_UNINITIALIZED"

definition JS_IsException :: "JSValue \<Rightarrow> bool" where
  "JS_IsException v \<longleftrightarrow> v = JS_EXCEPTION"

definition JS_NewBool :: "s32 \<Rightarrow> JSValue" where
  "JS_NewBool val = JS_VALUE_MAKE_SPECIAL JS_TAG_BOOL (if val \<noteq> 0 then 1 else 0)"

definition JS_NewShortInt :: "s32 \<Rightarrow> JSValue" where
  "JS_NewShortInt val = scast (ucast JS_TAG_INT + push_bit 1 val :: s32)"

definition JS_NewStringChar :: "u32 \<Rightarrow> JSValue" where
  "JS_NewStringChar c = ucast (ucast JS_TAG_STRING_CHAR OR push_bit 5 c :: u32)"

definition JS_NewTailCall :: "s32 \<Rightarrow> JSValue" where
  "JS_NewTailCall val = JS_VALUE_MAKE_SPECIAL JS_TAG_EXCEPTION (JS_EX_CALL + val)"

definition JS_IsExceptionOrTailCall :: "JSValue \<Rightarrow> bool" where
  "JS_IsExceptionOrTailCall v \<longleftrightarrow> JS_VALUE_GET_SPECIAL_TAG v = JS_TAG_EXCEPTION"

definition JS_IsIntOrShortFloat :: "JSValue \<Rightarrow> bool" where
  "JS_IsIntOrShortFloat v \<longleftrightarrow> JS_IsInt v \<or> JS_IsShortFloat v"

definition JS_VALUE_IS_BOTH_INT :: "JSValue \<Rightarrow> JSValue \<Rightarrow> bool" where
  "JS_VALUE_IS_BOTH_INT a b \<longleftrightarrow> (a OR b) AND 1 = 0"

definition JS_VALUE_IS_BOTH_SHORT_FLOAT :: "JSValue \<Rightarrow> JSValue \<Rightarrow> bool" where
  "JS_VALUE_IS_BOTH_SHORT_FLOAT a b \<longleftrightarrow>
     ((a - JS_TAG_SHORT_FLOAT) OR (b - JS_TAG_SHORT_FLOAT)) AND 7 = 0"

definition JS_SHORTINT_MIN :: int where "JS_SHORTINT_MIN = - (2 ^ 30)"
definition JS_SHORTINT_MAX :: int where "JS_SHORTINT_MAX = 2 ^ 30 - 1"

definition int64_is_short_int :: "s64 \<Rightarrow> bool" where
  "int64_is_short_int val \<longleftrightarrow> sint val \<ge> JS_SHORTINT_MIN \<and> sint val \<le> JS_SHORTINT_MAX"

section \<open>Properties of the encoding\<close>

lemma and_mask_unat: "v AND mask n = w \<longleftrightarrow> unat v mod 2 ^ n = unat w" for v w :: "'a::len word"
  by (metis unat_and_mask word_unat_eq_iff)

lemma JS_IsInt_iff: "JS_IsInt v \<longleftrightarrow> unat v mod 2 = 0"
  using and_mask_unat [of v 1 0] by (simp add: JS_IsInt_def JS_TAG_INT_def)

lemma JS_IsPtr_iff: "JS_IsPtr v \<longleftrightarrow> unat v mod 8 = 1"
  using and_mask_unat [of v 3 1] by (simp add: JS_IsPtr_def JS_TAG_PTR_def JSW_def mask_eq_exp_minus_1)

lemma JS_IsShortFloat_iff: "JS_IsShortFloat v \<longleftrightarrow> unat v mod 8 = 5"
  using and_mask_unat [of v 3 5]
  by (simp add: JS_IsShortFloat_def JS_TAG_SHORT_FLOAT_def JSW_def mask_eq_exp_minus_1)

lemma special_iff: "v AND 3 = JS_TAG_SPECIAL \<longleftrightarrow> unat v mod 4 = 3"
  using and_mask_unat [of v 2 3] by (simp add: JS_TAG_SPECIAL_def mask_eq_exp_minus_1)

text \<open>
  C37: the tag bits give every value exactly one class: integer, pointer, short float, or one of the
  special tags; no value is in two.
\<close>
theorem value_classes:
  "(JS_IsInt v \<longleftrightarrow> \<not> JS_IsPtr v \<and> \<not> JS_IsShortFloat v \<and> v AND 3 \<noteq> JS_TAG_SPECIAL) \<and>
   (JS_IsPtr v \<longleftrightarrow> \<not> JS_IsInt v \<and> \<not> JS_IsShortFloat v \<and> v AND 3 \<noteq> JS_TAG_SPECIAL) \<and>
   (JS_IsShortFloat v \<longleftrightarrow> \<not> JS_IsInt v \<and> \<not> JS_IsPtr v \<and> v AND 3 \<noteq> JS_TAG_SPECIAL)"
  unfolding JS_IsInt_iff JS_IsPtr_iff JS_IsShortFloat_iff special_iff by presburger

lemma short_int_value:
  assumes "JS_SHORTINT_MIN \<le> sint n" "sint n \<le> JS_SHORTINT_MAX"
  shows "JS_VALUE_GET_INT (JS_NewShortInt n) = n \<and> JS_IsInt (JS_NewShortInt n)"
proof -
  have s: "sint (push_bit 1 n) = 2 * sint n"
  proof -
    have "sint (push_bit 1 n) = sint (word_of_int (2 * sint n) :: s32)"
      by (simp add: push_bit_eq_mult mult.commute)
    also have "\<dots> = 2 * sint n"
      by (subst int_word_sint) (use assms in \<open>simp add: JS_SHORTINT_MIN_def JS_SHORTINT_MAX_def\<close>)
    finally show ?thesis .
  qed
  have u: "ucast (scast w :: u64) = w" for w :: s32
    by (rule u32_eqI) (simp_all add: bit_simps)
  have "sint (JS_VALUE_GET_INT (JS_NewShortInt n)) = sint n"
    by (simp add: JS_VALUE_GET_INT_def JS_NewShortInt_def JS_TAG_INT_def u
        sint_signed_drop_bit_eq s [unfolded push_bit_eq_mult, simplified] drop_bit_eq_div)
  then have 1: "JS_VALUE_GET_INT (JS_NewShortInt n) = n" by (rule signed_word_eqI)
  have "bit (scast w :: u64) 0 = bit w 0" for w :: s32
    by (simp add: bit_simps)
  then have "\<not> bit (JS_NewShortInt n) 0"
    by (simp add: JS_NewShortInt_def JS_TAG_INT_def bit_0)
  then have "JS_IsInt (JS_NewShortInt n)"
    by (simp add: JS_IsInt_def JS_TAG_INT_def and_one_eq even_iff_mod_2_eq_zero bit_0 flip: even_iff_mod_2_eq_zero)
  with 1 show ?thesis ..
qed

text \<open>
  An integer in the 31 bit range survives the encoding.
\<close>
theorem short_int_roundtrip:
  assumes "JS_SHORTINT_MIN \<le> sint n" "sint n \<le> JS_SHORTINT_MAX"
  shows "JS_VALUE_GET_INT (JS_NewShortInt n) = n \<and> JS_IsInt (JS_NewShortInt n)"
  by (rule short_int_value [OF assms])

theorem short_int_roundtrip_witness:
  "JS_VALUE_GET_INT (JS_NewShortInt (-5)) = -5"
  using short_int_roundtrip [of "-5"] by (simp add: JS_SHORTINT_MIN_def JS_SHORTINT_MAX_def)

text \<open>The test on two operands at once, which the interpreter's fast path uses.\<close>

lemma both_short_float:
  "JS_VALUE_IS_BOTH_SHORT_FLOAT a b \<longleftrightarrow> JS_IsShortFloat a \<and> JS_IsShortFloat b"
proof -
  have or: "(x OR y) AND 7 = 0 \<longleftrightarrow> x AND 7 = 0 \<and> y AND 7 = 0" for x y :: u64
    unfolding bit.conj_disj_distrib2 by (rule or_eq_0_iff)
  have one: "(x - 5) AND 7 = 0 \<longleftrightarrow> x AND 7 = 5" for x :: u64
  proof -
    have "(x - 5) AND mask 3 = 0 \<longleftrightarrow> x AND mask 3 = 5"
    proof -
      define a b where "a = unat x mod 8" and "b = unat (x - 5) mod 8"
      have "uint (x - 5) mod 8 = (uint x mod 8 - 5) mod 8"
        by (simp add: uint_word_ariths mod_mod_cancel mod_diff_left_eq)
      then have "int b = (int a - 5) mod 8"
        by (simp add: a_def b_def zmod_int)
      moreover have "a < 8" by (simp add: a_def)
      ultimately have "b = 0 \<longleftrightarrow> a = 5" by presburger
      then show ?thesis unfolding and_mask_unat a_def b_def by simp
    qed
    then show ?thesis by (simp add: mask_eq_exp_minus_1)
  qed
  show ?thesis
    by (simp add: JS_VALUE_IS_BOTH_SHORT_FLOAT_def JS_IsShortFloat_def JS_TAG_SHORT_FLOAT_def
        JSW_def or one)
qed

text \<open>A special value keeps its tag and its payload of up to 27 bits.\<close>

lemma special_payload:
  assumes "tag < 32" "- (2 ^ 26) \<le> sint v" "sint v < 2 ^ 26"
  shows "JS_VALUE_GET_SPECIAL_VALUE (JS_VALUE_MAKE_SPECIAL tag v) = v"
    and "JS_VALUE_GET_SPECIAL_TAG (JS_VALUE_MAKE_SPECIAL tag v) = tag"
proof -
  have tag: "\<not> bit tag n" if "5 \<le> n" for n
    using not_bit_of_less_exp [of tag 5 n] assms(1) that by simp
  have st: "signed_take_bit 26 (sint v) = sint v"
    using assms(2,3) by (simp add: signed_take_bit_int_eq_self)
  have hi: "bit v n = bit v 26" if "26 < n" "n < 32" for n
  proof -
    have *: "bit v m = bit (sint v) m" if "m < 32" for m
      using that by (simp add: bit_sint_iff)
    have "bit (sint v) n = bit (signed_take_bit 26 (sint v)) n" by (simp only: st)
    also have "\<dots> = bit (sint v) 26" using that(1) by (simp add: bit_signed_take_bit_iff min_def)
    finally show ?thesis using that by (simp add: *)
  qed
  have u: "ucast (scast w :: u64) = w" for w :: s32
    by (rule u32_eqI) (simp_all add: bit_simps)
  show "JS_VALUE_GET_SPECIAL_VALUE (JS_VALUE_MAKE_SPECIAL tag v) = v"
    unfolding JS_VALUE_GET_SPECIAL_VALUE_def JS_VALUE_MAKE_SPECIAL_def u
    by (rule u32_eqI) (simp_all add: bit_simps tag hi)
  show "JS_VALUE_GET_SPECIAL_TAG (JS_VALUE_MAKE_SPECIAL tag v) = tag"
    unfolding JS_VALUE_GET_SPECIAL_TAG_def JS_VALUE_MAKE_SPECIAL_def
  proof (rule bit_word_eqI)
    fix n
    have m: "push_bit 5 1 - 1 = (mask 5 :: u64)" by (simp add: mask_eq_exp_minus_1)
    show "bit ((scast (ucast tag OR push_bit 5 v :: s32) :: u64) AND (push_bit 5 1 - 1)) n = bit tag n"
    proof (cases "n < 5")
      case True
      then show ?thesis
        unfolding m by (simp add: bit_signed_iff bit_and_iff bit_or_iff bit_mask_iff bit_push_bit_iff bit_unsigned_iff)
    next
      case False
      then show ?thesis unfolding m using tag [of n] by (simp add: bit_and_iff bit_mask_iff)
    qed
  qed
qed

end
