(* ===== verification/Ref_Table.thy ===== *)
theory Ref_Table imports JsValue begin

text \<open>
  The ref table of the shim (\<open>native/shim/mquickjs_kmp.c\<close>, "ref table"): reference counted slots
  that keep JS objects alive for the host, handed out as 64 bit handles made of a slot index and
  a generation. The engine side is the list of \<open>JSGCRef\<close> roots (\<open>JS_AddGCRef\<close>,
  \<open>JS_DeleteGCRef\<close> in \<open>native/mquickjs/mquickjs.c\<close>); the root embedded in a slot is named by the
  slot's index. The result of \<open>malloc\<close> and friends is an argument, so every statement covers
  allocation failure; \<open>abort()\<close> is \<open>None\<close>.
\<close>

unbundle bit_operations_syntax

section \<open>State\<close>

record kmp_slot =
  gc_val :: JSValue
  refcount :: s32
  next_free :: int
  gen :: u32

text \<open>\<open>slot_count\<close> is the length of \<open>slots\<close>; \<open>last_gc_ref\<close> is the engine's root list, newest first.\<close>

record ref_table =
  slots :: "kmp_slot list"
  slot_cap :: s32
  free_head :: int
  last_gc_ref :: "nat list"

definition slot_count :: "ref_table \<Rightarrow> int" where
  "slot_count e = int (length (slots e))"

definition INT32_MAX :: int where "INT32_MAX = 2 ^ 31 - 1"

definition zero_slot :: kmp_slot where
  "zero_slot = \<lparr>gc_val = 0, refcount = 0, next_free = 0, gen = 0\<rparr>"

definition empty_table :: ref_table where
  "empty_table = \<lparr>slots = [], slot_cap = 0, free_head = -1, last_gc_ref = []\<rparr>"

section \<open>The engine's list of roots\<close>

definition JS_AddGCRef :: "ref_table \<Rightarrow> nat \<Rightarrow> ref_table" where
  "JS_AddGCRef e ref = e\<lparr>last_gc_ref := ref # last_gc_ref e,
     slots := (slots e)[ref := (slots e ! ref)\<lparr>gc_val := JS_UNDEFINED\<rparr>]\<rparr>"

text \<open>The search from the newest root; reaching the end of the list is \<open>abort()\<close>.\<close>

fun unlink_gc_ref :: "nat list \<Rightarrow> nat \<Rightarrow> nat list option" where
  "unlink_gc_ref [] ref = None"
| "unlink_gc_ref (ref1 # prev) ref =
     (if ref1 = ref then Some prev else map_option ((#) ref1) (unlink_gc_ref prev ref))"

definition JS_DeleteGCRef :: "ref_table \<Rightarrow> nat \<Rightarrow> ref_table option" where
  "JS_DeleteGCRef e ref =
     map_option (\<lambda>l. e\<lparr>last_gc_ref := l\<rparr>) (unlink_gc_ref (last_gc_ref e) ref)"

section \<open>Handles\<close>

definition slot_handle :: "int \<Rightarrow> u32 \<Rightarrow> s64" where
  "slot_handle idx g = push_bit 32 (ucast g) OR ucast (of_int (idx + 1) :: u32)"

definition slot_index :: "s64 \<Rightarrow> int" where
  "slot_index ref = sint ((ucast (ref AND 0xFFFFFFFF) :: s32) - 1)"

text \<open>The slot a handle denotes, as its index; \<open>None\<close> is the null pointer.\<close>

definition slot_get :: "ref_table \<Rightarrow> s64 \<Rightarrow> nat option" where
  "slot_get e ref =
     (let idx = slot_index ref; g = ucast (drop_bit 32 ref) :: u32 in
      if ref \<le>s 0 \<or> idx < 0 \<or> idx \<ge> slot_count e then None
      else let s = slots e ! nat idx in
        if 0 <s refcount s \<and> gen s = g then Some (nat idx) else None)"

section \<open>Operations\<close>

text \<open>
  Growing the slot pointer array and allocating a zeroed slot at its end, the code
  \<open>slot_new\<close> and \<open>slot_reserve\<close> share; \<open>None\<close> is the failure return, with the array possibly grown.
\<close>

definition slot_extend :: "bool \<Rightarrow> bool \<Rightarrow> ref_table \<Rightarrow> ref_table \<times> bool" where
  "slot_extend realloc_ok calloc_ok e =
     (if slot_count e = INT32_MAX then (e, False)
      else if slot_count e = sint (slot_cap e) \<and> \<not> realloc_ok then (e, False)
      else let e1 = (if slot_count e = sint (slot_cap e)
                     then e\<lparr>slot_cap := (if slot_cap e \<noteq> 0 then slot_cap e * 2 else 16)\<rparr> else e) in
        if \<not> calloc_ok then (e1, False)
        else (e1\<lparr>slots := slots e1 @ [zero_slot]\<rparr>, True))"

text \<open>The common end of \<open>slot_new\<close>: take slot \<open>idx\<close> into use for \<open>v\<close>.\<close>

definition slot_use :: "ref_table \<Rightarrow> nat \<Rightarrow> JSValue \<Rightarrow> ref_table \<times> s64" where
  "slot_use e idx v =
     (let e1 = e\<lparr>slots := (slots e)[idx := (slots e ! idx)\<lparr>refcount := 1, next_free := -1\<rparr>]\<rparr>;
          e2 = JS_AddGCRef e1 idx;
          e3 = e2\<lparr>slots := (slots e2)[idx := (slots e2 ! idx)\<lparr>gc_val := v\<rparr>]\<rparr> in
      (e3, slot_handle (int idx) (gen (slots e3 ! idx))))"

definition slot_new :: "bool \<Rightarrow> bool \<Rightarrow> ref_table \<Rightarrow> JSValue \<Rightarrow> ref_table \<times> s64" where
  "slot_new realloc_ok calloc_ok e v =
     (if free_head e \<ge> 0 then
        let idx = nat (free_head e) in
        slot_use (e\<lparr>free_head := next_free (slots e ! idx)\<rparr>) idx v
      else case slot_extend realloc_ok calloc_ok e of
        (e1, False) \<Rightarrow> (e1, 0)
      | (e1, True) \<Rightarrow> slot_use e1 (length (slots e1) - 1) v)"

text \<open>The C result is 0 on success and -1 on failure.\<close>

definition slot_reserve :: "bool \<Rightarrow> bool \<Rightarrow> ref_table \<Rightarrow> ref_table \<times> int" where
  "slot_reserve realloc_ok calloc_ok e =
     (if free_head e \<ge> 0 then (e, 0)
      else case slot_extend realloc_ok calloc_ok e of
        (e1, False) \<Rightarrow> (e1, -1)
      | (e1, True) \<Rightarrow>
          let idx = length (slots e1) - 1 in
          (e1\<lparr>slots := (slots e1)[idx := (slots e1 ! idx)\<lparr>next_free := -1\<rparr>],
              free_head := int idx\<rparr>, 0))"

definition slot_free :: "ref_table \<Rightarrow> s64 \<Rightarrow> ref_table option" where
  "slot_free e ref =
     (let idx = nat (slot_index ref) in
      map_option (\<lambda>e1.
        let s = slots e1 ! idx in
        e1\<lparr>slots := (slots e1)[idx := s\<lparr>gc_val := JS_UNDEFINED, refcount := 0, gen := gen s + 1,
                                        next_free := free_head e1\<rparr>],
           free_head := int idx\<rparr>)
        (JS_DeleteGCRef e idx))"

definition kmpjs_ref_retain :: "ref_table \<Rightarrow> s64 \<Rightarrow> ref_table" where
  "kmpjs_ref_retain e ref =
     (case slot_get e ref of
        None \<Rightarrow> e
      | Some i \<Rightarrow> e\<lparr>slots := (slots e)[i := (slots e ! i)\<lparr>refcount := refcount (slots e ! i) + 1\<rparr>]\<rparr>)"

definition kmpjs_ref_release :: "ref_table \<Rightarrow> s64 \<Rightarrow> ref_table option" where
  "kmpjs_ref_release e ref =
     (case slot_get e ref of
        None \<Rightarrow> Some e
      | Some i \<Rightarrow>
          let e1 = e\<lparr>slots := (slots e)[i := (slots e ! i)\<lparr>refcount := refcount (slots e ! i) - 1\<rparr>]\<rparr> in
          if refcount (slots e1 ! i) = 0 then slot_free e1 ref else Some e1)"

record kmpjs_stats =
  live_refs :: s32
  ref_slots :: int

definition kmpjs_get_stats :: "ref_table \<Rightarrow> kmpjs_stats" where
  "kmpjs_get_stats e =
     \<lparr>live_refs = foldl (\<lambda>live s. live + refcount s) 0 (slots e), ref_slots = slot_count e\<rparr>"

text \<open>
  The ref part of \<open>kmpjs_destroy\<close>: every live slot leaves the root list before the context is
  torn down.
\<close>

fun unlink_live :: "nat list \<Rightarrow> ref_table \<Rightarrow> ref_table option" where
  "unlink_live [] e = Some e"
| "unlink_live (i # is) e =
     (if 0 <s refcount (slots e ! i) then
        (case JS_DeleteGCRef e i of None \<Rightarrow> None | Some e1 \<Rightarrow> unlink_live is e1)
      else unlink_live is e)"

definition destroy_refs :: "ref_table \<Rightarrow> ref_table option" where
  "destroy_refs e = unlink_live [0..<length (slots e)] e"

section \<open>Handle arithmetic\<close>

lemma handle_low: "ucast (slot_handle i g AND 0xFFFFFFFF) = (of_int (i + 1) :: s32)"
  by (rule bit_word_eqI) (auto simp: slot_handle_def bit_simps nat_less_32_cases dest!: nat_less_32_cases)

lemma handle_gen [simp]: "ucast (drop_bit 32 (slot_handle i g)) = g"
  by (rule bit_word_eqI) (auto simp: slot_handle_def bit_simps dest: bit_imp_le_length)

lemma slot_index_handle [simp]:
  assumes "0 \<le> i" "i < INT32_MAX"
  shows "slot_index (slot_handle i g) = i"
proof -
  have "(of_int (i + 1) :: s32) - 1 = of_int i" by simp
  moreover have "sint (of_int i :: s32) = i"
    using assms by (simp add: INT32_MAX_def int_word_sint)
  ultimately show ?thesis
    by (simp only: slot_index_def handle_low)
qed

lemma sle_zero_iff: "x \<le>s 0 \<longleftrightarrow> x = 0 \<or> bit x 63" for x :: s64
proof -
  have "sint x < 0 \<longleftrightarrow> bit x 63"
    using bit_last_iff [of x] by simp
  moreover have "sint x = 0 \<longleftrightarrow> x = 0"
    using signed_word_eqI [of x 0, where 'a = int] by auto
  ultimately show ?thesis
    unfolding word_sle_eq by auto
qed

lemma bit63_pack: "bit (push_bit 32 (ucast g) OR ucast w :: s64) 63 \<longleftrightarrow> bit g 31" for g w :: u32
  by (auto simp: bit_simps dest: bit_imp_le_length)

lemma handle_sle_zero:
  assumes "0 \<le> i" "i < INT32_MAX"
  shows "slot_handle i g \<le>s 0 \<longleftrightarrow> bit g 31"
proof -
  have "slot_handle i g \<noteq> 0"
  proof
    assume "slot_handle i g = 0"
    then have "slot_index (slot_handle i g) = slot_index 0" by simp
    also have "slot_index 0 = -1" by (simp add: slot_index_def)
    finally show False using assms by simp
  qed
  moreover have "bit (slot_handle i g) 63 \<longleftrightarrow> bit g 31"
    unfolding slot_handle_def by (rule bit63_pack)
  ultimately show ?thesis by (simp add: sle_zero_iff)
qed

lemma pack_split: "ref = push_bit 32 (ucast (ucast (drop_bit 32 ref) :: u32)) OR ucast (ucast ref :: u32)" for ref :: s64
  by (rule bit_word_eqI) (auto simp: bit_simps not_less dest: bit_imp_le_length)

lemma handle_split:
  "ref = slot_handle (slot_index ref) (ucast (drop_bit 32 ref))"
proof -
  have "(ucast (ref AND 0xFFFFFFFF) :: u32) = ucast ref"
    by (rule u32_eqI) (simp_all add: bit_simps)
  then have "(of_int (slot_index ref + 1) :: u32) = ucast ref"
    by (simp add: slot_index_def)
  then show ?thesis
    unfolding slot_handle_def using pack_split [of ref] by simp
qed
section \<open>Which handles resolve\<close>

abbreviation live :: "kmp_slot \<Rightarrow> bool" where
  "live s \<equiv> 0 <s refcount s"

lemma slot_get_Some:
  assumes "slot_count e \<le> INT32_MAX"
  shows "slot_get e h = Some i \<longleftrightarrow>
    i < length (slots e) \<and> live (slots e ! i) \<and> \<not> bit (gen (slots e ! i)) 31 \<and>
    h = slot_handle (int i) (gen (slots e ! i))"
proof
  assume get: "slot_get e h = Some i"
  let ?x = "slot_index h"
  have *: "\<not> h \<le>s 0" "0 \<le> ?x" "?x < slot_count e" "live (slots e ! i)"
    "gen (slots e ! i) = ucast (drop_bit 32 h)" "i = nat ?x"
    using get by (auto simp: slot_get_def Let_def split: if_splits)
  have h: "h = slot_handle (int i) (gen (slots e ! i))"
  proof -
    have "int i = ?x" using * by simp
    moreover have "h = slot_handle ?x (gen (slots e ! i))"
      unfolding *(5) by (rule handle_split)
    ultimately show ?thesis by metis
  qed
  moreover have "\<not> bit (gen (slots e ! i)) 31"
  proof -
    have "int i < INT32_MAX" using * assms by simp
    then show ?thesis using handle_sle_zero [of "int i" "gen (slots e ! i)"] *(1)
      unfolding h [symmetric] by simp
  qed
  ultimately show "i < length (slots e) \<and> live (slots e ! i) \<and> \<not> bit (gen (slots e ! i)) 31 \<and>
    h = slot_handle (int i) (gen (slots e ! i))"
    using * by (simp add: slot_count_def)
next
  assume *: "i < length (slots e) \<and> live (slots e ! i) \<and> \<not> bit (gen (slots e ! i)) 31 \<and>
    h = slot_handle (int i) (gen (slots e ! i))"
  then have "int i < INT32_MAX" using assms by (simp add: slot_count_def)
  then show "slot_get e h = Some i"
    using * by (simp add: slot_get_def slot_count_def handle_sle_zero)
qed

text \<open>What the host sees: the object and the count behind each handle.\<close>

definition refs_of :: "ref_table \<Rightarrow> s64 \<Rightarrow> (JSValue \<times> nat) option" where
  "refs_of e h =
     map_option (\<lambda>i. (gc_val (slots e ! i), unat (refcount (slots e ! i)))) (slot_get e h)"

section \<open>The invariant of the table\<close>

text \<open>\<open>is\<close> is the free list that starts at slot index \<open>h\<close>.\<close>

fun free_path :: "kmp_slot list \<Rightarrow> int \<Rightarrow> nat list \<Rightarrow> bool" where
  "free_path ss h [] \<longleftrightarrow> h = -1"
| "free_path ss h (i # is) \<longleftrightarrow>
     h = int i \<and> i < length ss \<and> free_path ss (next_free (ss ! i)) is"

fun free_list :: "nat \<Rightarrow> kmp_slot list \<Rightarrow> int \<Rightarrow> nat list" where
  "free_list 0 ss h = []"
| "free_list (Suc n) ss h =
     (if h < 0 then [] else nat h # free_list n ss (next_free (ss ! nat h)))"

definition table_inv :: "ref_table \<Rightarrow> bool" where
  "table_inv e \<longleftrightarrow>
     (let fl = free_list (length (slots e)) (slots e) (free_head e) in
        free_path (slots e) (free_head e) fl \<and> distinct fl \<and>
        set fl = set (filter (\<lambda>i. refcount (slots e ! i) = 0) [0..<length (slots e)])) \<and>
     (\<forall>s \<in> set (slots e). 0 \<le>s refcount s) \<and>
     distinct (last_gc_ref e) \<and>
     set (last_gc_ref e) = set (filter (\<lambda>i. live (slots e ! i)) [0..<length (slots e)]) \<and>
     slot_count e \<le> INT32_MAX"

lemma free_list_of_path:
  "free_path ss h is \<Longrightarrow> length is \<le> n \<Longrightarrow> free_list n ss h = is"
proof (induction "is" arbitrary: n h)
  case Nil
  then show ?case by (cases n) auto
next
  case (Cons i "is")
  then show ?case by (cases n) auto
qed

lemma free_path_cong:
  "(\<And>i. i \<in> set is \<Longrightarrow> next_free (ss' ! i) = next_free (ss ! i)) \<Longrightarrow> length ss \<le> length ss' \<Longrightarrow>
   free_path ss h is \<Longrightarrow> free_path ss' h is"
  by (induction "is" arbitrary: h) auto

lemma length_free_list:
  assumes "distinct is" "set is = {i. i < length ss \<and> P i}"
  shows "length is \<le> length ss"
proof -
  have "length is = card (set is)" using assms(1) by (simp add: distinct_card)
  also have "\<dots> \<le> card {..<length ss}"
    using assms(2) by (intro card_mono) auto
  finally show ?thesis by simp
qed

text \<open>The invariant over any free path, the form the proofs use.\<close>

lemma table_invI:
  assumes "free_path (slots e) (free_head e) fl" "distinct fl"
    "set fl = {i. i < length (slots e) \<and> refcount (slots e ! i) = 0}"
    "\<And>i. i < length (slots e) \<Longrightarrow> 0 \<le>s refcount (slots e ! i)"
    "distinct (last_gc_ref e)"
    "set (last_gc_ref e) = {i. i < length (slots e) \<and> live (slots e ! i)}"
    "slot_count e \<le> INT32_MAX"
  shows "table_inv e"
proof -
  have "free_list (length (slots e)) (slots e) (free_head e) = fl"
    using free_list_of_path [OF assms(1)] length_free_list [OF assms(2,3)] by simp
  then show ?thesis
    using assms by (auto simp: table_inv_def Let_def in_set_conv_nth)
qed

lemma table_invE:
  assumes "table_inv e"
  obtains fl where "free_path (slots e) (free_head e) fl" "distinct fl"
    "set fl = {i. i < length (slots e) \<and> refcount (slots e ! i) = 0}"
    "\<And>i. i < length (slots e) \<Longrightarrow> 0 \<le>s refcount (slots e ! i)"
    "distinct (last_gc_ref e)"
    "set (last_gc_ref e) = {i. i < length (slots e) \<and> live (slots e ! i)}"
    "slot_count e \<le> INT32_MAX"
  using assms by (auto simp: table_inv_def Let_def)

lemma table_inv_empty: "table_inv empty_table"
  by (simp add: table_inv_def empty_table_def slot_count_def INT32_MAX_def Let_def)

lemma free_head_cases:
  assumes "table_inv e"
  obtains "free_head e = -1"
  | i fl where "free_head e = int i" "i < length (slots e)" "refcount (slots e ! i) = 0"
      "free_path (slots e) (next_free (slots e ! i)) fl" "distinct (i # fl)"
      "set (i # fl) = {i. i < length (slots e) \<and> refcount (slots e ! i) = 0}"
proof -
  from assms obtain fl where fl: "free_path (slots e) (free_head e) fl" "distinct fl"
    "set fl = {i. i < length (slots e) \<and> refcount (slots e ! i) = 0}"
    by (rule table_invE)
  show thesis
  proof (cases fl)
    case Nil
    then show thesis using fl that(1) by simp
  next
    case (Cons i fl')
    then have "i \<in> set fl" by simp
    then show thesis using fl Cons that(2) [of i fl'] by auto
  qed
qed

section \<open>Updates of one slot\<close>

lemma slot_get_cong: "slots e' = slots e \<Longrightarrow> slot_get e' h = slot_get e h"
  by (simp add: slot_get_def slot_count_def Let_def)

lemma refs_of_cong: "slots e' = slots e \<Longrightarrow> refs_of e' = refs_of e"
  by (rule ext) (simp add: refs_of_def slot_get_cong [of e' e])

lemma refs_of_Some:
  assumes "slot_count e \<le> INT32_MAX"
  shows "refs_of e h = Some (v, n) \<longleftrightarrow>
    (\<exists>i < length (slots e). live (slots e ! i) \<and> \<not> bit (gen (slots e ! i)) 31 \<and>
      h = slot_handle (int i) (gen (slots e ! i)) \<and>
      v = gc_val (slots e ! i) \<and> n = unat (refcount (slots e ! i)))"
  by (auto simp: refs_of_def slot_get_Some [OF assms])

text \<open>The content of slot \<open>i\<close> decides the handles of that index, and no others.\<close>

lemma refs_of_index:
  assumes "slot_count e \<le> INT32_MAX" "i < length (slots e)" "slot_index h = int i"
  shows "refs_of e h =
    (if live (slots e ! i) \<and> \<not> bit (gen (slots e ! i)) 31 \<and> h = slot_handle (int i) (gen (slots e ! i))
     then Some (gc_val (slots e ! i), unat (refcount (slots e ! i))) else None)"
proof (cases "refs_of e h")
  case None
  then have "slot_get e h \<noteq> Some i" by (simp add: refs_of_def)
  then show ?thesis using None assms slot_get_Some [OF assms(1), of h i] by auto
next
  case (Some p)
  obtain v n where p: "p = (v, n)" by (cases p)
  then obtain j where j: "j < length (slots e)" "live (slots e ! j)" "\<not> bit (gen (slots e ! j)) 31"
    "h = slot_handle (int j) (gen (slots e ! j))"
    "v = gc_val (slots e ! j)" "n = unat (refcount (slots e ! j))"
    using Some refs_of_Some [OF assms(1)] by auto
  then have "int j = slot_index h" using assms(1) by (simp add: slot_count_def)
  then have "j = i" using assms by simp
  then show ?thesis using j Some p by simp
qed

lemma refs_of_other:
  assumes "slot_count e \<le> INT32_MAX" "slot_count e' \<le> INT32_MAX"
    "slot_index h = int i \<Longrightarrow> i < length (slots e) \<longleftrightarrow> i < length (slots e')"
    "slot_index h = int i \<Longrightarrow> i < length (slots e) \<Longrightarrow> slots e' ! i = slots e ! i"
  shows "slot_index h = int i \<Longrightarrow> refs_of e' h = refs_of e h"
proof -
  assume h: "slot_index h = int i"
  show "refs_of e' h = refs_of e h"
  proof (cases "i < length (slots e)")
    case True
    then show ?thesis using assms h by (simp add: refs_of_index [of _ i])
  next
    case False
    then have "\<not> i < length (slots e')" using assms h by simp
    with False show ?thesis using h by (simp add: refs_of_def slot_get_def slot_count_def)
  qed
qed

lemma refs_of_update:
  assumes "slot_count e \<le> INT32_MAX" "i < length (slots e)"
    "slots e' = (slots e)[i := s]"
  shows "refs_of e' h =
    (if slot_index h = int i then
       (if live s \<and> \<not> bit (gen s) 31 \<and> h = slot_handle (int i) (gen s)
        then Some (gc_val s, unat (refcount s)) else None)
     else refs_of e h)"
proof (cases "slot_index h = int i")
  case True
  then show ?thesis
    using assms refs_of_index [of e' i h] by (simp add: slot_count_def)
next
  case False
  have "refs_of e' h = refs_of e h"
  proof (cases "slot_index h < 0")
    case True
    then show ?thesis by (simp add: refs_of_def slot_get_def)
  next
    case F: False
    then obtain j where j: "slot_index h = int j" by (metis nonneg_int_cases not_less)
    then show ?thesis
      using refs_of_other [of e e' h j] assms False by (simp add: slot_count_def)
  qed
  with False show ?thesis by simp
qed

lemma refs_of_None_negative: "slot_index h < 0 \<Longrightarrow> refs_of e h = None"
  by (simp add: refs_of_def slot_get_def)

lemma refs_of_append_dead:
  assumes "slot_count e' \<le> INT32_MAX" "slots e' = slots e @ [s]" "\<not> live s"
  shows "refs_of e' = refs_of e"
proof (rule ext)
  fix h
  have cnt: "slot_count e \<le> INT32_MAX" using assms by (simp add: slot_count_def)
  show "refs_of e' h = refs_of e h"
  proof (cases "slot_index h < 0")
    case True
    then show ?thesis by (simp add: refs_of_None_negative)
  next
    case False
    then obtain j where j: "slot_index h = int j" by (metis nonneg_int_cases not_less)
    show ?thesis
    proof (cases "j = length (slots e)")
      case True
      then have "refs_of e' h = None" using refs_of_index [of e' j h] assms j by simp
      moreover have "refs_of e h = None"
        using True j by (simp add: refs_of_def slot_get_def slot_count_def)
      ultimately show ?thesis by simp
    next
      case F: False
      then show ?thesis
        using refs_of_other [of e e' h j] assms j cnt by (auto simp: nth_append less_Suc_eq)
    qed
  qed
qed

lemma refs_of_slot:
  assumes "table_inv e" "refs_of e h = Some (v, n)"
  obtains i where "slot_get e h = Some i" "i < length (slots e)" "live (slots e ! i)"
    "h = slot_handle (int i) (gen (slots e ! i))" "slot_index h = int i"
    "\<not> bit (gen (slots e ! i)) 31"
    "v = gc_val (slots e ! i)" "n = unat (refcount (slots e ! i))"
proof -
  from assms obtain i where i: "slot_get e h = Some i" "v = gc_val (slots e ! i)"
    "n = unat (refcount (slots e ! i))"
    by (auto simp: refs_of_def)
  from assms(1) have cnt: "slot_count e \<le> INT32_MAX" by (rule table_invE)
  with i slot_get_Some [OF cnt, of h i] have *: "i < length (slots e)" "live (slots e ! i)"
    "\<not> bit (gen (slots e ! i)) 31" "h = slot_handle (int i) (gen (slots e ! i))" by auto
  then have "slot_index h = int i" using cnt by (simp add: slot_count_def)
  with i * show thesis by (intro that)
qed

section \<open>Signed counts\<close>

lemma bit_31_iff: "bit r 31 \<longleftrightarrow> 2 ^ 31 \<le> unat r" for r :: u32
proof -
  have lt: "unat r < 2 ^ 32" using unsigned_less [of r, where 'a = nat] by simp
  have "bit r 31 \<longleftrightarrow> bit (unat r) 31" by (simp add: bit_unsigned_iff)
  also have "\<dots> \<longleftrightarrow> odd (unat r div 2 ^ 31)" by (rule bit_iff_odd)
  also have "\<dots> \<longleftrightarrow> 2 ^ 31 \<le> unat r"
  proof (cases "unat r < 2 ^ 31")
    case False
    then have "unat r div 2 ^ 31 = 1" using lt by (intro div_nat_eqI) simp_all
    with False show ?thesis by simp
  qed simp
  finally show ?thesis .
qed

lemma s32_nonneg_iff: "0 \<le>s r \<longleftrightarrow> unat r < 2 ^ 31" for r :: s32
proof -
  have "0 \<le>s r \<longleftrightarrow> \<not> bit r 31"
    using bit_last_iff [of r] by (simp add: word_sle_eq not_less)
  then show ?thesis by (simp add: bit_31_iff not_le)
qed

lemma live_iff: "0 \<le>s refcount s \<Longrightarrow> live s \<longleftrightarrow> refcount s \<noteq> 0"
  by (auto simp: word_sless_alt word_sle_eq less_le signed_eq_0_iff)

lemma unat_plus_1: "unat r + 1 < 2 ^ 31 \<Longrightarrow> unat (r + 1) = unat r + 1" for r :: u32
  by (simp add: unat_word_ariths)

lemma unat_minus_1: "r \<noteq> 0 \<Longrightarrow> unat (r - 1) = unat r - 1" for r :: u32
  by (simp add: unat_minus_one)

section \<open>The operations keep the invariant\<close>

lemma table_inv_count: "table_inv e \<Longrightarrow> slot_count e \<le> INT32_MAX"
  by (rule table_invE)

text \<open>A change of the count of a live slot that leaves it live.\<close>

lemma table_inv_recount:
  assumes inv: "table_inv e" and i: "i < length (slots e)" "live (slots e ! i)" "0 <s r"
  shows "table_inv (e\<lparr>slots := (slots e)[i := (slots e ! i)\<lparr>refcount := r\<rparr>]\<rparr>)" (is "table_inv ?e")
proof -
  from inv obtain fl where fl: "free_path (slots e) (free_head e) fl" "distinct fl"
    "set fl = {i. i < length (slots e) \<and> refcount (slots e ! i) = 0}"
    "\<And>i. i < length (slots e) \<Longrightarrow> 0 \<le>s refcount (slots e ! i)"
    "distinct (last_gc_ref e)"
    "set (last_gc_ref e) = {i. i < length (slots e) \<and> live (slots e ! i)}"
    "slot_count e \<le> INT32_MAX"
    by (rule table_invE) blast
  have r: "r \<noteq> 0" "0 \<le>s r" using i(3) by (auto simp: word_sless_alt word_sle_eq)
  have n: "refcount (slots e ! i) \<noteq> 0" using i(2) by auto
  show ?thesis
  proof (rule table_invI [where fl = fl])
    show "free_path (slots ?e) (free_head ?e) fl"
      using free_path_cong [OF _ _ fl(1), of "slots ?e"] i(1) by (simp add: nth_list_update)
    show "distinct fl" by (rule fl(2))
    show "set fl = {j. j < length (slots ?e) \<and> refcount (slots ?e ! j) = 0}"
      unfolding fl(3) using r(1) n i(1) by (auto simp: nth_list_update)
    show "0 \<le>s refcount (slots ?e ! j)" if "j < length (slots ?e)" for j
      using that fl(4) r i(1) by (simp add: nth_list_update)
    show "distinct (last_gc_ref ?e)" using fl(5) by simp
    have "live (slots ?e ! j) \<longleftrightarrow> live (slots e ! j)" for j
      using i by (auto simp: nth_list_update)
    then show "set (last_gc_ref ?e) = {j. j < length (slots ?e) \<and> live (slots ?e ! j)}"
      using fl(6) by simp
    show "slot_count ?e \<le> INT32_MAX" using fl(7) by (simp add: slot_count_def)
  qed
qed

text \<open>Taking the head of the free list, or the slot just appended, into use.\<close>

lemma slot_use_slots:
  assumes "idx < length (slots e)"
  shows "slots (fst (slot_use e idx v)) =
    (slots e)[idx := (slots e ! idx)\<lparr>refcount := 1, next_free := -1, gc_val := v\<rparr>]"
  using assms by (simp add: slot_use_def Let_def JS_AddGCRef_def)

lemma slot_use_handle:
  assumes "idx < length (slots e)"
  shows "snd (slot_use e idx v) = slot_handle (int idx) (gen (slots e ! idx))"
  using assms by (simp add: slot_use_def Let_def JS_AddGCRef_def)

lemma slot_use_sel [simp]:
  "free_head (fst (slot_use e idx v)) = free_head e"
  "last_gc_ref (fst (slot_use e idx v)) = idx # last_gc_ref e"
  by (simp_all add: slot_use_def Let_def JS_AddGCRef_def)

lemma one_live: "(0 :: s32) <s 1"
  by (simp add: word_sless_alt)

lemma slot_use_inv:
  assumes "idx < length (slots e)" "refcount (slots e ! idx) = 0"
    "free_path (slots e) (free_head e) fl" "distinct (idx # fl)"
    "set (idx # fl) = {i. i < length (slots e) \<and> refcount (slots e ! i) = 0}"
    "\<And>i. i < length (slots e) \<Longrightarrow> 0 \<le>s refcount (slots e ! i)"
    "distinct (last_gc_ref e)"
    "set (last_gc_ref e) = {i. i < length (slots e) \<and> live (slots e ! i)}"
    "slot_count e \<le> INT32_MAX"
  shows "table_inv (fst (slot_use e idx v))" (is "table_inv ?e")
proof (rule table_invI [where fl = fl])
  have sl: "slots ?e = (slots e)[idx := (slots e ! idx)\<lparr>refcount := 1, next_free := -1, gc_val := v\<rparr>]"
    using assms(1) by (rule slot_use_slots)
  show "free_path (slots ?e) (free_head ?e) fl"
    unfolding sl slot_use_sel
  proof (rule free_path_cong [OF _ _ assms(3)])
    fix i assume "i \<in> set fl"
    then have "i \<noteq> idx" using assms(4) by auto
    then show "next_free ((slots e)[idx := (slots e ! idx)\<lparr>refcount := 1, next_free := -1, gc_val := v\<rparr>] ! i)
      = next_free (slots e ! i)" by simp
  qed simp
  show "distinct fl" using assms(4) by simp
  have "set fl = {i. i < length (slots e) \<and> refcount (slots e ! i) = 0} - {idx}"
    using assms(4,5) by auto
  then show "set fl = {i. i < length (slots ?e) \<and> refcount (slots ?e ! i) = 0}"
    unfolding sl using assms(1) by (auto simp: nth_list_update)
  show "0 \<le>s refcount (slots ?e ! i)" if "i < length (slots ?e)" for i
    using that assms(1,6) by (auto simp: sl nth_list_update word_sle_eq)
  show "distinct (last_gc_ref ?e)" using assms(2,7,8) by auto
  show "set (last_gc_ref ?e) = {i. i < length (slots ?e) \<and> live (slots ?e ! i)}"
    using assms(1,2,8) one_live by (auto simp: sl nth_list_update)
  show "slot_count ?e \<le> INT32_MAX" using assms(9) by (simp add: slot_count_def sl)
qed

lemma slot_extend_cases:
  assumes "slot_extend r c e = (e1, ok)"
  obtains "ok = False" "slots e1 = slots e" "free_head e1 = free_head e" "last_gc_ref e1 = last_gc_ref e"
  | "ok = True" "slots e1 = slots e @ [zero_slot]" "free_head e1 = free_head e"
      "last_gc_ref e1 = last_gc_ref e" "slot_count e \<noteq> INT32_MAX"
  using assms by (auto simp: slot_extend_def Let_def split: if_splits)

lemma table_inv_cong:
  "slots e1 = slots e \<Longrightarrow> free_head e1 = free_head e \<Longrightarrow> last_gc_ref e1 = last_gc_ref e \<Longrightarrow>
   table_inv e1 = table_inv e"
  by (simp add: table_inv_def slot_count_def Let_def)

lemma zero_slot_simps [simp]:
  "refcount zero_slot = 0" "gen zero_slot = 0" "next_free zero_slot = 0" "gc_val zero_slot = 0"
  by (simp_all add: zero_slot_def)

text \<open>An appended slot: free, but on no list yet.\<close>

lemma extended_facts:
  assumes "table_inv e" "slots e1 = slots e @ [zero_slot]" "free_head e1 = -1" "free_head e = -1"
    "last_gc_ref e1 = last_gc_ref e" "slot_count e \<noteq> INT32_MAX"
  shows "length (slots e) < length (slots e1)" "refcount (slots e1 ! length (slots e)) = 0"
    "{i. i < length (slots e1) \<and> refcount (slots e1 ! i) = 0} = {length (slots e)}"
    "\<And>i. i < length (slots e1) \<Longrightarrow> 0 \<le>s refcount (slots e1 ! i)"
    "distinct (last_gc_ref e1)"
    "set (last_gc_ref e1) = {i. i < length (slots e1) \<and> live (slots e1 ! i)}"
    "slot_count e1 \<le> INT32_MAX"
proof -
  from assms(1) obtain fl where fl: "free_path (slots e) (free_head e) fl"
    "set fl = {i. i < length (slots e) \<and> refcount (slots e ! i) = 0}"
    "\<And>i. i < length (slots e) \<Longrightarrow> 0 \<le>s refcount (slots e ! i)"
    "distinct (last_gc_ref e)"
    "set (last_gc_ref e) = {i. i < length (slots e) \<and> live (slots e ! i)}"
    "slot_count e \<le> INT32_MAX"
    by (rule table_invE) blast
  have "fl = []" using fl(1) assms(4) by (cases fl) auto
  with fl(2) have none: "\<And>i. i < length (slots e) \<Longrightarrow> refcount (slots e ! i) \<noteq> 0" by auto
  show "length (slots e) < length (slots e1)" "refcount (slots e1 ! length (slots e)) = 0"
    "distinct (last_gc_ref e1)"
    using assms fl by simp_all
  show "{i. i < length (slots e1) \<and> refcount (slots e1 ! i) = 0} = {length (slots e)}"
    unfolding assms(2) using none by (auto simp: nth_append less_Suc_eq)
  show "\<And>i. i < length (slots e1) \<Longrightarrow> 0 \<le>s refcount (slots e1 ! i)"
    unfolding assms(2) using fl(3) by (auto simp: nth_append less_Suc_eq)
  show "set (last_gc_ref e1) = {i. i < length (slots e1) \<and> live (slots e1 ! i)}"
    unfolding assms(5) fl(5) assms(2) by (auto simp: nth_append less_Suc_eq)
  show "slot_count e1 \<le> INT32_MAX"
    using fl(6) assms(6) by (simp add: slot_count_def assms)
qed

section \<open>What each operation does\<close>

lemma slot_new_cases:
  assumes inv: "table_inv e" and new: "slot_new r c e v = (e', h)"
  obtains
    "h = 0" "slots e' = slots e" "free_head e' = free_head e" "last_gc_ref e' = last_gc_ref e"
    "free_head e = -1"
  | i e1 where "e' = fst (slot_use e1 i v)" "h = slot_handle (int i) (gen (slots e1 ! i))"
      "i < length (slots e1)" "i < length (slots e)" "slots e1 = slots e"
      "refcount (slots e ! i) = 0" "table_inv e'"
  | e1 where "e' = fst (slot_use e1 (length (slots e)) v)" "h = slot_handle (slot_count e) 0"
      "slots e1 = slots e @ [zero_slot]" "table_inv e'"
proof (rule free_head_cases [OF inv])
  assume fh: "free_head e = -1"
  obtain e1 ok where ext: "slot_extend r c e = (e1, ok)" by (cases "slot_extend r c e")
  then show thesis
  proof (cases rule: slot_extend_cases)
    case 1
    then show ?thesis using new fh ext by (intro that(1)) (auto simp: slot_new_def)
  next
    case 2
    note ex = extended_facts [OF inv 2(2) _ fh 2(4,5)]
    have fh1: "free_head e1 = -1" using 2 fh by simp
    have "e' = fst (slot_use e1 (length (slots e)) v)" "h = snd (slot_use e1 (length (slots e)) v)"
      using new fh ext 2 by (simp_all add: slot_new_def)
    moreover have "table_inv (fst (slot_use e1 (length (slots e)) v))"
      by (rule slot_use_inv [where fl = "[]"]) (use ex [OF fh1] fh1 in simp_all)
    moreover have "snd (slot_use e1 (length (slots e)) v) = slot_handle (slot_count e) 0"
      using 2 by (simp add: slot_use_handle slot_count_def)
    ultimately show ?thesis using 2 by (intro that(3)) simp_all
  qed
next
  fix i fl
  assume fh: "free_head e = int i" "i < length (slots e)" "refcount (slots e ! i) = 0"
    "free_path (slots e) (next_free (slots e ! i)) fl" "distinct (i # fl)"
    "set (i # fl) = {i. i < length (slots e) \<and> refcount (slots e ! i) = 0}"
  let ?e = "e\<lparr>free_head := next_free (slots e ! i)\<rparr>"
  have eq: "e' = fst (slot_use ?e i v)" "h = snd (slot_use ?e i v)"
    using new fh(1) by (simp_all add: slot_new_def)
  have "table_inv (fst (slot_use ?e i v))"
    using inv by (intro slot_use_inv [where fl = fl]; (rule table_invE; use fh in \<open>simp add: slot_count_def\<close>)?)
  then show thesis using that(2) [of ?e i] eq fh by (simp add: slot_use_handle)
qed

end
