(* ===== verification/Handle_Store.thy ===== *)
theory Handle_Store imports Prelude begin

text \<open>
  The interface between the host and a table of counted handles: what \<open>lookup\<close> returns after each
  operation, when an operation may fail, and which handles have been given out so far. The
  invariant carries a budget, the number of operations the store still supports, because
  generations and counts are machine integers. The lemmas proved here hold for every provider;
  \<open>Ref_Table\<close> is the shim's.
\<close>

section \<open>The abstract store\<close>

type_synonym ('h, 'v) handle_map = "'h \<Rightarrow> ('v \<times> nat) option"

definition spec_retain :: "('h, 'v) handle_map \<Rightarrow> 'h \<Rightarrow> ('h, 'v) handle_map" where
  "spec_retain m h = (case m h of None \<Rightarrow> m | Some (v, n) \<Rightarrow> m(h \<mapsto> (v, n + 1)))"

definition spec_release :: "('h, 'v) handle_map \<Rightarrow> 'h \<Rightarrow> ('h, 'v) handle_map" where
  "spec_release m h =
     (case m h of None \<Rightarrow> m | Some (v, n) \<Rightarrow> if n = 1 then m(h := None) else m(h \<mapsto> (v, n - 1)))"

datatype ('env, 'v, 'h) store_op = Op_new 'env 'v | Op_retain 'h | Op_release 'h

text \<open>One operation of the abstract store, with the handle the provider answered.\<close>

fun spec_op :: "'h \<Rightarrow> ('env, 'v, 'h) store_op \<times> 'h \<Rightarrow> ('h, 'v) handle_map \<Rightarrow> ('h, 'v) handle_map" where
  "spec_op null (Op_new env v, r) m = (if r = null then m else m(r \<mapsto> (v, 1)))"
| "spec_op null (Op_retain h, r) m = spec_retain m h"
| "spec_op null (Op_release h, r) m = spec_release m h"

text \<open>A sequence of client operations on a provider, with the answers; \<open>None\<close> is an abort.\<close>

fun run_store ::
  "('env \<Rightarrow> 's \<Rightarrow> 'v \<Rightarrow> 's \<times> 'h) \<Rightarrow> ('s \<Rightarrow> 'h \<Rightarrow> 's) \<Rightarrow> ('s \<Rightarrow> 'h \<Rightarrow> 's option) \<Rightarrow>
   ('env, 'v, 'h) store_op list \<Rightarrow> 's \<Rightarrow> ('s \<times> 'h list) option" where
  "run_store alloc retain release [] s = Some (s, [])"
| "run_store alloc retain release (Op_new env v # ops) s =
     (case alloc env s v of (s1, h) \<Rightarrow>
        map_option (\<lambda>(s2, rs). (s2, h # rs)) (run_store alloc retain release ops s1))"
| "run_store alloc retain release (Op_retain h # ops) s =
     map_option (\<lambda>(s2, rs). (s2, h # rs)) (run_store alloc retain release ops (retain s h))"
| "run_store alloc retain release (Op_release h # ops) s =
     (case release s h of None \<Rightarrow> None
      | Some s1 \<Rightarrow> map_option (\<lambda>(s2, rs). (s2, h # rs)) (run_store alloc retain release ops s1))"

text \<open>The handles that successful allocations of a run answered, in order.\<close>

fun new_handles :: "'h \<Rightarrow> ('env, 'v, 'h) store_op list \<Rightarrow> 'h list \<Rightarrow> 'h list" where
  "new_handles null (Op_new env v # ops) (r # rs) =
     (if r = null then new_handles null ops rs else r # new_handles null ops rs)"
| "new_handles null (op # ops) (r # rs) = new_handles null ops rs"
| "new_handles null _ _ = []"

section \<open>The interface\<close>

locale handle_store =
  fixes inv :: "nat \<Rightarrow> 's \<Rightarrow> bool"
    and lookup :: "'s \<Rightarrow> 'h \<Rightarrow> ('v \<times> nat) option"
    and issued :: "'s \<Rightarrow> 'h \<Rightarrow> bool"
    and null :: 'h
    and alloc :: "'env \<Rightarrow> 's \<Rightarrow> 'v \<Rightarrow> 's \<times> 'h"
    and retain :: "'s \<Rightarrow> 'h \<Rightarrow> 's"
    and release :: "'s \<Rightarrow> 'h \<Rightarrow> 's option"
  assumes alloc_inv: "inv (Suc k) s \<Longrightarrow> alloc env s v = (s', h) \<Longrightarrow> inv k s'"
    and alloc_lookup: "inv (Suc k) s \<Longrightarrow> alloc env s v = (s', h) \<Longrightarrow>
      lookup s' = (if h = null then lookup s else (lookup s)(h \<mapsto> (v, 1)))"
    and alloc_fresh: "inv (Suc k) s \<Longrightarrow> alloc env s v = (s', h) \<Longrightarrow> h \<noteq> null \<Longrightarrow>
      \<not> issued s h \<and> issued s' h"
    and alloc_issued: "inv (Suc k) s \<Longrightarrow> alloc env s v = (s', h) \<Longrightarrow> issued s g \<Longrightarrow> issued s' g"
    and retain_inv: "inv (Suc k) s \<Longrightarrow> inv k (retain s h)"
    and retain_lookup: "inv (Suc k) s \<Longrightarrow> lookup (retain s h) = spec_retain (lookup s) h"
    and retain_issued: "inv (Suc k) s \<Longrightarrow> issued s g \<Longrightarrow> issued (retain s h) g"
    and release_step: "inv (Suc k) s \<Longrightarrow> \<exists>s'. release s h = Some s' \<and> inv k s' \<and>
      lookup s' = spec_release (lookup s) h \<and> (\<forall>g. issued s g \<longrightarrow> issued s' g)"
begin

abbreviation run :: "('env, 'v, 'h) store_op list \<Rightarrow> 's \<Rightarrow> ('s \<times> 'h list) option" where
  "run \<equiv> run_store alloc retain release"

text \<open>Every client trace within the budget runs to its end and computes the abstract store.\<close>

lemma run_refines:
  "inv (length ops + k) s \<Longrightarrow>
   \<exists>s' rs. run ops s = Some (s', rs) \<and> length rs = length ops \<and> inv k s' \<and>
     lookup s' = fold (spec_op null) (zip ops rs) (lookup s)"
proof (induction ops arbitrary: s)
  case (Cons op ops)
  have inv: "inv (Suc (length ops + k)) s" using Cons.prems by simp
  show ?case
  proof (cases op)
    case (Op_new env v)
    obtain s1 h where al: "alloc env s v = (s1, h)" by (cases "alloc env s v")
    note 1 = alloc_inv [OF inv al] alloc_lookup [OF inv al]
    from Cons.IH [OF 1(1)] show ?thesis by (auto simp: Op_new al 1(2))
  next
    case (Op_retain h)
    from Cons.IH [OF retain_inv [OF inv, of h]] show ?thesis
      by (auto simp: Op_retain retain_lookup [OF inv])
  next
    case (Op_release h)
    from release_step [OF inv, of h] obtain s1 where
      1: "release s h = Some s1" "inv (length ops + k) s1" "lookup s1 = spec_release (lookup s) h"
      by blast
    from Cons.IH [OF 1(2)] show ?thesis by (auto simp: Op_release 1)
  qed
qed simp

lemma run_issued:
  "inv (length ops + k) s \<Longrightarrow> run ops s = Some (s', rs) \<Longrightarrow> issued s g \<Longrightarrow>
   issued s' g \<and> g \<notin> set (new_handles null ops rs)"
proof (induction ops arbitrary: s rs)
  case (Cons op ops)
  have inv: "inv (Suc (length ops + k)) s" using Cons.prems by simp
  show ?case
  proof (cases op)
    case (Op_new env v)
    obtain s1 h where al: "alloc env s v = (s1, h)" by (cases "alloc env s v")
    with Cons.prems Op_new obtain rs1 where r: "run ops s1 = Some (s', rs1)" "rs = h # rs1" by auto
    note IH = Cons.IH [OF alloc_inv [OF inv al] r(1) alloc_issued [OF inv al Cons.prems(3)]]
    have "h \<noteq> null \<Longrightarrow> h \<noteq> g" using alloc_fresh [OF inv al] Cons.prems(3) by auto
    with IH show ?thesis by (auto simp: Op_new r)
  next
    case (Op_retain h)
    with Cons.prems obtain rs1 where r: "run ops (retain s h) = Some (s', rs1)" "rs = h # rs1" by auto
    from Cons.IH [OF retain_inv [OF inv] r(1) retain_issued [OF inv Cons.prems(3)]] show ?thesis
      by (simp add: Op_retain r)
  next
    case (Op_release h)
    from release_step [OF inv, of h] obtain s1 where
      1: "release s h = Some s1" "inv (length ops + k) s1" "\<forall>g. issued s g \<longrightarrow> issued s1 g"
      by blast
    with Cons.prems Op_release obtain rs1 where r: "run ops s1 = Some (s', rs1)" "rs = h # rs1" by auto
    from Cons.IH [OF 1(2) r(1)] 1(3) Cons.prems(3) show ?thesis by (simp add: Op_release r)
  qed
qed simp

text \<open>No handle is given out twice.\<close>

lemma run_distinct:
  "inv (length ops + k) s \<Longrightarrow> run ops s = Some (s', rs) \<Longrightarrow> distinct (new_handles null ops rs)"
proof (induction ops arbitrary: s rs)
  case (Cons op ops)
  have inv: "inv (Suc (length ops + k)) s" using Cons.prems by simp
  show ?case
  proof (cases op)
    case (Op_new env v)
    obtain s1 h where al: "alloc env s v = (s1, h)" by (cases "alloc env s v")
    with Cons.prems Op_new obtain rs1 where r: "run ops s1 = Some (s', rs1)" "rs = h # rs1" by auto
    note inv1 = alloc_inv [OF inv al]
    have "h \<noteq> null \<Longrightarrow> h \<notin> set (new_handles null ops rs1)"
      using run_issued [OF inv1 r(1)] alloc_fresh [OF inv al] by blast
    with Cons.IH [OF inv1 r(1)] show ?thesis by (simp add: Op_new r)
  next
    case (Op_retain h)
    with Cons.prems obtain rs1 where r: "run ops (retain s h) = Some (s', rs1)" "rs = h # rs1" by auto
    from Cons.IH [OF retain_inv [OF inv] r(1)] show ?thesis by (simp add: Op_retain r)
  next
    case (Op_release h)
    from release_step [OF inv, of h] obtain s1 where
      1: "release s h = Some s1" "inv (length ops + k) s1" by blast
    with Cons.prems Op_release obtain rs1 where r: "run ops s1 = Some (s', rs1)" "rs = h # rs1" by auto
    from Cons.IH [OF 1(2) r(1)] show ?thesis by (simp add: Op_release r)
  qed
qed simp

text \<open>A handle that was given out and has been dropped stays dead.\<close>

lemma spec_trace_dead:
  "length rs = length ops \<Longrightarrow> g \<notin> set (new_handles null ops rs) \<Longrightarrow> m g = None \<Longrightarrow>
   fold (spec_op null) (zip ops rs) m g = None"
proof (induction ops rs arbitrary: m rule: list_induct2')
  case (4 op ops r rs)
  have "spec_op null (op, r) m g = None"
    using 4 by (cases op) (auto simp: spec_retain_def spec_release_def split: if_splits option.splits)
  moreover have "g \<notin> set (new_handles null ops rs)"
    using 4 by (cases op) (auto split: if_splits)
  ultimately show ?case using 4 by simp
qed simp_all

lemma stale_stays_dead:
  assumes "inv (length ops + k) s" "run ops s = Some (s', rs)" "issued s g" "lookup s g = None"
  shows "lookup s' g = None"
  using run_refines [OF assms(1)] run_issued [OF assms(1-3)] assms(2,4) spec_trace_dead by fastforce

text \<open>A handle nobody touches keeps its object and its count.\<close>

lemma spec_trace_other:
  "length rs = length ops \<Longrightarrow> g \<notin> set (new_handles null ops rs) \<Longrightarrow>
   Op_retain g \<notin> set ops \<Longrightarrow> Op_release g \<notin> set ops \<Longrightarrow>
   fold (spec_op null) (zip ops rs) m g = m g"
proof (induction ops rs arbitrary: m rule: list_induct2')
  case (4 op ops r rs)
  have "spec_op null (op, r) m g = m g"
    using 4 by (cases op) (auto simp: spec_retain_def spec_release_def split: if_splits option.splits)
  moreover have "g \<notin> set (new_handles null ops rs)"
    using 4 by (cases op) (auto split: if_splits)
  ultimately show ?case using 4 by simp
qed simp_all

lemma untouched_kept:
  assumes "inv (length ops + k) s" "run ops s = Some (s', rs)" "issued s g"
    "Op_retain g \<notin> set ops" "Op_release g \<notin> set ops"
  shows "lookup s' g = lookup s g"
  using run_refines [OF assms(1)] run_issued [OF assms(1-3)] assms(2,4,5) spec_trace_other by fastforce

end

end
