(* ===== verification/Ref_Store.thy ===== *)
theory Ref_Store imports Ref_Table Handle_Store begin

text \<open>
  The shim's ref table as a provider of the interface \<open>handle_store\<close>: the budget of generations and
  counts, the handles issued so far, and the laws of \<open>slot_new\<close>, \<open>kmpjs_ref_retain\<close> and
  \<open>kmpjs_ref_release\<close> over the map \<open>refs_of\<close> the host sees.
\<close>

unbundle bit_operations_syntax

section \<open>The table as a handle store\<close>

text \<open>
  The budget: neither a generation nor a count reaches \<open>2 ^ 31\<close> within \<open>k\<close> more operations. A
  generation with bit 31 set would make the handle negative, which \<open>slot_get\<close> rejects.
\<close>

definition budget :: "nat \<Rightarrow> ref_table \<Rightarrow> bool" where
  "budget k e \<longleftrightarrow> k < 2 ^ 31 \<and>
     (\<forall>s \<in> set (slots e). unat (gen s) + k < 2 ^ 31 \<and> unat (refcount s) + k < 2 ^ 31)"

definition store_inv :: "nat \<Rightarrow> ref_table \<Rightarrow> bool" where
  "store_inv k e \<longleftrightarrow> table_inv e \<and> budget k e"

text \<open>The handles given out so far: of a slot's index, with a generation the slot has used.\<close>

definition issued :: "ref_table \<Rightarrow> s64 \<Rightarrow> bool" where
  "issued e h \<longleftrightarrow>
     (let idx = slot_index h in
      0 \<le> idx \<and> idx < slot_count e \<and>
      unat (ucast (drop_bit 32 h) :: u32) <
        unat (gen (slots e ! nat idx)) + (if live (slots e ! nat idx) then 1 else 0))"

lemma budgetD:
  "budget k e \<Longrightarrow> i < length (slots e) \<Longrightarrow>
   unat (gen (slots e ! i)) + k < 2 ^ 31 \<and> unat (refcount (slots e ! i)) + k < 2 ^ 31"
  by (simp add: budget_def)

lemma budget_update:
  assumes "budget (Suc k) e" "slots e' = (slots e)[i := s]"
    "unat (gen s) + k < 2 ^ 31" "unat (refcount s) + k < 2 ^ 31"
  shows "budget k e'"
  using assms unfolding budget_def by (auto simp: dest!: set_update_subset_insert [THEN subsetD])

lemma budget_same: "budget (Suc k) e \<Longrightarrow> slots e' = slots e \<Longrightarrow> budget k e'"
  by (auto simp: budget_def)

lemma budget_gen: "budget k e \<Longrightarrow> i < length (slots e) \<Longrightarrow> \<not> bit (gen (slots e ! i)) 31"
  using budgetD [of k e i] by (simp add: bit_31_iff)

text \<open>Within the budget a handle is live exactly when its slot holds its generation.\<close>

lemma refs_of_update_budget:
  assumes "slot_count e \<le> INT32_MAX" "i < length (slots e)" "slots e' = (slots e)[i := s]"
    "live s" "\<not> bit (gen s) 31" "gen s = gen (slots e ! i)"
    "live (slots e ! i) \<or> (\<forall>g. refs_of e (slot_handle (int i) g) = None)"
  shows "refs_of e' = (refs_of e)(slot_handle (int i) (gen s) \<mapsto> (gc_val s, unat (refcount s)))"
proof (rule ext)
  fix h
  have ii: "int i < INT32_MAX" using assms(1,2) by (simp add: slot_count_def)
  show "refs_of e' h = ((refs_of e)(slot_handle (int i) (gen s) \<mapsto> (gc_val s, unat (refcount s)))) h"
  proof (cases "slot_index h = int i")
    case True
    have "h \<noteq> slot_handle (int i) (gen s) \<Longrightarrow> refs_of e h = None"
      using refs_of_index [OF assms(1,2) True] assms(6) by simp
    then show ?thesis
      using refs_of_update [OF assms(1,2,3), of h] True assms(4,5) by auto
  next
    case False
    then have "h \<noteq> slot_handle (int i) (gen s)" using ii by auto
    then show ?thesis using refs_of_update [OF assms(1,2,3), of h] False by simp
  qed
qed

lemma issued_mono:
  assumes "length (slots e) \<le> length (slots e')"
    "\<And>i. i < length (slots e) \<Longrightarrow>
       unat (gen (slots e ! i)) + (if live (slots e ! i) then 1 else 0)
       \<le> unat (gen (slots e' ! i)) + (if live (slots e' ! i) then 1 else 0)"
  shows "issued e g \<Longrightarrow> issued e' g"
proof -
  assume iss: "issued e g"
  let ?i = "nat (slot_index g)"
  have "0 \<le> slot_index g" "?i < length (slots e)"
    "unat (ucast (drop_bit 32 g) :: u32) <
        unat (gen (slots e ! ?i)) + (if live (slots e ! ?i) then 1 else 0)"
    using iss by (auto simp: issued_def Let_def slot_count_def)
  with assms(1) assms(2) [of ?i] show "issued e' g"
    by (simp add: issued_def slot_count_def)
qed

lemma issued_update:
  assumes "i < length (slots e)" "slots e' = (slots e)[i := s]"
    "unat (gen (slots e ! i)) + (if live (slots e ! i) then 1 else 0)
       \<le> unat (gen s) + (if live s then 1 else 0)"
  shows "\<forall>g. issued e g \<longrightarrow> issued e' g"
proof (intro allI impI)
  fix g assume "issued e g"
  moreover have "unat (gen (slots e ! j)) + (if live (slots e ! j) then 1 else 0)
      \<le> unat (gen (slots e' ! j)) + (if live (slots e' ! j) then 1 else 0)" for j
    using assms by (cases "i = j") simp_all
  ultimately show "issued e' g"
    using issued_mono [of e e' g] assms(2) by simp
qed

lemma issued_handle:
  assumes "int i < INT32_MAX"
  shows "issued e (slot_handle (int i) g) \<longleftrightarrow>
    i < length (slots e) \<and> unat g < unat (gen (slots e ! i)) + (if live (slots e ! i) then 1 else 0)"
  using assms by (simp add: issued_def slot_count_def)

lemma issued_of_live:
  assumes "table_inv e" "refs_of e h = Some p"
  shows "issued e h"
proof -
  obtain v n where "p = (v, n)" by (cases p)
  with assms obtain i where i: "i < length (slots e)" "live (slots e ! i)"
    "h = slot_handle (int i) (gen (slots e ! i))" by (metis refs_of_slot)
  moreover have "int i < INT32_MAX"
    using i(1) table_inv_count [OF assms(1)] by (simp add: slot_count_def)
  ultimately show ?thesis by (simp add: issued_handle)
qed

lemma handle_not_zero:
  assumes "int i < INT32_MAX" shows "slot_handle (int i) g \<noteq> 0"
proof
  assume "slot_handle (int i) g = 0"
  moreover have "slot_index 0 = -1" by (simp add: slot_index_def)
  ultimately show False using slot_index_handle [of "int i" g] assms by simp
qed

section \<open>Allocation\<close>

lemma slot_new_store:
  assumes inv: "store_inv (Suc k) e" and new: "slot_new r c e v = (e', h)"
  shows "store_inv k e' \<and> refs_of e' = (if h = 0 then refs_of e else (refs_of e)(h \<mapsto> (v, 1))) \<and>
    (h \<noteq> 0 \<longrightarrow> \<not> issued e h \<and> issued e' h) \<and> (\<forall>g. issued e g \<longrightarrow> issued e' g)"
proof -
  from inv have ti: "table_inv e" and bu: "budget (Suc k) e" by (auto simp: store_inv_def)
  note cnt = table_inv_count [OF ti]
  from ti new show ?thesis
  proof (cases rule: slot_new_cases)
    case 1
    have "refs_of e' = refs_of e" by (rule refs_of_cong [OF 1(2)])
    moreover have "table_inv e'" using table_inv_cong [OF 1(2-4)] ti by simp
    ultimately show ?thesis
      using 1 budget_same [OF bu 1(2)] issued_mono [of e e'] by (auto simp: store_inv_def)
  next
    case (2 i e1)
    let ?s = "(slots e ! i)\<lparr>refcount := 1, next_free := -1, gc_val := v\<rparr>"
    have sl: "slots e' = (slots e)[i := ?s]" using slot_use_slots [OF 2(3)] 2 by simp
    have ii: "int i < INT32_MAX" using 2(4) cnt by (simp add: slot_count_def)
    have bud: "budget k e'"
      using budgetD [OF bu 2(4)] bu by (intro budget_update [OF bu sl]) (auto simp: budget_def)
    have h: "h = slot_handle (int i) (gen ?s)" using 2 by simp
    have "refs_of e' = (refs_of e)(slot_handle (int i) (gen ?s) \<mapsto> (gc_val ?s, unat (refcount ?s)))"
    proof (rule refs_of_update_budget [OF cnt 2(4) sl])
      show "\<not> bit (gen ?s) 31" using budget_gen [OF bu 2(4)] by simp
      show "live (slots e ! i) \<or> (\<forall>g. refs_of e (slot_handle (int i) g) = None)"
        using refs_of_index [OF cnt 2(4)] 2(6) ii by simp
    qed (simp_all add: one_live)
    then have "refs_of e' = (refs_of e)(h \<mapsto> (v, 1))" using h by simp
    moreover have "h \<noteq> 0" using handle_not_zero [OF ii] h by simp
    moreover have "\<not> issued e h \<and> issued e' h"
      using ii 2(4,6) one_live by (simp add: h sl issued_handle)
    moreover have "\<forall>g. issued e g \<longrightarrow> issued e' g"
      by (rule issued_update [OF 2(4) sl]) (use 2(6) one_live in simp)
    ultimately show ?thesis using 2(7) bud by (simp add: store_inv_def)
  next
    case (3 e1)
    let ?i = "length (slots e)"
    let ?s = "zero_slot\<lparr>refcount := 1, next_free := -1, gc_val := v\<rparr>"
    have l: "?i < length (slots e1)" using 3 by simp
    have sl: "slots e' = (slots e1)[?i := ?s]" using slot_use_slots [OF l] 3 by simp
    have sl': "slots e' = slots e @ [?s]" using sl 3(3) by simp
    have cnt': "slot_count e' \<le> INT32_MAX" by (rule table_inv_count [OF 3(4)])
    have cnt1: "slot_count e1 \<le> INT32_MAX" using cnt' by (simp add: slot_count_def sl)
    have ii: "int ?i < INT32_MAX" using cnt' by (simp add: slot_count_def sl')
    have bud: "budget k e'"
      using bu by (auto simp: budget_def sl')
    have h: "h = slot_handle (int ?i) 0" using 3 by (simp add: slot_count_def)
    have r1: "refs_of e1 = refs_of e"
      using refs_of_append_dead [OF cnt1 3(3)] by simp
    have "refs_of e' = (refs_of e1)(slot_handle (int ?i) (gen ?s) \<mapsto> (gc_val ?s, unat (refcount ?s)))"
    proof (rule refs_of_update_budget [OF cnt1 l sl])
      show "live (slots e1 ! ?i) \<or> (\<forall>g. refs_of e1 (slot_handle (int ?i) g) = None)"
        using refs_of_index [OF cnt1 l] 3(3) ii by simp
    qed (simp_all add: one_live 3(3))
    then have "refs_of e' = (refs_of e)(h \<mapsto> (v, 1))" using h r1 by simp
    moreover have "h \<noteq> 0" using handle_not_zero [OF ii] h by simp
    moreover have "\<not> issued e h \<and> issued e' h"
      using ii one_live by (simp add: h sl' issued_handle)
    moreover have "\<forall>g. issued e g \<longrightarrow> issued e' g"
      using issued_mono [of e e'] by (simp add: sl' nth_append)
    ultimately show ?thesis using 3(4) bud by (simp add: store_inv_def)
  qed
qed

subsection \<open>Retain and release\<close>

lemma refs_of_None_get: "refs_of e h = None \<longleftrightarrow> slot_get e h = None"
  by (simp add: refs_of_def)

lemma live_of_unat: "0 < unat r \<Longrightarrow> unat r < 2 ^ 31 \<Longrightarrow> 0 <s r" for r :: s32
  using s32_nonneg_iff [of r] signed.less_le [of 0 r] by auto

lemma retain_store:
  assumes inv: "store_inv (Suc k) e"
  shows "store_inv k (kmpjs_ref_retain e h) \<and>
    refs_of (kmpjs_ref_retain e h) = spec_retain (refs_of e) h \<and>
    (\<forall>g. issued e g \<longrightarrow> issued (kmpjs_ref_retain e h) g)"
proof -
  from inv have ti: "table_inv e" and bu: "budget (Suc k) e" by (auto simp: store_inv_def)
  note cnt = table_inv_count [OF ti]
  show ?thesis
  proof (cases "refs_of e h")
    case None
    then have "slot_get e h = None" by (simp add: refs_of_None_get)
    with None show ?thesis
      using ti budget_same [OF bu]
      by (simp add: kmpjs_ref_retain_def spec_retain_def store_inv_def)
  next
    case (Some p)
    obtain v n where p: "p = (v, n)" by (cases p)
    with Some ti obtain i where i: "slot_get e h = Some i" "i < length (slots e)" "live (slots e ! i)"
      "h = slot_handle (int i) (gen (slots e ! i))" "\<not> bit (gen (slots e ! i)) 31"
      "v = gc_val (slots e ! i)" "n = unat (refcount (slots e ! i))" by (metis refs_of_slot)
    let ?r = "refcount (slots e ! i) + 1"
    let ?s = "(slots e ! i)\<lparr>refcount := ?r\<rparr>"
    let ?e = "e\<lparr>slots := (slots e)[i := ?s]\<rparr>"
    have eq: "kmpjs_ref_retain e h = ?e" using i(1) by (simp add: kmpjs_ref_retain_def)
    have b: "unat (refcount (slots e ! i)) + Suc k < 2 ^ 31" "unat (gen (slots e ! i)) + Suc k < 2 ^ 31"
      using budgetD [OF bu i(2)] by auto
    then have u: "unat ?r = unat (refcount (slots e ! i)) + 1" by (intro unat_plus_1) simp
    then have lv: "0 <s ?r" using b by (intro live_of_unat) simp_all
    have "refs_of ?e = (refs_of e)(slot_handle (int i) (gen ?s) \<mapsto> (gc_val ?s, unat (refcount ?s)))"
      by (rule refs_of_update_budget [OF cnt i(2)]) (use i lv in simp_all)
    then have "refs_of ?e = spec_retain (refs_of e) h"
      using u i Some p by (simp add: spec_retain_def)
    moreover have "table_inv ?e" by (rule table_inv_recount [OF ti i(2,3) lv])
    moreover have "budget k ?e" by (rule budget_update [OF bu, of _ i ?s]) (use b u in simp_all)
    moreover have "\<forall>g. issued e g \<longrightarrow> issued ?e g"
      by (rule issued_update [OF i(2), of _ ?s]) (use i(3) lv in simp_all)
    ultimately show ?thesis unfolding eq by (simp add: store_inv_def)
  qed
qed

lemma unlink_gc_ref_in:
  "ref \<in> set l \<Longrightarrow> unlink_gc_ref l ref = Some (remove1 ref l)"
  by (induction l) auto

lemma unlink_gc_ref_out: "unlink_gc_ref l ref = None \<longleftrightarrow> ref \<notin> set l"
  by (induction l) auto

text \<open>Freeing slot \<open>i\<close>, whatever its count was set to before.\<close>

lemma slot_free_eq:
  assumes "table_inv e" "i < length (slots e)" "live (slots e ! i)" "slot_index h = int i"
  shows "slot_free (e\<lparr>slots := (slots e)[i := (slots e ! i)\<lparr>refcount := r\<rparr>]\<rparr>) h =
    Some (e\<lparr>slots := (slots e)[i := \<lparr>gc_val = JS_UNDEFINED, refcount = 0, next_free = free_head e,
                                    gen = gen (slots e ! i) + 1\<rparr>],
            last_gc_ref := remove1 i (last_gc_ref e), free_head := int i\<rparr>)"
proof -
  from assms(1) have gcs: "set (last_gc_ref e) = {i. i < length (slots e) \<and> live (slots e ! i)}"
    by (rule table_invE) blast
  have "i \<in> set (last_gc_ref e)"
    unfolding gcs using assms(2,3) by simp
  then show ?thesis
    using assms(2,4) by (cases "slots e ! i") (simp add: slot_free_def JS_DeleteGCRef_def unlink_gc_ref_in)
qed

lemma table_inv_free:
  assumes "table_inv e" "i < length (slots e)" "live (slots e ! i)"
    "slots e' = (slots e)[i := s]" "refcount s = 0" "next_free s = free_head e"
    "last_gc_ref e' = remove1 i (last_gc_ref e)" "free_head e' = int i"
  shows "table_inv e'"
proof -
  from assms(1) obtain fl where fl: "free_path (slots e) (free_head e) fl" "distinct fl"
    "set fl = {i. i < length (slots e) \<and> refcount (slots e ! i) = 0}"
    "\<And>i. i < length (slots e) \<Longrightarrow> 0 \<le>s refcount (slots e ! i)"
    "distinct (last_gc_ref e)"
    "set (last_gc_ref e) = {i. i < length (slots e) \<and> live (slots e ! i)}"
    "slot_count e \<le> INT32_MAX"
    by (rule table_invE) blast
  have n: "refcount (slots e ! i) \<noteq> 0" using assms(3) by auto
  then have i: "i \<notin> set fl" by (simp add: fl(3))
  show ?thesis
  proof (rule table_invI [where fl = "i # fl"])
    have "free_path (slots e') (free_head e) fl"
    proof (rule free_path_cong [OF _ _ fl(1)])
      fix j assume "j \<in> set fl"
      with i have "j \<noteq> i" by auto
      then show "next_free (slots e' ! j) = next_free (slots e ! j)" by (simp add: assms(4))
    qed (simp add: assms(4))
    then show "free_path (slots e') (free_head e') (i # fl)"
      using assms(2) by (simp add: assms(4,6,8))
    show "distinct (i # fl)" using fl(2) i by simp
    show "set (i # fl) = {j. j < length (slots e') \<and> refcount (slots e' ! j) = 0}"
      using assms(2,5) by (auto simp: fl(3) assms(4) nth_list_update)
    show "0 \<le>s refcount (slots e' ! j)" if "j < length (slots e')" for j
      using that fl(4) assms(2,5) by (simp add: assms(4) nth_list_update)
    show "distinct (last_gc_ref e')" using fl(5) by (simp add: assms(7))
    show "set (last_gc_ref e') = {j. j < length (slots e') \<and> live (slots e' ! j)}"
      using assms(2,5) by (auto simp: assms(4,7) set_remove1_eq [OF fl(5)] fl(6) nth_list_update)
    show "slot_count e' \<le> INT32_MAX" using fl(7) by (simp add: slot_count_def assms(4))
  qed
qed

section \<open>Release\<close>

lemma sless_zero_word: "0 <s (r :: s32) \<Longrightarrow> 0 < unat r \<and> unat r < 2 ^ 31"
  using s32_nonneg_iff [of r] signed.less_le [of 0 r] by (auto simp: unat_gt_0)

lemma release_store:
  assumes inv: "store_inv (Suc k) e"
  shows "\<exists>e'. kmpjs_ref_release e h = Some e' \<and> store_inv k e' \<and>
    refs_of e' = spec_release (refs_of e) h \<and> (\<forall>g. issued e g \<longrightarrow> issued e' g)"
proof -
  from inv have ti: "table_inv e" and bu: "budget (Suc k) e" by (auto simp: store_inv_def)
  note cnt = table_inv_count [OF ti]
  show ?thesis
  proof (cases "refs_of e h")
    case None
    then show ?thesis
      using ti budget_same [OF bu]
      by (simp add: kmpjs_ref_release_def refs_of_None_get [THEN iffD1, OF None] spec_release_def
          store_inv_def None)
  next
    case (Some p)
    obtain v n where p: "p = (v, n)" by (cases p)
    with Some ti obtain i where i: "slot_get e h = Some i" "i < length (slots e)" "live (slots e ! i)"
      "h = slot_handle (int i) (gen (slots e ! i))" "slot_index h = int i" "\<not> bit (gen (slots e ! i)) 31"
      "v = gc_val (slots e ! i)" "n = unat (refcount (slots e ! i))" by (metis refs_of_slot)
    let ?r = "refcount (slots e ! i) - 1"
    have b: "unat (refcount (slots e ! i)) + Suc k < 2 ^ 31" "unat (gen (slots e ! i)) + Suc k < 2 ^ 31"
      using budgetD [OF bu i(2)] by auto
    have r0: "refcount (slots e ! i) \<noteq> 0" using i(3) by auto
    then have u: "unat ?r = unat (refcount (slots e ! i)) - 1" by (rule unat_minus_1)
    show ?thesis
    proof (cases "?r = 0")
      case True
      then have n1: "n = 1" using u r0 i(8) by (simp add: unat_eq_zero)
      let ?s = "\<lparr>gc_val = JS_UNDEFINED, refcount = 0, next_free = free_head e,
                  gen = gen (slots e ! i) + 1\<rparr>"
      let ?e = "e\<lparr>slots := (slots e)[i := ?s],
            last_gc_ref := remove1 i (last_gc_ref e), free_head := int i\<rparr>"
      have eq: "kmpjs_ref_release e h = Some ?e"
        using i(1,2) True slot_free_eq [OF ti i(2,3,5), of ?r]
        by (simp add: kmpjs_ref_release_def Let_def)
      have g: "unat (gen ?s) = unat (gen (slots e ! i)) + 1"
        using b by (simp add: unat_plus_1)
      have "table_inv ?e"
        by (rule table_inv_free [OF ti i(2,3), of _ ?s]) simp_all
      moreover have "budget k ?e" by (rule budget_update [OF bu, of _ i ?s]) (use b g in simp_all)
      moreover have "refs_of ?e = spec_release (refs_of e) h"
      proof (rule ext)
        fix h'
        show "refs_of ?e h' = spec_release (refs_of e) h h'"
        proof (cases "slot_index h' = int i")
          case True
          then show ?thesis
            using refs_of_update [OF cnt i(2), of ?e ?s h'] refs_of_index [OF cnt i(2) True] Some p n1 i(4)
            by (simp add: spec_release_def)
        next
          case False
          then have "h' \<noteq> h" using i(5) by auto
          then show ?thesis
            using refs_of_update [OF cnt i(2), of ?e ?s h'] False Some p n1
            by (simp add: spec_release_def)
        qed
      qed
      moreover have "\<forall>g. issued e g \<longrightarrow> issued ?e g"
        by (rule issued_update [OF i(2), of _ ?s]) (use g in simp_all)
      ultimately show ?thesis using eq by (simp add: store_inv_def)
    next
      case False
      let ?s = "(slots e ! i)\<lparr>refcount := ?r\<rparr>"
      let ?e = "e\<lparr>slots := (slots e)[i := ?s]\<rparr>"
      have eq: "kmpjs_ref_release e h = Some ?e"
        using i(1,2) False by (simp add: kmpjs_ref_release_def Let_def)
      have up: "0 < unat ?r" using False by (simp add: unat_gt_0)
      then have lv: "0 <s ?r" by (rule live_of_unat) (use u b in simp)
      have n1: "n \<noteq> 1" using u i(8) up by simp
      have "refs_of ?e = (refs_of e)(slot_handle (int i) (gen ?s) \<mapsto> (gc_val ?s, unat (refcount ?s)))"
        by (rule refs_of_update_budget [OF cnt i(2)]) (use i lv in simp_all)
      then have "refs_of ?e = spec_release (refs_of e) h"
        using u i Some p n1 by (simp add: spec_release_def)
      moreover have "table_inv ?e" by (rule table_inv_recount [OF ti i(2,3) lv])
      moreover have "budget k ?e" by (rule budget_update [OF bu, of _ i ?s]) (use b u in simp_all)
      moreover have "\<forall>g. issued e g \<longrightarrow> issued ?e g"
        by (rule issued_update [OF i(2), of _ ?s]) (use i(3) lv in simp_all)
      ultimately show ?thesis unfolding eq by (simp add: store_inv_def)
    qed
  qed
qed

section \<open>The shim's table provides the interface\<close>

text \<open>The outcome of \<open>realloc\<close> and \<open>calloc\<close> is the environment of an allocation.\<close>

definition table_new :: "bool \<times> bool \<Rightarrow> ref_table \<Rightarrow> JSValue \<Rightarrow> ref_table \<times> s64" where
  "table_new env e v = slot_new (fst env) (snd env) e v"

interpretation rt: handle_store store_inv refs_of issued 0 table_new kmpjs_ref_retain kmpjs_ref_release
proof unfold_locales
  fix k s env v s' h g
  assume inv: "store_inv (Suc k) s"
  {
    assume "table_new env s v = (s', h)"
    note * = slot_new_store [OF inv this [unfolded table_new_def]]
    show "store_inv k s'" "refs_of s' = (if h = 0 then refs_of s else (refs_of s)(h \<mapsto> (v, 1)))"
      "h \<noteq> 0 \<Longrightarrow> \<not> issued s h \<and> issued s' h" "issued s g \<Longrightarrow> issued s' g"
      using * by simp_all
  }
  show "store_inv k (kmpjs_ref_retain s h)"
    "refs_of (kmpjs_ref_retain s h) = spec_retain (refs_of s) h"
    "issued s g \<Longrightarrow> issued (kmpjs_ref_retain s h) g"
    using retain_store [OF inv, of h] by simp_all
  show "\<exists>s'. kmpjs_ref_release s h = Some s' \<and> store_inv k s' \<and>
      refs_of s' = spec_release (refs_of s) h \<and> (\<forall>g. issued s g \<longrightarrow> issued s' g)"
    by (rule release_store [OF inv])
qed

lemma store_inv_empty: "k < 2 ^ 31 \<Longrightarrow> store_inv k empty_table"
  by (simp add: store_inv_def table_inv_empty budget_def) (simp add: empty_table_def)

section \<open>Properties\<close>

text \<open>
  C1: any sequence of \<open>slot_new\<close>, retain and release on a new engine's table, with any outcome of
  the allocations, of fewer than 2^31 operations, runs to its end without \<open>abort\<close> and behaves as
  a map from handles to counted objects; the free list and the root list stay consistent.
\<close>
theorem ref_table_refines_map:
  assumes "length ops < 2 ^ 31"
  shows "\<exists>e rs. run_store table_new kmpjs_ref_retain kmpjs_ref_release ops empty_table = Some (e, rs) \<and>
    table_inv e \<and> length rs = length ops \<and>
    refs_of e = fold (spec_op 0) (zip ops rs) (\<lambda>_. None)"
proof -
  have "refs_of empty_table = (\<lambda>_. None)"
    by (rule ext) (simp add: refs_of_def slot_get_def slot_count_def empty_table_def Let_def, linarith)
  with rt.run_refines [of ops 0 empty_table] store_inv_empty [OF assms] show ?thesis
    by (auto simp: store_inv_def)
qed

theorem ref_table_refines_map_witness:
  "\<exists>e rs. run_store table_new kmpjs_ref_retain kmpjs_ref_release
      [Op_new (True, True) 7, Op_retain 1, Op_release 1, Op_release 1, Op_new (False, False) 9]
      empty_table = Some (e, rs) \<and>
    table_inv e \<and> length rs = 5 \<and> refs_of e 0x100000001 = Some (9, 1)"
proof -
  let ?ops = "[Op_new (True, True) 7, Op_retain 1, Op_release 1, Op_release 1,
    Op_new (False, False) 9] :: (bool \<times> bool, JSValue, s64) store_op list"
  have "map_option snd (run_store table_new kmpjs_ref_retain kmpjs_ref_release ?ops empty_table) =
    Some [1, 1, 1, 1, 0x100000001]"
    by code_simp
  with ref_table_refines_map [of ?ops] show ?thesis
    by (auto simp: spec_retain_def spec_release_def)
qed

text \<open>
  C3: a table never gives the same handle out twice, and a handle whose object was dropped is
  rejected by every later lookup, whatever operations follow within the budget.
\<close>
theorem ref_handles_never_reused:
  assumes "store_inv (length ops) e"
    "run_store table_new kmpjs_ref_retain kmpjs_ref_release ops e = Some (e', rs)"
  shows "distinct (new_handles 0 ops rs) \<and>
    (\<forall>h. issued e h \<longrightarrow> h \<notin> set (new_handles 0 ops rs) \<and> (slot_get e h = None \<longrightarrow> slot_get e' h = None))"
proof -
  have inv: "store_inv (length ops + 0) e" using assms(1) by simp
  note * = rt.run_distinct [OF inv assms(2)] rt.run_issued [OF inv assms(2)]
    rt.stale_stays_dead [OF inv assms(2)]
  show ?thesis using * by (simp flip: refs_of_None_get)
qed

theorem ref_handles_never_reused_witness:
  "let ops = [Op_new (True, True) 7, Op_release 1, Op_new (True, True) 8, Op_retain 1] ::
         (bool \<times> bool, JSValue, s64) store_op list
   in \<exists>e rs. run_store table_new kmpjs_ref_retain kmpjs_ref_release ops empty_table = Some (e, rs) \<and>
        distinct (new_handles 0 ops rs)"
proof -
  let ?ops = "[Op_new (True, True) 7, Op_release 1, Op_new (True, True) 8, Op_retain 1] ::
    (bool \<times> bool, JSValue, s64) store_op list"
  let ?r = "run_store table_new kmpjs_ref_retain kmpjs_ref_release ?ops empty_table"
  have "?r \<noteq> None" by code_simp
  then obtain e rs where r: "?r = Some (e, rs)" by auto
  have "store_inv (length ?ops) empty_table" by (rule store_inv_empty) simp
  from ref_handles_never_reused [OF this r] r show ?thesis by (auto simp: Let_def)
qed

lemma slot_reserve_store:
  assumes inv: "store_inv k e" and res: "slot_reserve r c e = (e1, x)"
  shows "store_inv k e1 \<and> refs_of e1 = refs_of e \<and> (x = 0 \<longleftrightarrow> free_head e1 \<noteq> -1)"
proof -
  from inv have ti: "table_inv e" and bu: "budget k e" by (auto simp: store_inv_def)
  show ?thesis
  proof (rule free_head_cases [OF ti])
    fix i assume "free_head e = int i"
    then show ?thesis using res inv by (simp add: slot_reserve_def)
  next
    assume fh: "free_head e = -1"
    obtain e2 ok where ext: "slot_extend r c e = (e2, ok)" by (cases "slot_extend r c e")
    then show ?thesis
    proof (cases rule: slot_extend_cases)
      case 1
      then have "e1 = e2" "x = -1" using res fh ext by (simp_all add: slot_reserve_def)
      then show ?thesis
        using 1 fh ti bu table_inv_cong [OF 1(2-4)] refs_of_cong [OF 1(2)]
        by (simp add: store_inv_def budget_def)
    next
      case 2
      let ?i = "length (slots e)"
      note ex = extended_facts [OF ti 2(2) _ fh 2(4,5)]
      have fh2: "free_head e2 = -1" using 2 fh by simp
      have x: "x = 0" and e1: "e1 = e2\<lparr>slots := slots e @ [zero_slot\<lparr>next_free := -1\<rparr>], free_head := int ?i\<rparr>"
        using res fh ext 2 by (simp_all add: slot_reserve_def)
      have nth: "slots e1 ! j = (if j = ?i then zero_slot\<lparr>next_free := -1\<rparr> else slots e2 ! j)"
        if "j < Suc ?i" for j
        using that by (simp add: e1 2(2) nth_append)
      have live: "live (slots e1 ! j) \<longleftrightarrow> live (slots e2 ! j)"
        "refcount (slots e1 ! j) = refcount (slots e2 ! j)" if "j < Suc ?i" for j
        using that by (simp_all add: nth 2(2))
      have "table_inv e1"
      proof (rule table_invI [where fl = "[?i]"])
        show "free_path (slots e1) (free_head e1) [?i]" by (simp add: e1)
        have "{j. j < length (slots e1) \<and> refcount (slots e1 ! j) = 0} =
            {j. j < length (slots e2) \<and> refcount (slots e2 ! j) = 0}"
          using live(2) by (auto simp: e1 2(2))
        then show "set [?i] = {j. j < length (slots e1) \<and> refcount (slots e1 ! j) = 0}"
          using ex(3) [OF fh2] by simp
        show "0 \<le>s refcount (slots e1 ! j)" if "j < length (slots e1)" for j
          using that ex(4) [OF fh2, of j] live(2) by (simp add: e1 2(2))
        show "distinct (last_gc_ref e1)" using ex(5) [OF fh2] by (simp add: e1)
        have "{j. j < length (slots e1) \<and> live (slots e1 ! j)} =
            {j. j < length (slots e2) \<and> live (slots e2 ! j)}"
          using live(1) by (auto simp: e1 2(2))
        then show "set (last_gc_ref e1) = {j. j < length (slots e1) \<and> live (slots e1 ! j)}"
          using ex(6) [OF fh2] by (simp add: e1)
        show "slot_count e1 \<le> INT32_MAX" using ex(7) [OF fh2] by (simp add: e1 slot_count_def 2(2))
      qed simp
      moreover from this have "refs_of e1 = refs_of e"
        by (intro refs_of_append_dead [OF table_inv_count]) (simp_all add: e1, simp add: zero_slot_def)
      moreover have "budget k e1" using bu by (auto simp: budget_def e1)
      ultimately show ?thesis by (simp add: store_inv_def x e1)
    qed
  qed
qed

lemma slot_new_reserved:
  assumes inv: "table_inv e" and fh: "free_head e \<noteq> -1" and new: "slot_new r c e v = (e', h)"
  shows "h \<noteq> 0"
  using inv new
proof (cases rule: slot_new_cases)
  case (2 i e1)
  then show ?thesis using inv handle_not_zero [of i] table_inv_count [of e] by (simp add: slot_count_def)
next
  case (3 e1)
  then show ?thesis using handle_not_zero [of "length (slots e)" 0] table_inv_count [OF 3(4)]
    by (simp add: slot_count_def slot_use_slots)
qed (use fh in simp)

text \<open>
  C29: once \<open>slot_reserve\<close> has succeeded, \<open>slot_new\<close> cannot fail, even when every allocation does,
  and what the host sees has not changed in between.
\<close>
theorem slot_reserve_then_new:
  assumes "store_inv (Suc k) e" "slot_reserve r c e = (e1, 0)" "slot_new r' c' e1 v = (e2, h)"
  shows "h \<noteq> 0 \<and> refs_of e1 = refs_of e \<and> refs_of e2 = (refs_of e)(h \<mapsto> (v, 1)) \<and> table_inv e2"
proof -
  note e1 = slot_reserve_store [OF assms(1,2)]
  from e1 have inv1: "store_inv (Suc k) e1" by simp
  then have "table_inv e1" by (simp add: store_inv_def)
  moreover have "free_head e1 \<noteq> -1" using e1 by simp
  ultimately have "h \<noteq> 0" using assms(3) by (rule slot_new_reserved)
  with slot_new_store [OF inv1 assms(3)] e1 show ?thesis by (simp add: store_inv_def)
qed

theorem slot_reserve_then_new_witness:
  "snd (slot_new False False (fst (slot_reserve True True empty_table)) 7) \<noteq> 0"
proof -
  have r: "slot_reserve True True empty_table = (fst (slot_reserve True True empty_table), 0)"
    by (simp add: slot_reserve_def slot_extend_def empty_table_def slot_count_def INT32_MAX_def)
  show ?thesis
    using slot_reserve_then_new [OF store_inv_empty r, of 0 False False 7]
    by (cases "slot_new False False (fst (slot_reserve True True empty_table)) 7") simp
qed

text \<open>
  C33: the generation is a 32 bit counter, but a handle whose generation has bit 31 set is a
  negative \<open>int64_t\<close>, which \<open>slot_get\<close> takes for no handle: after 2^31 frees of one slot,
  \<open>slot_new\<close> on it answers a handle that never resolves, while the slot stays rooted and in use.
\<close>
theorem slot_new_dead_generation:
  assumes "table_inv e" "free_head e = int i" "bit (gen (slots e ! i)) 31"
    "slot_new r c e v = (e', h)"
  shows "h \<noteq> 0 \<and> slot_get e' h = None \<and> i \<in> set (last_gc_ref e') \<and> live (slots e' ! i)"
proof -
  from assms(1) have i: "i < length (slots e)"
    by (rule free_head_cases) (use assms(2) in simp_all)
  then have ii: "int i < INT32_MAX" using table_inv_count [OF assms(1)] by (simp add: slot_count_def)
  have e': "e' = fst (slot_use (e\<lparr>free_head := next_free (slots e ! i)\<rparr>) i v)"
    and h: "h = slot_handle (int i) (gen (slots e ! i))"
    using assms(2,4) i by (auto simp: slot_new_def slot_use_handle dest: arg_cong [of _ _ snd] arg_cong [of _ _ fst])
  have "h \<le>s 0" using handle_sle_zero [of "int i"] ii assms(3) h by simp
  then have "slot_get e' h = None" by (simp add: slot_get_def)
  then show ?thesis
    using handle_not_zero [OF ii] h i by (simp add: e' slot_use_slots one_live)
qed

theorem slot_new_dead_generation_witness:
  "let e = empty_table\<lparr>slots := [zero_slot\<lparr>next_free := -1, gen := 0x80000000\<rparr>], free_head := 0\<rparr>;
       (e', h) = slot_new True True e 7
   in h = 0x8000000000000001 \<and> slot_get e' h = None \<and> 0 \<in> set (last_gc_ref e')"
proof -
  define e where "e = empty_table\<lparr>slots := [zero_slot\<lparr>next_free := -1, gen := 0x80000000\<rparr>], free_head := 0\<rparr>"
  obtain e' h where n: "slot_new True True e 7 = (e', h)" by (cases "slot_new True True e 7")
  have "snd (slot_new True True e 7) = 0x8000000000000001" unfolding e_def by code_simp
  moreover have "table_inv e" unfolding e_def by code_simp
  moreover have "bit (gen (slots e ! 0)) 31" unfolding e_def by code_simp
  ultimately show ?thesis
    using slot_new_dead_generation [of e 0 True True 7 e' h] n by (simp add: e_def)
qed

section \<open>Statistics and teardown\<close>

lemma foldl_counts:
  "foldl (\<lambda>live s. live + refcount s) a ss = a + of_nat (sum_list (map (\<lambda>s. unat (refcount s)) ss))"
  by (induction ss arbitrary: a) (simp_all add: algebra_simps)

lemma dom_refs_of:
  assumes "store_inv k e"
  shows "dom (refs_of e) =
    (\<lambda>i. slot_handle (int i) (gen (slots e ! i))) ` {i. i < length (slots e) \<and> live (slots e ! i)}"
proof -
  from assms have ti: "table_inv e" and bu: "budget k e" by (auto simp: store_inv_def)
  show ?thesis
    using budget_gen [OF bu] refs_of_Some [OF table_inv_count [OF ti]] by (auto simp: dom_def image_def)
qed

lemma sum_counts:
  assumes "store_inv k e"
  shows "(\<Sum>h \<in> dom (refs_of e). snd (the (refs_of e h))) =
    sum_list (map (\<lambda>s. unat (refcount s)) (slots e))"
proof -
  from assms have ti: "table_inv e" and bu: "budget k e" by (auto simp: store_inv_def)
  note cnt = table_inv_count [OF ti]
  let ?L = "{i. i < length (slots e) \<and> live (slots e ! i)}"
  let ?h = "\<lambda>i. slot_handle (int i) (gen (slots e ! i))"
  have idx: "slot_index (?h i) = int i" if "i < length (slots e)" for i
    using that cnt by (simp add: slot_count_def)
  have inj: "inj_on ?h ?L"
    using idx by (intro inj_onI) (metis (mono_tags, lifting) mem_Collect_eq of_nat_eq_iff)
  have "(\<Sum>h \<in> dom (refs_of e). snd (the (refs_of e h))) = (\<Sum>i \<in> ?L. snd (the (refs_of e (?h i))))"
    unfolding dom_refs_of [OF assms] by (rule sum.reindex [OF inj, unfolded o_def])
  also have "\<dots> = (\<Sum>i \<in> ?L. unat (refcount (slots e ! i)))"
    using refs_of_index [OF cnt _ idx] budget_gen [OF bu] by (intro sum.cong) auto
  also have "\<dots> = (\<Sum>i < length (slots e). unat (refcount (slots e ! i)))"
  proof (rule sum.mono_neutral_left)
    have "0 \<le>s refcount (slots e ! i)" if "i < length (slots e)" for i
      using ti that by (metis table_invE)
    then show "\<forall>i\<in>{..<length (slots e)} - ?L. unat (refcount (slots e ! i)) = 0"
      using live_iff by auto
  qed auto
  also have "\<dots> = sum_list (map (\<lambda>s. unat (refcount s)) (slots e))"
    by (simp add: sum_list_sum_nth atLeast0LessThan)
  finally show ?thesis .
qed

text \<open>
  \<open>live_refs\<close> of \<open>kmpjs_get_stats\<close> is the number of references the host holds, summed over the
  handles that resolve, as long as that sum fits \<open>int32_t\<close>.
\<close>
theorem stats_count_references:
  assumes "store_inv k e" "(\<Sum>h \<in> dom (refs_of e). snd (the (refs_of e h))) < 2 ^ 31"
  shows "sint (live_refs (kmpjs_get_stats e)) = int (\<Sum>h \<in> dom (refs_of e). snd (the (refs_of e h)))"
proof -
  define n where "n = sum_list (map (\<lambda>s. unat (refcount s)) (slots e))"
  have "live_refs (kmpjs_get_stats e) = of_nat n"
    by (simp add: kmpjs_get_stats_def foldl_counts n_def)
  moreover have "sint (of_nat n :: s32) = int n"
    using assms(2) sum_counts [OF assms(1), folded n_def] int_word_sint [of "int n", where 'a = 32]
    by simp
  ultimately show ?thesis using sum_counts [OF assms(1), folded n_def] by simp
qed

theorem stats_count_references_witness:
  "sint (live_refs (kmpjs_get_stats empty_table)) = 0"
proof -
  have "refs_of empty_table = (\<lambda>_. None)"
    by (rule ext) (simp add: refs_of_def slot_get_def slot_count_def empty_table_def Let_def, linarith)
  then show ?thesis
    using stats_count_references [of 0 empty_table, OF store_inv_empty] by simp
qed

lemma unlink_live_eq:
  "distinct is \<Longrightarrow> distinct (last_gc_ref e) \<Longrightarrow>
   (\<And>i. i \<in> set is \<Longrightarrow> live (slots e ! i) \<Longrightarrow> i \<in> set (last_gc_ref e)) \<Longrightarrow>
   unlink_live is e =
     Some (e\<lparr>last_gc_ref := filter (\<lambda>i. \<not> (i \<in> set is \<and> live (slots e ! i))) (last_gc_ref e)\<rparr>)"
proof (induction "is" arbitrary: e)
  case (Cons i "is")
  show ?case
  proof (cases "live (slots e ! i)")
    case True
    let ?e = "e\<lparr>last_gc_ref := remove1 i (last_gc_ref e)\<rparr>"
    have d: "JS_DeleteGCRef e i = Some ?e"
      using Cons.prems(3) [of i] True by (simp add: JS_DeleteGCRef_def unlink_gc_ref_in)
    have "unlink_live is ?e =
       Some (?e\<lparr>last_gc_ref := filter (\<lambda>i. \<not> (i \<in> set is \<and> live (slots ?e ! i))) (last_gc_ref ?e)\<rparr>)"
    proof (rule Cons.IH)
      fix j assume "j \<in> set is" "live (slots ?e ! j)"
      moreover have "i \<noteq> j" using Cons.prems(1) \<open>j \<in> set is\<close> by auto
      ultimately show "j \<in> set (last_gc_ref ?e)" using Cons.prems(3) [of j] by simp
    qed (use Cons.prems in auto)
    moreover have "filter (\<lambda>j. \<not> (j \<in> set is \<and> live (slots e ! j))) (remove1 i (last_gc_ref e)) =
        filter (\<lambda>j. \<not> (j \<in> set (i # is) \<and> live (slots e ! j))) (last_gc_ref e)"
      using True by (simp add: distinct_remove1_removeAll [OF Cons.prems(2)] removeAll_filter_not_eq)
        (rule filter_cong, auto)
    ultimately show ?thesis using True d by simp
  next
    case False
    have "unlink_live is e =
       Some (e\<lparr>last_gc_ref := filter (\<lambda>i. \<not> (i \<in> set is \<and> live (slots e ! i))) (last_gc_ref e)\<rparr>)"
      by (rule Cons.IH) (use Cons.prems in auto)
    moreover have "filter (\<lambda>j. \<not> (j \<in> set is \<and> live (slots e ! j))) (last_gc_ref e) =
        filter (\<lambda>j. \<not> (j \<in> set (i # is) \<and> live (slots e ! j))) (last_gc_ref e)"
      using False by (intro filter_cong) auto
    ultimately show ?thesis using False by simp
  qed
qed simp

text \<open>
  The ref part of \<open>kmpjs_destroy\<close> never aborts and leaves no root behind, so the engine's
  finalizers run with an empty root list.
\<close>
theorem destroy_unroots_all:
  assumes "table_inv e"
  shows "\<exists>e'. destroy_refs e = Some e' \<and> last_gc_ref e' = [] \<and> slots e' = slots e"
proof -
  from assms have *: "distinct (last_gc_ref e)"
    "set (last_gc_ref e) = {i. i < length (slots e) \<and> live (slots e ! i)}"
    by (rule table_invE; simp)+
  then have "destroy_refs e =
     Some (e\<lparr>last_gc_ref := filter (\<lambda>i. \<not> (i \<in> set [0..<length (slots e)] \<and> live (slots e ! i)))
       (last_gc_ref e)\<rparr>)"
    unfolding destroy_refs_def by (intro unlink_live_eq) auto
  moreover have "filter (\<lambda>i. \<not> (i \<in> set [0..<length (slots e)] \<and> live (slots e ! i))) (last_gc_ref e) = []"
    using *(2) by (auto simp: filter_empty_conv)
  ultimately show ?thesis by simp
qed

theorem destroy_unroots_all_witness:
  "\<exists>e'. destroy_refs (fst (slot_new True True (fst (slot_new True True empty_table 7)) 9)) = Some e' \<and>
     last_gc_ref e' = []"
proof -
  have "table_inv (fst (slot_new True True (fst (slot_new True True empty_table 7)) 9))"
    by code_simp
  from destroy_unroots_all [OF this] show ?thesis by blast
qed

end
