(* ===== verification/Kmp_Buf.thy ===== *)
theory Kmp_Buf imports Cutils begin

text \<open>
  The growable byte buffer \<open>kmp_buf\<close> of \<open>native/shim/mquickjs_kmp.c\<close>. The block behind \<open>data\<close> is
  a list of its allocated size; a write outside it is \<open>None\<close>. Sizes are \<open>size_t\<close>, while \<open>len\<close> and
  \<open>cap\<close> are \<open>int32_t\<close>, with the conversions written out. The outcome of \<open>realloc\<close> is an argument:
  failure, or the content of the fresh bytes.
\<close>

unbundle bit_operations_syntax

section \<open>The buffer\<close>

record kmp_buf =
  bdata :: "u8 list option"
  blen :: s32
  bcap :: s32

type_synonym realloc_result = "(nat \<Rightarrow> u8) option"

definition empty_buf :: kmp_buf where
  "empty_buf = \<lparr>bdata = None, blen = 0, bcap = 0\<rparr>"

definition buf_reset :: "kmp_buf \<Rightarrow> kmp_buf" where
  "buf_reset b = b\<lparr>blen := 0\<rparr>"

definition buf_free :: "kmp_buf \<Rightarrow> kmp_buf" where
  "buf_free b = \<lparr>bdata = None, blen = 0, bcap = 0\<rparr>"

text \<open>The loop that doubles the capacity; \<open>size_t\<close> wraps, so it may also run for ever.\<close>

partial_function (option) grow_cap :: "u64 \<Rightarrow> u64 \<Rightarrow> u64 \<Rightarrow> u64 option" where
  "grow_cap cap len n = (if cap - len < n then grow_cap (cap * 2) len n else Some cap)"

definition realloc_block :: "u8 list option \<Rightarrow> (nat \<Rightarrow> u8) \<Rightarrow> nat \<Rightarrow> u8 list" where
  "realloc_block old fresh n =
     map (\<lambda>i. case old of Some d \<Rightarrow> if i < length d then d ! i else fresh i | None \<Rightarrow> fresh i) [0..<n]"

text \<open>\<open>memcpy (b->data + b->len, p, n)\<close>.\<close>

definition buf_store :: "kmp_buf \<Rightarrow> u8 list \<Rightarrow> (kmp_buf \<times> int) option" where
  "buf_store b p =
     (let d = (case bdata b of Some d \<Rightarrow> d | None \<Rightarrow> []); off = sint (blen b) in
      if off < 0 \<or> nat off + length p > length d then
        (if p = [] then Some (b, 0) else None)
      else Some (b\<lparr>bdata := (if bdata b = None then None else
                     Some (take (nat off) d @ p @ drop (nat off + length p) d)),
                   blen := blen b + of_nat (length p)\<rparr>, 0))"

definition buf_append :: "realloc_result \<Rightarrow> kmp_buf \<Rightarrow> u8 list \<Rightarrow> (kmp_buf \<times> int) option" where
  "buf_append re b p =
     (let n = of_nat (length p) :: u64; len = scast (blen b) :: u64 in
      if scast (bcap b) - len < n then
        (case grow_cap (if bcap b \<noteq> 0 then scast (bcap b) else 64) len n of
           None \<Rightarrow> None
         | Some cap \<Rightarrow>
             (case re of
                None \<Rightarrow> Some (b, -1)
              | Some fresh \<Rightarrow>
                  buf_store (b\<lparr>bdata := Some (realloc_block (bdata b) fresh (unat cap)),
                               bcap := ucast cap\<rparr>) p))
      else buf_store b p)"

text \<open>What \<open>publish\<close> hands out: the bytes, and their number.\<close>

definition publish :: "kmp_buf \<Rightarrow> u8 list \<times> int" where
  "publish b = (case bdata b of Some d \<Rightarrow> take (nat (sint (blen b))) d | None \<Rightarrow> [], sint (blen b))"

section \<open>Growth\<close>

lemma grow_cap_unfold: "grow_cap cap len n = (if cap - len < n then grow_cap (cap * 2) len n else Some cap)"
  by (rule grow_cap.simps)

text \<open>
  Starting from a positive capacity that holds \<open>len\<close>, the loop ends with the first doubling that has
  room for \<open>n\<close> more bytes, as long as the total stays below \<open>2 ^ 62\<close>.
\<close>

lemma grow_cap_terminates:
  "0 < unat cap \<Longrightarrow> unat len \<le> unat cap \<Longrightarrow> unat cap \<le> 2 ^ 62 \<Longrightarrow> unat len + unat n \<le> 2 ^ 62 \<Longrightarrow>
   \<exists>cap'. grow_cap cap len n = Some cap' \<and> unat len + unat n \<le> unat cap' \<and> unat cap \<le> unat cap' \<and>
     (unat cap' = unat cap \<or> unat cap' < 2 * (unat len + unat n)) \<and> (\<exists>k. unat cap' = unat cap * 2 ^ k)"
proof (induction "2 ^ 62 - unat cap" arbitrary: cap rule: less_induct)
  case less
  have sub: "unat (cap - len) = unat cap - unat len"
    using less.prems(2) by (simp add: unat_sub_if')
  show ?case
  proof (cases "cap - len < n")
    case True
    then have lt: "unat cap < unat len + unat n"
      using sub less.prems(2) by (simp add: word_less_nat_alt)
    have dbl: "unat (cap * 2) = unat cap * 2"
      using less.prems(3) by (simp add: unat_word_ariths)
    show ?thesis
    proof (cases "unat cap * 2 \<le> 2 ^ 62")
      case small: True
      have "2 ^ 62 - unat (cap * 2) < 2 ^ 62 - unat cap"
        unfolding dbl using less.prems(1) small by linarith
      note IH = less.hyps [OF this]
      have "\<exists>cap'. grow_cap (cap * 2) len n = Some cap' \<and> unat len + unat n \<le> unat cap' \<and>
          unat cap * 2 \<le> unat cap' \<and>
          (unat cap' = unat cap * 2 \<or> unat cap' < 2 * (unat len + unat n)) \<and>
          (\<exists>k. unat cap' = unat cap * 2 * 2 ^ k)"
        by (rule IH [unfolded dbl]) (use less.prems small in linarith)+
      then obtain cap' where
        *: "grow_cap (cap * 2) len n = Some cap'" "unat len + unat n \<le> unat cap'"
          "unat cap * 2 \<le> unat cap'"
          "unat cap' = unat cap * 2 \<or> unat cap' < 2 * (unat len + unat n)"
          "\<exists>k. unat cap' = unat cap * 2 * 2 ^ k"
        by blast
      from *(5) have "\<exists>k. unat cap' = unat cap * 2 ^ k"
        by (metis mult.assoc power_Suc)
      with * True lt show ?thesis by (subst grow_cap_unfold) (auto simp del: grow_cap.simps)
    next
      case False
      have e: "unat (cap * 2 - len) = unat cap * 2 - unat len"
        using less.prems(2) dbl by (simp add: unat_sub_if')
      have "\<not> cap * 2 - len < n"
        using e False less.prems by (simp add: word_less_nat_alt)
      then have "grow_cap (cap * 2) len n = Some (cap * 2)"
        by (subst grow_cap_unfold) simp
      moreover have "unat cap * 2 = unat cap * 2 ^ 1" by simp
      ultimately show ?thesis
        using True lt dbl False less.prems by (subst grow_cap_unfold) (auto intro: exI [of _ 1])
    qed
  next
    case False
    then have "unat len + unat n \<le> unat cap"
      using sub less.prems(2) by (simp add: word_less_nat_alt)
    moreover have "unat cap = unat cap * 2 ^ 0" by simp
    ultimately show ?thesis using False by (subst grow_cap_unfold) (auto intro: exI [of _ 0])
  qed
qed

section \<open>Appending\<close>

text \<open>A buffer whose fields describe its block.\<close>

definition buf_ok :: "kmp_buf \<Rightarrow> bool" where
  "buf_ok b \<longleftrightarrow> 0 \<le> sint (blen b) \<and> sint (blen b) \<le> sint (bcap b) \<and>
     (case bdata b of None \<Rightarrow> bcap b = 0 | Some d \<Rightarrow> 0 < sint (bcap b) \<and> length d = nat (sint (bcap b)))"

definition contents :: "kmp_buf \<Rightarrow> u8 list" where
  "contents b = fst (publish b)"

lemma nonneg_scast: "0 \<le> sint r \<Longrightarrow> unat (scast r :: u64) = nat (sint r)" for r :: s32
proof -
  assume nn: "0 \<le> sint r"
  have "uint (word_of_int k :: u64) = k" if "0 \<le> k" "k < 2 ^ 31" for k
    using that by (simp add: unsigned_of_int take_bit_int_eq_self)
  from this [OF nn] have "uint (word_of_int (sint r) :: u64) = sint r"
    using sint_less [of r] by simp
  then show ?thesis by (simp flip: nat_uint_eq)
qed

lemma sint_add_nat:
  fixes r :: s32
  assumes "0 \<le> sint r" "sint r + int n < 2 ^ 31"
  shows "sint (r + of_nat n) = sint r + int n"
proof -
  have "r + of_nat n = of_int (sint r + int n)" by simp
  then show ?thesis using assms int_word_sint [of "sint r + int n", where 'a = 32] by simp
qed

lemma length_realloc [simp]: "length (realloc_block old fresh n) = n"
  by (simp add: realloc_block_def)

lemma take_realloc:
  "k \<le> length d \<Longrightarrow> k \<le> n \<Longrightarrow> take k (realloc_block (Some d) fresh n) = take k d"
  by (rule nth_equalityI) (simp_all add: realloc_block_def)

lemma buf_store_ok:
  assumes "bdata b = Some d" "length d = nat (sint (bcap b))" "0 \<le> sint (blen b)"
    "nat (sint (blen b)) + length p \<le> length d"
  shows "\<exists>b'. buf_store b p = Some (b', 0) \<and> contents b' = take (nat (sint (blen b))) d @ p \<and>
    buf_ok b' \<and> bcap b' = bcap b \<or> d = []"
proof (cases "d = []")
  case False
  let ?o = "nat (sint (blen b))"
  let ?b = "b\<lparr>bdata := Some (take ?o d @ p @ drop (?o + length p) d), blen := blen b + of_nat (length p)\<rparr>"
  have eq: "buf_store b p = Some (?b, 0)"
    using assms by (simp add: buf_store_def Let_def)
  have lt: "sint (bcap b) < 2 ^ 31" using sint_less [of "bcap b"] by simp
  have pos: "0 < sint (bcap b)" using assms(2) False by (metis gr_zeroI length_0_conv less_or_eq_imp_le nat_le_0 not_less)
  have len: "sint (blen b + of_nat (length p)) = sint (blen b) + int (length p)"
    using assms lt pos by (intro sint_add_nat) linarith+
  have "contents ?b = take ?o d @ p"
    using assms(3,4) by (simp add: contents_def publish_def len nat_add_distrib)
  moreover have "buf_ok ?b"
    using assms pos by (simp add: buf_ok_def len)
  ultimately show ?thesis using eq by auto
qed simp

lemma buf_append_fits:
  assumes "buf_ok b" "length (contents b) + length p \<le> 2 ^ 30"
  shows "\<exists>b' rc. buf_append re b p = Some (b', rc) \<and> buf_ok b' \<and>
    (rc = 0 \<and> contents b' = contents b @ p \<or> rc = -1 \<and> b' = b \<and> re = None)"
proof -
  from assms(1) have nn: "0 \<le> sint (blen b)" "sint (blen b) \<le> sint (bcap b)"
    by (auto simp: buf_ok_def)
  have lt: "sint (bcap b) < 2 ^ 31" "sint (blen b) < 2 ^ 31"
    using sint_less [of "bcap b"] sint_less [of "blen b"] by simp_all
  have lc: "length (contents b) = nat (sint (blen b))"
    using assms(1) nn by (auto simp: contents_def publish_def buf_ok_def split: option.splits)
  let ?n = "of_nat (length p) :: u64" and ?len = "scast (blen b) :: u64"
  have un: "unat ?n = length p" using assms(2) by (simp add: unat_of_nat)
  have ul: "unat ?len = nat (sint (blen b))" by (rule nonneg_scast [OF nn(1)])
  have uc: "unat (scast (bcap b) :: u64) = nat (sint (bcap b))"
    using nn by (intro nonneg_scast) simp
  have sub: "unat (scast (bcap b) - ?len) = nat (sint (bcap b)) - nat (sint (blen b))"
    using nn ul uc by (simp add: unat_sub_if' nat_mono)
  show ?thesis
  proof (cases "scast (bcap b) - ?len < ?n")
    case grow: True
    let ?cap = "if bcap b \<noteq> 0 then scast (bcap b) else 64 :: u64"
    have cap0: "bcap b \<noteq> 0 \<Longrightarrow> 0 < sint (bcap b)"
      using nn by (metis order.trans less_le signed_eq_0_iff)
    have "\<exists>cap'. grow_cap ?cap ?len ?n = Some cap' \<and> unat ?len + unat ?n \<le> unat cap' \<and>
       unat ?cap \<le> unat cap' \<and>
       (unat cap' = unat ?cap \<or> unat cap' < 2 * (unat ?len + unat ?n)) \<and> (\<exists>k. unat cap' = unat ?cap * 2 ^ k)"
      by (rule grow_cap_terminates) (use nn lt cap0 ul un uc assms(2) lc in \<open>auto simp: nat_mono\<close>)
    then obtain cap' where cap': "grow_cap ?cap ?len ?n = Some cap'"
      "unat ?len + unat ?n \<le> unat cap'" "unat ?cap \<le> unat cap'"
      "unat cap' = unat ?cap \<or> unat cap' < 2 * (unat ?len + unat ?n)" by blast
    show ?thesis
    proof (cases re)
      case None
      then show ?thesis using grow cap'(1) assms(1) by (simp add: buf_append_def Let_def)
    next
      case (Some fresh)
      let ?b = "b\<lparr>bdata := Some (realloc_block (bdata b) fresh (unat cap')), bcap := ucast cap'\<rparr>"
      have small: "unat cap' < 2 ^ 31"
        using cap'(4) assms(2) lc ul un uc lt nn by (auto split: if_splits)
      have sc: "sint (ucast cap' :: s32) = int (unat cap')"
      proof -
        have "(ucast cap' :: s32) = of_nat (unat cap')" by simp
        then show ?thesis using sint_of_nat_small [OF small] by simp
      qed
      have eq: "buf_append re b p = buf_store ?b p"
        using grow cap'(1) Some by (simp add: buf_append_def Let_def)
      have "take (nat (sint (blen b))) (realloc_block (bdata b) fresh (unat cap')) = contents b"
        using assms(1) nn cap'(2) ul
        by (auto simp: contents_def publish_def buf_ok_def take_realloc split: option.splits)
      moreover have "\<exists>b'. buf_store ?b p = Some (b', 0) \<and>
          contents b' = take (nat (sint (blen ?b))) (realloc_block (bdata b) fresh (unat cap')) @ p \<and>
          buf_ok b' \<and> bcap b' = bcap ?b \<or> realloc_block (bdata b) fresh (unat cap') = []"
        by (rule buf_store_ok) (use nn cap' ul un sc in simp_all)
      moreover have "realloc_block (bdata b) fresh (unat cap') \<noteq> []"
        using cap'(3) cap0 uc by (auto simp flip: length_greater_0_conv split: if_splits)
      ultimately show ?thesis using eq by auto
    qed
  next
    case False
    then have eq: "buf_append re b p = buf_store b p" by (simp add: buf_append_def Let_def)
    have room: "nat (sint (blen b)) + length p \<le> nat (sint (bcap b))"
      using False sub un nn by (simp add: word_less_nat_alt not_less)
    show ?thesis
    proof (cases "bdata b")
      case None
      then have "bcap b = 0" using assms(1) by (simp add: buf_ok_def)
      with room nn None show ?thesis using assms(1) unfolding eq
        by (cases b) (auto simp: buf_ok_def buf_store_def contents_def publish_def)
    next
      case (Some d)
      then have d: "length d = nat (sint (bcap b))" "0 < sint (bcap b)"
        using assms(1) by (auto simp: buf_ok_def)
      have "contents b = take (nat (sint (blen b))) d" using Some by (simp add: contents_def publish_def)
      with buf_store_ok [OF Some d(1) nn(1), of p] room d show ?thesis
        unfolding eq by auto
    qed
  qed
qed

text \<open>
  C34: appending to a consistent buffer, with at most 2^30 bytes in total, either fails leaving it
  unchanged, or adds exactly the bytes and leaves it consistent; it never writes outside its block.
\<close>
theorem buf_append_appends:
  assumes "buf_ok b" "length (contents b) + length p \<le> 2 ^ 30"
  shows "\<exists>b' rc. buf_append re b p = Some (b', rc) \<and> buf_ok b' \<and>
    (rc = 0 \<and> contents b' = contents b @ p \<or> rc = -1 \<and> b' = b \<and> re = None)"
  by (rule buf_append_fits [OF assms])

theorem buf_append_appends_witness:
  "\<exists>b'. buf_append (Some (\<lambda>_. 0)) empty_buf [1, 2, 3] = Some (b', 0) \<and> contents b' = [1, 2, 3]"
  using buf_append_appends [of empty_buf "[1, 2, 3]" "Some (\<lambda>_. 0)"]
  by (auto simp: buf_ok_def empty_buf_def contents_def publish_def)

text \<open>
  C35: the growth past 2^30 bytes stores 2^31 in an \<open>int32_t\<close>: from then on the capacity reads as a
  huge \<open>size_t\<close>, the block is never grown again, and an append that does not fit writes beyond it.
\<close>
theorem buf_append_capacity_overflow:
  assumes "bdata b = Some d" "length d = 2 ^ 30" "sint (bcap b) = 2 ^ 30" "0 \<le> sint (blen b)"
    "sint (blen b) + int (length p) \<in> {2 ^ 30 <.. 2 ^ 31 - 1}" "sint (blen b) \<le> 2 ^ 30"
    "sint (blen b) + int (length p) + int (length q) > 2 ^ 31" "length q < 2 ^ 32"
  shows "\<exists>b'. buf_append (Some fresh) b p = Some (b', 0) \<and> sint (bcap b') = - (2 ^ 31) \<and>
    buf_append re b' q = None"
proof -
  let ?n = "of_nat (length p) :: u64" and ?len = "scast (blen b) :: u64"
  have un: "unat ?n = length p" using assms(4,5) by (simp add: unat_of_nat)
  have ul: "unat ?len = nat (sint (blen b))" by (rule nonneg_scast [OF assms(4)])
  have uc: "unat (scast (bcap b) :: u64) = 2 ^ 30" using assms(3) by (simp add: nonneg_scast)
  have c: "(scast (bcap b) :: u64) = 2 ^ 30"
    by (simp add: word_unat_eq_iff uc)
  have sub: "unat ((2 ^ 30 :: u64) - ?len) = 2 ^ 30 - nat (sint (blen b))"
    using assms(6) ul by (simp add: unat_sub_if' nat_le_iff)
  have sub2: "unat ((2 ^ 31 :: u64) - ?len) = 2 ^ 31 - nat (sint (blen b))"
    using assms(6) ul by (simp add: unat_sub_if' nat_le_iff)
  have g1: "(2 ^ 30 :: u64) - ?len < ?n"
    unfolding word_less_nat_alt sub un using assms(4-6) by (simp add: nat_less_iff) linarith
  have g2: "\<not> (2 ^ 31 :: u64) - ?len < ?n"
    unfolding word_less_nat_alt sub2 un using assms(4-6) by simp linarith
  have grow: "grow_cap (2 ^ 30) ?len ?n = Some (2 ^ 31)"
    using g1 g2 by (subst grow_cap_unfold, simp, subst grow_cap_unfold) simp
  let ?d = "realloc_block (Some d) fresh (2 ^ 31)"
  let ?b = "b\<lparr>bdata := Some ?d, bcap := 0x80000000\<rparr>"
  have b0: "bcap b \<noteq> 0" using assms(3) by auto
  have eq: "buf_append (Some fresh) b p = buf_store ?b p"
    using g1 grow b0 by (simp add: buf_append_def Let_def c assms(1))
  let ?o = "nat (sint (blen b))"
  let ?b' = "?b\<lparr>bdata := Some (take ?o ?d @ p @ drop (?o + length p) ?d), blen := blen b + of_nat (length p)\<rparr>"
  have st: "buf_store ?b p = Some (?b', 0)"
    using assms(4,5) by (simp add: buf_store_def Let_def) linarith
  have len: "sint (blen b + of_nat (length p)) = sint (blen b) + int (length p)"
    using assms(4,5) by (intro sint_add_nat) simp_all
  let ?len' = "scast (blen b + of_nat (length p)) :: u64"
  have ul': "unat ?len' = nat (sint (blen b) + int (length p))"
    using assms(4) len by (simp add: nonneg_scast)
  have "buf_append re ?b' q = buf_store ?b' q"
  proof -
    have "unat (scast (0x80000000 :: s32) - ?len') = 2 ^ 64 - 2 ^ 31 - nat (sint (blen b) + int (length p))"
      using ul' assms(4,5) by (simp add: unat_sub_if' nat_le_iff)
    then have "\<not> scast (0x80000000 :: s32) - ?len' < (of_nat (length q) :: u64)"
      using assms(4,5,8) by (simp add: word_less_nat_alt unat_of_nat) linarith
    then show ?thesis by (simp add: buf_append_def Let_def)
  qed
  moreover have "buf_store ?b' q = None"
    using assms(1,2,4,5,7) len by (auto simp: buf_store_def Let_def)
  ultimately show ?thesis using eq st by auto
qed

theorem buf_append_capacity_overflow_witness:
  "\<exists>b'. buf_append (Some (\<lambda>_. 0)) \<lparr>bdata = Some (replicate (2 ^ 30) 0), blen = 2 ^ 30, bcap = 2 ^ 30\<rparr> [1] = Some (b', 0) \<and>
    buf_append (Some (\<lambda>_. 0)) b' (replicate (2 ^ 30) 0) = None"
  using buf_append_capacity_overflow [of
      "\<lparr>bdata = Some (replicate (2 ^ 30) 0), blen = 2 ^ 30, bcap = 2 ^ 30\<rparr>" "replicate (2 ^ 30) 0" "[1]"
      "replicate (2 ^ 30) 0" "\<lambda>_. 0" "Some (\<lambda>_. 0)"]
  by auto

end
