(* ===== verification/Run_State.thy ===== *)
theory Run_State imports Prelude begin

text \<open>
  The run state of an engine (\<open>run_begin\<close>, \<open>run_end\<close>, \<open>kmpjs_interrupt\<close> and
  \<open>kmp_interrupt_handler\<close> in \<open>native/shim/mquickjs_kmp.c\<close>). Each is one atomic operation on the
  \<open>state\<close> field, so the engine thread and any number of interrupting threads interleave as the step
  relation \<open>run_step\<close> says. The engine thread's own stack of runs, with the \<open>outermost\<close> flag each
  holds in a local variable, is part of the state.
\<close>

section \<open>The atomic operations\<close>

datatype kmp_state = KMP_IDLE | KMP_RUNNING | KMP_INTERRUPTED

text \<open>\<open>atomic_compare_exchange_strong\<close>: the new value and whether the exchange took place.\<close>

definition compare_exchange :: "kmp_state \<Rightarrow> kmp_state \<Rightarrow> kmp_state \<Rightarrow> kmp_state \<times> bool" where
  "compare_exchange st expected desired = (if st = expected then (desired, True) else (st, False))"

definition run_begin :: "kmp_state \<Rightarrow> kmp_state \<times> bool" where
  "run_begin st = compare_exchange st KMP_IDLE KMP_RUNNING"

definition run_end :: "kmp_state \<Rightarrow> bool \<Rightarrow> kmp_state" where
  "run_end st outermost = (if outermost then KMP_IDLE else st)"

definition kmpjs_interrupt :: "kmp_state \<Rightarrow> kmp_state" where
  "kmpjs_interrupt st = fst (compare_exchange st KMP_RUNNING KMP_INTERRUPTED)"

definition kmp_interrupt_handler :: "kmp_state \<Rightarrow> bool" where
  "kmp_interrupt_handler st \<longleftrightarrow> st = KMP_INTERRUPTED"

section \<open>Interleavings\<close>

record run_conf =
  rstate :: kmp_state
  frames :: "bool list"

datatype run_event = Ev_begin | Ev_end | Ev_interrupt | Ev_poll bool

inductive run_step :: "run_conf \<Rightarrow> run_event \<Rightarrow> run_conf \<Rightarrow> bool" where
  step_begin: "run_begin (rstate c) = (st, outermost) \<Longrightarrow>
    run_step c Ev_begin \<lparr>rstate = st, frames = outermost # frames c\<rparr>"
| step_end: "frames c = outermost # fs \<Longrightarrow>
    run_step c Ev_end \<lparr>rstate = run_end (rstate c) outermost, frames = fs\<rparr>"
| step_interrupt: "run_step c Ev_interrupt (c\<lparr>rstate := kmpjs_interrupt (rstate c)\<rparr>)"
| step_poll: "frames c \<noteq> [] \<Longrightarrow> run_step c (Ev_poll (kmp_interrupt_handler (rstate c))) c"

inductive run_trace :: "run_conf \<Rightarrow> run_event list \<Rightarrow> run_conf \<Rightarrow> bool" where
  trace_nil: "run_trace c [] c"
| trace_cons: "run_step c ev c1 \<Longrightarrow> run_trace c1 evs c2 \<Longrightarrow> run_trace c (ev # evs) c2"

code_pred (modes: i \<Rightarrow> o \<Rightarrow> o \<Rightarrow> bool, i \<Rightarrow> i \<Rightarrow> o \<Rightarrow> bool) run_step .

inductive_cases run_stepE [elim!]:
  "run_step c Ev_begin c'" "run_step c Ev_end c'" "run_step c Ev_interrupt c'" "run_step c (Ev_poll b) c'"

inductive_simps run_trace_simps [simp]:
  "run_trace c [] c'" "run_trace c (ev # evs) c'"

definition run_initial :: run_conf where
  "run_initial = \<lparr>rstate = KMP_IDLE, frames = []\<rparr>"

section \<open>Invariant\<close>

text \<open>Only the bottom run is outermost, and the state is idle exactly when no run is active.\<close>

definition run_inv :: "run_conf \<Rightarrow> bool" where
  "run_inv c \<longleftrightarrow>
     (rstate c = KMP_IDLE \<longleftrightarrow> frames c = []) \<and>
     (frames c \<noteq> [] \<longrightarrow> last (frames c) \<and> (\<forall>f \<in> set (butlast (frames c)). \<not> f))"

lemmas run_defs = run_begin_def run_end_def kmpjs_interrupt_def kmp_interrupt_handler_def
  compare_exchange_def

lemma run_inv_step: "run_step c ev c' \<Longrightarrow> run_inv c \<Longrightarrow> run_inv c'"
proof (induction rule: run_step.induct)
  case (step_begin c st outermost)
  then show ?case
    by (cases "rstate c"; cases "frames c") (simp_all add: run_inv_def run_defs)
next
  case (step_end c outermost fs)
  then show ?case
    by (cases "rstate c"; cases fs) (simp_all add: run_inv_def run_defs)
next
  case (step_interrupt c)
  then show ?case
    by (cases "rstate c"; cases "frames c") (simp_all add: run_inv_def run_defs)
qed simp

lemma run_inv_trace: "run_trace c evs c' \<Longrightarrow> run_inv c \<Longrightarrow> run_inv c'"
  by (induction rule: run_trace.induct) (auto dest: run_inv_step)

lemma run_inv_initial: "run_inv run_initial"
  by (simp add: run_inv_def run_initial_def)

text \<open>
  C4: in every interleaving from a new engine, the state is idle exactly when no run is active, and
  of the active runs exactly the first started is the outermost one.
\<close>
theorem run_state_invariant:
  assumes "run_trace run_initial evs c"
  shows "(rstate c = KMP_IDLE \<longleftrightarrow> frames c = []) \<and>
    (frames c \<noteq> [] \<longrightarrow> frames c = replicate (length (frames c) - 1) False @ [True])"
proof -
  have inv: "run_inv c" by (rule run_inv_trace [OF assms run_inv_initial])
  have "fs = replicate (length fs - 1) False @ [True]"
    if "fs \<noteq> []" "last fs" "\<forall>f \<in> set (butlast fs). \<not> f" for fs
  proof -
    have "butlast fs = replicate (length fs - 1) False"
      using that(3) by (metis (full_types) length_butlast replicate_eqI)
    with that show ?thesis by (metis append_butlast_last_id)
  qed
  with inv show ?thesis unfolding run_inv_def by blast
qed

theorem run_state_invariant_witness:
  "frames \<lparr>rstate = KMP_RUNNING, frames = [True]\<rparr> = replicate 0 False @ [True]"
proof -
  have "run_trace run_initial [Ev_begin] \<lparr>rstate = KMP_RUNNING, frames = [True]\<rparr>"
    using step_begin [of run_initial KMP_RUNNING True] by (auto simp: run_initial_def run_defs)
  from run_state_invariant [OF this] show ?thesis by simp
qed

text \<open>An interrupt stays until the outermost run ends.\<close>

lemma interrupted_step:
  "run_step c ev c' \<Longrightarrow> run_inv c \<Longrightarrow> rstate c = KMP_INTERRUPTED \<Longrightarrow> frames c' \<noteq> [] \<Longrightarrow>
   rstate c' = KMP_INTERRUPTED"
  by (cases ev) (auto simp: run_inv_def run_defs split: if_splits)

fun stays_active :: "nat \<Rightarrow> run_event list \<Rightarrow> bool" where
  "stays_active n [] \<longleftrightarrow> 0 < n"
| "stays_active n (Ev_begin # evs) \<longleftrightarrow> 0 < n \<and> stays_active (n + 1) evs"
| "stays_active n (Ev_end # evs) \<longleftrightarrow> 0 < n \<and> stays_active (n - 1) evs"
| "stays_active n (ev # evs) \<longleftrightarrow> 0 < n \<and> stays_active n evs"

lemma interrupted_trace:
  "run_trace c evs c' \<Longrightarrow> run_inv c \<Longrightarrow> rstate c = KMP_INTERRUPTED \<Longrightarrow>
   stays_active (length (frames c)) evs \<Longrightarrow>
   rstate c' = KMP_INTERRUPTED \<and> (\<forall>b. Ev_poll b \<in> set evs \<longrightarrow> b)"
proof (induction rule: run_trace.induct)
  case (trace_cons c ev c1 evs c2)
  have act: "stays_active (length (frames c1)) evs"
    using trace_cons.hyps(1) trace_cons.prems(3) by (cases ev) (auto split: if_splits)
  then have "frames c1 \<noteq> []" by (cases evs rule: list.exhaust; cases "frames c1") (auto elim: stays_active.elims)
  then have "rstate c1 = KMP_INTERRUPTED"
    using interrupted_step [OF trace_cons.hyps(1)] trace_cons.prems by blast
  moreover have "\<forall>b. ev = Ev_poll b \<longrightarrow> b"
    using trace_cons.hyps(1) trace_cons.prems(2) by (auto simp: kmp_interrupt_handler_def)
  ultimately show ?case
    using trace_cons.IH act run_inv_step [OF trace_cons.hyps(1) trace_cons.prems(1)] by auto
qed simp

text \<open>
  C5: an interrupt that arrives while any run is active, however deeply nested, is seen by every
  later poll until the outermost run ends; nested runs that start or end in between do not lose it.
\<close>
theorem interrupt_never_lost:
  assumes "run_trace run_initial evs c" "frames c \<noteq> []"
    "run_trace c (Ev_interrupt # evs') c'" "stays_active (length (frames c)) evs'"
    "Ev_poll b \<in> set evs'"
  shows "b \<and> kmp_interrupt_handler (rstate c')"
proof -
  have inv: "run_inv c" by (rule run_inv_trace [OF assms(1) run_inv_initial])
  let ?c1 = "c\<lparr>rstate := kmpjs_interrupt (rstate c)\<rparr>"
  have tr: "run_trace ?c1 evs' c'" using assms(3) by auto
  have "run_inv ?c1" by (rule run_inv_step [OF step_interrupt inv])
  moreover have "rstate ?c1 = KMP_INTERRUPTED"
    using inv assms(2) by (cases "rstate c") (auto simp: run_inv_def run_defs)
  ultimately show ?thesis
    using interrupted_trace [OF tr] assms(4,5) by (auto simp: kmp_interrupt_handler_def)
qed

theorem interrupt_never_lost_witness:
  "kmp_interrupt_handler (rstate \<lparr>rstate = KMP_INTERRUPTED, frames = [True]\<rparr>)"
proof -
  let ?c = "\<lparr>rstate = KMP_RUNNING, frames = [True]\<rparr>"
  let ?c' = "\<lparr>rstate = KMP_INTERRUPTED, frames = [True]\<rparr>"
  let ?n = "\<lparr>rstate = KMP_INTERRUPTED, frames = [False, True]\<rparr>"
  have 1: "run_trace run_initial [Ev_begin] ?c"
    using step_begin [of run_initial KMP_RUNNING True] by (auto simp: run_initial_def run_defs)
  have "run_step ?c Ev_interrupt ?c'"
    using step_interrupt [of ?c] by (simp add: run_defs)
  moreover have "run_step ?c' Ev_begin ?n"
    using step_begin [of ?c' KMP_INTERRUPTED False] by (simp add: run_defs)
  moreover have "run_step ?n Ev_end ?c'"
    using step_end [of ?n False "[True]"] by (simp add: run_defs)
  moreover have "run_step ?c' (Ev_poll True) ?c'"
    using step_poll [of ?c'] by (simp add: run_defs)
  ultimately have "run_trace ?c [Ev_interrupt, Ev_begin, Ev_end, Ev_poll True] ?c'"
    by (meson trace_nil trace_cons)
  from interrupt_never_lost [OF 1 _ this] show ?thesis by simp
qed

text \<open>
  An interrupt while no run is active changes nothing, and a run that starts when none is
  active starts uninterrupted, whatever happened before.
\<close>
theorem idle_interrupt_is_noop:
  assumes "run_trace run_initial evs c" "frames c = []"
  shows "(run_step c Ev_interrupt c' \<longrightarrow> c' = c) \<and>
    (run_step c Ev_begin c'' \<longrightarrow> \<not> kmp_interrupt_handler (rstate c'') \<and> frames c'' = [True])"
proof -
  have "run_inv c" by (rule run_inv_trace [OF assms(1) run_inv_initial])
  then show ?thesis
    using assms(2) by (auto simp: run_inv_def run_defs)
qed

theorem idle_interrupt_is_noop_witness:
  "\<not> kmp_interrupt_handler KMP_RUNNING"
proof -
  have "run_step run_initial Ev_begin \<lparr>rstate = KMP_RUNNING, frames = [True]\<rparr>"
    using step_begin [of run_initial KMP_RUNNING True] by (simp add: run_initial_def run_defs)
  then show ?thesis
    using idle_interrupt_is_noop [of "[]" run_initial run_initial "\<lparr>rstate = KMP_RUNNING, frames = [True]\<rparr>"]
    by (simp add: run_initial_def)
qed

end
