(* ===== verification/Float64.thy ===== *)
theory Float64 imports JsValue "HOL-Library.Log_Nat" begin

text \<open>
  IEEE 754 doubles as the engine and the shim use them: 64 bit patterns, their numeric value scaled
  by 2^1074 (so that every finite double is an integer), comparisons, conversions from and to
  integers, and the boxing of numbers in \<open>native/mquickjs/mquickjs.c\<close>: short floats
  (\<open>js_get_short_float\<close>, \<open>js_to_short_float\<close>), \<open>JS_NewFloat64\<close> in both of its variants and
  \<open>JS_NewInt64\<close>.
\<close>

unbundle bit_operations_syntax

section \<open>Doubles\<close>

type_synonym float64 = u64

definition f_sign :: "float64 \<Rightarrow> bool" where
  "f_sign d \<longleftrightarrow> 2 ^ 63 \<le> unat d"

definition f_exp :: "float64 \<Rightarrow> nat" where
  "f_exp d = unat d div 2 ^ 52 mod 2 ^ 11"

definition f_frac :: "float64 \<Rightarrow> nat" where
  "f_frac d = unat d mod 2 ^ 52"

definition f_make :: "bool \<Rightarrow> nat \<Rightarrow> nat \<Rightarrow> float64" where
  "f_make s e f = of_nat ((if s then 2 ^ 63 else 0) + e * 2 ^ 52 + f)"

definition f_nan :: "float64 \<Rightarrow> bool" where
  "f_nan d \<longleftrightarrow> f_exp d = 2047 \<and> f_frac d \<noteq> 0"

text \<open>The magnitude in units of 2^-1074; infinity gets the next power of two, above every finite one.\<close>

definition f_mag :: "float64 \<Rightarrow> nat" where
  "f_mag d = (if f_exp d = 0 then f_frac d else (2 ^ 52 + f_frac d) * 2 ^ (f_exp d - 1))"

definition f_val :: "float64 \<Rightarrow> int" where
  "f_val d = (if f_sign d then - int (f_mag d) else int (f_mag d))"

definition f_eq :: "float64 \<Rightarrow> float64 \<Rightarrow> bool" where
  "f_eq a b \<longleftrightarrow> \<not> f_nan a \<and> \<not> f_nan b \<and> f_val a = f_val b"

definition f_le :: "float64 \<Rightarrow> float64 \<Rightarrow> bool" where
  "f_le a b \<longleftrightarrow> \<not> f_nan a \<and> \<not> f_nan b \<and> f_val a \<le> f_val b"

definition f_abs :: "float64 \<Rightarrow> float64" where
  "f_abs d = f_make False (f_exp d) (f_frac d)"

text \<open>The conversion of an integer, rounding to nearest, ties to even.\<close>

definition f_of_nat :: "bool \<Rightarrow> nat \<Rightarrow> float64" where
  "f_of_nat s n =
     (if n = 0 then f_make s 0 0
      else let e = floorlog 2 n - 1 in
        if e \<le> 52 then f_make s (1023 + e) (n * 2 ^ (52 - e) - 2 ^ 52)
        else let q = n div 2 ^ (e - 52); r = n mod 2 ^ (e - 52); h = 2 ^ (e - 53);
                 q' = (if r > h \<or> (r = h \<and> odd q) then q + 1 else q) in
          f_make s (1023 + e) 0 + of_nat (q' - 2 ^ 52))"

definition f_of_int :: "int \<Rightarrow> float64" where
  "f_of_int i = f_of_nat (i < 0) (nat \<bar>i\<bar>)"

text \<open>Truncation towards zero, the C conversion to an integer type that can hold the result.\<close>

definition f_trunc :: "float64 \<Rightarrow> int" where
  "f_trunc d = (if f_sign d then - int (f_mag d div 2 ^ 1074) else int (f_mag d div 2 ^ 1074))"

section \<open>Fields\<close>

lemma f_bounds: "f_exp d < 2048" "f_frac d < 2 ^ 52"
  by (simp_all add: f_exp_def f_frac_def)

lemma unat_of_nat_64: "k < 2 ^ 64 \<Longrightarrow> unat (of_nat k :: u64) = k"
  by (simp add: unat_of_nat)

lemma f_make_fields:
  assumes "e < 2048" "f < 2 ^ 52"
  shows "f_sign (f_make s e f) = s" "f_exp (f_make s e f) = e" "f_frac (f_make s e f) = f"
proof -
  define b :: nat where "b = (if s then 2 ^ 63 else 0)"
  have lt: "e * 2 ^ 52 + f < 2 ^ 63"
  proof -
    have "e * 2 ^ 52 + f < (e + 1) * 2 ^ 52" using assms(2) by simp
    also have "\<dots> \<le> 2048 * 2 ^ 52" using assms(1) by (intro mult_right_mono) simp_all
    finally show ?thesis by simp
  qed
  then have u: "unat (f_make s e f) = b + (e * 2 ^ 52 + f)"
    unfolding f_make_def b_def by (subst unat_of_nat_64) simp_all
  show "f_sign (f_make s e f) = s"
    using lt by (simp add: f_sign_def u b_def)
  have "b + (e * 2 ^ 52 + f) = (e + (if s then 2 ^ 11 else 0)) * 2 ^ 52 + f"
    by (simp add: b_def)
  then have d: "unat (f_make s e f) div 2 ^ 52 = e + (if s then 2 ^ 11 else 0)"
    "unat (f_make s e f) mod 2 ^ 52 = f"
    unfolding u using assms(2) by simp_all
  show "f_exp (f_make s e f) = e"
    unfolding f_exp_def d using assms(1) by simp
  show "f_frac (f_make s e f) = f"
    unfolding f_frac_def by (rule d)
qed

lemma f_split: "unat d = (if f_sign d then 2 ^ 63 else 0) + f_exp d * 2 ^ 52 + f_frac d"
proof -
  have lt: "unat d < 2 ^ 64" using unsigned_less [of d, where 'a = nat] by simp
  have a: "unat d = unat d div 2 ^ 52 * 2 ^ 52 + f_frac d"
    by (simp add: f_frac_def div_mult_mod_eq)
  have "unat d div 2 ^ 52 = unat d div 2 ^ 52 div 2 ^ 11 * 2 ^ 11 + f_exp d"
    by (simp only: f_exp_def div_mult_mod_eq)
  moreover have "unat d div 2 ^ 52 div 2 ^ 11 = unat d div 2 ^ 63"
    by (simp flip: div_mult2_eq)
  moreover have "unat d div 2 ^ 63 = (if f_sign d then 1 else 0)"
    using lt by (auto simp: f_sign_def intro: div_nat_eqI)
  ultimately have b: "unat d div 2 ^ 52 = (if f_sign d then 1 else 0) * 2 ^ 11 + f_exp d" by simp
  show ?thesis by (subst a, subst b) (simp add: algebra_simps)
qed

lemma f_make_collapse: "f_make (f_sign d) (f_exp d) (f_frac d) = d"
  unfolding f_make_def f_split [symmetric] by simp

lemma f_eqI:
  assumes "f_sign a = f_sign b" "f_exp a = f_exp b" "f_frac a = f_frac b"
  shows "a = b"
proof -
  have "a = f_make (f_sign a) (f_exp a) (f_frac a)" by (simp only: f_make_collapse)
  also have "\<dots> = b" unfolding assms by (rule f_make_collapse)
  finally show ?thesis .
qed

section \<open>Integers as doubles\<close>

lemma floorlog_exp:
  assumes "0 < n" "n < 2 ^ 53"
  shows "floorlog 2 n - 1 \<le> 52" "2 ^ (floorlog 2 n - 1) \<le> n" "n < 2 * 2 ^ (floorlog 2 n - 1)"
proof -
  have b: "2 ^ (floorlog 2 n - 1) \<le> n" "n < 2 ^ floorlog 2 n"
    using floorlog_bounds [of n 2] assms(1) by auto
  have p: "0 < floorlog 2 n" using assms(1) by (simp add: floorlog_def)
  show "2 ^ (floorlog 2 n - 1) \<le> n" by (rule b)
  show "n < 2 * 2 ^ (floorlog 2 n - 1)" using b(2) p by (cases "floorlog 2 n") simp_all
  show "floorlog 2 n - 1 \<le> 52"
  proof (rule ccontr)
    assume "\<not> floorlog 2 n - 1 \<le> 52"
    then have "(2::nat) ^ 53 \<le> 2 ^ (floorlog 2 n - 1)" by (intro power_increasing) simp_all
    with b(1) assms(2) show False by simp
  qed
qed

lemma shifted_bounds:
  fixes n :: nat
  assumes "2 ^ e \<le> n" "n < 2 * 2 ^ e" "e \<le> 52"
  shows "2 ^ 52 \<le> n * 2 ^ (52 - e)" "n * 2 ^ (52 - e) < 2 ^ 53"
proof -
  have p: "(2::nat) ^ e * 2 ^ (52 - e) = 2 ^ 52" using assms(3) by (simp flip: power_add)
  show "2 ^ 52 \<le> n * 2 ^ (52 - e)"
    unfolding p [symmetric] by (rule mult_right_mono [OF assms(1)]) simp
  have "n * 2 ^ (52 - e) < 2 * 2 ^ e * 2 ^ (52 - e)"
    using assms(2) by simp
  also have "\<dots> = 2 ^ 53" using p by (simp add: mult.assoc)
  finally show "n * 2 ^ (52 - e) < 2 ^ 53" .
qed

lemma f_of_nat_fields:
  assumes "0 < n" "n < 2 ^ 53"
  defines "e \<equiv> floorlog 2 n - 1"
  shows "f_sign (f_of_nat s n) = s" "f_exp (f_of_nat s n) = 1023 + e"
    "f_frac (f_of_nat s n) = n * 2 ^ (52 - e) - 2 ^ 52"
    "2 ^ 52 + f_frac (f_of_nat s n) = n * 2 ^ (52 - e)"
proof -
  note e = floorlog_exp [OF assms(1,2), folded e_def]
  note sb = shifted_bounds [OF e(2,3,1)]
  have d: "f_of_nat s n = f_make s (1023 + e) (n * 2 ^ (52 - e) - 2 ^ 52)"
    using assms(1) e(1) by (simp add: f_of_nat_def Let_def e_def)
  have 1: "1023 + e < 2048" using e(1) by simp
  have 2: "n * 2 ^ (52 - e) - 2 ^ 52 < 2 ^ 52" using sb by simp
  note f = f_make_fields [OF 1 2, of s, folded d]
  show "f_sign (f_of_nat s n) = s" "f_exp (f_of_nat s n) = 1023 + e"
    "f_frac (f_of_nat s n) = n * 2 ^ (52 - e) - 2 ^ 52"
    by (rule f)+
  show "2 ^ 52 + f_frac (f_of_nat s n) = n * 2 ^ (52 - e)"
    unfolding f(3) using sb(1) by simp
qed

lemma f_of_nat_zero: "f_sign (f_of_nat s 0) = s" "f_exp (f_of_nat s 0) = 0" "f_frac (f_of_nat s 0) = 0"
  by (simp_all add: f_of_nat_def f_make_fields)

lemma f_mag_of_nat:
  assumes "n < 2 ^ 53" shows "f_mag (f_of_nat s n) = n * 2 ^ 1074"
proof (cases "n = 0")
  case True
  then show ?thesis by (simp add: f_mag_def f_of_nat_zero)
next
  case False
  let ?e = "floorlog 2 n - 1"
  have n: "0 < n" using False by simp
  have e: "?e \<le> 52" using floorlog_exp [OF n assms] by simp
  have "f_mag (f_of_nat s n) = n * 2 ^ (52 - ?e) * 2 ^ (1023 + ?e - 1)"
    unfolding f_mag_def f_of_nat_fields(2) [OF n assms] f_of_nat_fields(4) [OF n assms] by simp
  also have "\<dots> = n * 2 ^ ((52 - ?e) + (1023 + ?e - 1))"
    by (simp only: power_add mult.assoc)
  also have "(52 - ?e) + (1023 + ?e - 1) = 1074" using e by simp
  finally show ?thesis .
qed

lemma f_nan_of_nat:
  assumes "n < 2 ^ 53" shows "\<not> f_nan (f_of_nat s n)"
proof (cases "n = 0")
  case False
  then have n: "0 < n" by simp
  show ?thesis
    using floorlog_exp(1) [OF n assms] f_of_nat_fields(2) [OF n assms, of s] by (simp add: f_nan_def)
qed (simp add: f_nan_def f_of_nat_zero)

text \<open>An integer of at most 53 bits converts exactly.\<close>

lemma f_val_of_int:
  assumes "\<bar>i\<bar> < 2 ^ 53"
  shows "f_val (f_of_int i) = i * 2 ^ 1074" "\<not> f_nan (f_of_int i)"
proof -
  have n: "nat \<bar>i\<bar> < 2 ^ 53" using assms by simp
  have s: "f_sign (f_of_int i) = (i < 0)"
    using f_of_nat_fields(1) [OF _ n, of "i < 0"] f_of_nat_zero(1) [of "i < 0"]
    by (cases "i = 0") (simp_all add: f_of_int_def)
  show "f_val (f_of_int i) = i * 2 ^ 1074"
  proof -
    define K :: nat where "K = 2 ^ 1074"
    have m: "f_mag (f_of_int i) = nat \<bar>i\<bar> * K"
      unfolding f_of_int_def K_def by (rule f_mag_of_nat [OF n])
    have "f_val (f_of_int i) = i * int K"
      unfolding f_val_def s m by simp
    then show ?thesis by (simp only: K_def of_nat_power of_nat_numeral)
  qed
  show "\<not> f_nan (f_of_int i)" unfolding f_of_int_def by (rule f_nan_of_nat [OF n])
qed

section \<open>Which doubles are short integers\<close>

text \<open>
  \<open>JS_NewFloat64\<close> looks for a short integer in two ways: with floating point hardware, by comparing
  and converting, and with \<open>USE_SOFTFLOAT\<close>, on the bits. Both are given as the integer found.
\<close>

definition float_short_int :: "float64 \<Rightarrow> s32 option" where
  "float_short_int d =
     (if f_le (f_of_int JS_SHORTINT_MIN) d \<and> f_le d (f_of_int JS_SHORTINT_MAX) then
        let val = of_int (f_trunc d) :: s32 in
        if d = f_of_int (sint val) then Some val else None
      else None)"

definition softfloat_short_int :: "float64 \<Rightarrow> s32 option" where
  "softfloat_short_int a =
     (if a = 0 then Some 0
      else let e = unat (drop_bit 52 a AND 0x7ff) in
        if e \<ge> 1023 \<and> e \<le> 1023 + 30 - 1 then
          let m = (a AND (push_bit 52 1 - 1)) OR push_bit 52 1; shift = 52 - (e - 1023) in
          if m AND (push_bit shift 1 - 1) \<noteq> 0 then None
          else let b = ucast (drop_bit shift m) :: s32 in
            Some (if drop_bit 63 a \<noteq> 0 then - b else b)
        else if a = 0xc1d0000000000000 then Some (- (push_bit 30 1))
        else None)"

lemma floorlog_unique:
  assumes "2 ^ k \<le> n" "n < 2 * 2 ^ k" "n < 2 ^ 53" shows "floorlog 2 n - 1 = k"
proof -
  have n: "0 < n" using assms(1) by (metis less_le_trans zero_less_numeral zero_less_power)
  note e = floorlog_exp(2,3) [OF n assms(3)]
  have 1: "(2::nat) ^ (floorlog 2 n - 1) < 2 ^ Suc k" using e(1) assms(2) by simp
  have 2: "(2::nat) ^ k < 2 ^ Suc (floorlog 2 n - 1)" using e(2) assms(1) by simp
  have "floorlog 2 n - 1 < Suc k" by (rule power_less_imp_less_exp [OF _ 1]) simp
  moreover have "k < Suc (floorlog 2 n - 1)" by (rule power_less_imp_less_exp [OF _ 2]) simp
  ultimately show ?thesis by simp
qed

lemma f_of_nat_of_fields:
  assumes "f_exp d = 1023 + k" "k \<le> 52" "2 ^ (52 - k) dvd 2 ^ 52 + f_frac d"
  shows "d = f_of_nat (f_sign d) ((2 ^ 52 + f_frac d) div 2 ^ (52 - k))"
    and "2 ^ k \<le> (2 ^ 52 + f_frac d) div 2 ^ (52 - k)"
    and "(2 ^ 52 + f_frac d) div 2 ^ (52 - k) < 2 * 2 ^ k"
proof -
  let ?n = "(2 ^ 52 + f_frac d) div 2 ^ (52 - k)"
  have nm: "?n * 2 ^ (52 - k) = 2 ^ 52 + f_frac d" by (rule dvd_div_mult_self [OF assms(3)])
  have p: "(2::nat) ^ k * 2 ^ (52 - k) = 2 ^ 52" using assms(2) by (simp flip: power_add)
  have "2 ^ k * 2 ^ (52 - k) \<le> ?n * 2 ^ (52 - k)" unfolding nm p by simp
  then show lo: "2 ^ k \<le> ?n" by (simp only: mult_le_cancel2) simp
  have "?n * 2 ^ (52 - k) < 2 * 2 ^ k * 2 ^ (52 - k)"
    unfolding nm mult.assoc p using f_bounds(2) [of d] by simp
  then show hi: "?n < 2 * 2 ^ k" by (simp only: mult_less_cancel2)
  have "2 * (2::nat) ^ k \<le> 2 ^ 53"
    using power_increasing [of "Suc k" 53 "2::nat"] assms(2) by simp
  then have n53: "?n < 2 ^ 53" using hi by simp
  have n0: "0 < ?n" using lo by (metis less_le_trans zero_less_numeral zero_less_power)
  have fl: "floorlog 2 ?n - 1 = k" by (rule floorlog_unique [OF lo hi n53])
  show "d = f_of_nat (f_sign d) ?n"
    by (rule f_eqI) (simp_all only: f_of_nat_fields [OF n0 n53] fl assms(1) nm add_diff_cancel_left')
qed

lemma f_of_int_inj: "\<bar>i\<bar> < 2 ^ 53 \<Longrightarrow> \<bar>j\<bar> < 2 ^ 53 \<Longrightarrow> f_of_int i = f_of_int j \<Longrightarrow> i = j"
proof -
  assume i: "\<bar>i\<bar> < 2 ^ 53" and j: "\<bar>j\<bar> < 2 ^ 53" and eq: "f_of_int i = f_of_int j"
  have "i * 2 ^ 1074 = j * 2 ^ 1074"
    using f_val_of_int(1) [OF i] f_val_of_int(1) [OF j] eq by metis
  then show "i = j" by (simp only: mult_cancel_right) simp
qed

text \<open>The specification of both: the short integer that converts to exactly this double.\<close>

definition short_int_of :: "float64 \<Rightarrow> s32 option \<Rightarrow> bool" where
  "short_int_of d r \<longleftrightarrow>
     (\<forall>v. r = Some v \<longleftrightarrow> JS_SHORTINT_MIN \<le> sint v \<and> sint v \<le> JS_SHORTINT_MAX \<and> d = f_of_int (sint v))"

lemma short_int_of_unique: "short_int_of d r \<Longrightarrow> short_int_of d r' \<Longrightarrow> r = r'"
  unfolding short_int_of_def by (metis option.exhaust)

lemmas short_range = JS_SHORTINT_MIN_def JS_SHORTINT_MAX_def

lemma f_trunc_le:
  assumes "f_le (f_of_int a) d" "f_le d (f_of_int b)" "\<bar>a\<bar> < 2 ^ 53" "\<bar>b\<bar> < 2 ^ 53" "a \<le> 0" "0 \<le> b"
  shows "a \<le> f_trunc d" "f_trunc d \<le> b"
proof -
  define K :: nat where "K = 2 ^ 1074"
  have K: "0 < K" by (simp only: K_def) simp
  have "a * int K \<le> f_val d" "f_val d \<le> b * int K"
    using assms(1,2) f_val_of_int(1) [OF assms(3)] f_val_of_int(1) [OF assms(4)]
    by (simp_all only: f_le_def K_def of_nat_power of_nat_numeral)
  moreover have "f_trunc d = (if f_sign d then - int (f_mag d div K) else int (f_mag d div K))"
    by (simp only: f_trunc_def K_def)
  moreover have "int (f_mag d div K) = int (f_mag d) div int K" by (rule of_nat_div)
  ultimately have *: "f_sign d \<Longrightarrow> a * int K \<le> - int (f_mag d)" "\<not> f_sign d \<Longrightarrow> int (f_mag d) \<le> b * int K"
    "f_trunc d = (if f_sign d then - (int (f_mag d) div int K) else int (f_mag d) div int K)"
    by (auto simp: f_val_def split: if_splits)
  have nn: "0 \<le> int (f_mag d) div int K" using K by (simp add: pos_imp_zdiv_nonneg_iff)
  show "a \<le> f_trunc d"
  proof (cases "f_sign d")
    case True
    then have "int (f_mag d) \<le> (- a) * int K" using *(1) by simp
    then have "int (f_mag d) div int K \<le> (- a) * int K div int K" using K by (intro zdiv_mono1) simp_all
    moreover have "(- a) * int K div int K = - a" using K by (intro nonzero_mult_div_cancel_right) simp
    ultimately show ?thesis using True by (simp add: *(3))
  qed (use nn assms(5) in \<open>simp add: *(3)\<close>)
  show "f_trunc d \<le> b"
  proof (cases "f_sign d")
    case False
    then have "int (f_mag d) div int K \<le> b * int K div int K" using *(2) K by (intro zdiv_mono1) simp_all
    then show ?thesis using False K by (simp add: *(3))
  qed (use nn assms(6) in \<open>simp add: *(3)\<close>)
qed

lemma f_trunc_of_int: "\<bar>i\<bar> < 2 ^ 53 \<Longrightarrow> f_trunc (f_of_int i) = i"
proof -
  assume i: "\<bar>i\<bar> < 2 ^ 53"
  define K :: nat where "K = 2 ^ 1074"
  have K: "0 < K" by (simp only: K_def) simp
  have n: "nat \<bar>i\<bar> < 2 ^ 53" using i by simp
  have m: "f_mag (f_of_int i) = nat \<bar>i\<bar> * K"
    unfolding f_of_int_def K_def by (rule f_mag_of_nat [OF n])
  have s: "f_sign (f_of_int i) = (i < 0)"
    using f_of_nat_fields(1) [OF _ n, of "i < 0"] f_of_nat_zero(1) [of "i < 0"]
    by (cases "i = 0") (simp_all add: f_of_int_def)
  show ?thesis unfolding f_trunc_def s m K_def [symmetric] using K by simp
qed

lemma float_short_int_spec: "short_int_of d (float_short_int d)"
proof -
  have small: "\<bar>i\<bar> < 2 ^ 53" if "JS_SHORTINT_MIN \<le> i" "i \<le> JS_SHORTINT_MAX" for i
    using that by (simp add: short_range)
  have si: "sint (of_int i :: s32) = i" if "JS_SHORTINT_MIN \<le> i" "i \<le> JS_SHORTINT_MAX" for i
    using that by (simp add: int_word_sint short_range)
  show ?thesis
    unfolding short_int_of_def
  proof (intro allI iffI)
    fix v
    assume "float_short_int d = Some v"
    then have *: "f_le (f_of_int JS_SHORTINT_MIN) d" "f_le d (f_of_int JS_SHORTINT_MAX)"
      "v = of_int (f_trunc d)" "d = f_of_int (sint v)"
      by (auto simp: float_short_int_def Let_def split: if_splits)
    have t: "JS_SHORTINT_MIN \<le> f_trunc d" "f_trunc d \<le> JS_SHORTINT_MAX"
      by (rule f_trunc_le [OF *(1,2)]; simp add: short_range)+
    have sv: "sint v = f_trunc d" unfolding *(3) by (rule si [OF t])
    show "JS_SHORTINT_MIN \<le> sint v \<and> sint v \<le> JS_SHORTINT_MAX \<and> d = f_of_int (sint v)"
      using t *(4) unfolding sv by blast
  next
    fix v :: s32
    assume "JS_SHORTINT_MIN \<le> sint v \<and> sint v \<le> JS_SHORTINT_MAX \<and> d = f_of_int (sint v)"
    then have lo: "JS_SHORTINT_MIN \<le> sint v" and hi: "sint v \<le> JS_SHORTINT_MAX"
      and d: "d = f_of_int (sint v)" by blast+
    have sm: "\<bar>sint v\<bar> < 2 ^ 53" by (rule small [OF lo hi])
    have t: "f_trunc d = sint v" unfolding d by (rule f_trunc_of_int [OF sm])
    have le: "f_le (f_of_int i) (f_of_int j)" if "i \<le> j" "\<bar>i\<bar> < 2 ^ 53" "\<bar>j\<bar> < 2 ^ 53" for i j
      unfolding f_le_def f_val_of_int(1) [OF that(2)] f_val_of_int(1) [OF that(3)]
      by (intro conjI f_val_of_int(2) that mult_right_mono) simp
    have "f_le (f_of_int JS_SHORTINT_MIN) d" "f_le d (f_of_int JS_SHORTINT_MAX)"
      unfolding d by (intro le lo hi sm; simp add: short_range)+
    then show "float_short_int d = Some v"
      by (simp add: float_short_int_def Let_def t d [symmetric])
  qed
qed

text \<open>The soft float variant, field by field.\<close>

lemma unat_exp_field: "unat (drop_bit 52 a AND 0x7ff) = f_exp a" for a :: u64
proof -
  have "unat (drop_bit 52 a AND mask 11) = f_exp a"
    unfolding unat_and_mask unat_drop_bit f_exp_def ..
  then show ?thesis by (simp add: mask_eq_exp_minus_1)
qed

lemma unat_mantissa: "unat ((a AND (push_bit 52 1 - 1)) OR push_bit 52 1) = 2 ^ 52 + f_frac a" for a :: u64
proof -
  have m: "push_bit 52 1 - 1 = (mask 52 :: u64)" by (simp add: mask_eq_exp_minus_1)
  have u: "unat (a AND mask 52) = f_frac a" by (simp only: unat_and_mask f_frac_def)
  have "unat ((a AND mask 52) OR push_bit 52 1) = unat (a AND mask 52) + unat (1 :: u64) * 2 ^ 52"
    by (rule unat_or_push_bit; unfold u; use f_bounds(2) [of a] in simp)
  then show ?thesis unfolding m u by simp
qed

lemma drop_63: "drop_bit 63 a \<noteq> 0 \<longleftrightarrow> f_sign a" for a :: u64
proof -
  have "unat a < 2 ^ 64" using unsigned_less [of a, where 'a = nat] by simp
  then have "unat (drop_bit 63 a) = 0 \<longleftrightarrow> \<not> f_sign a"
    unfolding unat_drop_bit f_sign_def by (simp add: div_eq_0_iff not_le)
  then show ?thesis by (simp add: unat_eq_0)
qed

lemma f_of_int_zero: "f_of_int 0 = 0"
  by (simp add: f_of_int_def f_of_nat_def f_make_def)

lemma f_of_int_min: "f_of_int JS_SHORTINT_MIN = 0xc1d0000000000000"
proof -
  have "floorlog 2 (1073741824 :: nat) - 1 = 30" by (rule floorlog_unique) simp_all
  then show ?thesis
    by (simp add: JS_SHORTINT_MIN_def f_of_int_def f_of_nat_def Let_def f_make_def)
qed

section \<open>Softfloat\<close>

lemma f_of_int_fields:
  assumes "i \<noteq> 0" "\<bar>i\<bar> < 2 ^ 53"
  shows "f_exp (f_of_int i) = 1023 + (floorlog 2 (nat \<bar>i\<bar>) - 1)"
    "2 ^ (52 - (floorlog 2 (nat \<bar>i\<bar>) - 1)) dvd 2 ^ 52 + f_frac (f_of_int i)"
proof -
  have n: "0 < nat \<bar>i\<bar>" "nat \<bar>i\<bar> < 2 ^ 53" using assms by simp_all
  show "f_exp (f_of_int i) = 1023 + (floorlog 2 (nat \<bar>i\<bar>) - 1)"
    unfolding f_of_int_def by (rule f_of_nat_fields(2) [OF n])
  show "2 ^ (52 - (floorlog 2 (nat \<bar>i\<bar>) - 1)) dvd 2 ^ 52 + f_frac (f_of_int i)"
    unfolding f_of_int_def f_of_nat_fields(4) [OF n] by simp
qed

lemma softfloat_short_int_spec: "short_int_of a (softfloat_short_int a)"
  unfolding short_int_of_def
proof (intro allI)
  fix v :: s32
  let ?P = "\<lambda>v :: s32. JS_SHORTINT_MIN \<le> sint v \<and> sint v \<le> JS_SHORTINT_MAX \<and> a = f_of_int (sint v)"
  have uniq: "v = w" if "?P v" "?P w" for v w :: s32
  proof -
    have "sint v = sint w" by (rule f_of_int_inj) (use that in \<open>auto simp: short_range abs_if\<close>)
    then show ?thesis by (rule signed_word_eqI)
  qed
  have known: "(Some w = Some v \<longleftrightarrow> ?P v)" if "?P w" for w
    using uniq [OF _ that, of v] that by auto
  show "softfloat_short_int a = Some v \<longleftrightarrow> ?P v"
  proof (cases "a = 0")
    case True
    have "?P 0" using True by (simp add: f_of_int_zero short_range)
    from known [OF this] True show ?thesis by (simp add: softfloat_short_int_def)
  next
    case nz: False
    show ?thesis
    proof (cases "1023 \<le> f_exp a \<and> f_exp a \<le> 1052")
      case True
      define k where "k = f_exp a - 1023"
      have k: "f_exp a = 1023 + k" "k \<le> 29" using True unfolding k_def by linarith+
      let ?m = "(a AND (push_bit 52 1 - 1)) OR push_bit 52 1" and ?sh = "52 - k"
      have um: "unat ?m = 2 ^ 52 + f_frac a" by (rule unat_mantissa)
      have mk: "push_bit ?sh 1 - 1 = (mask ?sh :: u64)" by (simp add: mask_eq_exp_minus_1)
      have z: "?m AND (push_bit ?sh 1 - 1) = 0 \<longleftrightarrow> 2 ^ ?sh dvd 2 ^ 52 + f_frac a"
        unfolding mk by (simp only: unat_eq_0 [symmetric] unat_and_mask um dvd_eq_mod_eq_0)
      have sh: "52 - (f_exp a - 1023) = ?sh" by (simp add: k_def)
      show ?thesis
      proof (cases "2 ^ ?sh dvd 2 ^ 52 + f_frac a")
        case dvd: True
        let ?n = "(2 ^ 52 + f_frac a) div 2 ^ ?sh"
        note ff = f_of_nat_of_fields [OF k(1) _ dvd]
        have k52: "k \<le> 52" using k(2) by simp
        have "2 * (2::nat) ^ k \<le> 2 ^ 30" using power_increasing [of "Suc k" 30 "2::nat"] k(2) by simp
        then have n30: "?n < 2 ^ 30" using ff(3) [OF k52] by linarith
        define b :: s32 where "b = ucast (drop_bit ?sh ?m)"
        have ub: "b = of_nat ?n"
          unfolding b_def by (rule trans [OF _ arg_cong [of _ _ of_nat, OF trans [OF unat_drop_bit arg_cong [of _ _ "\<lambda>x. x div 2 ^ ?sh", OF um]]]]) simp
        have sb: "sint b = int ?n" unfolding ub
          using int_word_sint [of "int ?n", where 'a = 32] n30 by simp
        have smb: "sint (- b) = - int ?n"
        proof -
          have "- b = of_int (- int ?n)" by (simp add: ub)
          then show ?thesis using int_word_sint [of "- int ?n", where 'a = 32] n30 by simp
        qed
        define w where "w = (if f_sign a then - b else b)"
        have n0: "0 < ?n" using ff(2) [OF k52] by (metis less_le_trans zero_less_numeral zero_less_power)
        have sw: "sint w = (if f_sign a then - int ?n else int ?n)" by (simp add: w_def sb smb)
        have "f_of_int (sint w) = f_of_nat (f_sign a) ?n"
          unfolding f_of_int_def sw using n0 by (cases "f_sign a") simp_all
        then have "a = f_of_int (sint w)" using ff(1) [OF k52] by simp
        moreover have "JS_SHORTINT_MIN \<le> sint w" "sint w \<le> JS_SHORTINT_MAX"
          unfolding sw short_range using n30 by auto
        ultimately have "?P w" by blast
        moreover have "softfloat_short_int a = Some w"
          using nz k z dvd unfolding softfloat_short_int_def Let_def unat_exp_field drop_63
          by (simp add: w_def b_def)
        ultimately show ?thesis using known by simp
      next
        case ndvd: False
        have "softfloat_short_int a = None"
          using nz k z ndvd unfolding softfloat_short_int_def Let_def unat_exp_field drop_63 by simp
        moreover have "\<not> ?P v"
        proof
          assume P: "?P v"
          then have a: "a = f_of_int (sint v)" by blast
          have "\<bar>sint v\<bar> < 2 ^ 53" using P by (auto simp: short_range abs_if)
          moreover have "sint v \<noteq> 0"
          proof
            assume "sint v = 0"
            then have "a = 0" unfolding a by (simp add: f_of_int_zero)
            with nz show False ..
          qed
          ultimately have f: "f_exp a = 1023 + (floorlog 2 (nat \<bar>sint v\<bar>) - 1)"
            "2 ^ (52 - (floorlog 2 (nat \<bar>sint v\<bar>) - 1)) dvd 2 ^ 52 + f_frac a"
            unfolding a by (rule f_of_int_fields [rotated])+
          have "floorlog 2 (nat \<bar>sint v\<bar>) - 1 = k" using f(1) k(1) by simp
          with f(2) ndvd show False by simp
        qed
        ultimately show ?thesis by simp
      qed
    next
      case out: False
      show ?thesis
      proof (cases "a = 0xc1d0000000000000")
        case True
        define w :: s32 where "w = - (push_bit 30 1)"
        have sw: "sint w = JS_SHORTINT_MIN" by (simp add: w_def short_range)
        have "?P w" unfolding sw using True f_of_int_min by (simp add: short_range)
        moreover have "softfloat_short_int a = Some w"
          using nz out True unfolding softfloat_short_int_def Let_def unat_exp_field w_def by auto
        ultimately show ?thesis using known by simp
      next
        case no: False
        have "softfloat_short_int a = None"
          using nz out no unfolding softfloat_short_int_def Let_def unat_exp_field by auto
        moreover have "\<not> ?P v"
        proof
          assume P: "?P v"
          then have a: "a = f_of_int (sint v)" by blast
          have "\<bar>sint v\<bar> < 2 ^ 53" using P by (auto simp: short_range abs_if)
          moreover have i0: "sint v \<noteq> 0"
          proof
            assume "sint v = 0"
            then have "a = 0" unfolding a by (simp add: f_of_int_zero)
            with nz show False ..
          qed
          ultimately have f: "f_exp a = 1023 + (floorlog 2 (nat \<bar>sint v\<bar>) - 1)"
            unfolding a by (rule f_of_int_fields(1) [rotated])
          have i1: "sint v \<noteq> JS_SHORTINT_MIN" using a f_of_int_min no by auto
          then have "nat \<bar>sint v\<bar> < 2 ^ 30" using P by (auto simp: short_range abs_if)
          then have "floorlog 2 (nat \<bar>sint v\<bar>) \<le> 30"
            using floorlog_leI [of "nat \<bar>sint v\<bar>" 2 30] by simp
          then show False using f out by auto
        qed
        ultimately show ?thesis by simp
      qed
    qed
  qed
qed

text \<open>
  C30: the two variants of \<open>JS_NewFloat64\<close>, with floating point hardware and on the bits, recognise
  the same doubles as short integers, for every bit pattern including NaN, infinities and minus
  zero, and find the same integer.
\<close>
theorem softfloat_equals_hardware: "softfloat_short_int d = float_short_int d"
  by (rule short_int_of_unique [OF softfloat_short_int_spec float_short_int_spec])

section \<open>Short floats\<close>

definition JS_FLOAT64_VALUE_EXP_MIN :: int where "JS_FLOAT64_VALUE_EXP_MIN = 1023 - 127"

definition JS_FLOAT64_VALUE_ADDEND :: u64 where
  "JS_FLOAT64_VALUE_ADDEND =
     push_bit 52 (of_int (JS_FLOAT64_VALUE_EXP_MIN - uint (push_bit 8 JS_TAG_SHORT_FLOAT)))"

definition rotl64 :: "u64 \<Rightarrow> nat \<Rightarrow> u64" where
  "rotl64 a n = push_bit n a OR drop_bit (64 - n) a"

definition js_get_short_float :: "JSValue \<Rightarrow> float64" where
  "js_get_short_float v = rotl64 v 60 + JS_FLOAT64_VALUE_ADDEND"

definition js_to_short_float :: "float64 \<Rightarrow> JSValue" where
  "js_to_short_float d = rotl64 (d - JS_FLOAT64_VALUE_ADDEND) 4"

lemma rotl64_inverse: "rotl64 (rotl64 a 4) 60 = a"
  by (rule bit_word_eqI) (auto simp: rotl64_def bit_simps not_less dest: bit_imp_le_length)

lemma addend: "JS_FLOAT64_VALUE_ADDEND = - (384 * 2 ^ 52)"
  by (simp add: JS_FLOAT64_VALUE_ADDEND_def JS_FLOAT64_VALUE_EXP_MIN_def JS_TAG_SHORT_FLOAT_def)

text \<open>The tag of a converted double is that of a short float exactly when the exponent fits.\<close>

lemma rotl64_4_mod: "unat (rotl64 a 4) mod 8 = unat a div 2 ^ 60 mod 8"
proof -
  have "unat (rotl64 a 4) mod 2 ^ 3 = unat (rotl64 a 4 AND mask 3)" by (simp only: unat_and_mask)
  also have "rotl64 a 4 AND mask 3 = drop_bit 60 a AND mask 3"
    by (rule bit_word_eqI) (auto simp: rotl64_def bit_simps)
  also have "unat \<dots> = unat a div 2 ^ 60 mod 2 ^ 3" by (simp only: unat_and_mask unat_drop_bit)
  finally show ?thesis by simp
qed

lemma to_short_float_tag: "JS_IsShortFloat (js_to_short_float d) \<longleftrightarrow> 896 \<le> f_exp d \<and> f_exp d \<le> 1151"
proof -
  have sub: "d - JS_FLOAT64_VALUE_ADDEND = of_nat (unat d + 384 * 2 ^ 52)"
    by (simp add: addend)
  have "unat (d - JS_FLOAT64_VALUE_ADDEND) = (unat d + 384 * 2 ^ 52) mod 2 ^ 64"
    unfolding sub by (subst unat_of_nat) simp
  also have "\<dots> div 2 ^ 60 = (unat d + 384 * 2 ^ 52) div 2 ^ 60 mod 2 ^ 4"
    using drop_bit_take_bit [of 60 64 "unat d + 384 * 2 ^ 52"]
    by (simp only: drop_bit_eq_div take_bit_eq_mod) simp
  also have "(unat d + 384 * 2 ^ 52) div 2 ^ 60 = (unat d div 2 ^ 52 + 384) div 2 ^ 8"
  proof -
    have "(unat d + 384 * 2 ^ 52) div 2 ^ 52 = unat d div 2 ^ 52 + 384" by simp
    moreover have "(unat d + 384 * 2 ^ 52) div 2 ^ 60 = (unat d + 384 * 2 ^ 52) div 2 ^ 52 div 2 ^ 8"
      by (simp flip: div_mult2_eq)
    ultimately show ?thesis by simp
  qed
  also have "unat d div 2 ^ 52 = (if f_sign d then 2 ^ 11 else 0) + f_exp d"
  proof -
    have "unat d = ((if f_sign d then 2 ^ 11 else 0) + f_exp d) * 2 ^ 52 + f_frac d"
      by (subst f_split) (simp add: algebra_simps)
    then show ?thesis using f_bounds(2) [of d] by simp
  qed
  finally have e: "unat (d - JS_FLOAT64_VALUE_ADDEND) div 2 ^ 60 mod 8 =
      ((if f_sign d then 2 ^ 11 else 0) + f_exp d + 384) div 2 ^ 8 mod 8"
    by (simp add: mod_mod_cancel)
  have "JS_IsShortFloat (js_to_short_float d) \<longleftrightarrow> (f_exp d + 384) div 2 ^ 8 mod 8 = 5"
  proof -
    have "((if f_sign d then 2 ^ 11 else 0) + f_exp d + 384) div 2 ^ 8 =
        (f_exp d + 384) div 2 ^ 8 + (if f_sign d then 8 else 0)"
      using div_mult_self1 [of 256 "f_exp d + 384" 8] by (simp add: ac_simps)
    then have "((if f_sign d then 2 ^ 11 else 0) + f_exp d + 384) div 2 ^ 8 mod 8 =
        (f_exp d + 384) div 2 ^ 8 mod 8" by simp
    then show ?thesis
      unfolding JS_IsShortFloat_iff js_to_short_float_def rotl64_4_mod e by simp
  qed
  also have "\<dots> \<longleftrightarrow> 896 \<le> f_exp d \<and> f_exp d \<le> 1151"
  proof -
    define q where "q = (f_exp d + 384) div 2 ^ 8"
    have "q < 10" unfolding q_def using f_bounds(1) [of d] by (simp add: div_less_iff_less_mult)
    then have "q mod 8 = 5 \<longleftrightarrow> q = 5" by presburger
    also have "\<dots> \<longleftrightarrow> 5 \<le> q \<and> q < 6" by auto
    also have "\<dots> \<longleftrightarrow> 896 \<le> f_exp d \<and> f_exp d \<le> 1151"
      unfolding q_def by (auto simp: div_less_iff_less_mult less_eq_div_iff_mult_less_eq)
    finally show ?thesis by (simp only: q_def)
  qed
  finally show ?thesis .
qed

lemma f_mag_bounds:
  "0 < f_exp d \<Longrightarrow> 2 ^ (51 + f_exp d) \<le> f_mag d"
  "f_mag d < 2 ^ (52 + f_exp d)"
proof -
  assume e: "0 < f_exp d"
  have "(2::nat) ^ (51 + f_exp d) = 2 ^ 52 * 2 ^ (f_exp d - 1)"
    using e by (simp only: flip: power_add) simp
  also have "\<dots> \<le> (2 ^ 52 + f_frac d) * 2 ^ (f_exp d - 1)" by (rule mult_right_mono) simp_all
  finally show "2 ^ (51 + f_exp d) \<le> f_mag d" using e by (simp only: f_mag_def) simp
next
  show "f_mag d < 2 ^ (52 + f_exp d)"
  proof (cases "f_exp d = 0")
    case False
    have "(2 ^ 52 + f_frac d) * 2 ^ (f_exp d - 1) < 2 ^ 53 * 2 ^ (f_exp d - 1)"
      using f_bounds(2) [of d] by (intro mult_strict_right_mono) simp_all
    also have "\<dots> = (2::nat) ^ (52 + f_exp d)"
      using False by (simp only: flip: power_add) simp
    finally show ?thesis using False by (simp only: f_mag_def) simp
  qed (use f_bounds(2) [of d] in \<open>simp add: f_mag_def\<close>)
qed

lemma f_mag_le_exp:
  assumes "0 < f_exp a" "f_mag a \<le> f_mag b" shows "f_exp a \<le> f_exp b"
proof -
  have "(2::nat) ^ (51 + f_exp a) < 2 ^ (52 + f_exp b)"
    using f_mag_bounds(1) [OF assms(1)] assms(2) f_mag_bounds(2) [of b] by (meson le_less_trans order.trans)
  then have "51 + f_exp a < 52 + f_exp b" by (rule power_less_imp_less_exp [rotated]) simp
  then show ?thesis by simp
qed

text \<open>
  A double whose magnitude passes the test of \<open>__JS_NewFloat64\<close>, between 2^-127 and 2^128, is
  stored in the value itself: the value is tagged as a short float and reading it back gives the
  same bits; NaN and infinity never pass the test.
\<close>
theorem short_float_roundtrip:
  assumes "f_le (f_make False 896 0) (f_abs d)" "f_le (f_abs d) (f_make False 1151 0)"
  shows "JS_IsShortFloat (js_to_short_float d) \<and> js_get_short_float (js_to_short_float d) = d \<and>
    f_exp d \<noteq> 2047"
proof -
  note fb = f_bounds [of d]
  note ab = f_make_fields [OF fb, of False, folded f_abs_def]
  note lo = f_make_fields [of 896 0 False, simplified] and hi = f_make_fields [of 1151 0 False, simplified]
  have mlo: "f_mag (f_make False 896 0) \<le> f_mag (f_abs d)"
    and mhi: "f_mag (f_abs d) \<le> f_mag (f_make False 1151 0)"
    using assms by (simp_all only: f_le_def f_val_def ab lo hi if_False of_nat_le_iff)
  have e1: "896 \<le> f_exp d" using f_mag_le_exp [OF _ mlo] by (simp add: lo ab)
  have e2: "f_exp d \<le> 1151" using f_mag_le_exp [OF _ mhi] e1 by (simp add: hi ab)
  have "js_get_short_float (js_to_short_float d) = d"
    by (simp add: js_get_short_float_def js_to_short_float_def rotl64_inverse)
  then show ?thesis using e1 e2 to_short_float_tag by simp
qed

theorem short_float_roundtrip_witness:
  "js_get_short_float (js_to_short_float 0x3ff8000000000000) = 0x3ff8000000000000"
proof -
  have f: "f_sign 0x3ff8000000000000 = False" "f_exp 0x3ff8000000000000 = 1023"
    "f_frac 0x3ff8000000000000 = 2 ^ 51"
    by (simp_all add: f_sign_def f_exp_def f_frac_def)
  note ab = f_make_fields [of 1023 "2 ^ 51" False, simplified]
    and lo = f_make_fields [of 896 0 False, simplified] and hi = f_make_fields [of 1151 0 False, simplified]
  have m: "f_mag a \<le> f_mag b" if "f_exp a < f_exp b" for a b
  proof -
    have p: "0 < f_exp b" using that by simp
    have "(2::nat) ^ (52 + f_exp a) \<le> 2 ^ (51 + f_exp b)" using that by (intro power_increasing) simp_all
    then show ?thesis
      using f_mag_bounds(2) [of a] f_mag_bounds(1) [OF p] by linarith
  qed
  have 1: "f_le (f_make False 896 0) (f_abs 0x3ff8000000000000)"
    "f_le (f_abs 0x3ff8000000000000) (f_make False 1151 0)"
    unfolding f_le_def f_val_def f_nan_def f_abs_def f ab lo hi by (simp_all add: m ab lo hi)
  show ?thesis using short_float_roundtrip [OF 1] by blast
qed

end
