(* ===== verification/JsHeap.thy ===== *)
theory JsHeap imports Float64 begin

text \<open>
  The engine's heap (\<open>native/mquickjs/mquickjs.c\<close>): typed memory blocks that tile the area between
  \<open>heap_base\<close> and \<open>heap_free\<close>, the bump allocator below the stack, shrinking and freeing of blocks,
  and the boxed values built on it. A block is a constructor per \<open>mtag\<close>, with the fields of the
  corresponding C struct; its size in bytes is \<open>get_mblock_size\<close> on a 64 bit target.

  The garbage collector and the construction of error objects are the environment \<open>js_env\<close>: the
  allocator calls them, and the properties state what they rely on.
\<close>

unbundle bit_operations_syntax

section \<open>Memory blocks\<close>

record JSString =
  is_unique :: bool
  is_ascii :: bool
  is_numeric :: bool
  str_buf :: "u8 list"

text \<open>The union of the object's additional data.\<close>

datatype obj_data =
    U_none
  | U_closure JSValue "JSValue list"
  | U_cfunc u32 "JSValue option"
  | U_array JSValue u32
  | U_error JSValue JSValue
  | U_array_buffer JSValue
  | U_typed_array JSValue u32 u32
  | U_regexp JSValue JSValue s32
  | U_date float64
  | U_user u64

record JSObject =
  class_id :: nat
  extra_size :: nat
  obj_proto :: JSValue
  obj_props :: JSValue
  obj_u :: obj_data

record JSFunctionBytecode =
  has_arguments :: bool
  has_local_func_name :: bool
  has_column :: bool
  arg_count :: u16
  func_name :: JSValue
  byte_code :: JSValue
  cpool :: JSValue
  fb_vars :: JSValue
  ext_vars :: JSValue
  stack_size :: u16
  ext_vars_len :: u16
  fb_filename :: JSValue
  pc2line :: JSValue
  source_pos :: u32

datatype mblock =
    MB_free nat
  | MB_object JSObject
  | MB_float64 float64
  | MB_string JSString
  | MB_function_bytecode JSFunctionBytecode
  | MB_value_array "JSValue list"
  | MB_byte_array "u8 list"
  | MB_varref_detached JSValue
  | MB_varref_open JSValue u64

definition round_up_jsw :: "nat \<Rightarrow> nat" where
  "round_up_jsw n = (n + (JSW - 1)) div JSW * JSW"

fun get_mblock_size :: "mblock \<Rightarrow> nat" where
  "get_mblock_size (MB_free n) = 8 + n * JSW"
| "get_mblock_size (MB_object p) = 24 + extra_size p * JSW"
| "get_mblock_size (MB_float64 d) = 16"
| "get_mblock_size (MB_string p) = 8 + (length (str_buf p) + JSW) div JSW * JSW"
| "get_mblock_size (MB_function_bytecode b) = 80"
| "get_mblock_size (MB_value_array xs) = 8 + length xs * 8"
| "get_mblock_size (MB_byte_array bs) = 8 + (length bs + JSW - 1) div JSW * JSW"
| "get_mblock_size (MB_varref_detached v) = 24 - 8"
| "get_mblock_size (MB_varref_open n p) = 24"

section \<open>The context\<close>

record pos_cache_entry =
  ce_str :: JSValue
  ce_utf8 :: nat
  ce_utf16 :: nat

record JSContext =
  heap_base :: nat
  heap_free :: nat
  stack_top :: nat
  stack_bottom :: int
  ctx_sp :: nat
  min_free_size :: u32
  in_out_of_memory :: bool
  heap :: "nat \<Rightarrow> mblock option"
  top_gc_ref :: "JSValue list"
  string_pos_cache :: "pos_cache_entry list"
  string_pos_cache_counter :: nat
  unique_strings :: JSValue
  unique_strings_len :: nat
  rom_atom_tables :: "JSValue list list"
  current_exception :: JSValue
  current_exception_is_uncatchable :: bool
  empty_props :: JSValue
  minus_zero :: JSValue
  class_proto :: "JSValue list"
  class_obj :: "JSValue list"
  global_obj :: JSValue
  atom_empty :: JSValue
  ctx_addr :: nat

record js_env =
  JS_GC :: "JSContext \<Rightarrow> JSContext"
  JS_ThrowOutOfMemory :: "JSContext \<Rightarrow> JSContext"
  JS_ThrowInternalError :: "JSContext \<Rightarrow> string \<Rightarrow> JSContext"

definition ptr_val :: "nat \<Rightarrow> JSValue" where
  "ptr_val a = JS_VALUE_FROM_PTR (of_nat a)"

definition val_ptr :: "JSValue \<Rightarrow> nat" where
  "val_ptr v = unat (JS_VALUE_TO_PTR v)"

definition block_of :: "JSContext \<Rightarrow> JSValue \<Rightarrow> mblock option" where
  "block_of ctx v = heap ctx (val_ptr v)"

definition JS_PushGCRef :: "JSContext \<Rightarrow> JSValue \<Rightarrow> JSContext" where
  "JS_PushGCRef ctx v = ctx\<lparr>top_gc_ref := v # top_gc_ref ctx\<rparr>"

definition JS_PopGCRef :: "JSContext \<Rightarrow> JSContext \<times> JSValue" where
  "JS_PopGCRef ctx = (ctx\<lparr>top_gc_ref := tl (top_gc_ref ctx)\<rparr>, hd (top_gc_ref ctx))"

definition JS_Throw :: "JSContext \<Rightarrow> JSValue \<Rightarrow> JSContext \<times> JSValue" where
  "JS_Throw ctx obj =
     (ctx\<lparr>current_exception := obj, current_exception_is_uncatchable := False\<rparr>, JS_EXCEPTION)"

definition JS_HasException :: "JSContext \<Rightarrow> bool" where
  "JS_HasException ctx \<longleftrightarrow> \<not> JS_IsUninitialized (current_exception ctx)"

definition JS_GetException :: "JSContext \<Rightarrow> JSContext \<times> JSValue" where
  "JS_GetException ctx = (ctx\<lparr>current_exception := JS_UNINITIALIZED\<rparr>, current_exception ctx)"

section \<open>Allocation\<close>

text \<open>
  \<open>size + ctx->min_free_size\<close> is computed in \<open>uint32_t\<close>; the pointer difference is signed.
  The result says whether there is room.
\<close>

definition free_mem_short :: "JSContext \<Rightarrow> int \<Rightarrow> u32 \<Rightarrow> bool" where
  "free_mem_short ctx bottom sz \<longleftrightarrow> bottom - int (heap_free ctx) < uint (sz + min_free_size ctx)"

definition check_free_mem :: "js_env \<Rightarrow> JSContext \<Rightarrow> int \<Rightarrow> u32 \<Rightarrow> JSContext \<times> bool" where
  "check_free_mem env ctx bottom sz =
     (if free_mem_short ctx bottom sz then
        let ctx1 = JS_GC env ctx in
        if free_mem_short ctx1 bottom sz then (JS_ThrowOutOfMemory env ctx1, False) else (ctx1, True)
      else (ctx, True))"

definition JS_STACK_SLACK :: u32 where "JS_STACK_SLACK = 16"

definition JS_StackCheck :: "js_env \<Rightarrow> JSContext \<Rightarrow> u32 \<Rightarrow> JSContext \<times> bool" where
  "JS_StackCheck env ctx len =
     (let len1 = len + JS_STACK_SLACK; new_bottom = int (ctx_sp ctx) - uint len1 * 8 in
      case check_free_mem env ctx new_bottom (len1 * 8) of
        (ctx1, ok) \<Rightarrow> (if ok then ctx1\<lparr>stack_bottom := new_bottom\<rparr> else ctx1, ok))"

text \<open>
  \<open>js_malloc\<close> with the block its caller initialises it to; \<open>size\<close> is what the caller asks for. The
  result is the address.
\<close>

definition js_malloc :: "js_env \<Rightarrow> JSContext \<Rightarrow> u32 \<Rightarrow> mblock \<Rightarrow> JSContext \<times> nat option" where
  "js_malloc env ctx sz mb =
     (if sz = 0 then (ctx, None)
      else let size1 = (sz + of_nat JSW - 1) AND NOT (of_nat JSW - 1) in
        case check_free_mem env ctx (stack_bottom ctx) size1 of
          (ctx1, False) \<Rightarrow> (ctx1, None)
        | (ctx1, True) \<Rightarrow>
            (ctx1\<lparr>heap := (heap ctx1)(heap_free ctx1 \<mapsto> mb), heap_free := heap_free ctx1 + unat size1\<rparr>,
             Some (heap_free ctx1)))"

text \<open>Only the last block is given back.\<close>

definition js_free :: "JSContext \<Rightarrow> nat \<Rightarrow> JSContext" where
  "js_free ctx p =
     (case heap ctx p of
        None \<Rightarrow> ctx
      | Some mb \<Rightarrow> if p + get_mblock_size mb = heap_free ctx
                   then ctx\<lparr>heap_free := p, heap := (heap ctx)(p := None)\<rparr> else ctx)"

definition set_free_block :: "JSContext \<Rightarrow> nat \<Rightarrow> nat \<Rightarrow> JSContext" where
  "set_free_block ctx p sz = ctx\<lparr>heap := (heap ctx)(p \<mapsto> MB_free ((sz - 8) div JSW))\<rparr>"

text \<open>
  \<open>js_shrink\<close> with the block the caller changes the header to afterwards; the assertion on the new
  size is \<open>None\<close>.
\<close>

definition js_shrink :: "JSContext \<Rightarrow> nat \<Rightarrow> nat \<Rightarrow> mblock \<Rightarrow> (JSContext \<times> nat option) option" where
  "js_shrink ctx p new_size mb =
     (let new_size1 = round_up_jsw new_size in
      if new_size1 = 0 then Some (js_free ctx p, None)
      else case heap ctx p of
        None \<Rightarrow> None
      | Some old \<Rightarrow>
          let old_size = get_mblock_size old in
          if new_size1 > old_size then None
          else let diff = old_size - new_size1;
                   ctx1 = (if diff = 0 then ctx else set_free_block ctx (p + new_size1) diff) in
            Some (ctx1\<lparr>heap := (heap ctx1)(p \<mapsto> mb)\<rparr>, Some p))"

section \<open>The blocks tile the heap\<close>

text \<open>\<open>bs\<close> are the blocks from address \<open>a\<close> up to \<open>b\<close>, without gaps.\<close>

fun layout :: "(nat \<Rightarrow> mblock option) \<Rightarrow> nat \<Rightarrow> mblock list \<Rightarrow> nat \<Rightarrow> bool" where
  "layout h a [] b \<longleftrightarrow> a = b"
| "layout h a (mb # bs) b \<longleftrightarrow> h a = Some mb \<and> layout h (a + get_mblock_size mb) bs b"

text \<open>The walk the collector makes: block starts, following the sizes, at most \<open>n\<close> of them.\<close>

fun heap_walk :: "nat \<Rightarrow> (nat \<Rightarrow> mblock option) \<Rightarrow> nat \<Rightarrow> nat \<Rightarrow> mblock list option" where
  "heap_walk 0 h a b = (if a = b then Some [] else None)"
| "heap_walk (Suc n) h a b =
     (if a = b then Some []
      else case h a of None \<Rightarrow> None
        | Some mb \<Rightarrow> map_option ((#) mb) (heap_walk n h (a + get_mblock_size mb) b))"

definition heap_ok :: "JSContext \<Rightarrow> bool" where
  "heap_ok ctx \<longleftrightarrow>
     (\<exists>bs. layout (heap ctx) (heap_base ctx) bs (heap_free ctx)) \<and>
     8 dvd heap_base ctx"

lemma size_pos: "0 < get_mblock_size mb"
  by (cases mb) simp_all

lemma size_dvd: "8 dvd get_mblock_size mb"
  by (cases mb) (simp_all add: JSW_def)

lemma layout_le: "layout h a bs b \<Longrightarrow> a \<le> b"
proof (induction bs arbitrary: a)
  case (Cons mb bs)
  then show ?case using add_leD1 by fastforce
qed simp

lemma layout_dvd: "layout h a bs b \<Longrightarrow> 8 dvd a \<Longrightarrow> 8 dvd b"
  by (induction bs arbitrary: a) (auto intro: dvd_add size_dvd)

lemma layout_append:
  "layout h a (bs @ cs) b \<longleftrightarrow> (\<exists>m. layout h a bs m \<and> layout h m cs b)"
  by (induction bs arbitrary: a) auto

lemma layout_cong:
  "(\<And>x. a \<le> x \<Longrightarrow> x < b \<Longrightarrow> h' x = h x) \<Longrightarrow> layout h a bs b \<Longrightarrow> layout h' a bs b"
proof (induction bs arbitrary: a)
  case (Cons mb bs)
  have lt: "a < b"
    using Cons.prems(2) layout_le [of h "a + get_mblock_size mb" bs b] size_pos [of mb] by auto
  have "layout h' (a + get_mblock_size mb) bs b"
    using Cons.prems by (intro Cons.IH) auto
  moreover have "h' a = Some mb" using Cons.prems lt by simp
  ultimately show ?case by simp
qed simp

lemma layout_unique: "layout h a bs b \<Longrightarrow> layout h a cs b \<Longrightarrow> bs = cs"
proof (induction bs arbitrary: a cs)
  case Nil
  then show ?case
  proof (cases cs)
    case (Cons mb cs')
    then show ?thesis
      using Nil layout_le [of h "a + get_mblock_size mb" cs' b] size_pos [of mb] by auto
  qed simp
next
  case (Cons mb bs)
  have "a \<noteq> b"
    using Cons.prems(1) layout_le [of h "a + get_mblock_size mb" bs b] size_pos [of mb] by auto
  with Cons show ?case by (cases cs) auto
qed

text \<open>The walk terminates and lists exactly the blocks.\<close>

lemma heap_walk_layout: "layout h a bs b \<Longrightarrow> length bs \<le> n \<Longrightarrow> heap_walk n h a b = Some bs"
proof (induction bs arbitrary: a n)
  case Nil
  then show ?case by (cases n) auto
next
  case (Cons mb bs)
  have "a \<noteq> b"
    using Cons.prems(1) layout_le [of h "a + get_mblock_size mb" bs b] size_pos [of mb] by auto
  with Cons show ?case by (cases n) auto
qed

lemma layout_end: "layout h a bs b \<Longrightarrow> b = a + sum_list (map get_mblock_size bs)"
proof (induction bs arbitrary: a)
  case (Cons mb bs)
  from Cons.prems have "layout h (a + get_mblock_size mb) bs b" by simp
  from Cons.IH [OF this] show ?case by simp
qed simp

lemma layout_outside: "x < a \<or> b \<le> x \<Longrightarrow> layout h a bs b \<Longrightarrow> layout (h(x := y)) a bs b"
  by (rule layout_cong) auto

section \<open>The allocator keeps the heap tiled\<close>

lemma and_not_mask: "w AND NOT (mask n) = push_bit n (drop_bit n w)" for w :: "'a::len word"
  by (rule bit_word_eqI) (auto simp: bit_simps)

lemma unat_round_up:
  fixes sz :: u32
  assumes "unat sz < 2 ^ 32 - 7"
  shows "unat ((sz + of_nat JSW - 1) AND NOT (of_nat JSW - 1)) = round_up_jsw (unat sz)"
proof -
  have m: "(of_nat JSW - 1 :: u32) = mask 3" by (simp add: JSW_def mask_eq_exp_minus_1)
  have s: "sz + of_nat JSW - 1 = sz + 7" by (simp add: JSW_def)
  have u: "unat (sz + 7) = unat sz + 7"
    using assms by (subst unat_add_small) simp_all
  have "unat (push_bit 3 (drop_bit 3 (sz + 7))) = unat (sz + 7) div 2 ^ 3 * 2 ^ 3"
    using unsigned_less [of "sz + 7", where 'a = nat]
    by (subst unat_push_bit) (simp_all add: unat_drop_bit del: push_bit_of_1)
  then show ?thesis
    unfolding s m and_not_mask u by (simp add: round_up_jsw_def JSW_def)
qed

text \<open>What the allocator relies on the collector for: the heap stays tiled, and the stack stays put.\<close>

definition gc_ok :: "js_env \<Rightarrow> bool" where
  "gc_ok env \<longleftrightarrow> (\<forall>c. heap_ok c \<longrightarrow> heap_ok (JS_GC env c) \<and> heap_base (JS_GC env c) = heap_base c \<and>
     stack_bottom (JS_GC env c) = stack_bottom c \<and> min_free_size (JS_GC env c) = min_free_size c)"

lemma heap_ok_append:
  assumes "heap_ok c"
  shows "heap_ok (c\<lparr>heap := (heap c)(heap_free c \<mapsto> mb), heap_free := heap_free c + get_mblock_size mb\<rparr>)"
proof -
  from assms obtain bs where bs: "layout (heap c) (heap_base c) bs (heap_free c)"
    by (auto simp: heap_ok_def)
  have "layout ((heap c)(heap_free c \<mapsto> mb)) (heap_base c) (bs @ [mb]) (heap_free c + get_mblock_size mb)"
    unfolding layout_append using layout_outside [OF _ bs, of "heap_free c" "Some mb"] by auto
  then show ?thesis
    using assms size_pos [of mb] by (auto simp: heap_ok_def)
qed

text \<open>The room that a block of \<open>n\<close> bytes needs, with what must stay free below the stack.\<close>

definition has_room :: "JSContext \<Rightarrow> int \<Rightarrow> nat \<Rightarrow> bool" where
  "has_room c bottom n \<longleftrightarrow> int (heap_free c) + int n + int (unat (min_free_size c)) \<le> bottom"

lemma malloc_success:
  assumes "heap_ok ctx" "gc_ok env" "js_malloc env ctx sz mb = (ctx', Some p)"
    "unat sz + unat (min_free_size ctx) + 8 < 2 ^ 32" "get_mblock_size mb = round_up_jsw (unat sz)"
  shows "heap_ok ctx' \<and> 8 dvd p \<and> heap ctx' p = Some mb \<and> heap_free ctx' = p + round_up_jsw (unat sz) \<and>
    int (heap_free ctx') + int (unat (min_free_size ctx)) \<le> stack_bottom ctx \<and>
    (\<exists>c \<in> {ctx, JS_GC env ctx}. p = heap_free c \<and> (\<forall>a. a \<noteq> p \<longrightarrow> heap ctx' a = heap c a))"
proof -
  define s1 where "s1 = (sz + of_nat JSW - 1) AND NOT (of_nat JSW - 1)"
  have u: "unat s1 = round_up_jsw (unat sz)"
    unfolding s1_def by (rule unat_round_up) (use assms(4) in simp)
  have le: "round_up_jsw (unat sz) \<le> unat sz + 7"
    by (simp add: round_up_jsw_def JSW_def)
  have nz: "sz \<noteq> 0" using assms(3) by (auto simp: js_malloc_def)
  obtain c ok where cf: "check_free_mem env ctx (stack_bottom ctx) s1 = (c, ok)"
    by (cases "check_free_mem env ctx (stack_bottom ctx) s1")
  have mal: "js_malloc env ctx sz mb =
      (if ok then (c\<lparr>heap := (heap c)(heap_free c \<mapsto> mb), heap_free := heap_free c + unat s1\<rparr>,
             Some (heap_free c)) else (c, None))"
    using nz unfolding js_malloc_def Let_def s1_def [symmetric] cf by (cases ok) simp_all
  then have ok: "ok" using assms(3) by (cases ok) simp_all
  have cm: "check_free_mem env ctx (stack_bottom ctx) s1 = (c, True)"
    "ctx' = c\<lparr>heap := (heap c)(heap_free c \<mapsto> mb), heap_free := heap_free c + unat s1\<rparr>" "p = heap_free c"
  proof -
    have e: "(c\<lparr>heap := (heap c)(heap_free c \<mapsto> mb), heap_free := heap_free c + unat s1\<rparr>,
             Some (heap_free c)) = (ctx', Some p)"
      using mal ok assms(3) by simp
    show "check_free_mem env ctx (stack_bottom ctx) s1 = (c, True)" using cf ok by simp
    show "ctx' = c\<lparr>heap := (heap c)(heap_free c \<mapsto> mb), heap_free := heap_free c + unat s1\<rparr>"
      by (rule prod.inject [THEN iffD1, THEN conjunct1, OF e, symmetric])
    show "p = heap_free c"
      using prod.inject [THEN iffD1, THEN conjunct2, OF e] by simp
  qed
  have c: "c \<in> {ctx, JS_GC env ctx}" and room: "\<not> free_mem_short c (stack_bottom ctx) s1"
    using cm(1) by (auto simp: check_free_mem_def Let_def split: if_splits)
  have okc: "heap_ok c" and mf: "min_free_size c = min_free_size ctx"
    using c assms(1,2) by (auto simp: gc_ok_def)
  have "unat (s1 + min_free_size ctx) = unat s1 + unat (min_free_size ctx)"
    using assms(4) le by (intro unat_add_small) (simp add: u)
  then have sum: "uint (s1 + min_free_size ctx) = int (round_up_jsw (unat sz)) + int (unat (min_free_size ctx))"
    by (metis u of_nat_add uint_nat)
  have "int (heap_free c) + int (round_up_jsw (unat sz)) + int (unat (min_free_size ctx)) \<le> stack_bottom ctx"
    using room unfolding free_mem_short_def mf sum by linarith
  moreover have "heap_ok ctx'"
    using heap_ok_append [OF okc, of mb] assms(5) by (simp add: cm(2) u)
  moreover have "8 dvd p"
  proof -
    obtain bs where "layout (heap c) (heap_base c) bs (heap_free c)" "8 dvd heap_base c"
      using okc by (auto simp: heap_ok_def)
    then show ?thesis unfolding cm(3) by (rule layout_dvd)
  qed
  ultimately show ?thesis using c by (auto simp: cm u)
qed

lemma free_mem_short_room:
  assumes "unat sz + unat (min_free_size c) + 8 < 2 ^ 32"
  shows "free_mem_short c bottom ((sz + of_nat JSW - 1) AND NOT (of_nat JSW - 1)) \<longleftrightarrow>
    \<not> has_room c bottom (round_up_jsw (unat sz))"
proof -
  define s1 where "s1 = (sz + of_nat JSW - 1) AND NOT (of_nat JSW - 1)"
  have u: "unat s1 = round_up_jsw (unat sz)"
    unfolding s1_def by (rule unat_round_up) (use assms in simp)
  have "round_up_jsw (unat sz) \<le> unat sz + 7" by (simp add: round_up_jsw_def JSW_def)
  then have "unat (s1 + min_free_size c) = unat s1 + unat (min_free_size c)"
    using assms by (intro unat_add_small) (simp add: u)
  then have "uint (s1 + min_free_size c) = int (round_up_jsw (unat sz)) + int (unat (min_free_size c))"
    by (metis u of_nat_add uint_nat)
  then show ?thesis unfolding free_mem_short_def has_room_def s1_def [symmetric] by linarith
qed

lemma malloc_outcome:
  assumes "heap_ok ctx" "gc_ok env" "sz \<noteq> 0" "unat sz + unat (min_free_size ctx) + 8 < 2 ^ 32"
  shows "snd (js_malloc env ctx sz mb) =
      (if has_room ctx (stack_bottom ctx) (round_up_jsw (unat sz)) then Some (heap_free ctx)
       else if has_room (JS_GC env ctx) (stack_bottom ctx) (round_up_jsw (unat sz)) then Some (heap_free (JS_GC env ctx))
       else None)"
    "snd (js_malloc env ctx sz mb) = None \<Longrightarrow> fst (js_malloc env ctx sz mb) = JS_ThrowOutOfMemory env (JS_GC env ctx)"
proof -
  have g: "unat sz + unat (min_free_size (JS_GC env ctx)) + 8 < 2 ^ 32" using assms(1,2,4) by (simp add: gc_ok_def)
  note r = free_mem_short_room [OF assms(4)] free_mem_short_room [OF g]
  show "snd (js_malloc env ctx sz mb) =
      (if has_room ctx (stack_bottom ctx) (round_up_jsw (unat sz)) then Some (heap_free ctx)
       else if has_room (JS_GC env ctx) (stack_bottom ctx) (round_up_jsw (unat sz)) then Some (heap_free (JS_GC env ctx))
       else None)"
    "snd (js_malloc env ctx sz mb) = None \<Longrightarrow> fst (js_malloc env ctx sz mb) = JS_ThrowOutOfMemory env (JS_GC env ctx)"
    using assms(3) unfolding js_malloc_def check_free_mem_def Let_def r by (simp_all split: if_splits)
qed

text \<open>
  C31: an allocation of size 0 answers no block, without an exception and with nothing changed. Any other
  succeeds exactly when the block fits, with \<open>min_free_size\<close> bytes left below the stack, in the heap as it is
  or as the collector leaves it; then the block is at an aligned address at the end of the tiled heap,
  every other block is where the collector left it, and the heap is still tiled by \<open>get_mblock_size\<close>. When
  it fails, the result is the collected and still tiled heap on which \<open>JS_ThrowOutOfMemory\<close> was called.
\<close>
theorem js_malloc_tiles:
  assumes "heap_ok ctx" "gc_ok env" "js_malloc env ctx sz mb = (ctx', r)"
    "unat sz + unat (min_free_size ctx) + 8 < 2 ^ 32" "get_mblock_size mb = round_up_jsw (unat sz)"
  shows "if sz = 0 then r = None \<and> ctx' = ctx else
    r = (if has_room ctx (stack_bottom ctx) (round_up_jsw (unat sz)) then Some (heap_free ctx)
         else if has_room (JS_GC env ctx) (stack_bottom ctx) (round_up_jsw (unat sz)) then Some (heap_free (JS_GC env ctx))
         else None) \<and>
    (case r of
       Some p \<Rightarrow> heap_ok ctx' \<and> 8 dvd p \<and> heap ctx' p = Some mb \<and> heap_free ctx' = p + round_up_jsw (unat sz) \<and>
         int (heap_free ctx') + int (unat (min_free_size ctx)) \<le> stack_bottom ctx \<and>
         (\<exists>c \<in> {ctx, JS_GC env ctx}. p = heap_free c \<and> (\<forall>a. a \<noteq> p \<longrightarrow> heap ctx' a = heap c a))
     | None \<Rightarrow> heap_ok (JS_GC env ctx) \<and> ctx' = JS_ThrowOutOfMemory env (JS_GC env ctx))"
proof (cases "sz = 0")
  case True
  then show ?thesis using assms(3) by (simp add: js_malloc_def)
next
  case False
  note o = malloc_outcome [OF assms(1,2) False assms(4), of mb, unfolded assms(3) fst_conv snd_conv]
  show ?thesis
  proof (cases r)
    case None
    have "heap_ok (JS_GC env ctx)" using assms(1,2) by (simp add: gc_ok_def)
    then show ?thesis using False None o(1) o(2) [OF None] by (simp only: if_False option.case simp_thms)
  next
    case (Some p)
    show ?thesis
      unfolding if_not_P [OF False] Some option.case
      using conjI [OF o(1) [unfolded Some] malloc_success [OF assms(1,2) assms(3) [unfolded Some] assms(4,5)]] .
  qed
qed

text \<open>A context with an empty heap of 4 KB and an environment that does nothing, for examples.\<close>

definition blank_ctx :: JSContext where
  "blank_ctx = \<lparr>heap_base = 64, heap_free = 64, stack_top = 4096, stack_bottom = 4096, ctx_sp = 4096,
     min_free_size = 512, in_out_of_memory = False, heap = (\<lambda>_. None), top_gc_ref = [],
     string_pos_cache = replicate 2 \<lparr>ce_str = JS_NULL, ce_utf8 = 0, ce_utf16 = 0\<rparr>,
     string_pos_cache_counter = 0, unique_strings = JS_NULL,
     unique_strings_len = 0, rom_atom_tables = [], current_exception = JS_UNINITIALIZED,
     current_exception_is_uncatchable = False, empty_props = JS_NULL, minus_zero = JS_NULL,
     class_proto = [], class_obj = [], global_obj = JS_NULL, atom_empty = JS_NULL, ctx_addr = 0\<rparr>"

definition idle_env :: js_env where
  "idle_env = \<lparr>JS_GC = (\<lambda>c. c), JS_ThrowOutOfMemory = (\<lambda>c. c), JS_ThrowInternalError = (\<lambda>c m. c)\<rparr>"

lemma blank_ok: "heap_ok blank_ctx" "gc_ok idle_env"
  by (auto simp: heap_ok_def gc_ok_def blank_ctx_def idle_env_def intro: exI [of _ "[]"])

theorem js_malloc_tiles_witness:
  "snd (js_malloc idle_env blank_ctx 16 (MB_float64 0)) = Some 64 \<and>
   heap_ok (fst (js_malloc idle_env blank_ctx 16 (MB_float64 0))) \<and>
   snd (js_malloc idle_env blank_ctx 4000 (MB_free 499)) = None"
proof -
  have s: "get_mblock_size (MB_float64 0) = round_up_jsw (unat (16 :: u32))"
    "get_mblock_size (MB_free 499) = round_up_jsw (unat (4000 :: u32))"
    by (simp_all add: round_up_jsw_def JSW_def)
  have l: "unat (16 :: u32) + unat (min_free_size blank_ctx) + 8 < 2 ^ 32"
    "unat (4000 :: u32) + unat (min_free_size blank_ctx) + 8 < 2 ^ 32" by (simp_all add: blank_ctx_def)
  note t = js_malloc_tiles [OF blank_ok prod.collapse [symmetric]]
  have f: "has_room blank_ctx (stack_bottom blank_ctx) (round_up_jsw (unat (16 :: u32)))" "heap_free blank_ctx = 64"
    "\<not> has_room blank_ctx (stack_bottom blank_ctx) (round_up_jsw (unat (4000 :: u32)))" "JS_GC idle_env blank_ctx = blank_ctx"
    by (simp_all add: has_room_def blank_ctx_def idle_env_def round_up_jsw_def JSW_def)
  have z: "(16 :: u32) \<noteq> 0" "(4000 :: u32) \<noteq> 0" by simp_all
  have 1: "snd (js_malloc idle_env blank_ctx 16 (MB_float64 0)) = Some 64"
    using t [OF l(1) s(1)] unfolding if_not_P [OF z(1)] if_P [OF f(1)] f(2) by (rule conjunct1)
  have 2: "heap_ok (fst (js_malloc idle_env blank_ctx 16 (MB_float64 0)))"
    using t [OF l(1) s(1)] unfolding if_not_P [OF z(1)] 1 option.case by blast
  have "snd (js_malloc idle_env blank_ctx 4000 (MB_free 499)) = None"
    using t [OF l(2) s(2)] unfolding if_not_P [OF z(2)] f(4) if_not_P [OF f(3)] by (rule conjunct1)
  with 1 2 show ?thesis by simp
qed

lemma js_free_ok:
  assumes "heap_ok ctx" "layout (heap ctx) (heap_base ctx) (bs @ [mb]) (heap_free ctx)"
    "heap_free ctx = p + get_mblock_size mb"
  shows "heap_ok (js_free ctx p) \<and> heap_free (js_free ctx p) = p"
proof -
  obtain m where m: "layout (heap ctx) (heap_base ctx) bs m" "heap ctx m = Some mb"
    "m + get_mblock_size mb = heap_free ctx"
    using assms(2) by (auto simp: layout_append)
  have mp: "m = p" using m(3) assms(3) by simp
  have eq: "js_free ctx p = ctx\<lparr>heap_free := p, heap := (heap ctx)(p := None)\<rparr>"
    using m(2) mp assms(3) by (simp add: js_free_def)
  have "layout ((heap ctx)(p := None)) (heap_base ctx) bs p"
    using layout_outside [OF _ m(1) [unfolded mp], of p None] by simp
  then show ?thesis
    using assms(1) unfolding eq by (auto simp: heap_ok_def)
qed

text \<open>Shrinking splits the block; the rest becomes a free block.\<close>

lemma js_shrink_ok:
  assumes "layout (heap ctx) (heap_base ctx) (bs @ old # cs) (heap_free ctx)" "8 dvd heap_base ctx"
    "p = heap_base ctx + sum_list (map get_mblock_size bs)"
    "js_shrink ctx p new_size mb = Some (ctx', r)" "0 < new_size" "get_mblock_size mb = round_up_jsw new_size"
  shows "heap_ok ctx' \<and> r = Some p \<and> heap_free ctx' = heap_free ctx \<and>
    layout (heap ctx') (heap_base ctx')
      (bs @ mb # (if get_mblock_size old = round_up_jsw new_size then []
                  else [MB_free ((get_mblock_size old - round_up_jsw new_size - 8) div JSW)]) @ cs) (heap_free ctx')"
proof -
  let ?n = "round_up_jsw new_size" and ?o = "get_mblock_size old"
  obtain m where m: "layout (heap ctx) (heap_base ctx) bs m" "heap ctx m = Some old"
    "layout (heap ctx) (m + ?o) cs (heap_free ctx)"
    using assms(1) by (auto simp: layout_append)
  have mp: "m = p" using layout_end [OF m(1)] assms(3) by simp
  have n0: "?n \<noteq> 0" using assms(5) by (simp add: round_up_jsw_def JSW_def)
  have le: "?n \<le> ?o"
    using assms(4) n0 m(2) mp by (auto simp: js_shrink_def Let_def split: if_splits)
  have d8: "8 dvd ?o - ?n" using size_dvd [of old] by (simp add: round_up_jsw_def JSW_def dvd_diff_nat)
  let ?c = "if ?o - ?n = 0 then ctx else set_free_block ctx (p + ?n) (?o - ?n)"
  have eq: "ctx' = ?c\<lparr>heap := (heap ?c)(p \<mapsto> mb)\<rparr>" "r = Some p"
    using assms(4) n0 m(2) mp le by (auto simp: js_shrink_def Let_def)
  have pre: "layout (heap ctx') (heap_base ctx) bs p"
    using m(1) mp by (intro layout_cong [OF _ m(1) [unfolded mp]]) (auto simp: eq set_free_block_def n0)
  have post: "layout (heap ctx') (p + ?o) cs (heap_free ctx)"
    using m(3) unfolding mp
    by (rule layout_cong [rotated]) (use le size_pos [of old] n0 in \<open>auto simp: eq set_free_block_def\<close>)
  have at: "heap ctx' p = Some mb" by (simp add: eq)
  have sel: "heap_base ctx' = heap_base ctx" "heap_free ctx' = heap_free ctx"
    by (simp_all add: eq set_free_block_def)
  have lay: "layout (heap ctx') (heap_base ctx')
      (bs @ mb # (if ?o = ?n then [] else [MB_free ((?o - ?n - 8) div JSW)]) @ cs) (heap_free ctx')"
  proof (cases "?o = ?n")
    case True
    then show ?thesis using pre post at assms(6) by (auto simp: layout_append sel)
  next
    case False
    then have pos: "0 < ?o - ?n" using le by simp
    then have "8 \<le> ?o - ?n" using d8 by (metis dvd_imp_le)
    then have sz: "get_mblock_size (MB_free ((?o - ?n - 8) div JSW)) = ?o - ?n"
    proof -
      obtain q where q: "?o - ?n = 8 * q" using d8 by (elim dvdE)
      with pos have "0 < q" by simp
      then show ?thesis by (simp add: q JSW_def diff_mult_distrib2 [symmetric, of 8 q 1, simplified])
    qed
    have "heap ctx' (p + ?n) = Some (MB_free ((?o - ?n - 8) div JSW))"
      using False le n0 by (auto simp: eq set_free_block_def)
    then show ?thesis
      using False pre post at assms(6) sz le by (auto simp: layout_append sel)
  qed
  then show ?thesis using assms(2) eq sel by (auto simp: heap_ok_def)
qed

end
