(* ===== verification/JsAlloc.thy ===== *)
theory JsAlloc imports JsHeap begin

text \<open>
  Values that live in the heap (\<open>native/mquickjs/mquickjs.c\<close>): boxing of numbers, class tests, value
  and byte arrays with their growth and shrinking, and objects without properties.
\<close>

unbundle bit_operations_syntax

section \<open>Numbers\<close>

definition js_alloc_float64 :: "js_env \<Rightarrow> JSContext \<Rightarrow> float64 \<Rightarrow> JSContext \<times> JSValue" where
  "js_alloc_float64 env ctx d =
     (case js_malloc env ctx 16 (MB_float64 d) of
        (ctx1, None) \<Rightarrow> (ctx1, JS_EXCEPTION)
      | (ctx1, Some p) \<Rightarrow> (ctx1, ptr_val p))"

text \<open>\<open>__JS_NewFloat64\<close>; \<open>0x1p-127\<close> and \<open>0x1p+128\<close> are the doubles with exponents 896 and 1151.\<close>

definition new_float64 :: "js_env \<Rightarrow> JSContext \<Rightarrow> float64 \<Rightarrow> JSContext \<times> JSValue" where
  "new_float64 env ctx d =
     (if d = 0x8000000000000000 then (ctx, minus_zero ctx)
      else if f_le (f_make False 896 0) (f_abs d) \<and> f_le (f_abs d) (f_make False 1151 0)
      then (ctx, js_to_short_float d)
      else js_alloc_float64 env ctx d)"

definition JS_NewFloat64 :: "js_env \<Rightarrow> JSContext \<Rightarrow> float64 \<Rightarrow> JSContext \<times> JSValue" where
  "JS_NewFloat64 env ctx d =
     (case float_short_int d of
        Some val \<Rightarrow> (ctx, JS_NewShortInt val)
      | None \<Rightarrow> new_float64 env ctx d)"

definition JS_NewInt64 :: "js_env \<Rightarrow> JSContext \<Rightarrow> s64 \<Rightarrow> JSContext \<times> JSValue" where
  "JS_NewInt64 env ctx val =
     (if int64_is_short_int val then (ctx, JS_NewShortInt (ucast val))
      else new_float64 env ctx (f_of_int (sint val)))"

definition JS_NewInt32 :: "js_env \<Rightarrow> JSContext \<Rightarrow> s32 \<Rightarrow> JSContext \<times> JSValue" where
  "JS_NewInt32 env ctx val = JS_NewInt64 env ctx (scast val)"

definition JS_NewUint32 :: "js_env \<Rightarrow> JSContext \<Rightarrow> u32 \<Rightarrow> JSContext \<times> JSValue" where
  "JS_NewUint32 env ctx val = JS_NewInt64 env ctx (ucast val)"

text \<open>
  \<open>JS_ToNumber\<close>. \<open>prim\<close> is \<open>JS_ToPrimitive\<close> with the hint for numbers, which runs script, and \<open>atod\<close> is
  \<open>js_atod1\<close> on a string. The double, or no double with an exception; \<open>None\<close> is a block that is not there,
  or a conversion that answers objects for ever.
\<close>

definition f_NAN :: float64 where "f_NAN = 0x7ff8000000000000"

partial_function (option) JS_ToNumber ::
  "(JSContext \<Rightarrow> JSValue \<Rightarrow> JSContext \<times> JSValue) \<Rightarrow> (JSContext \<Rightarrow> JSValue \<Rightarrow> JSContext \<times> float64 option) \<Rightarrow>
   JSContext \<Rightarrow> JSValue \<Rightarrow> (JSContext \<times> float64 option) option" where
  "JS_ToNumber prim atod ctx val =
     (if JS_IsInt val then Some (ctx, Some (f_of_int (sint (JS_VALUE_GET_INT val))))
      else if JS_IsShortFloat val then Some (ctx, Some (js_get_short_float val))
      else if JS_IsPtr val then
        (case block_of ctx val of
           None \<Rightarrow> None
         | Some (MB_string s) \<Rightarrow> Some (atod ctx val)
         | Some (MB_float64 d) \<Rightarrow> Some (ctx, Some d)
         | Some (MB_object p) \<Rightarrow>
             (case prim ctx val of (ctx1, v) \<Rightarrow>
                if JS_IsException v then Some (ctx1, None) else JS_ToNumber prim atod ctx1 v)
         | Some mb \<Rightarrow> Some (ctx, Some f_NAN))
      else let tag = JS_VALUE_GET_SPECIAL_TAG val in
        if tag = JS_TAG_NULL \<or> tag = JS_TAG_BOOL then Some (ctx, Some (f_of_int (sint (JS_VALUE_GET_SPECIAL_VALUE val))))
        else if tag = JS_TAG_UNDEFINED then Some (ctx, Some f_NAN)
        else if tag = JS_TAG_STRING_CHAR then Some (atod ctx val)
        else Some (ctx, Some f_NAN))"

section \<open>Classes\<close>

definition JS_CLASS_OBJECT :: nat where "JS_CLASS_OBJECT = 0"
definition JS_CLASS_ARRAY :: nat where "JS_CLASS_ARRAY = 1"
definition JS_CLASS_C_FUNCTION :: nat where "JS_CLASS_C_FUNCTION = 2"
definition JS_CLASS_CLOSURE :: nat where "JS_CLASS_CLOSURE = 3"
definition JS_CLASS_ERROR :: nat where "JS_CLASS_ERROR = 9"
definition JS_CLASS_USER :: nat where "JS_CLASS_USER = 28"

definition the_object :: "JSContext \<Rightarrow> JSValue \<Rightarrow> JSObject option" where
  "the_object ctx v = (case block_of ctx v of Some (MB_object p) \<Rightarrow> Some p | _ \<Rightarrow> None)"

definition JS_IsObject :: "JSContext \<Rightarrow> JSValue \<Rightarrow> bool" where
  "JS_IsObject ctx v \<longleftrightarrow> JS_IsPtr v \<and> the_object ctx v \<noteq> None"

definition JS_IsPrimitive :: "JSContext \<Rightarrow> JSValue \<Rightarrow> bool" where
  "JS_IsPrimitive ctx v \<longleftrightarrow>
     (if \<not> JS_IsPtr v then JS_VALUE_GET_SPECIAL_TAG v \<noteq> JS_TAG_SHORT_FUNC else the_object ctx v = None)"

definition JS_GetClassID :: "JSContext \<Rightarrow> JSValue \<Rightarrow> int" where
  "JS_GetClassID ctx v =
     (if \<not> JS_IsPtr v then -1
      else case the_object ctx v of None \<Rightarrow> -1 | Some p \<Rightarrow> int (class_id p))"

definition js_get_object_class :: "JSContext \<Rightarrow> JSValue \<Rightarrow> nat \<Rightarrow> JSObject option" where
  "js_get_object_class ctx v cid =
     (if \<not> JS_IsPtr v then None
      else case the_object ctx v of None \<Rightarrow> None | Some p \<Rightarrow> if class_id p \<noteq> cid then None else Some p)"

definition JS_IsFunctionObject :: "JSContext \<Rightarrow> JSValue \<Rightarrow> bool" where
  "JS_IsFunctionObject ctx v \<longleftrightarrow> JS_IsPtr v \<and>
     (case the_object ctx v of None \<Rightarrow> False
      | Some p \<Rightarrow> class_id p = JS_CLASS_CLOSURE \<or> class_id p = JS_CLASS_C_FUNCTION)"

definition JS_IsFunction :: "JSContext \<Rightarrow> JSValue \<Rightarrow> bool" where
  "JS_IsFunction ctx v \<longleftrightarrow>
     (if \<not> JS_IsPtr v then JS_VALUE_GET_SPECIAL_TAG v = JS_TAG_SHORT_FUNC
      else JS_IsFunctionObject ctx v)"

definition JS_IsError :: "JSContext \<Rightarrow> JSValue \<Rightarrow> bool" where
  "JS_IsError ctx v \<longleftrightarrow> js_get_object_class ctx v JS_CLASS_ERROR \<noteq> None"

definition JS_IsNumber :: "JSContext \<Rightarrow> JSValue \<Rightarrow> bool" where
  "JS_IsNumber ctx v \<longleftrightarrow>
     (if JS_IsIntOrShortFloat v then True
      else if JS_IsPtr v then (case block_of ctx v of Some (MB_float64 d) \<Rightarrow> True | _ \<Rightarrow> False)
      else False)"

definition JS_IsString :: "JSContext \<Rightarrow> JSValue \<Rightarrow> bool" where
  "JS_IsString ctx v \<longleftrightarrow>
     (if \<not> JS_IsPtr v then JS_VALUE_GET_SPECIAL_TAG v = JS_TAG_STRING_CHAR
      else (case block_of ctx v of Some (MB_string s) \<Rightarrow> True | _ \<Rightarrow> False))"

text \<open>The user object's data; the assertions of the code are \<open>None\<close>.\<close>

definition JS_GetOpaque :: "JSContext \<Rightarrow> JSValue \<Rightarrow> u64 option" where
  "JS_GetOpaque ctx v =
     (if \<not> JS_IsPtr v then None
      else case the_object ctx v of None \<Rightarrow> None
        | Some p \<Rightarrow> if class_id p < JS_CLASS_USER then None
                    else case obj_u p of U_user q \<Rightarrow> Some q | _ \<Rightarrow> None)"

definition JS_SetOpaque :: "JSContext \<Rightarrow> JSValue \<Rightarrow> u64 \<Rightarrow> JSContext option" where
  "JS_SetOpaque ctx v q =
     (if \<not> JS_IsPtr v then None
      else case the_object ctx v of None \<Rightarrow> None
        | Some p \<Rightarrow> if class_id p < JS_CLASS_USER then None
                    else Some (ctx\<lparr>heap := (heap ctx)(val_ptr v \<mapsto> MB_object (p\<lparr>obj_u := U_user q\<rparr>))\<rparr>))"

text \<open>\<open>JS_ToBool\<close>, with the double tests on the value.\<close>

definition float_truthy :: "float64 \<Rightarrow> bool" where
  "float_truthy d \<longleftrightarrow> \<not> f_nan d \<and> \<not> f_eq d 0"

definition JS_ToBool :: "JSContext \<Rightarrow> JSValue \<Rightarrow> bool" where
  "JS_ToBool ctx v =
     (if JS_IsInt v then JS_VALUE_GET_INT v \<noteq> 0
      else if JS_IsShortFloat v then float_truthy (js_get_short_float v)
      else if \<not> JS_IsPtr v then
        (let tag = JS_VALUE_GET_SPECIAL_TAG v in
         if tag = JS_TAG_BOOL \<or> tag = JS_TAG_NULL \<or> tag = JS_TAG_UNDEFINED
         then JS_VALUE_GET_SPECIAL_VALUE v \<noteq> 0
         else tag = JS_TAG_SHORT_FUNC \<or> tag = JS_TAG_STRING_CHAR)
      else case block_of ctx v of
          Some (MB_string s) \<Rightarrow> str_buf s \<noteq> []
        | Some (MB_float64 d) \<Rightarrow> float_truthy d
        | _ \<Rightarrow> True)"

section \<open>Value arrays\<close>

definition JS_VALUE_ARRAY_SIZE_MAX :: int where "JS_VALUE_ARRAY_SIZE_MAX = 2 ^ 28 - 1"
definition JS_BYTE_ARRAY_SIZE_MAX :: int where "JS_BYTE_ARRAY_SIZE_MAX = 2 ^ 28 - 1"

text \<open>
  The first \<open>init_base\<close> elements are left for the caller to fill; here they start undefined like the
  rest.
\<close>

definition js_alloc_value_array :: "js_env \<Rightarrow> JSContext \<Rightarrow> nat \<Rightarrow> nat \<Rightarrow> JSContext \<times> nat option" where
  "js_alloc_value_array env ctx init_base new_size =
     (if int new_size > JS_VALUE_ARRAY_SIZE_MAX then (JS_ThrowOutOfMemory env ctx, None)
      else js_malloc env ctx (8 + of_nat new_size * 8) (MB_value_array (replicate new_size JS_UNDEFINED)))"

definition value_array_of :: "JSContext \<Rightarrow> JSValue \<Rightarrow> JSValue list option" where
  "value_array_of ctx v = (case block_of ctx v of Some (MB_value_array xs) \<Rightarrow> Some xs | _ \<Rightarrow> None)"

definition grown_size :: "nat \<Rightarrow> nat \<Rightarrow> nat \<Rightarrow> nat" where
  "grown_size old_size new_size prop_base =
     (let new_size1 = old_size + old_size div 2;
          n = (if new_size1 > new_size then
                 (if prop_base \<noteq> 0 then
                    let align = (new_size1 - prop_base) mod 3 in
                    if align \<noteq> 0 then new_size1 + (3 - align) else new_size1
                  else new_size1)
               else new_size) in
      max n (old_size + old_size div 2))"

definition js_resize_value_array2 ::
  "js_env \<Rightarrow> JSContext \<Rightarrow> JSValue \<Rightarrow> nat \<Rightarrow> nat \<Rightarrow> (JSContext \<times> JSValue) option" where
  "js_resize_value_array2 env ctx v new_size prop_base =
     (case (if v = JS_NULL then Some [] else value_array_of ctx v) of
        None \<Rightarrow> None
      | Some old \<Rightarrow>
          if new_size > length old then
            let n = grown_size (length old) new_size prop_base;
                (ctx1, r) = js_alloc_value_array env (JS_PushGCRef ctx v) (length old) n;
                (ctx2, v2) = JS_PopGCRef ctx1 in
            case r of
              None \<Rightarrow> Some (ctx2, JS_EXCEPTION)
            | Some p \<Rightarrow>
                if old = [] then Some (ctx2, ptr_val p)
                else (case (value_array_of ctx2 v2, heap ctx2 p) of
                    (Some xs, Some (MB_value_array ys)) \<Rightarrow>
                      Some (ctx2\<lparr>heap := (heap ctx2)(p \<mapsto> MB_value_array
                              (take (length old) xs @ drop (length old) ys))\<rparr>, ptr_val p)
                  | _ \<Rightarrow> None)
          else Some (ctx, v))"

definition js_resize_value_array :: "js_env \<Rightarrow> JSContext \<Rightarrow> JSValue \<Rightarrow> nat \<Rightarrow> (JSContext \<times> JSValue) option" where
  "js_resize_value_array env ctx v new_size = js_resize_value_array2 env ctx v new_size 0"

text \<open>The result is the new value of \<open>*pval\<close>; the assertion is \<open>None\<close>.\<close>

definition js_shrink_value_array :: "JSContext \<Rightarrow> JSValue \<Rightarrow> nat \<Rightarrow> (JSContext \<times> JSValue) option" where
  "js_shrink_value_array ctx v new_size =
     (if v = JS_NULL then Some (ctx, v)
      else case value_array_of ctx v of
        None \<Rightarrow> None
      | Some xs \<Rightarrow>
          if new_size > length xs then None
          else if new_size = 0 then Some (js_free ctx (val_ptr v), JS_NULL)
          else map_option (\<lambda>(ctx1, r). (ctx1, v))
                 (js_shrink ctx (val_ptr v) (8 + new_size * 8) (MB_value_array (take new_size xs))))"

section \<open>Byte arrays\<close>

definition js_alloc_byte_array :: "js_env \<Rightarrow> JSContext \<Rightarrow> u8 list \<Rightarrow> JSContext \<times> nat option" where
  "js_alloc_byte_array env ctx init =
     (if int (length init) > JS_BYTE_ARRAY_SIZE_MAX then (JS_ThrowOutOfMemory env ctx, None)
      else js_malloc env ctx (8 + of_nat (length init)) (MB_byte_array init))"

definition byte_array_of :: "JSContext \<Rightarrow> JSValue \<Rightarrow> u8 list option" where
  "byte_array_of ctx v = (case block_of ctx v of Some (MB_byte_array xs) \<Rightarrow> Some xs | _ \<Rightarrow> None)"

text \<open>\<open>fresh\<close> is the content of memory that \<open>js_malloc\<close> does not initialise.\<close>

definition js_resize_byte_array ::
  "js_env \<Rightarrow> (nat \<Rightarrow> u8) \<Rightarrow> JSContext \<Rightarrow> JSValue \<Rightarrow> nat \<Rightarrow> (JSContext \<times> JSValue) option" where
  "js_resize_byte_array env fresh ctx v new_size =
     (case (if v = JS_NULL then Some [] else byte_array_of ctx v) of
        None \<Rightarrow> None
      | Some old \<Rightarrow>
          if new_size > length old then
            let n = max new_size (length old + length old div 2);
                (ctx1, r) = js_alloc_byte_array env (JS_PushGCRef ctx v) (map fresh [0..<n]);
                (ctx2, v2) = JS_PopGCRef ctx1 in
            case r of
              None \<Rightarrow> Some (ctx2, JS_EXCEPTION)
            | Some p \<Rightarrow>
                if old = [] then Some (ctx2, ptr_val p)
                else (case (byte_array_of ctx2 v2, heap ctx2 p) of
                    (Some xs, Some (MB_byte_array ys)) \<Rightarrow>
                      Some (ctx2\<lparr>heap := (heap ctx2)(p \<mapsto> MB_byte_array
                              (take (length old) xs @ drop (length old) ys))\<rparr>, ptr_val p)
                  | _ \<Rightarrow> None)
          else Some (ctx, v))"

definition js_shrink_byte_array :: "JSContext \<Rightarrow> JSValue \<Rightarrow> nat \<Rightarrow> (JSContext \<times> JSValue) option" where
  "js_shrink_byte_array ctx v new_size =
     (if v = JS_NULL then Some (ctx, v)
      else case byte_array_of ctx v of
        None \<Rightarrow> None
      | Some xs \<Rightarrow>
          if new_size > length xs then None
          else if new_size = 0 then Some (js_free ctx (val_ptr v), JS_NULL)
          else map_option (\<lambda>(ctx1, r). (ctx1, v))
                 (js_shrink ctx (val_ptr v) (8 + new_size) (MB_byte_array (take new_size xs))))"

section \<open>Objects\<close>

definition JS_NewObjectProtoClass1 ::
  "js_env \<Rightarrow> JSContext \<Rightarrow> JSValue \<Rightarrow> nat \<Rightarrow> nat \<Rightarrow> obj_data \<Rightarrow> JSContext \<times> nat option" where
  "JS_NewObjectProtoClass1 env ctx prot cid extra u =
     (let extra1 = (extra + JSW - 1) div JSW;
          (ctx1, r) = js_malloc env (JS_PushGCRef ctx prot) (24 + of_nat extra1 * of_nat JSW)
             (MB_object \<lparr>class_id = cid, extra_size = extra1, obj_proto = JS_NULL,
                obj_props = JS_NULL, obj_u = u\<rparr>);
          (ctx2, prot2) = JS_PopGCRef ctx1 in
      case r of
        None \<Rightarrow> (ctx2, None)
      | Some p \<Rightarrow>
          (ctx2\<lparr>heap := (heap ctx2)(p \<mapsto> MB_object \<lparr>class_id = cid, extra_size = extra1,
              obj_proto = prot2, obj_props = empty_props ctx2, obj_u = u\<rparr>)\<rparr>, Some p))"

definition JS_NewObjectProtoClass ::
  "js_env \<Rightarrow> JSContext \<Rightarrow> JSValue \<Rightarrow> nat \<Rightarrow> nat \<Rightarrow> obj_data \<Rightarrow> JSContext \<times> JSValue" where
  "JS_NewObjectProtoClass env ctx prot cid extra u =
     (case JS_NewObjectProtoClass1 env ctx prot cid extra u of
        (ctx1, None) \<Rightarrow> (ctx1, JS_EXCEPTION)
      | (ctx1, Some p) \<Rightarrow> (ctx1, ptr_val p))"

definition JS_NewObjectClass :: "js_env \<Rightarrow> JSContext \<Rightarrow> nat \<Rightarrow> nat \<Rightarrow> obj_data \<Rightarrow> JSContext \<times> JSValue" where
  "JS_NewObjectClass env ctx cid extra u =
     JS_NewObjectProtoClass env ctx (class_proto ctx ! cid) cid extra u"

definition JS_NewObjectClassUser :: "js_env \<Rightarrow> JSContext \<Rightarrow> nat \<Rightarrow> (JSContext \<times> JSValue) option" where
  "JS_NewObjectClassUser env ctx cid =
     (if cid < JS_CLASS_USER then None
      else Some (JS_NewObjectProtoClass env ctx (class_proto ctx ! cid) cid 8 (U_user 0)))"

definition JS_NewObject :: "js_env \<Rightarrow> JSContext \<Rightarrow> JSContext \<times> JSValue" where
  "JS_NewObject env ctx = JS_NewObjectClass env ctx JS_CLASS_OBJECT 0 U_none"

definition JS_NewArray :: "js_env \<Rightarrow> JSContext \<Rightarrow> nat \<Rightarrow> (JSContext \<times> JSValue) option" where
  "JS_NewArray env ctx initial_len =
     (case JS_NewObjectClass env ctx JS_CLASS_ARRAY 16 (U_array JS_NULL 0) of
        (ctx1, val) \<Rightarrow>
          if JS_IsException val then Some (ctx1, val)
          else if initial_len > 0 then
            let (ctx2, r) = js_alloc_value_array env (JS_PushGCRef ctx1 val) 0 initial_len;
                (ctx3, val3) = JS_PopGCRef ctx2 in
            case r of
              None \<Rightarrow> Some (ctx3, JS_EXCEPTION)
            | Some p \<Rightarrow>
                (case the_object ctx3 val3 of
                   None \<Rightarrow> None
                 | Some ob \<Rightarrow> Some (ctx3\<lparr>heap := (heap ctx3)(val_ptr val3 \<mapsto>
                       MB_object (ob\<lparr>obj_u := U_array (ptr_val p) (of_nat initial_len)\<rparr>))\<rparr>, val3))
          else Some (ctx1, val))"

end
