(* ===== verification/Utf8.thy ===== *)
theory Utf8 imports Cutils "HOL-Library.Monad_Syntax" begin

text \<open>
  The UTF-8 coder of \<open>native/mquickjs/cutils.h\<close> and \<open>cutils.c\<close>, shared by the engine's strings,
  its parser and the shim: encoding of a code point, checked decoding and unchecked decoding.
  Round trip in both directions: decoding inverts encoding on every code up to U+10FFFF
  (surrogates included), and only the canonical encoding of a code decodes.
\<close>

unbundle bit_operations_syntax

section \<open>The coder\<close>

text \<open>
  \<open>unicode_to_utf8\<close> returns the bytes written to \<open>buf\<close>; their number is the C result.
  At most 21 bits are encoded and surrogates are encoded like any other code (WTF-8).
\<close>

definition unicode_to_utf8' :: "u32 \<Rightarrow> u8 list" where
  "unicode_to_utf8' c =
     (if c < 0x800 then
        [ucast (drop_bit 6 c OR 0xc0), ucast ((c AND 0x3f) OR 0x80)]
      else if c < 0x10000 then
        [ucast (drop_bit 12 c OR 0xe0), ucast ((drop_bit 6 c AND 0x3f) OR 0x80),
         ucast ((c AND 0x3f) OR 0x80)]
      else if c < 0x00200000 then
        [ucast (drop_bit 18 c OR 0xf0), ucast ((drop_bit 12 c AND 0x3f) OR 0x80),
         ucast ((drop_bit 6 c AND 0x3f) OR 0x80), ucast ((c AND 0x3f) OR 0x80)]
      else [])"

definition unicode_to_utf8 :: "u32 \<Rightarrow> u8 list" where
  "unicode_to_utf8 c = (if c < 0x80 then [ucast c] else unicode_to_utf8' c)"

text \<open>The code of a 2, 3 and 4 byte sequence, as both decoders assemble it.\<close>

definition utf8_dec2 :: "u8 \<Rightarrow> u8 \<Rightarrow> u32" where
  "utf8_dec2 b0 b1 = push_bit 6 (ucast b0 AND 0x1f) OR (ucast b1 AND 0x3f)"

definition utf8_dec3 :: "u8 \<Rightarrow> u8 \<Rightarrow> u8 \<Rightarrow> u32" where
  "utf8_dec3 b0 b1 b2 = push_bit 12 (ucast b0 AND 0x0f) OR push_bit 6 (ucast b1 AND 0x3f)
     OR (ucast b2 AND 0x3f)"

definition utf8_dec4 :: "u8 \<Rightarrow> u8 \<Rightarrow> u8 \<Rightarrow> u8 \<Rightarrow> u32" where
  "utf8_dec4 b0 b1 b2 b3 = push_bit 18 (ucast b0 AND 0x07) OR push_bit 12 (ucast b1 AND 0x3f)
     OR push_bit 6 (ucast b2 AND 0x3f) OR (ucast b3 AND 0x3f)"

text \<open>
  A read of the checking decoder: outside the buffer there is no byte. The test of a continuation byte
  reads it only when \<open>max_len\<close> allows.
\<close>

definition read_byte :: "u8 list \<Rightarrow> nat \<Rightarrow> u8 option" where
  "read_byte p i = (if i < length p then Some (p ! i) else None)"

definition bad_cont :: "u8 list \<Rightarrow> nat \<Rightarrow> nat \<Rightarrow> bool option" where
  "bad_cont p max_len i =
     (if max_len < i + 1 then Some True
      else do { b \<leftarrow> read_byte p i; Some (ucast b AND (0xc0 :: u32) \<noteq> 0x80) })"

text \<open>
  \<open>None\<close> is a read outside the buffer. In the result \<open>None\<close> is the C result \<open>-1\<close>, and the second
  component is \<open>*plen\<close>. Once \<open>bad_cont\<close> has passed the byte is there.
\<close>

definition unicode_from_utf8' :: "u8 list \<Rightarrow> nat \<Rightarrow> (u32 option \<times> nat) option" where
  "unicode_from_utf8' p max_len = do {
     b0 \<leftarrow> read_byte p 0;
     let c = (ucast b0 :: u32);
     if c < 0xc0 then Some (None, 1)
     else if c < 0xe0 then do {
       bad1 \<leftarrow> bad_cont p max_len 1;
       if bad1 then Some (None, 1)
       else let c = utf8_dec2 (p ! 0) (p ! 1) in
         if c < 0x80 then Some (None, 2) else Some (Some c, 2) }
     else if c < 0xf0 then do {
       bad1 \<leftarrow> bad_cont p max_len 1;
       if bad1 then Some (None, 1) else do {
       bad2 \<leftarrow> bad_cont p max_len 2;
       if bad2 then Some (None, 2)
       else let c = utf8_dec3 (p ! 0) (p ! 1) (p ! 2) in
         if c < 0x800 then Some (None, 3) else Some (Some c, 3) } }
     else if c < 0xf8 then do {
       bad1 \<leftarrow> bad_cont p max_len 1;
       if bad1 then Some (None, 1) else do {
       bad2 \<leftarrow> bad_cont p max_len 2;
       if bad2 then Some (None, 2) else do {
       bad3 \<leftarrow> bad_cont p max_len 3;
       if bad3 then Some (None, 3)
       else let c = utf8_dec4 (p ! 0) (p ! 1) (p ! 2) (p ! 3) in
         if c < 0x10000 \<or> c > 0x10ffff then Some (None, 4) else Some (Some c, 4) } } }
     else Some (None, 1) }"

definition unicode_from_utf8 :: "u8 list \<Rightarrow> nat \<Rightarrow> (u32 option \<times> nat) option" where
  "unicode_from_utf8 buf max_len = do {
     b0 \<leftarrow> read_byte buf 0;
     if b0 < 0x80 then Some (Some (ucast b0), 1) else unicode_from_utf8' buf max_len }"

text \<open>\<open>utf8_get\<close> decodes without any check: the encoding must have been validated before.\<close>

definition utf8_get' :: "u8 list \<Rightarrow> u32 \<times> nat" where
  "utf8_get' p =
     (let c = ucast (p ! 0) :: u32 in
      if c < 0xc0 then (c, 1)
      else if c < 0xe0 then (utf8_dec2 (p ! 0) (p ! 1), 2)
      else if c < 0xf0 then (utf8_dec3 (p ! 0) (p ! 1) (p ! 2), 3)
      else if c < 0xf8 then (utf8_dec4 (p ! 0) (p ! 1) (p ! 2) (p ! 3), 4)
      else (c, 1))"

definition utf8_get :: "u8 list \<Rightarrow> u32 \<times> nat" where
  "utf8_get buf = (if buf ! 0 < 0x80 then (ucast (buf ! 0), 1) else utf8_get' buf)"

section \<open>Round trip and canonicity\<close>

lemma byte_mark: "ucast b AND 0xc0 = (0x80 :: u32) \<longleftrightarrow> bit b 7 \<and> \<not> bit b 6" for b :: u8
proof
  assume *: "ucast b AND 0xc0 = (0x80 :: u32)"
  have "bit (ucast b AND 0xc0 :: u32) 7 = bit (0x80 :: u32) 7"
    "bit (ucast b AND 0xc0 :: u32) 6 = bit (0x80 :: u32) 6"
    unfolding * by (rule refl)+
  then show "bit b 7 \<and> \<not> bit b 6"
    by (simp add: bit_simps)
next
  assume "bit b 7 \<and> \<not> bit b 6"
  then show "ucast b AND 0xc0 = (0x80 :: u32)"
    by (intro u32_eqI) (simp_all add: bit_simps)
qed


lemma encode2:
  "utf8_dec2 (ucast (drop_bit 6 c OR 0xc0)) (ucast ((c AND 0x3f) OR 0x80)) = c"
  if "c < 0x800" for c :: u32
  unfolding utf8_dec2_def by (rule u32_eqI) (use not_bit_of_less_exp [of c 11] that in \<open>simp_all add: bit_simps\<close>)

lemma encode3:
  "utf8_dec3 (ucast (drop_bit 12 c OR 0xe0)) (ucast ((drop_bit 6 c AND 0x3f) OR 0x80))
     (ucast ((c AND 0x3f) OR 0x80)) = c"
  if "c < 0x10000" for c :: u32
  unfolding utf8_dec3_def by (rule u32_eqI) (use not_bit_of_less_exp [of c 16] that in \<open>simp_all add: bit_simps\<close>)

lemma encode4:
  "utf8_dec4 (ucast (drop_bit 18 c OR 0xf0)) (ucast ((drop_bit 12 c AND 0x3f) OR 0x80))
     (ucast ((drop_bit 6 c AND 0x3f) OR 0x80)) (ucast ((c AND 0x3f) OR 0x80)) = c"
  if "c < 0x200000" for c :: u32
  unfolding utf8_dec4_def by (rule u32_eqI) (use not_bit_of_less_exp [of c 21] that in \<open>simp_all add: bit_simps\<close>)

lemma lead_bits:
  fixes c :: u32
  shows "c < 0x800 \<Longrightarrow> \<not> bit c 11 \<and> \<not> bit c 12 \<and> \<not> bit c 13"
    "c < 0x10000 \<Longrightarrow> \<not> bit c 16 \<and> \<not> bit c 17 \<and> \<not> bit c 18 \<and> \<not> bit c 19"
    "c < 0x200000 \<Longrightarrow> \<not> bit c 21 \<and> \<not> bit c 22 \<and> \<not> bit c 23 \<and> \<not> bit c 24 \<and> \<not> bit c 25"
  using not_bit_of_less_exp [of c 11] not_bit_of_less_exp [of c 16] not_bit_of_less_exp [of c 21]
  by auto

lemma unicode_from_utf8_encode:
  assumes "c \<le> 0x10ffff"
  shows "unicode_from_utf8 (unicode_to_utf8 c @ rest) (length (unicode_to_utf8 c) + k)
     = Some (Some c, length (unicode_to_utf8 c))"
proof -
  consider "c < 0x80" | "\<not> c < 0x80" "c < 0x800" | "\<not> c < 0x800" "c < 0x10000" | "\<not> c < 0x10000" "c < 0x200000"
  proof -
    have "c < 0x200000" using assms by (rule le_less_trans) simp
    then show thesis using that by blast
  qed
  then show ?thesis
  proof cases
    case 1
    then have "ucast (ucast c :: u8) = c"
      by (intro u32_eqI) (use not_bit_of_less_exp [of c 7] in \<open>simp_all add: bit_simps\<close>)
    moreover have "(ucast c :: u8) < 0x80"
      using not_bit_of_less_exp [of c 7 7] 1 by (simp add: u8_range_bits bit_simps)
    ultimately show ?thesis
      using 1 by (simp add: unicode_from_utf8_def read_byte_def unicode_to_utf8_def)
  next
    case 2
    then show ?thesis
      using encode2 [of c] lead_bits(1) [of c]
      by (simp add: unicode_from_utf8_def unicode_from_utf8'_def read_byte_def bad_cont_def unicode_to_utf8_def
          unicode_to_utf8'_def u8_range_bits byte_mark bit_simps)
  next
    case 3
    moreover have "\<not> c < 0x80"
      using 3 by (simp add: word_less_nat_alt)
    ultimately show ?thesis
      using encode3 [of c] lead_bits(2) [of c]
      by (simp add: unicode_from_utf8_def unicode_from_utf8'_def read_byte_def bad_cont_def unicode_to_utf8_def
          unicode_to_utf8'_def u8_range_bits byte_mark bit_simps)
  next
    case 4
    moreover have "\<not> c < 0x80" "\<not> c < 0x800"
      using 4 by (simp_all add: word_less_nat_alt)
    ultimately show ?thesis
      using encode4 [of c] lead_bits(3) [of c] assms
      by (simp add: unicode_from_utf8_def unicode_from_utf8'_def read_byte_def bad_cont_def unicode_to_utf8_def
          unicode_to_utf8'_def u8_range_bits byte_mark bit_simps)
  qed
qed

text \<open>
  C28: decoding the encoding of any code point up to U+10FFFF, surrogates included, gives the code
  point and the length of its encoding, whatever bytes follow.
\<close>
theorem utf8_roundtrip:
  assumes "c \<le> 0x10ffff"
  shows "unicode_from_utf8 (unicode_to_utf8 c @ rest) (length (unicode_to_utf8 c) + k)
     = Some (Some c, length (unicode_to_utf8 c))"
  by (rule unicode_from_utf8_encode [OF assms])

lemma decode2_canonical:
  fixes b0 b1 :: u8
  defines "c \<equiv> utf8_dec2 b0 b1"
  assumes "bit b0 7" "bit b0 6" "\<not> bit b0 5" "bit b1 7" "\<not> bit b1 6" "\<not> c < 0x80"
  shows "c < 0x800" "unicode_to_utf8 c = [b0, b1]"
proof -
  show *: "c < 0x800"
    using less_exp_of_take_bit [of 11 c]
    by (simp add: u32_eqI c_def utf8_dec2_def bit_simps)
  show "unicode_to_utf8 c = [b0, b1]"
    using assms(2-) * unfolding unicode_to_utf8_def unicode_to_utf8'_def
    by (simp add: c_def utf8_dec2_def, intro conjI u8_eqI) (simp_all add: bit_simps)
qed

lemma decode3_canonical:
  fixes b0 b1 b2 :: u8
  defines "c \<equiv> utf8_dec3 b0 b1 b2"
  assumes "bit b0 7" "bit b0 6" "bit b0 5" "\<not> bit b0 4" "bit b1 7" "\<not> bit b1 6" "bit b2 7" "\<not> bit b2 6"
    "\<not> c < 0x800"
  shows "c < 0x10000" "unicode_to_utf8 c = [b0, b1, b2]"
proof -
  show *: "c < 0x10000"
    using less_exp_of_take_bit [of 16 c]
    by (simp add: u32_eqI c_def utf8_dec3_def bit_simps)
  have "\<not> c < 0x80"
    using assms(10) by (simp add: word_less_nat_alt)
  then show "unicode_to_utf8 c = [b0, b1, b2]"
    using assms(2-) * unfolding unicode_to_utf8_def unicode_to_utf8'_def
    by (simp add: c_def utf8_dec3_def, intro conjI u8_eqI) (simp_all add: bit_simps)
qed

lemma decode4_canonical:
  fixes b0 b1 b2 b3 :: u8
  defines "c \<equiv> utf8_dec4 b0 b1 b2 b3"
  assumes "bit b0 7" "bit b0 6" "bit b0 5" "bit b0 4" "\<not> bit b0 3" "bit b1 7" "\<not> bit b1 6" "bit b2 7" "\<not> bit b2 6"
    "bit b3 7" "\<not> bit b3 6" "\<not> c < 0x10000"
  shows "unicode_to_utf8 c = [b0, b1, b2, b3]"
proof -
  have *: "c < 0x200000"
    using less_exp_of_take_bit [of 21 c]
    by (simp add: u32_eqI c_def utf8_dec4_def bit_simps)
  have "\<not> c < 0x80" "\<not> c < 0x800"
    using assms(13) by (simp_all add: word_less_nat_alt)
  then show "unicode_to_utf8 c = [b0, b1, b2, b3]"
    using assms(2-) * unfolding unicode_to_utf8_def unicode_to_utf8'_def
    by (simp add: c_def utf8_dec4_def, intro conjI u8_eqI) (simp_all add: bit_simps)
qed

lemma read_in: "max_len \<le> length p \<Longrightarrow> bad_cont p max_len i = Some (max_len < i + 1 \<or> ucast (p ! i) AND (0xc0 :: u32) \<noteq> 0x80)"
  by (simp add: bad_cont_def read_byte_def)

lemma decode_tail_cases:
  assumes "unicode_from_utf8' p m = Some (Some c, n)" "0 < m" "m \<le> length p"
  obtains
    (two) "n = 2" "2 \<le> m" "bit (p ! 0) 7" "bit (p ! 0) 6" "\<not> bit (p ! 0) 5"
      "bit (p ! 1) 7" "\<not> bit (p ! 1) 6" "\<not> c < 0x80"
      "c = utf8_dec2 (p ! 0) (p ! 1)"
  | (three) "n = 3" "3 \<le> m" "bit (p ! 0) 7" "bit (p ! 0) 6" "bit (p ! 0) 5" "\<not> bit (p ! 0) 4"
      "bit (p ! 1) 7" "\<not> bit (p ! 1) 6" "bit (p ! 2) 7" "\<not> bit (p ! 2) 6" "\<not> c < 0x800"
      "c = utf8_dec3 (p ! 0) (p ! 1) (p ! 2)"
  | (four) "n = 4" "4 \<le> m" "bit (p ! 0) 7" "bit (p ! 0) 6" "bit (p ! 0) 5" "bit (p ! 0) 4" "\<not> bit (p ! 0) 3"
      "bit (p ! 1) 7" "\<not> bit (p ! 1) 6" "bit (p ! 2) 7" "\<not> bit (p ! 2) 6"
      "bit (p ! 3) 7" "\<not> bit (p ! 3) 6" "\<not> c < 0x10000" "c \<le> 0x10ffff"
      "c = utf8_dec4 (p ! 0) (p ! 1) (p ! 2) (p ! 3)"
proof -
  have r: "read_byte p 0 = Some (p ! 0)" using assms(2,3) by (auto simp: read_byte_def)
  note d = unicode_from_utf8'_def Let_def r read_in [OF assms(3)]
  have "n = 2 \<or> n = 3 \<or> n = 4"
    using assms by (simp add: d split: if_split_asm)
  then show thesis
  proof (elim disjE)
    assume "n = 2"
    with assms show thesis
      by (intro two) (simp_all add: d u8_range_bits(2-) byte_mark split: if_split_asm)
  next
    assume "n = 3"
    with assms show thesis
      by (intro three) (simp_all add: d u8_range_bits(2-) byte_mark split: if_split_asm)
  next
    assume "n = 4"
    with assms show thesis
      by (intro four) (simp_all add: d u8_range_bits(2-) byte_mark not_less split: if_split_asm)
  qed
qed

lemma decoded_canonical:
  assumes "0 < max_len" "max_len \<le> length p"
    and "unicode_from_utf8 p max_len = Some (Some c, n)"
  shows "c \<le> 0x10ffff \<and> unicode_to_utf8 c = take n p"
proof (cases "p ! 0 < 0x80")
  case True
  moreover have "ucast b \<le> (0x10ffff :: u32)" "ucast b < (0x80 :: u32)" "ucast (ucast b :: u32) = b" if "b < 0x80" for b :: u8
    using that by (auto simp: word_le_nat_alt word_less_nat_alt unat_ucast_up intro!: u8_eqI) (simp_all add: bit_simps)
  moreover have "p \<noteq> []" using assms(1,2) by auto
  ultimately show ?thesis
    using assms by (auto simp: unicode_from_utf8_def read_byte_def unicode_to_utf8_def take_nth1)
next
  case False
  with assms have "unicode_from_utf8' p max_len = Some (Some c, n)"
    by (auto simp: unicode_from_utf8_def read_byte_def bind_eq_Some_conv split: if_splits)
  then show ?thesis using assms(1,2)
  proof (cases rule: decode_tail_cases)
    case two
    with decode2_canonical [of "p ! 0" "p ! 1"] have "c < 0x800" "unicode_to_utf8 c = [p ! 0, p ! 1]"
      by simp_all
    with two assms(2) show ?thesis
      by (simp add: take_nth2 word_le_nat_alt word_less_nat_alt)
  next
    case three
    with decode3_canonical [of "p ! 0" "p ! 1" "p ! 2"] have "c < 0x10000" "unicode_to_utf8 c = [p ! 0, p ! 1, p ! 2]"
      by simp_all
    with three assms(2) show ?thesis
      by (simp add: take_nth3 word_le_nat_alt word_less_nat_alt)
  next
    case four
    with decode4_canonical [of "p ! 0" "p ! 1" "p ! 2" "p ! 3"]
    have "unicode_to_utf8 c = [p ! 0, p ! 1, p ! 2, p ! 3]"
      by simp
    with four assms(2) show ?thesis
      by (simp add: take_nth4)
  qed
qed

lemma decode_returns:
  assumes m: "0 < max_len" "max_len \<le> length p"
  obtains r n where "unicode_from_utf8 p max_len = Some (r, n)" "n \<le> max_len"
    "unicode_from_utf8 (take max_len p) max_len = Some (r, n)"
proof -
  have r: "read_byte p 0 = Some (p ! 0)" "read_byte (take max_len p) 0 = Some (p ! 0)"
    using m by (auto simp: read_byte_def)
  have t: "bad_cont (take max_len p) max_len i = bad_cont p max_len i" for i
    using m by (simp add: bad_cont_def read_byte_def)
  have e: "unicode_from_utf8 (take max_len p) max_len = unicode_from_utf8 p max_len"
    using m read_in [OF m(2), of 1] read_in [OF m(2), of 2] read_in [OF m(2), of 3]
    by (simp add: unicode_from_utf8_def unicode_from_utf8'_def r t Let_def)
  have "\<exists>r n. unicode_from_utf8 p max_len = Some (r, n) \<and> n \<le> max_len"
    using m by (simp add: unicode_from_utf8_def unicode_from_utf8'_def r read_in [OF m(2)] Let_def)
  then show thesis using that e by auto
qed

text \<open>
  C36: in a buffer of at least \<open>max_len\<close> bytes, one at least, the checking decoder reads none beyond the
  first \<open>max_len\<close>: on those bytes alone it answers the same, and a read outside them would have no answer.
  It consumes at most \<open>max_len\<close> bytes, and what it accepts is a code point and the one encoding of it:
  overlong forms and codes above U+10FFFF are rejected.
\<close>
theorem utf8_decode_canonical:
  assumes "0 < max_len" "max_len \<le> length p"
  shows "\<exists>r n. unicode_from_utf8 p max_len = Some (r, n) \<and>
    unicode_from_utf8 (take max_len p) max_len = Some (r, n) \<and> n \<le> max_len \<and>
    (case r of None \<Rightarrow> True | Some c \<Rightarrow> c \<le> 0x10ffff \<and> unicode_to_utf8 c = take n p)"
proof -
  obtain r n where "unicode_from_utf8 p max_len = Some (r, n)" "n \<le> max_len"
    "unicode_from_utf8 (take max_len p) max_len = Some (r, n)" using decode_returns [OF assms] .
  then show ?thesis using decoded_canonical [OF assms] by (auto split: option.split)
qed

lemma utf8_get_of_checked:
  assumes "unicode_from_utf8 p m = Some (Some c, n)"
  shows "utf8_get p = (c, n)"
  using assms
  by (auto simp: unicode_from_utf8_def unicode_from_utf8'_def utf8_get_def utf8_get'_def Let_def read_byte_def
      bind_eq_Some_conv split: if_split_asm)

theorem utf8_roundtrip_witness:
  "unicode_from_utf8 (unicode_to_utf8 0x20ac @ [0x41]) (length (unicode_to_utf8 0x20ac) + 1) =
    Some (Some 0x20ac, length (unicode_to_utf8 0x20ac))"
  by (rule utf8_roundtrip) simp

theorem utf8_decode_canonical_witness:
  "unicode_to_utf8 0x20ac = take 3 [0xe2, 0x82, 0xac, 0x41] \<and> unicode_from_utf8 [0xe2, 0x82] 2 = Some (None, 2)"
proof -
  have d: "unicode_from_utf8 [0xe2, 0x82, 0xac, 0x41] 4 = Some (Some 0x20ac, 3)" by code_simp
  have e: "unicode_from_utf8 [0xe2, 0x82, 0xac, 0x41] 2 = Some (None, 2)" by code_simp
  show ?thesis
    using utf8_decode_canonical [of 4 "[0xe2, 0x82, 0xac, 0x41]"] d utf8_decode_canonical [of 2 "[0xe2, 0x82, 0xac, 0x41]"] e
    by (simp add: numeral_2_eq_2)
qed

end
