(* ===== verification/JsString.thy ===== *)
theory JsString imports JsAlloc Utf8 begin

text \<open>
  The engine's strings (\<open>native/mquickjs/mquickjs.c\<close>): WTF-8 bytes with UTF-16 semantics. A string
  value is either a single code point in the value itself or a string block. Modelled are
  creation, substrings, the conversion between UTF-8 and UTF-16 positions with its cache, the
  string buffer, comparison, and access by UTF-16 position. Reads past the end of a string see its
  terminating zero; a value that is not a string is \<open>None\<close>.
\<close>

unbundle bit_operations_syntax

section \<open>Access\<close>

definition JS_STRING_LEN_MAX :: nat where "JS_STRING_LEN_MAX = 0x7ffffffe"

text \<open>The bytes of a string of one code point.\<close>

definition get_short_string :: "JSValue \<Rightarrow> u8 list" where
  "get_short_string v = unicode_to_utf8 (JS_VALUE_GET_SPECIAL_VALUE v)"

definition get_string_ptr :: "JSContext \<Rightarrow> JSValue \<Rightarrow> JSString option" where
  "get_string_ptr ctx v =
     (if JS_VALUE_GET_SPECIAL_TAG v = JS_TAG_STRING_CHAR then
        Some \<lparr>is_unique = False, is_ascii = sint (JS_VALUE_GET_SPECIAL_VALUE v) \<le> 0x7f,
              is_numeric = False, str_buf = get_short_string v\<rparr>
      else case block_of ctx v of Some (MB_string s) \<Rightarrow> Some s | _ \<Rightarrow> None)"

definition byte_at :: "u8 list \<Rightarrow> nat \<Rightarrow> u8" where
  "byte_at bs i = (if i < length bs then bs ! i else 0)"

definition utf8_char_len :: "u8 \<Rightarrow> nat" where
  "utf8_char_len c =
     (if c < 0x80 then 1 else if c < 0xc0 then 1 else if c < 0xe0 then 2
      else if c < 0xf0 then 3 else if c < 0xf8 then 4 else 1)"

fun is_ascii_string :: "u8 list \<Rightarrow> bool" where
  "is_ascii_string [] \<longleftrightarrow> True"
| "is_ascii_string (b # bs) \<longleftrightarrow> (if b > 0x7f then False else is_ascii_string bs)"

section \<open>Creation\<close>

text \<open>\<open>js_alloc_string\<close> with the content and the \<open>is_ascii\<close> flag its callers store right away.\<close>

definition js_alloc_string :: "js_env \<Rightarrow> JSContext \<Rightarrow> u8 list \<Rightarrow> bool \<Rightarrow> JSContext \<times> nat option" where
  "js_alloc_string env ctx buf ascii =
     (if length buf > JS_STRING_LEN_MAX then (JS_ThrowInternalError env ctx ''string too long'', None)
      else js_malloc env ctx (8 + of_nat (length buf) + 1)
             (MB_string \<lparr>is_unique = False, is_ascii = ascii, is_numeric = False, str_buf = buf\<rparr>))"

text \<open>
  The length of the character is read from a plain \<open>char\<close>. Where that type is signed, a lead byte from 0x80 on
  is a negative \<open>int\<close>, for which \<open>utf8_char_len\<close> answers 1. \<open>sc\<close> says whether it is signed.
\<close>

definition plain_char_len :: "bool \<Rightarrow> u8 \<Rightarrow> nat" where
  "plain_char_len sc c = (if sc \<and> c \<ge> 0x80 then 1 else utf8_char_len c)"

definition JS_NewStringLen :: "bool \<Rightarrow> js_env \<Rightarrow> JSContext \<Rightarrow> u8 list \<Rightarrow> JSContext \<times> JSValue" where
  "JS_NewStringLen sc env ctx buf =
     (if buf = [] then (ctx, atom_empty ctx)
      else if plain_char_len sc (buf ! 0) = length buf then (ctx, JS_NewStringChar (fst (utf8_get buf)))
      else case js_alloc_string env ctx buf (is_ascii_string buf) of
          (ctx1, None) \<Rightarrow> (ctx1, JS_EXCEPTION)
        | (ctx1, Some p) \<Rightarrow> (ctx1, ptr_val p))"

text \<open>\<open>JS_NewString\<close> takes a zero terminated string.\<close>

definition JS_NewString :: "bool \<Rightarrow> js_env \<Rightarrow> JSContext \<Rightarrow> u8 list \<Rightarrow> JSContext \<times> JSValue" where
  "JS_NewString sc env ctx cstr = JS_NewStringLen sc env ctx (takeWhile (\<lambda>b. b \<noteq> 0) cstr)"

definition js_byte_array_to_string :: "JSContext \<Rightarrow> JSValue \<Rightarrow> nat \<Rightarrow> bool \<Rightarrow> (JSContext \<times> JSValue) option" where
  "js_byte_array_to_string ctx v len ascii =
     (case byte_array_of ctx v of
        None \<Rightarrow> None
      | Some arr \<Rightarrow>
          if len + 1 > length arr then None
          else if len = 0 then Some (ctx, atom_empty ctx)
          else if utf8_char_len (arr ! 0) = len then Some (ctx, JS_NewStringChar (fst (utf8_get arr)))
          else case js_shrink_byte_array ctx v (len + 1) of
              None \<Rightarrow> None
            | Some (ctx1, v1) \<Rightarrow>
                Some (ctx1\<lparr>heap := (heap ctx1)(val_ptr v1 \<mapsto> MB_string
                   \<lparr>is_unique = False, is_ascii = ascii, is_numeric = False, str_buf = take len arr\<rparr>)\<rparr>, v1))"

definition js_string_byte_len :: "JSContext \<Rightarrow> JSValue \<Rightarrow> nat option" where
  "js_string_byte_len ctx v =
     (if JS_VALUE_GET_SPECIAL_TAG v = JS_TAG_STRING_CHAR then
        let c = sint (JS_VALUE_GET_SPECIAL_VALUE v) in
        Some (if c < 0x80 then 1 else if c < 0x800 then 2 else if c < 0x10000 then 3 else 4)
      else case block_of ctx v of Some (MB_string s) \<Rightarrow> Some (length (str_buf s)) | _ \<Rightarrow> None)"

section \<open>UTF-8 and UTF-16 positions\<close>

definition is_valid_len4_utf8 :: "u8 \<Rightarrow> u8 \<Rightarrow> bool" where
  "is_valid_len4_utf8 b0 b1 \<longleftrightarrow> ((push_bit 6 (ucast b0 AND 0xf) OR (ucast b1 AND 0x3f)) :: u32) \<ge> 0x10"

datatype pos_type = POS_TYPE_UTF8 | POS_TYPE_UTF16

text \<open>UTF-16 units of the character at byte \<open>i\<close>: two for a code point above U+FFFF.\<close>

definition is_pair_at :: "u8 list \<Rightarrow> nat \<Rightarrow> nat \<Rightarrow> bool" where
  "is_pair_at bs i clen \<longleftrightarrow> clen = 4 \<and> is_valid_len4_utf8 (byte_at bs i) (byte_at bs (i + 1))"

text \<open>The forward loop: byte index, UTF-16 index and whether it stopped inside a pair.\<close>

function convert_fwd :: "u8 list \<Rightarrow> nat \<Rightarrow> nat \<Rightarrow> nat \<Rightarrow> nat \<Rightarrow> nat \<times> nat \<times> nat" where
  "convert_fwd bs len limit i j =
     (if i < len then
        if j = limit then (i, j, 0)
        else let clen = utf8_char_len (byte_at bs i) in
          if is_pair_at bs i clen then
            if j + 1 = limit then (i, j, 1) else convert_fwd bs len limit (i + clen) (j + 2)
          else convert_fwd bs len limit (i + clen) (j + 1)
      else (i, j, 0))"
  by pat_completeness auto
termination
  by (relation "measure (\<lambda>(bs, len, limit, i, j). len - i)") (auto simp: utf8_char_len_def Let_def)

text \<open>The inner loop of the backward direction; below index 0 the code leaves the string.\<close>

fun skip_back :: "u8 list \<Rightarrow> nat \<Rightarrow> nat option" where
  "skip_back bs i =
     (if byte_at bs i AND 0xc0 = 0x80 then (case i of 0 \<Rightarrow> None | Suc k \<Rightarrow> skip_back bs k) else Some i)"

declare skip_back.simps [simp del]

lemma skip_back_le: "skip_back bs i = Some k \<Longrightarrow> k \<le> i"
proof (induction i arbitrary: k)
  case 0
  then show ?case by (subst (asm) skip_back.simps) (simp split: if_splits)
next
  case (Suc i)
  from Suc.prems show ?case
    by (subst (asm) skip_back.simps) (auto split: if_splits dest: Suc.IH)
qed

text \<open>The backward loop. \<open>j\<close> is a \<open>uint32_t\<close>, which wraps when the cache is not consistent.\<close>

definition u32_minus :: "nat \<Rightarrow> nat \<Rightarrow> nat" where
  "u32_minus j k = (if k \<le> j then j - k else j + 2 ^ 32 - k)"

function convert_bwd :: "u8 list \<Rightarrow> nat \<Rightarrow> nat \<Rightarrow> nat \<Rightarrow> nat \<Rightarrow> (nat \<times> nat \<times> nat) option" where
  "convert_bwd bs start limit i j =
     (if i > start then
        case skip_back bs (i - 1) of
          None \<Rightarrow> None
        | Some i1 \<Rightarrow>
            let clen = i - i1 in
            if is_pair_at bs i1 clen then
              let j1 = u32_minus j 2 in
              if j1 + 1 = limit then Some (i1, j1, 1)
              else if j1 = limit then Some (i1, j1, 0)
              else convert_bwd bs start limit i1 j1
            else let j1 = u32_minus j 1 in
              if j1 = limit then Some (i1, j1, 0) else convert_bwd bs start limit i1 j1
      else Some (i, j, 0))"
  by pat_completeness auto
termination
  by (relation "measure (\<lambda>(bs, start, limit, i, j). i)") (auto dest!: skip_back_le)

declare convert_fwd.simps [simp del] convert_bwd.simps [simp del]

definition cache_pos :: "pos_type \<Rightarrow> pos_cache_entry \<Rightarrow> nat" where
  "cache_pos pt ce = (case pt of POS_TYPE_UTF8 \<Rightarrow> ce_utf8 ce | POS_TYPE_UTF16 \<Rightarrow> ce_utf16 ce)"

text \<open>The search for the nearest cached position: index of the entry, if one is nearer than 0.\<close>

fun nearest_entry ::
  "pos_type \<Rightarrow> JSValue \<Rightarrow> nat \<Rightarrow> nat \<Rightarrow> pos_cache_entry list \<Rightarrow> nat \<Rightarrow> nat option \<Rightarrow> nat option" where
  "nearest_entry pt v pos idx [] d_min best = best"
| "nearest_entry pt v pos idx (ce # ces) d_min best =
     (if ce_str ce = v then
        let c = cache_pos pt ce; d = (if c \<ge> pos then c - pos else pos - c) in
        if d < d_min then nearest_entry pt v pos (idx + 1) ces d (Some idx)
        else nearest_entry pt v pos (idx + 1) ces d_min best
      else nearest_entry pt v pos (idx + 1) ces d_min best)"

definition JS_STRING_POS_CACHE_SIZE :: nat where "JS_STRING_POS_CACHE_SIZE = 2"
definition JS_STRING_POS_CACHE_MIN_LEN :: nat where "JS_STRING_POS_CACHE_MIN_LEN = 16"

text \<open>The entry to start from: the nearest one, or the next one to replace, reset to the start.\<close>

definition choose_entry :: "JSContext \<Rightarrow> JSValue \<Rightarrow> nat \<Rightarrow> pos_type \<Rightarrow> JSContext \<times> nat" where
  "choose_entry ctx v pos pt =
     (case nearest_entry pt v pos 0 (string_pos_cache ctx) pos None of
        Some k \<Rightarrow> (ctx, k)
      | None \<Rightarrow>
          let k = string_pos_cache_counter ctx in
          (ctx\<lparr>string_pos_cache := (string_pos_cache ctx)[k := \<lparr>ce_str = v, ce_utf8 = 0, ce_utf16 = 0\<rparr>],
               string_pos_cache_counter := (if k + 1 = JS_STRING_POS_CACHE_SIZE then 0 else k + 1)\<rparr>, k))"

text \<open>
  The position conversion without the cache bookkeeping: from a known pair of positions \<open>i0\<close>, \<open>j0\<close>
  to the pair found, scanning forwards or backwards.
\<close>

definition convert_scan ::
  "u8 list \<Rightarrow> nat \<Rightarrow> pos_type \<Rightarrow> nat \<Rightarrow> nat \<Rightarrow> (nat \<times> nat \<times> nat) option" where
  "convert_scan bs pos pt i0 j0 =
     (let int32_max = 2 ^ 31 - 1 in
      if (case pt of POS_TYPE_UTF8 \<Rightarrow> i0 | POS_TYPE_UTF16 \<Rightarrow> j0) \<le> pos then
        Some (case pt of POS_TYPE_UTF8 \<Rightarrow> convert_fwd bs pos int32_max i0 j0
                       | POS_TYPE_UTF16 \<Rightarrow> convert_fwd bs (length bs) pos i0 j0)
      else (case pt of POS_TYPE_UTF8 \<Rightarrow> convert_bwd bs pos int32_max i0 j0
                     | POS_TYPE_UTF16 \<Rightarrow> convert_bwd bs 0 pos i0 j0))"

definition js_string_convert_pos ::
  "JSContext \<Rightarrow> JSValue \<Rightarrow> nat \<Rightarrow> pos_type \<Rightarrow> (JSContext \<times> nat) option" where
  "js_string_convert_pos ctx v pos0 pt =
     (case get_string_ptr ctx v of
        None \<Rightarrow> None
      | Some p \<Rightarrow>
          let bs = str_buf p in
          if is_ascii p then
            Some (ctx, case pt of POS_TYPE_UTF8 \<Rightarrow> min (length bs) (pos0 div 2)
                                | POS_TYPE_UTF16 \<Rightarrow> min (length bs) pos0 * 2)
          else
            let has_surrogate = (case pt of POS_TYPE_UTF8 \<Rightarrow> pos0 mod 2 | POS_TYPE_UTF16 \<Rightarrow> 0);
                pos = (case pt of POS_TYPE_UTF8 \<Rightarrow> pos0 div 2 | POS_TYPE_UTF16 \<Rightarrow> pos0);
                result = (\<lambda>(i, j, flag). case pt of POS_TYPE_UTF8 \<Rightarrow> j + has_surrogate
                                                | POS_TYPE_UTF16 \<Rightarrow> i * 2 + flag) in
            if length bs < JS_STRING_POS_CACHE_MIN_LEN then
              Some (ctx, result (case pt of POS_TYPE_UTF8 \<Rightarrow> convert_fwd bs pos (2 ^ 31 - 1) 0 0
                                          | POS_TYPE_UTF16 \<Rightarrow> convert_fwd bs (length bs) pos 0 0))
            else
              let (ctx1, k) = choose_entry ctx v pos pt; ce = string_pos_cache ctx1 ! k in
              map_option (\<lambda>(i, j, flag).
                  (ctx1\<lparr>string_pos_cache := (string_pos_cache ctx1)[k := ce\<lparr>ce_utf8 := i, ce_utf16 := j\<rparr>]\<rparr>,
                   result (i, j, flag)))
                (convert_scan bs pos pt (ce_utf8 ce) (ce_utf16 ce)))"

definition js_string_utf16_to_utf8_pos :: "JSContext \<Rightarrow> JSValue \<Rightarrow> nat \<Rightarrow> (JSContext \<times> nat) option" where
  "js_string_utf16_to_utf8_pos ctx v pos = js_string_convert_pos ctx v pos POS_TYPE_UTF16"

definition js_string_utf8_to_utf16_pos :: "JSContext \<Rightarrow> JSValue \<Rightarrow> nat \<Rightarrow> (JSContext \<times> nat) option" where
  "js_string_utf8_to_utf16_pos ctx v pos = js_string_convert_pos ctx v pos POS_TYPE_UTF8"

definition js_string_len :: "JSContext \<Rightarrow> JSValue \<Rightarrow> (JSContext \<times> nat) option" where
  "js_string_len ctx v =
     (if JS_VALUE_GET_SPECIAL_TAG v = JS_TAG_STRING_CHAR then
        Some (ctx, if sint (JS_VALUE_GET_SPECIAL_VALUE v) \<ge> 0x10000 then 2 else 1)
      else case get_string_ptr ctx v of
          None \<Rightarrow> None
        | Some p \<Rightarrow> if is_ascii p then Some (ctx, length (str_buf p))
                    else js_string_utf8_to_utf16_pos ctx v (length (str_buf p) * 2))"

section \<open>Positions of a well-formed string\<close>

text \<open>A character: a lead byte that announces its length, and continuation bytes.\<close>

definition is_chunk :: "u8 list \<Rightarrow> bool" where
  "is_chunk c \<longleftrightarrow> c \<noteq> [] \<and> utf8_char_len (hd c) = length c \<and> hd c AND 0xc0 \<noteq> 0x80 \<and>
     (\<forall>b \<in> set (tl c). b AND 0xc0 = 0x80)"

definition units :: "u8 list \<Rightarrow> nat" where
  "units c = (if length c = 4 \<and> is_valid_len4_utf8 (c ! 0) (c ! 1) then 2 else 1)"

definition pos8 :: "u8 list list \<Rightarrow> nat \<Rightarrow> nat" where
  "pos8 cs k = length (concat (take k cs))"

definition pos16 :: "u8 list list \<Rightarrow> nat \<Rightarrow> nat" where
  "pos16 cs k = sum_list (map units (take k cs))"

text \<open>The reference: walk the characters from the start until the UTF-16 position is reached.\<close>

fun find16 :: "u8 list list \<Rightarrow> nat \<Rightarrow> nat \<Rightarrow> nat \<Rightarrow> nat \<times> nat \<times> nat" where
  "find16 [] i j P = (i, j, 0)"
| "find16 (c # cs) i j P =
     (if j = P then (i, j, 0)
      else if units c = 2 \<and> j + 1 = P then (i, j, 1)
      else find16 cs (i + length c) (j + units c) P)"

lemma units_cases: "units c = 1 \<or> units c = 2"
  by (simp add: units_def)

lemma pos_0 [simp]: "pos8 cs 0 = 0" "pos16 cs 0 = 0"
  by (simp_all add: pos8_def pos16_def)

lemma pos_Suc:
  assumes "k < length cs"
  shows "pos8 cs (Suc k) = pos8 cs k + length (cs ! k)" "pos16 cs (Suc k) = pos16 cs k + units (cs ! k)"
  using assms by (simp_all add: pos8_def pos16_def take_Suc_conv_app_nth)

lemma chunk_pos: "is_chunk c \<Longrightarrow> 0 < length c"
  by (simp add: is_chunk_def)

lemma concat_at:
  assumes "k < length cs" "m < length (cs ! k)"
  shows "byte_at (concat cs) (pos8 cs k + m) = cs ! k ! m" "pos8 cs k + m < length (concat cs)"
proof -
  have "concat cs = concat (take k cs) @ cs ! k @ concat (drop (Suc k) cs)"
    using id_take_nth_drop [OF assms(1)] by (metis concat.simps(2) concat_append)
  then show "byte_at (concat cs) (pos8 cs k + m) = cs ! k ! m" "pos8 cs k + m < length (concat cs)"
    using assms(2) by (simp_all add: byte_at_def pos8_def nth_append)
qed

lemma pos8_end: "pos8 cs (length cs) = length (concat cs)"
  by (simp add: pos8_def)

lemma pos8_mono: "k \<le> l \<Longrightarrow> pos8 cs k \<le> pos8 cs l"
  by (metis pos8_def concat_append le_add1 length_append le_add_diff_inverse take_add)

lemma pos16_mono: "k \<le> l \<Longrightarrow> pos16 cs k \<le> pos16 cs l"
  by (metis pos16_def sum_list_append map_append le_add1 le_add_diff_inverse take_add)

lemma lead:
  assumes "k < length cs" "\<forall>c \<in> set cs. is_chunk c"
  shows "utf8_char_len (byte_at (concat cs) (pos8 cs k)) = length (cs ! k)"
    "is_pair_at (concat cs) (pos8 cs k) (length (cs ! k)) \<longleftrightarrow> units (cs ! k) = 2"
    "pos8 cs k < length (concat cs)"
proof -
  have c: "is_chunk (cs ! k)" using assms by simp
  have l: "0 < length (cs ! k)" using c by (rule chunk_pos)
  show "utf8_char_len (byte_at (concat cs) (pos8 cs k)) = length (cs ! k)"
    using concat_at(1) [OF assms(1) l] c by (simp add: is_chunk_def) (metis hd_conv_nth)
  show "pos8 cs k < length (concat cs)" using concat_at(2) [OF assms(1) l] by simp
  show "is_pair_at (concat cs) (pos8 cs k) (length (cs ! k)) \<longleftrightarrow> units (cs ! k) = 2"
  proof (cases "length (cs ! k) = 4")
    case True
    then show ?thesis
      using concat_at(1) [OF assms(1), of 0] concat_at(1) [OF assms(1), of 1]
      by (simp add: is_pair_at_def units_def)
  qed (simp add: is_pair_at_def units_def)
qed

lemma skip_back_chunk:
  assumes "k < length cs" "\<forall>c \<in> set cs. is_chunk c" "m < length (cs ! k)"
  shows "skip_back (concat cs) (pos8 cs k + m) = Some (pos8 cs k)"
  using assms(3)
proof (induction m)
  case 0
  have "is_chunk (cs ! k)" using assms(1,2) by simp
  then have "cs ! k ! 0 AND 0xc0 \<noteq> 0x80" unfolding is_chunk_def by (metis hd_conv_nth)
  then have "byte_at (concat cs) (pos8 cs k) AND 0xc0 \<noteq> 0x80"
    using concat_at(1) [OF assms(1) 0] by simp
  then show ?case by (subst skip_back.simps) simp
next
  case (Suc m)
  have "cs ! k ! Suc m \<in> set (tl (cs ! k))"
    using Suc.prems by (metis Suc_less_eq2 length_tl nth_mem nth_tl Suc_pred gr_implies_not0 length_0_conv less_Suc_eq_0_disj diff_Suc_1)
  then have "byte_at (concat cs) (pos8 cs k + Suc m) AND 0xc0 = 0x80"
  proof -
    assume t: "cs ! k ! Suc m \<in> set (tl (cs ! k))"
    have "is_chunk (cs ! k)" using assms(1,2) by simp
    with t have "cs ! k ! Suc m AND 0xc0 = 0x80" unfolding is_chunk_def by blast
    then show ?thesis using concat_at(1) [OF assms(1) Suc.prems] by simp
  qed
  then show ?case using Suc by (subst skip_back.simps) simp
qed

text \<open>Forward from a boundary.\<close>

lemma convert_fwd_16:
  assumes "\<forall>c \<in> set cs. is_chunk c"
  shows "k \<le> length cs \<Longrightarrow>
    convert_fwd (concat cs) (length (concat cs)) P (pos8 cs k) (pos16 cs k) =
    find16 (drop k cs) (pos8 cs k) (pos16 cs k) P"
proof (induction "length cs - k" arbitrary: k)
  case 0
  then have k: "k = length cs" by simp
  show ?case by (subst convert_fwd.simps) (simp add: k pos8_end)
next
  case (Suc n)
  then have k: "k < length cs" by simp
  note ld = lead [OF k assms]
  have d: "drop k cs = cs ! k # drop (Suc k) cs" using k by (simp add: Cons_nth_drop_Suc)
  have IH: "convert_fwd (concat cs) (length (concat cs)) P (pos8 cs (Suc k)) (pos16 cs (Suc k)) =
    find16 (drop (Suc k) cs) (pos8 cs (Suc k)) (pos16 cs (Suc k)) P"
    using Suc k by (intro Suc.hyps(1)) simp_all
  show ?case
    using ld IH units_cases [of "cs ! k"]
    by (subst convert_fwd.simps) (auto simp: Let_def d pos_Suc [OF k])
qed

text \<open>The reference may start at any boundary that is not past the position.\<close>

lemma find16_from:
  assumes "k \<le> length cs" "pos16 cs k \<le> P"
  shows "find16 cs 0 0 P = find16 (drop k cs) (pos8 cs k) (pos16 cs k) P"
  using assms
proof (induction k)
  case (Suc k)
  then have k: "k < length cs" by simp
  have d: "drop k cs = cs ! k # drop (Suc k) cs" using k by (simp add: Cons_nth_drop_Suc)
  have lt: "pos16 cs k + units (cs ! k) \<le> P" using Suc.prems(2) pos_Suc [OF k] by simp
  have "find16 cs 0 0 P = find16 (drop k cs) (pos8 cs k) (pos16 cs k) P"
    using Suc lt k by simp
  also have "\<dots> = find16 (drop (Suc k) cs) (pos8 cs (Suc k)) (pos16 cs (Suc k)) P"
    using lt units_cases [of "cs ! k"] by (auto simp: d pos_Suc [OF k])
  finally show ?case .
qed simp

text \<open>Backward from a boundary beyond the position.\<close>

lemma convert_bwd_16:
  assumes "\<forall>c \<in> set cs. is_chunk c"
  shows "k \<le> length cs \<Longrightarrow> P < pos16 cs k \<Longrightarrow>
    convert_bwd (concat cs) 0 P (pos8 cs k) (pos16 cs k) = Some (find16 cs 0 0 P)"
proof (induction k)
  case (Suc k)
  then have k: "k < length cs" by simp
  note ld = lead [OF k assms]
  let ?c = "cs ! k"
  have "is_chunk ?c" using assms k by simp
  then have l: "0 < length ?c" by (rule chunk_pos)
  have sb: "skip_back (concat cs) (pos8 cs (Suc k) - 1) = Some (pos8 cs k)"
    using skip_back_chunk [OF k assms, of "length ?c - 1"] l by (simp add: pos_Suc [OF k])
  have clen: "pos8 cs (Suc k) - pos8 cs k = length ?c" by (simp add: pos_Suc [OF k])
  have pos: "0 < pos8 cs (Suc k)" using l by (simp add: pos_Suc [OF k])
  have d: "drop k cs = ?c # drop (Suc k) cs" using k by (simp add: Cons_nth_drop_Suc)
  have frm: "find16 cs 0 0 P = find16 (drop k cs) (pos8 cs k) (pos16 cs k) P" if "pos16 cs k \<le> P"
    using find16_from [of k cs P] k that by simp
  have rec: "convert_bwd (concat cs) 0 P (pos8 cs k) (pos16 cs k) = Some (find16 cs 0 0 P)"
    if "P < pos16 cs k" using Suc.IH k that by simp
  show ?case
  proof (cases "units ?c = 2")
    case True
    have "P < pos16 cs k + 2" using Suc.prems(2) pos_Suc [OF k] True by simp
    then show ?thesis
      using True ld(2) sb clen pos frm rec
      by (subst convert_bwd.simps) (auto simp: Let_def u32_minus_def pos_Suc(2) [OF k] d)
  next
    case False
    then have u: "units ?c = 1" using units_cases by blast
    have "P < pos16 cs k + 1" using Suc.prems(2) pos_Suc [OF k] u by simp
    then show ?thesis
      using u ld(2) sb clen pos frm rec
      by (subst convert_bwd.simps) (auto simp: Let_def u32_minus_def pos_Suc(2) [OF k] d)
  qed
qed simp

text \<open>From UTF-8 to UTF-16: the position is a boundary, and the limit is never reached.\<close>

lemma convert_fwd_8:
  assumes "\<forall>c \<in> set cs. is_chunk c" "pos16 cs (length cs) < 2 ^ 31 - 2"
  shows "k \<le> n \<Longrightarrow> n \<le> length cs \<Longrightarrow>
    convert_fwd (concat cs) (pos8 cs n) (2 ^ 31 - 1) (pos8 cs k) (pos16 cs k) = (pos8 cs n, pos16 cs n, 0)"
proof (induction "n - k" arbitrary: k)
  case 0
  then show ?case by (subst convert_fwd.simps) simp
next
  case (Suc m)
  then have k: "k < length cs" "k < n" by simp_all
  note ld = lead [OF k(1) assms(1)]
  have IH: "convert_fwd (concat cs) (pos8 cs n) (2 ^ 31 - 1) (pos8 cs (Suc k)) (pos16 cs (Suc k)) =
      (pos8 cs n, pos16 cs n, 0)"
    using Suc k by (intro Suc.hyps(1)) simp_all
  have lt: "pos8 cs k < pos8 cs n"
  proof -
    have "is_chunk (cs ! k)" using assms(1) k(1) by simp
    then have "pos8 cs k < pos8 cs (Suc k)" using pos_Suc(1) [OF k(1)] chunk_pos by simp
    also have "\<dots> \<le> pos8 cs n" using k(2) by (intro pos8_mono) simp
    finally show ?thesis .
  qed
  have lim: "pos16 cs k < 2 ^ 31 - 2" using pos16_mono [of k "length cs" cs] assms(2) k by simp
  show ?case
    using ld IH lt lim units_cases [of "cs ! k"]
    by (subst convert_fwd.simps) (auto simp: Let_def pos_Suc [OF k(1)])
qed

lemma convert_bwd_8:
  assumes "\<forall>c \<in> set cs. is_chunk c" "pos16 cs (length cs) < 2 ^ 31 - 2"
  shows "n \<le> k \<Longrightarrow> k \<le> length cs \<Longrightarrow>
    convert_bwd (concat cs) (pos8 cs n) (2 ^ 31 - 1) (pos8 cs k) (pos16 cs k) = Some (pos8 cs n, pos16 cs n, 0)"
proof (induction "k - n" arbitrary: k)
  case 0
  then show ?case by (subst convert_bwd.simps) simp
next
  case (Suc m)
  then obtain l where l: "k = Suc l" "n \<le> l" by (cases k) auto
  then have k: "l < length cs" using Suc by simp
  note ld = lead [OF k assms(1)]
  let ?c = "cs ! l"
  have "is_chunk ?c" using assms k by simp
  then have len: "0 < length ?c" by (rule chunk_pos)
  have sb: "skip_back (concat cs) (pos8 cs (Suc l) - 1) = Some (pos8 cs l)"
    using skip_back_chunk [OF k assms(1), of "length ?c - 1"] len by (simp add: pos_Suc [OF k])
  have clen: "pos8 cs (Suc l) - pos8 cs l = length ?c" by (simp add: pos_Suc [OF k])
  have gt: "pos8 cs n < pos8 cs (Suc l)"
    using pos8_mono [OF l(2), of cs] len unfolding pos_Suc(1) [OF k] by linarith
  have IH: "convert_bwd (concat cs) (pos8 cs n) (2 ^ 31 - 1) (pos8 cs l) (pos16 cs l) =
      Some (pos8 cs n, pos16 cs n, 0)"
    using Suc l by (intro Suc.hyps(1)) simp_all
  have lim: "pos16 cs l < 2 ^ 31 - 2" using pos16_mono [of l "length cs" cs] assms(2) k by simp
  show ?case
    using ld(2) IH gt sb clen lim units_cases [of ?c] unfolding l(1)
    by (subst convert_bwd.simps) (auto simp: Let_def u32_minus_def pos_Suc(2) [OF k])
qed

section \<open>The cache is transparent\<close>

text \<open>An entry for the string holds two positions of the same boundary.\<close>

definition cache_ok :: "JSContext \<Rightarrow> JSValue \<Rightarrow> u8 list list \<Rightarrow> bool" where
  "cache_ok ctx v cs \<longleftrightarrow>
     length (string_pos_cache ctx) = JS_STRING_POS_CACHE_SIZE \<and>
     string_pos_cache_counter ctx < JS_STRING_POS_CACHE_SIZE \<and>
     (\<forall>ce \<in> set (string_pos_cache ctx). ce_str ce = v \<longrightarrow>
        (\<exists>k \<le> length cs. ce_utf8 ce = pos8 cs k \<and> ce_utf16 ce = pos16 cs k))"

lemma nearest_entry_str:
  "nearest_entry pt v pos idx ces d best = Some k \<Longrightarrow>
   (best = Some k) \<or> (idx \<le> k \<and> k < idx + length ces \<and> ce_str (ces ! (k - idx)) = v)"
proof (induction ces arbitrary: idx d best)
  case (Cons ce ces)
  show ?case
  proof (cases "ce_str ce = v \<and> (let c = cache_pos pt ce in if c \<ge> pos then c - pos else pos - c) < d")
    case True
    let ?d = "let c = cache_pos pt ce in if c \<ge> pos then c - pos else pos - c"
    have "nearest_entry pt v pos (idx + 1) ces ?d (Some idx) = Some k"
      using Cons.prems True by (simp add: Let_def split: if_splits)
    from Cons.IH [OF this] show ?thesis using True by (auto simp: nth_Cons')
  next
    case False
    have "nearest_entry pt v pos (idx + 1) ces d best = Some k"
      using Cons.prems False by (auto simp: Let_def split: if_splits)
    from Cons.IH [OF this] show ?thesis by (auto simp: nth_Cons')
  qed
qed simp

lemma choose_entry_ok:
  assumes "cache_ok ctx v cs" "choose_entry ctx v pos pt = (ctx1, k)"
  shows "cache_ok ctx1 v cs \<and> k < length (string_pos_cache ctx1) \<and> ce_str (string_pos_cache ctx1 ! k) = v \<and>
    (\<exists>m \<le> length cs. ce_utf8 (string_pos_cache ctx1 ! k) = pos8 cs m \<and>
       ce_utf16 (string_pos_cache ctx1 ! k) = pos16 cs m)"
proof (cases "nearest_entry pt v pos 0 (string_pos_cache ctx) pos None")
  case None
  let ?n = "string_pos_cache_counter ctx"
  let ?e = "\<lparr>ce_str = v, ce_utf8 = 0, ce_utf16 = 0\<rparr>"
  have eq: "ctx1 = ctx\<lparr>string_pos_cache := (string_pos_cache ctx)[?n := ?e],
      string_pos_cache_counter := (if ?n + 1 = JS_STRING_POS_CACHE_SIZE then 0 else ?n + 1)\<rparr>" "k = ?n"
  proof -
    have "(ctx\<lparr>string_pos_cache := (string_pos_cache ctx)[?n := ?e],
      string_pos_cache_counter := (if ?n + 1 = JS_STRING_POS_CACHE_SIZE then 0 else ?n + 1)\<rparr>, ?n) = (ctx1, k)"
      using assms(2) by (simp only: choose_entry_def None option.case Let_def)
    then show "ctx1 = ctx\<lparr>string_pos_cache := (string_pos_cache ctx)[?n := ?e],
      string_pos_cache_counter := (if ?n + 1 = JS_STRING_POS_CACHE_SIZE then 0 else ?n + 1)\<rparr>" "k = ?n"
      by blast+
  qed
  have n: "?n < length (string_pos_cache ctx)" using assms(1) by (simp add: cache_ok_def)
  have e0: "\<exists>m \<le> length cs. ce_utf8 ?e = pos8 cs m \<and> ce_utf16 ?e = pos16 cs m"
    by (rule exI [of _ 0]) simp
  have "cache_ok ctx1 v cs"
  proof -
    have "\<exists>m \<le> length cs. ce_utf8 ce = pos8 cs m \<and> ce_utf16 ce = pos16 cs m"
      if "ce \<in> set ((string_pos_cache ctx)[?n := ?e])" "ce_str ce = v" for ce
      using set_update_subset_insert [THEN subsetD, OF that(1)]
    proof
      assume ce: "ce = ?e"
      show ?thesis unfolding ce by (rule e0)
    next
      assume "ce \<in> set (string_pos_cache ctx)"
      with that(2) assms(1) show ?thesis unfolding cache_ok_def by blast
    qed
    then show ?thesis
      using assms(1) unfolding cache_ok_def eq by (simp add: JS_STRING_POS_CACHE_SIZE_def)
  qed
  then show ?thesis using n e0 by (simp add: eq)
next
  case (Some k')
  then have eq: "ctx1 = ctx" "k = k'" using assms(2) by (simp_all add: choose_entry_def)
  have k: "k < length (string_pos_cache ctx)" "ce_str (string_pos_cache ctx ! k) = v"
    using nearest_entry_str [OF Some] eq by simp_all
  then have "string_pos_cache ctx ! k \<in> set (string_pos_cache ctx)" by simp
  with assms(1) k show ?thesis unfolding cache_ok_def eq(1) by blast
qed

lemma cache_ok_store:
  assumes "cache_ok ctx v cs" "k < length (string_pos_cache ctx)" "m \<le> length cs"
  shows "cache_ok (ctx\<lparr>string_pos_cache := (string_pos_cache ctx)[k :=
    (string_pos_cache ctx ! k)\<lparr>ce_utf8 := pos8 cs m, ce_utf16 := pos16 cs m\<rparr>]\<rparr>) v cs"
  using assms unfolding cache_ok_def by (auto dest!: set_update_subset_insert [THEN subsetD])

lemma find16_result:
  assumes "P \<le> pos16 cs (length cs)"
  shows "\<exists>n \<le> length cs. find16 cs 0 0 P = (pos8 cs n, pos16 cs n, P - pos16 cs n) \<and>
    pos16 cs n \<le> P \<and> P \<le> pos16 cs n + 1"
proof -
  have "\<exists>n \<le> length cs. pos16 cs n \<le> P \<and> (n = length cs \<or> P < pos16 cs (Suc n))"
  proof -
    define n where "n = Max {n. n \<le> length cs \<and> pos16 cs n \<le> P}"
    have fin: "finite {n. n \<le> length cs \<and> pos16 cs n \<le> P}" by simp
    have "0 \<in> {n. n \<le> length cs \<and> pos16 cs n \<le> P}" by simp
    then have n: "n \<le> length cs" "pos16 cs n \<le> P" using Max_in [OF fin] unfolding n_def by blast+
    have "n = length cs \<or> P < pos16 cs (Suc n)"
      using Max_ge [OF fin, of "Suc n"] n unfolding n_def [symmetric] by fastforce
    with n show ?thesis by blast
  qed
  then obtain n where n: "n \<le> length cs" "pos16 cs n \<le> P" "n = length cs \<or> P < pos16 cs (Suc n)" by blast
  have frm: "find16 cs 0 0 P = find16 (drop n cs) (pos8 cs n) (pos16 cs n) P"
    by (rule find16_from [OF n(1,2)])
  show ?thesis
  proof (cases "n = length cs")
    case True
    then show ?thesis using frm n assms by (intro exI [of _ n]) simp
  next
    case False
    then have k: "n < length cs" using n(1) by simp
    have d: "drop n cs = cs ! n # drop (Suc n) cs" using k by (simp add: Cons_nth_drop_Suc)
    have lt: "P < pos16 cs n + units (cs ! n)" using n(3) False pos_Suc [OF k] by simp
    show ?thesis
      using frm n lt units_cases [of "cs ! n"] unfolding d
      by (intro exI [of _ n]) auto
  qed
qed

lemma convert_scan_16:
  assumes "\<forall>c \<in> set cs. is_chunk c" "m \<le> length cs"
  shows "convert_scan (concat cs) P POS_TYPE_UTF16 (pos8 cs m) (pos16 cs m) = Some (find16 cs 0 0 P)"
proof (cases "pos16 cs m \<le> P")
  case True
  then show ?thesis
    using convert_fwd_16 [OF assms(1,2)] find16_from [OF assms(2) True]
    by (simp add: convert_scan_def)
next
  case False
  then show ?thesis
    using convert_bwd_16 [OF assms(1,2)] by (simp add: convert_scan_def)
qed

lemma convert_scan_8:
  assumes "\<forall>c \<in> set cs. is_chunk c" "m \<le> length cs" "n \<le> length cs" "pos16 cs (length cs) < 2 ^ 31 - 2"
  shows "convert_scan (concat cs) (pos8 cs n) POS_TYPE_UTF8 (pos8 cs m) (pos16 cs m) =
    Some (pos8 cs n, pos16 cs n, 0)"
proof (cases "m \<le> n")
  case True
  then show ?thesis
    using convert_fwd_8 [OF assms(1,4) True assms(3)] pos8_mono [OF True, of cs]
    by (simp add: convert_scan_def)
next
  case False
  then have le: "n \<le> m" by simp
  have lt: "pos8 cs n < pos8 cs m"
  proof -
    have k: "n < length cs" using False assms(2) by simp
    then have "is_chunk (cs ! n)" using assms(1) by simp
    then have "pos8 cs n < pos8 cs (Suc n)" using pos_Suc(1) [OF k] chunk_pos by simp
    also have "\<dots> \<le> pos8 cs m" using False by (intro pos8_mono) simp
    finally show ?thesis .
  qed
  then show ?thesis
    using convert_bwd_8 [OF assms(1,4) le assms(2)] by (simp add: convert_scan_def)
qed

lemma choose_entry_heap: "choose_entry ctx v pos t = (ctx', k) \<Longrightarrow> heap ctx' = heap ctx"
  by (auto simp: choose_entry_def Let_def split: option.splits)

lemma get_string_ptr_heap: "heap ctx' = heap ctx \<Longrightarrow> get_string_ptr ctx' v = get_string_ptr ctx v"
  by (simp add: get_string_ptr_def block_of_def)

lemma utf16_to_utf8_pos_eq:
  assumes "get_string_ptr ctx v = Some p" "str_buf p = concat cs" "\<forall>c \<in> set cs. is_chunk c"
    "\<not> is_ascii p" "cache_ok ctx v cs"
  shows "\<exists>ctx'. js_string_utf16_to_utf8_pos ctx v P =
      Some (ctx', (case find16 cs 0 0 P of (i, j, flag) \<Rightarrow> i * 2 + flag)) \<and> cache_ok ctx' v cs \<and>
      heap ctx' = heap ctx"
proof (cases "length (concat cs) < JS_STRING_POS_CACHE_MIN_LEN")
  case True
  then show ?thesis
    using assms convert_fwd_16 [OF assms(3), of 0 P]
    by (simp add: js_string_utf16_to_utf8_pos_def js_string_convert_pos_def Let_def)
next
  case False
  obtain ctx1 k where ch: "choose_entry ctx v P POS_TYPE_UTF16 = (ctx1, k)"
    by (cases "choose_entry ctx v P POS_TYPE_UTF16")
  from choose_entry_ok [OF assms(5) ch] obtain m where
    c: "cache_ok ctx1 v cs" "k < length (string_pos_cache ctx1)" "m \<le> length cs"
      "ce_utf8 (string_pos_cache ctx1 ! k) = pos8 cs m" "ce_utf16 (string_pos_cache ctx1 ! k) = pos16 cs m"
    by blast
  obtain i j flag where f: "find16 cs 0 0 P = (i, j, flag)" by (cases "find16 cs 0 0 P")
  have bnd: "\<exists>n \<le> length cs. i = pos8 cs n \<and> j = pos16 cs n"
  proof (cases "P \<le> pos16 cs (length cs)")
    case True
    then show ?thesis using find16_result [OF True] f by auto
  next
    case F: False
    then have "find16 cs 0 0 P = (pos8 cs (length cs), pos16 cs (length cs), 0)"
      using find16_from [of "length cs" cs P] by simp
    with f show ?thesis by auto
  qed
  then obtain n where n: "n \<le> length cs" "i = pos8 cs n" "j = pos16 cs n" by blast
  have "js_string_utf16_to_utf8_pos ctx v P =
      Some (ctx1\<lparr>string_pos_cache := (string_pos_cache ctx1)[k :=
        (string_pos_cache ctx1 ! k)\<lparr>ce_utf8 := i, ce_utf16 := j\<rparr>]\<rparr>, i * 2 + flag)"
    using assms False ch convert_scan_16 [OF assms(3) c(3), of P] c(4,5) f
    by (simp add: js_string_utf16_to_utf8_pos_def js_string_convert_pos_def Let_def)
  moreover have "cache_ok (ctx1\<lparr>string_pos_cache := (string_pos_cache ctx1)[k :=
        (string_pos_cache ctx1 ! k)\<lparr>ce_utf8 := i, ce_utf16 := j\<rparr>]\<rparr>) v cs"
    unfolding n(2,3) by (rule cache_ok_store [OF c(1,2) n(1)])
  ultimately show ?thesis using f choose_entry_heap [OF ch] by simp
qed

text \<open>
  C27: on any well-formed non-ASCII string, with any consistent content of the position cache, the
  conversion from a UTF-16 position gives what a walk from the start of the string gives, and leaves
  the cache consistent: starting from the nearest cached position, forwards or backwards, does not
  change the result.
\<close>
theorem utf16_to_utf8_pos_correct:
  assumes "get_string_ptr ctx v = Some p" "str_buf p = concat cs" "\<forall>c \<in> set cs. is_chunk c"
    "\<not> is_ascii p" "cache_ok ctx v cs"
  shows "\<exists>ctx'. js_string_utf16_to_utf8_pos ctx v P =
      Some (ctx', (case find16 cs 0 0 P of (i, j, flag) \<Rightarrow> i * 2 + flag)) \<and> cache_ok ctx' v cs"
  using utf16_to_utf8_pos_eq [OF assms] by blast

theorem utf16_to_utf8_pos_correct_witness:
  "map_option snd (js_string_utf16_to_utf8_pos (blank_ctx\<lparr>heap := [64 \<mapsto> MB_string
     \<lparr>is_unique = False, is_ascii = False, is_numeric = False,
      str_buf = concat ([0xf0, 0x9f, 0x98, 0x80] # replicate 16 [0x61])\<rparr>]\<rparr>) (ptr_val 64) 3) = Some 10"
proof -
  define cs :: "u8 list list" where "cs = [0xf0, 0x9f, 0x98, 0x80] # replicate 16 [0x61]"
  define s where "s = \<lparr>is_unique = False, is_ascii = False, is_numeric = False, str_buf = concat cs\<rparr>"
  define ctx where "ctx = blank_ctx\<lparr>heap := [64 \<mapsto> MB_string s]\<rparr>"
  have p: "get_string_ptr ctx (ptr_val 64) = Some s"
    by (simp add: get_string_ptr_def ctx_def ptr_val_def block_of_def val_ptr_def JS_VALUE_FROM_PTR_def
        JS_VALUE_TO_PTR_def JS_VALUE_GET_SPECIAL_TAG_def JS_TAG_STRING_CHAR_def JS_TAG_SPECIAL_def)
  have ch: "\<forall>c \<in> set cs. is_chunk c"
    by (simp add: cs_def is_chunk_def utf8_char_len_def)
  have co: "cache_ok ctx (ptr_val 64) cs"
    by (simp add: cache_ok_def ctx_def blank_ctx_def JS_STRING_POS_CACHE_SIZE_def ptr_val_def
        JS_VALUE_FROM_PTR_def JS_NULL_def JS_VALUE_MAKE_SPECIAL_def JS_TAG_NULL_def JS_TAG_SPECIAL_def)
  have u: "units [0xf0, 0x9f, 0x98, 0x80 :: u8] = 2" "units [0x61 :: u8] = 1"
    by (simp_all add: units_def is_valid_len4_utf8_def)
  have f: "find16 cs 0 0 3 = (5, 3, 0)"
    by (simp add: cs_def u numeral_eq_Suc)
  show ?thesis
    using utf16_to_utf8_pos_correct [OF p _ ch _ co, of 3] f
    by (auto simp: s_def simp flip: cs_def ctx_def [unfolded s_def])
qed

text \<open>
  C38: the conversion of a character boundary from UTF-8 to UTF-16, again for every consistent cache,
  gives the number of UTF-16 units before it; with the other direction it is the identity on every
  UTF-16 position inside the string, surrogate halves included.
\<close>
theorem utf16_utf8_pos_roundtrip:
  assumes "get_string_ptr ctx v = Some p" "str_buf p = concat cs" "\<forall>c \<in> set cs. is_chunk c"
    "\<not> is_ascii p" "cache_ok ctx v cs" "pos16 cs (length cs) < 2 ^ 31 - 2" "P \<le> pos16 cs (length cs)"
    "js_string_utf16_to_utf8_pos ctx v P = Some (ctx1, q)"
  shows "\<exists>ctx2. js_string_utf8_to_utf16_pos ctx1 v q = Some (ctx2, P) \<and> cache_ok ctx2 v cs"
proof -
  from find16_result [OF assms(7)] obtain n where n: "n \<le> length cs"
    "find16 cs 0 0 P = (pos8 cs n, pos16 cs n, P - pos16 cs n)" "pos16 cs n \<le> P" "P \<le> pos16 cs n + 1"
    by blast
  have q: "q = pos8 cs n * 2 + (P - pos16 cs n)" and c1: "cache_ok ctx1 v cs"
    and g: "get_string_ptr ctx1 v = Some p"
    using utf16_to_utf8_pos_eq [OF assms(1-5), of P] assms(1,8) n(2) get_string_ptr_heap [of ctx1 ctx v] by auto
  have "P = pos16 cs n \<or> P = pos16 cs n + 1" using n(3,4) by linarith
  then have d: "q div 2 = pos8 cs n" "q mod 2 = P - pos16 cs n" unfolding q by auto
  show ?thesis
  proof (cases "length (concat cs) < JS_STRING_POS_CACHE_MIN_LEN")
    case True
    then show ?thesis
      using assms g c1 d n convert_fwd_8 [OF assms(3,6) _ n(1), of 0]
      by (simp add: js_string_utf8_to_utf16_pos_def js_string_convert_pos_def Let_def)
  next
    case False
    obtain ctx2 k where ch: "choose_entry ctx1 v (pos8 cs n) POS_TYPE_UTF8 = (ctx2, k)"
      by (cases "choose_entry ctx1 v (pos8 cs n) POS_TYPE_UTF8")
    from choose_entry_ok [OF c1 ch] obtain m where
      c: "cache_ok ctx2 v cs" "k < length (string_pos_cache ctx2)" "m \<le> length cs"
        "ce_utf8 (string_pos_cache ctx2 ! k) = pos8 cs m" "ce_utf16 (string_pos_cache ctx2 ! k) = pos16 cs m"
      by blast
    show ?thesis
      using assms g False ch d n convert_scan_8 [OF assms(3) c(3) n(1) assms(6)] c(4,5)
        cache_ok_store [OF c(1,2) n(1)]
      by (simp add: js_string_utf8_to_utf16_pos_def js_string_convert_pos_def Let_def)
  qed
qed

theorem utf16_utf8_pos_roundtrip_witness:
  "\<exists>ctx1 ctx2. js_string_utf16_to_utf8_pos (blank_ctx\<lparr>heap := [64 \<mapsto> MB_string
     \<lparr>is_unique = False, is_ascii = False, is_numeric = False,
      str_buf = concat ([0xf0, 0x9f, 0x98, 0x80] # replicate 16 [0x61])\<rparr>]\<rparr>) (ptr_val 64) 1 = Some (ctx1, 1) \<and>
     js_string_utf8_to_utf16_pos ctx1 (ptr_val 64) 1 = Some (ctx2, 1)"
proof -
  define cs :: "u8 list list" where "cs = [0xf0, 0x9f, 0x98, 0x80] # replicate 16 [0x61]"
  define s where "s = \<lparr>is_unique = False, is_ascii = False, is_numeric = False, str_buf = concat cs\<rparr>"
  define ctx where "ctx = blank_ctx\<lparr>heap := [64 \<mapsto> MB_string s]\<rparr>"
  have p: "get_string_ptr ctx (ptr_val 64) = Some s"
    by (simp add: get_string_ptr_def ctx_def ptr_val_def block_of_def val_ptr_def JS_VALUE_FROM_PTR_def
        JS_VALUE_TO_PTR_def JS_VALUE_GET_SPECIAL_TAG_def JS_TAG_STRING_CHAR_def JS_TAG_SPECIAL_def)
  have ch: "\<forall>c \<in> set cs. is_chunk c"
    by (simp add: cs_def is_chunk_def utf8_char_len_def)
  have co: "cache_ok ctx (ptr_val 64) cs"
    by (simp add: cache_ok_def ctx_def blank_ctx_def JS_STRING_POS_CACHE_SIZE_def ptr_val_def
        JS_VALUE_FROM_PTR_def JS_NULL_def JS_VALUE_MAKE_SPECIAL_def JS_TAG_NULL_def JS_TAG_SPECIAL_def)
  have u: "units [0xf0, 0x9f, 0x98, 0x80 :: u8] = 2" "units [0x61 :: u8] = 1"
    by (simp_all add: units_def is_valid_len4_utf8_def)
  have e: "pos16 cs (length cs) = 18"
    by (simp add: cs_def pos16_def u numeral_eq_Suc)
  have f: "find16 cs 0 0 1 = (0, 0, 1)"
    by (simp add: cs_def u)
  obtain ctx1 where one: "js_string_utf16_to_utf8_pos ctx (ptr_val 64) 1 = Some (ctx1, 1)"
    using utf16_to_utf8_pos_eq [OF p _ ch _ co, of 1] f by (auto simp: s_def)
  obtain ctx2 where "js_string_utf8_to_utf16_pos ctx1 (ptr_val 64) 1 = Some (ctx2, 1)"
    using utf16_utf8_pos_roundtrip [OF p _ ch _ co _ _ one] e by (auto simp: s_def)
  with one show ?thesis unfolding ctx_def s_def cs_def by blast
qed

end
