(* ===== verification/JsStringOps.thy ===== *)
theory JsStringOps imports JsString begin

text \<open>
  The operations on strings built over the position conversion (\<open>native/mquickjs/mquickjs.c\<close>):
  substrings, the string buffer, concatenation, equality and order, access to a character by its
  UTF-16 position, and the test for short integers in decimal. A string buffer keeps its value in
  the root list, where a collection updates it; \<open>sb_ref\<close> is its place in that list, counted from
  the oldest entry. \<open>fresh\<close> is the content of memory the allocator does not initialise.
\<close>

unbundle bit_operations_syntax

section \<open>Substrings\<close>

text \<open>The string block a value points to, overwritten after its allocation.\<close>

definition set_string :: "JSContext \<Rightarrow> nat \<Rightarrow> bool \<Rightarrow> u8 list \<Rightarrow> JSContext" where
  "set_string ctx p ascii buf = ctx\<lparr>heap := (heap ctx)(p \<mapsto> MB_string
     \<lparr>is_unique = False, is_ascii = ascii, is_numeric = False, str_buf = buf\<rparr>)\<rparr>"

text \<open>
  \<open>start0\<close> and \<open>end0\<close> are byte positions times two, plus one inside a surrogate pair; callers keep
  \<open>start0 \<le> end0\<close> inside the string, anything else is \<open>None\<close>.
\<close>

definition js_sub_string_utf8 ::
  "js_env \<Rightarrow> JSContext \<Rightarrow> JSValue \<Rightarrow> nat \<Rightarrow> nat \<Rightarrow> (JSContext \<times> JSValue) option" where
  "js_sub_string_utf8 env ctx v start0 end0 =
     (if end0 = start0 then Some (ctx, atom_empty ctx)
      else case get_string_ptr ctx v of
        None \<Rightarrow> None
      | Some p1 \<Rightarrow>
          let start_surrogate = odd start0; end_surrogate = odd end0;
              start = start0 div 2; end = end0 div 2; len = end - start; ptr = str_buf p1 in
          if end0 < start0 \<or> end > length ptr then None
          else if \<not> start_surrogate \<and> \<not> end_surrogate \<and> utf8_char_len (byte_at ptr start) = len then
            Some (ctx, JS_NewStringChar (fst (utf8_get (drop start ptr))))
          else
            let (ctx1, r) = js_alloc_string env (JS_PushGCRef ctx v)
                  (replicate (len - of_bool start_surrogate + (if end_surrogate then 3 else 0)) 0) False;
                (ctx2, v2) = JS_PopGCRef ctx1 in
            case r of
              None \<Rightarrow> Some (ctx2, JS_EXCEPTION)
            | Some p \<Rightarrow>
                (case get_string_ptr ctx2 v2 of
                   None \<Rightarrow> None
                 | Some p2 \<Rightarrow>
                     let ptr2 = str_buf p2 in
                     if start_surrogate \<or> end_surrogate then
                       let left = (if start_surrogate then
                             unicode_to_utf8 (0xdc00 + ((fst (utf8_get (drop start ptr2)) - 0x10000) AND 0x3ff))
                           else []);
                           start1 = (if start_surrogate then start + 4 else start);
                           right = (if end_surrogate then
                             unicode_to_utf8 (0xd800 + drop_bit 10 (fst (utf8_get (drop end ptr2)) - 0x10000))
                           else []) in
                       Some (set_string ctx2 p False (left @ take (end - start1) (drop start1 ptr2) @ right),
                             ptr_val p)
                     else
                       Some (set_string ctx2 p (if is_ascii p2 then True
                               else is_ascii_string (take len (drop start ptr2)))
                               (take len (drop start ptr2)),
                             ptr_val p)))"

definition is_utf8_left_surrogate :: "u8 list \<Rightarrow> bool" where
  "is_utf8_left_surrogate p \<longleftrightarrow> p ! 0 = 0xed \<and> p ! 1 \<ge> 0xa0 \<and> p ! 1 \<le> 0xaf"

definition is_utf8_right_surrogate :: "u8 list \<Rightarrow> bool" where
  "is_utf8_right_surrogate p \<longleftrightarrow> p ! 0 = 0xed \<and> p ! 1 \<ge> 0xb0 \<and> p ! 1 \<le> 0xbf"

section \<open>The string buffer\<close>

record StringBuffer =
  sb_ref :: nat
  sb_len :: nat
  sb_is_ascii :: bool

definition sb_val :: "JSContext \<Rightarrow> StringBuffer \<Rightarrow> JSValue" where
  "sb_val ctx s = rev (top_gc_ref ctx) ! sb_ref s"

definition set_sb_val :: "JSContext \<Rightarrow> StringBuffer \<Rightarrow> JSValue \<Rightarrow> JSContext" where
  "set_sb_val ctx s v = ctx\<lparr>top_gc_ref := rev ((rev (top_gc_ref ctx))[sb_ref s := v])\<rparr>"

text \<open>The C result 0 is \<open>True\<close>, -1 is \<open>False\<close>.\<close>

definition string_buffer_push ::
  "js_env \<Rightarrow> (nat \<Rightarrow> u8) \<Rightarrow> JSContext \<Rightarrow> nat \<Rightarrow> JSContext \<times> StringBuffer \<times> bool" where
  "string_buffer_push env fresh ctx len =
     (let link = (\<lambda>ctx v. (JS_PushGCRef ctx v,
            \<lparr>sb_ref = length (top_gc_ref ctx), sb_len = 0, sb_is_ascii = True\<rparr>, True)) in
      if len > 0 then
        (case js_alloc_byte_array env ctx (map fresh [0..<len]) of
           (ctx1, None) \<Rightarrow> (ctx1, \<lparr>sb_ref = 0, sb_len = 0, sb_is_ascii = True\<rparr>, False)
         | (ctx1, Some p) \<Rightarrow> link ctx1 (ptr_val p))
      else link ctx (atom_empty ctx))"

text \<open>
  The end of \<open>string_buffer_concat_str\<close>: the bytes of the second string are stored after \<open>len1\<close>
  bytes of the array, and a left surrogate followed by a right one becomes one 4 byte character.
  The result is the new content and its length.
\<close>

definition concat_bytes :: "u8 list \<Rightarrow> nat \<Rightarrow> u8 list \<Rightarrow> u8 list \<times> nat \<times> bool" where
  "concat_bytes arr len1 b2 =
     (let store = (\<lambda>q bs. take q arr @ bs @ drop (q + length bs) arr) in
      if length b2 \<ge> 3 \<and> is_utf8_right_surrogate b2 \<and> len1 \<ge> 3 \<and>
         is_utf8_left_surrogate (drop (len1 - 3) arr) then
        let c = push_bit 10 (fst (utf8_get (drop (len1 - 3) arr)) AND 0x3ff) OR (fst (utf8_get b2) AND 0x3ff);
            bs = unicode_to_utf8 (c + 0x10000) @ drop 3 b2 in
        (store (len1 - 3) bs, len1 + length b2 - 2, True)
      else (store len1 b2, len1 + length b2, False))"

definition string_buffer_concat_str ::
  "js_env \<Rightarrow> (nat \<Rightarrow> u8) \<Rightarrow> JSContext \<Rightarrow> StringBuffer \<Rightarrow> JSValue \<Rightarrow>
   (JSContext \<times> StringBuffer \<times> bool) option" where
  "string_buffer_concat_str env fresh ctx s val2 =
     (if JS_IsException (sb_val ctx s) then Some (ctx, s, False)
      else case get_string_ptr ctx val2 of
        None \<Rightarrow> None
      | Some p2 \<Rightarrow>
          let len2 = length (str_buf p2); buf = sb_val ctx s in
          if len2 = 0 then Some (ctx, s, True)
          else
            let is_str = JS_IsString ctx buf;
                p1 = (if is_str then get_string_ptr ctx buf else None) in
            if is_str \<and> p1 = None then None
            else if is_str \<and> str_buf (the p1) = [] then Some (set_sb_val ctx s val2, s, True)
            else
              let len1 = (if is_str then length (str_buf (the p1)) else sb_len s);
                  val1 = (if is_str then buf else JS_NULL);
                  ctx0 = (if is_str then set_sb_val ctx s JS_NULL else ctx);
                  len = len1 + len2 in
              if len > JS_STRING_LEN_MAX then
                Some (set_sb_val (JS_ThrowInternalError env ctx0 ''string too long'') s JS_EXCEPTION, s, False)
              else
                case (if is_str then Some [] else byte_array_of ctx0 buf) of
                  None \<Rightarrow> None
                | Some arr \<Rightarrow>
                    if is_str \<or> len + 1 > length arr then
                      (case js_resize_byte_array env fresh (JS_PushGCRef (JS_PushGCRef ctx0 val1) val2)
                              (sb_val ctx0 s) (len + 1) of
                         None \<Rightarrow> None
                       | Some (ctx1, b) \<Rightarrow>
                           let (ctx2, val2') = JS_PopGCRef ctx1; (ctx3, val1') = JS_PopGCRef ctx2;
                               ctx4 = set_sb_val ctx3 s b in
                           if JS_IsException b then Some (ctx4, s, False)
                           else case (byte_array_of ctx4 b, get_string_ptr ctx4 val2',
                                      if val1' \<noteq> JS_NULL then get_string_ptr ctx4 val1' else Some
                                        \<lparr>is_unique = False, is_ascii = sb_is_ascii s, is_numeric = False,
                                         str_buf = []\<rparr>) of
                               (Some arr1, Some p2', Some p1') \<Rightarrow>
                                 let arr2 = (if val1' \<noteq> JS_NULL then
                                       take len1 (str_buf p1') @ drop len1 arr1 else arr1);
                                     (arr3, len3, contracted) = concat_bytes arr2 len1 (str_buf p2') in
                                 Some (ctx4\<lparr>heap := (heap ctx4)(val_ptr b \<mapsto> MB_byte_array arr3)\<rparr>,
                                   s\<lparr>sb_len := len3,
                                     sb_is_ascii := \<not> contracted \<and> is_ascii p1' \<and> is_ascii p2'\<rparr>, True)
                             | _ \<Rightarrow> None)
                    else
                      let (arr3, len3, contracted) = concat_bytes arr len1 (str_buf p2) in
                      Some (ctx0\<lparr>heap := (heap ctx0)(val_ptr buf \<mapsto> MB_byte_array arr3)\<rparr>,
                        s\<lparr>sb_len := len3, sb_is_ascii := \<not> contracted \<and> sb_is_ascii s \<and> is_ascii p2\<rparr>, True))"

section \<open>More of the buffer\<close>

definition string_buffer_concat_utf8 ::
  "js_env \<Rightarrow> (nat \<Rightarrow> u8) \<Rightarrow> JSContext \<Rightarrow> StringBuffer \<Rightarrow> JSValue \<Rightarrow> nat \<Rightarrow> nat \<Rightarrow>
   (JSContext \<times> StringBuffer \<times> bool) option" where
  "string_buffer_concat_utf8 env fresh ctx s str start end =
     (if end \<le> start then Some (ctx, s, True)
      else case js_sub_string_utf8 env ctx str start end of
        None \<Rightarrow> None
      | Some (ctx1, val2) \<Rightarrow>
          if JS_IsException val2 then Some (set_sb_val ctx1 s JS_EXCEPTION, s, False)
          else string_buffer_concat_str env fresh ctx1 s val2)"

definition string_buffer_concat_utf16 ::
  "js_env \<Rightarrow> (nat \<Rightarrow> u8) \<Rightarrow> JSContext \<Rightarrow> StringBuffer \<Rightarrow> JSValue \<Rightarrow> nat \<Rightarrow> nat \<Rightarrow>
   (JSContext \<times> StringBuffer \<times> bool) option" where
  "string_buffer_concat_utf16 env fresh ctx s str start end =
     (if end \<le> start then Some (ctx, s, True)
      else case js_string_utf16_to_utf8_pos ctx str start of
        None \<Rightarrow> None
      | Some (ctx1, start_utf8) \<Rightarrow>
          (case js_string_utf16_to_utf8_pos ctx1 str end of
             None \<Rightarrow> None
           | Some (ctx2, end_utf8) \<Rightarrow> string_buffer_concat_utf8 env fresh ctx2 s str start_utf8 end_utf8))"

definition string_buffer_putc ::
  "js_env \<Rightarrow> (nat \<Rightarrow> u8) \<Rightarrow> JSContext \<Rightarrow> StringBuffer \<Rightarrow> u32 \<Rightarrow> (JSContext \<times> StringBuffer \<times> bool) option" where
  "string_buffer_putc env fresh ctx s c = string_buffer_concat_str env fresh ctx s (JS_NewStringChar c)"

definition string_buffer_puts ::
  "bool \<Rightarrow> js_env \<Rightarrow> (nat \<Rightarrow> u8) \<Rightarrow> JSContext \<Rightarrow> StringBuffer \<Rightarrow> u8 list \<Rightarrow>
   (JSContext \<times> StringBuffer \<times> bool) option" where
  "string_buffer_puts sc env fresh ctx s str =
     (case JS_NewString sc env ctx str of
        (ctx1, v) \<Rightarrow> if JS_IsException v then Some (ctx1, s, False)
                     else string_buffer_concat_str env fresh ctx1 s v)"

text \<open>The buffer leaves the root list together with whatever was pushed after it.\<close>

definition string_buffer_pop :: "JSContext \<Rightarrow> StringBuffer \<Rightarrow> (JSContext \<times> JSValue) option" where
  "string_buffer_pop ctx s =
     (let b = sb_val ctx s;
          unlink = (\<lambda>ctx. ctx\<lparr>top_gc_ref := rev (take (sb_ref s) (rev (top_gc_ref ctx)))\<rparr>) in
      if JS_IsException b \<or> JS_IsString ctx b then Some (unlink ctx, b)
      else case byte_array_of ctx b of
        None \<Rightarrow> None
      | Some arr \<Rightarrow>
          let ctx1 = (if sb_len s \<noteq> 0
                then ctx\<lparr>heap := (heap ctx)(val_ptr b \<mapsto> MB_byte_array (arr[sb_len s := 0]))\<rparr> else ctx) in
          map_option (\<lambda>(ctx2, res). (unlink ctx2, res))
            (js_byte_array_to_string ctx1 b (sb_len s) (sb_is_ascii s)))"

definition JS_ConcatString ::
  "js_env \<Rightarrow> (nat \<Rightarrow> u8) \<Rightarrow> JSContext \<Rightarrow> JSValue \<Rightarrow> JSValue \<Rightarrow> (JSContext \<times> JSValue) option" where
  "JS_ConcatString env fresh ctx val1 val2 =
     (if JS_IsException val1 \<or> JS_IsException val2 then Some (ctx, JS_EXCEPTION)
      else let (ctx1, b, ok) = string_buffer_push env fresh ctx 0 in
        case string_buffer_concat_str env fresh ctx1 b val1 of
          None \<Rightarrow> None
        | Some (ctx2, b2, ok2) \<Rightarrow>
            (case string_buffer_concat_str env fresh ctx2 b2 val2 of
               None \<Rightarrow> None
             | Some (ctx3, b3, ok3) \<Rightarrow> string_buffer_pop ctx3 b3))"

section \<open>Equality, order and access\<close>

definition js_string_eq :: "JSContext \<Rightarrow> JSValue \<Rightarrow> JSValue \<Rightarrow> bool option" where
  "js_string_eq ctx val1 val2 =
     (case (get_string_ptr ctx val1, get_string_ptr ctx val2) of
        (Some p1, Some p2) \<Rightarrow> Some (if length (str_buf p1) \<noteq> length (str_buf p2) then False
                                    else str_buf p1 = str_buf p2)
      | _ \<Rightarrow> None)"

text \<open>The character that contains byte \<open>i\<close>; before the start of the string the code reads out of it.\<close>

definition string_get_cp :: "u8 list \<Rightarrow> nat \<Rightarrow> u32 option" where
  "string_get_cp bs i = map_option (\<lambda>k. fst (utf8_get (drop k bs))) (skip_back bs i)"

text \<open>The first index below \<open>len\<close> where the bytes differ, or \<open>len\<close>.\<close>

fun first_diff :: "u8 list \<Rightarrow> u8 list \<Rightarrow> nat" where
  "first_diff (a # as) (b # bs) = (if a \<noteq> b then 0 else Suc (first_diff as bs))"
| "first_diff _ _ = 0"

definition compare_code_points :: "u32 \<Rightarrow> u32 \<Rightarrow> int" where
  "compare_code_points c1 c2 =
     (if (c1 < 0x10000 \<and> c2 < 0x10000) \<or> (c1 \<ge> 0x10000 \<and> c2 \<ge> 0x10000) then
        (if c1 < c2 then -1 else 1)
      else if c1 < 0x10000 then
        (if c1 \<le> 0xd800 + drop_bit 10 (c2 - 0x10000) then -1 else 1)
      else (if 0xd800 + drop_bit 10 (c1 - 0x10000) < c2 then -1 else 1))"

definition compare_bytes :: "u8 list \<Rightarrow> u8 list \<Rightarrow> int option" where
  "compare_bytes b1 b2 =
     (let len = min (length b1) (length b2); i = first_diff b1 b2 in
      if i \<noteq> len then
        (case (string_get_cp b1 i, string_get_cp b2 i) of
           (Some c1, Some c2) \<Rightarrow> Some (compare_code_points c1 c2)
         | _ \<Rightarrow> None)
      else Some (if length b1 = length b2 then 0 else if length b1 < length b2 then -1 else 1))"

definition js_string_compare :: "JSContext \<Rightarrow> JSValue \<Rightarrow> JSValue \<Rightarrow> int option" where
  "js_string_compare ctx val1 val2 =
     (case (get_string_ptr ctx val1, get_string_ptr ctx val2) of
        (Some p1, Some p2) \<Rightarrow> compare_bytes (str_buf p1) (str_buf p2)
      | _ \<Rightarrow> None)"

definition string_getcp :: "JSContext \<Rightarrow> JSValue \<Rightarrow> nat \<Rightarrow> bool \<Rightarrow> (JSContext \<times> int) option" where
  "string_getcp ctx str utf16_pos is_codepoint =
     (case js_string_utf16_to_utf8_pos ctx str utf16_pos of
        None \<Rightarrow> None
      | Some (ctx1, pos) \<Rightarrow>
          let surrogate_flag = odd pos; utf8_pos = pos div 2 in
          (case get_string_ptr ctx1 str of
             None \<Rightarrow> None
           | Some p \<Rightarrow>
               if utf8_pos \<ge> length (str_buf p) then Some (ctx1, -1)
               else let c = fst (utf8_get (drop utf8_pos (str_buf p))) in
                 if c < 0x10000 \<or> (\<not> surrogate_flag \<and> is_codepoint) then Some (ctx1, uint c)
                 else let c1 = c - 0x10000 in
                   Some (ctx1, uint (if \<not> surrogate_flag then 0xd800 + drop_bit 10 c1
                                     else 0xdc00 + (c1 AND 0x3ff)))))"

definition string_getc :: "JSContext \<Rightarrow> JSValue \<Rightarrow> nat \<Rightarrow> (JSContext \<times> int) option" where
  "string_getc ctx str utf16_pos = string_getcp ctx str utf16_pos False"

definition js_sub_string :: "js_env \<Rightarrow> JSContext \<Rightarrow> JSValue \<Rightarrow> nat \<Rightarrow> nat \<Rightarrow> (JSContext \<times> JSValue) option" where
  "js_sub_string env ctx v start end =
     (if end \<le> start then Some (ctx, atom_empty ctx)
      else case js_string_utf16_to_utf8_pos ctx v start of
        None \<Rightarrow> None
      | Some (ctx1, start_utf8) \<Rightarrow>
          (case js_string_utf16_to_utf8_pos ctx1 v end of
             None \<Rightarrow> None
           | Some (ctx2, end_utf8) \<Rightarrow> js_sub_string_utf8 env ctx2 v start_utf8 end_utf8))"

section \<open>Short integers in decimal\<close>

definition is_num :: "u8 \<Rightarrow> bool" where
  "is_num c \<longleftrightarrow> 0x30 \<le> c \<and> c \<le> 0x39"

text \<open>The digit loop: \<open>limit\<close> is the largest magnitude accepted.\<close>

fun num_loop :: "nat \<Rightarrow> u32 \<Rightarrow> u8 list \<Rightarrow> u32 option" where
  "num_loop limit n [] = Some n"
| "num_loop limit n (c # cs) =
     (if \<not> is_num c then None
      else let n64 = ucast n * 10 + (ucast c - 0x30) :: u64 in
        if unat n64 > limit then None else num_loop limit (ucast n64) cs)"

definition is_num_bytes :: "u8 list \<Rightarrow> s32 option" where
  "is_num_bytes bs =
     (let is_neg = (hd bs = 0x2d); rest = (if is_neg then tl bs else bs) in
      if is_neg \<and> tl bs = [] then None
      else let c = hd rest; p = tl rest in
        if \<not> is_num c then None
        else if c = 0x30 then (if p \<noteq> [] \<or> is_neg then None else Some 0)
        else case num_loop (nat JS_SHORTINT_MAX + of_bool is_neg) (ucast c - 0x30) p of
            None \<Rightarrow> None
          | Some n \<Rightarrow> Some (ucast (if is_neg then - n else n)))"

text \<open>\<open>is_num_string\<close>: \<open>*pval\<close> when the code returns \<open>TRUE\<close>, the inner \<open>None\<close> for \<open>FALSE\<close>.\<close>

definition is_num_string :: "JSContext \<Rightarrow> JSValue \<Rightarrow> s32 option option" where
  "is_num_string ctx v =
     (case get_string_ptr ctx v of
        None \<Rightarrow> None
      | Some p1 \<Rightarrow>
          Some (if str_buf p1 = [] \<or> length (str_buf p1) > 11 \<or> \<not> is_ascii p1 then None
                else is_num_bytes (str_buf p1)))"

definition JS_IsNumericProperty :: "JSContext \<Rightarrow> JSValue \<Rightarrow> bool option" where
  "JS_IsNumericProperty ctx v =
     (if \<not> JS_IsPtr v then Some False
      else case block_of ctx v of Some (MB_string p) \<Rightarrow> Some (is_numeric p) | _ \<Rightarrow> None)"

end
