(* ===== verification/JsWtf8.thy ===== *)
theory JsWtf8 imports JsStringOps "HOL-Library.List_Lexorder" begin

text \<open>
  What the bytes of a string mean: \<open>wtf8\<close> of a list of code points, and \<open>wtf16\<close>, the UTF-16 units a
  script sees. The encoder gives well-formed characters, the decoder inverts it, and comparison is
  an order of code point lists (\<open>lex_compare\<close>) that agrees with the order of the UTF-16 units on
  strings without an unpaired left surrogate.
\<close>

unbundle bit_operations_syntax

section \<open>Code points and UTF-16\<close>

lemma utf8_get_encode:
  "c \<le> 0x10ffff \<Longrightarrow> utf8_get (unicode_to_utf8 c @ r) = (c, length (unicode_to_utf8 c))"
  using utf8_get_of_checked [OF unicode_from_utf8_encode [of c r 0]] by simp

lemma code_point_cases:
  fixes c :: u32
  assumes "c \<le> 0x10ffff"
  obtains "c < 0x80" | "\<not> c < 0x80" "c < 0x800" | "\<not> c < 0x80" "\<not> c < 0x800" "c < 0x10000"
  | "\<not> c < 0x80" "\<not> c < 0x800" "\<not> c < 0x10000" "c < 0x200000"
proof -
  have "c < 0x200000" using assms by (rule le_less_trans) simp
  then show thesis using that by blast
qed

lemma mark_word: "b AND 0xc0 = (0x80 :: u8) \<longleftrightarrow> bit b 7 \<and> \<not> bit b 6"
proof
  assume *: "b AND 0xc0 = (0x80 :: u8)"
  have "bit (b AND 0xc0) 7 = bit (0x80 :: u8) 7" "bit (b AND 0xc0) 6 = bit (0x80 :: u8) 6"
    unfolding * by (rule refl)+
  then show "bit b 7 \<and> \<not> bit b 6" by (simp add: bit_simps)
next
  assume "bit b 7 \<and> \<not> bit b 6"
  then show "b AND 0xc0 = (0x80 :: u8)" by (intro u8_eqI) (simp_all add: bit_simps)
qed

lemma u8_lt_bits:
  "(b :: u8) < 0xc0 \<longleftrightarrow> \<not> (bit b 7 \<and> bit b 6)"
  "(b :: u8) < 0xe0 \<longleftrightarrow> \<not> (bit b 7 \<and> bit b 6 \<and> bit b 5)"
  "(b :: u8) < 0xf0 \<longleftrightarrow> \<not> (bit b 7 \<and> bit b 6 \<and> bit b 5 \<and> bit b 4)"
  "(b :: u8) < 0xf8 \<longleftrightarrow> \<not> (bit b 7 \<and> bit b 6 \<and> bit b 5 \<and> bit b 4 \<and> bit b 3)"
  using u8_range_bits(3-6) [of b] by (simp_all add: word_less_nat_alt unat_ucast_up)

lemma ascii_byte: "(c :: u32) < 0x80 \<Longrightarrow> (ucast c :: u8) < 0x80"
  using not_bit_of_less_exp [of c 7 7] by (simp add: u8_range_bits bit_simps)

lemma is_chunk_encode: "c \<le> 0x10ffff \<Longrightarrow> is_chunk (unicode_to_utf8 c)"
proof -
  assume "c \<le> 0x10ffff"
  then show ?thesis
  proof (cases rule: code_point_cases)
    case 1
    have "\<not> bit c 7" using not_bit_of_less_exp [of c 7 7] 1 by simp
    then show ?thesis using 1 ascii_byte [OF 1]
      by (simp add: is_chunk_def unicode_to_utf8_def utf8_char_len_def mark_word bit_simps)
  next
    case 2
    then show ?thesis using lead_bits(1) [of c]
      by (simp add: is_chunk_def unicode_to_utf8_def unicode_to_utf8'_def utf8_char_len_def
          mark_word bit_simps u8_range_bits u8_lt_bits)
  next
    case 3
    then show ?thesis using lead_bits(2) [of c]
      by (simp add: is_chunk_def unicode_to_utf8_def unicode_to_utf8'_def utf8_char_len_def
          mark_word bit_simps u8_range_bits u8_lt_bits)
  next
    case 4
    then show ?thesis using lead_bits(3) [of c]
      by (simp add: is_chunk_def unicode_to_utf8_def unicode_to_utf8'_def utf8_char_len_def
          mark_word bit_simps u8_range_bits u8_lt_bits)
  qed
qed

text \<open>
  A string of one character above U+007F, made by the API: with an unsigned \<open>char\<close> it is held in the value,
  as everywhere else in the engine; with a signed one it is a block of the heap.
\<close>

lemma new_string_char:
  assumes "0x80 \<le> c" "c \<le> 0x10ffff"
  shows "JS_NewStringLen False env ctx (unicode_to_utf8 c) = (ctx, JS_NewStringChar c)"
    and "JS_NewStringLen True env ctx (unicode_to_utf8 c) =
      (case js_alloc_string env ctx (unicode_to_utf8 c) (is_ascii_string (unicode_to_utf8 c)) of
         (ctx1, None) \<Rightarrow> (ctx1, JS_EXCEPTION) | (ctx1, Some p) \<Rightarrow> (ctx1, ptr_val p))"
proof -
  let ?u = "unicode_to_utf8 c"
  have ch: "is_chunk ?u" by (rule is_chunk_encode [OF assms(2)])
  have ne: "?u \<noteq> []" "utf8_char_len (?u ! 0) = length ?u" using ch by (auto simp: is_chunk_def hd_conv_nth)
  have g: "fst (utf8_get ?u) = c" using utf8_get_encode [OF assms(2), of "[]"] by simp
  show "JS_NewStringLen False env ctx ?u = (ctx, JS_NewStringChar c)"
    using ne g by (simp add: JS_NewStringLen_def plain_char_len_def)
  have "c < 0x200000" using assms(2) by (rule le_less_trans) simp
  moreover have "\<not> c < 0x80" using assms(1) by simp
  ultimately have two: "length ?u \<noteq> 1" "?u ! 0 \<ge> 0x80"
    using assms(2) lead_bits [of c]
    by (auto simp: unicode_to_utf8_def unicode_to_utf8'_def not_less [symmetric] u8_range_bits bit_simps
        dest: le_less_trans split: if_splits)
  then show "JS_NewStringLen True env ctx ?u =
      (case js_alloc_string env ctx ?u (is_ascii_string ?u) of
         (ctx1, None) \<Rightarrow> (ctx1, JS_EXCEPTION) | (ctx1, Some p) \<Rightarrow> (ctx1, ptr_val p))"
    using ne by (simp add: JS_NewStringLen_def plain_char_len_def)
qed

text \<open>A 4 byte sequence is a pair exactly when it encodes a code above U+FFFF.\<close>

lemma len4_bits:
  "is_valid_len4_utf8 b0 b1 \<longleftrightarrow> bit b0 0 \<or> bit b0 1 \<or> bit b0 2 \<or> bit b0 3 \<or> bit b1 4 \<or> bit b1 5"
proof -
  define x where "x = push_bit 6 (ucast b0 AND 0xf) OR (ucast b1 AND 0x3f :: u32)"
  have hi: "x < 0x10 \<longleftrightarrow> drop_bit 4 x = 0"
    by (simp add: drop_bit_eq_0 word_less_nat_alt)
  have "drop_bit 4 x = 0 \<longleftrightarrow> \<not> (bit b0 0 \<or> bit b0 1 \<or> bit b0 2 \<or> bit b0 3 \<or> bit b1 4 \<or> bit b1 5)"
  proof
    assume z: "drop_bit 4 x = 0"
    have "\<not> bit (drop_bit 4 x) k" for k unfolding z by simp
    from this [of 0] this [of 1] this [of 2] this [of 3] this [of 4] this [of 5]
    show "\<not> (bit b0 0 \<or> bit b0 1 \<or> bit b0 2 \<or> bit b0 3 \<or> bit b1 4 \<or> bit b1 5)"
      by (simp add: x_def bit_simps)
  next
    assume "\<not> (bit b0 0 \<or> bit b0 1 \<or> bit b0 2 \<or> bit b0 3 \<or> bit b1 4 \<or> bit b1 5)"
    then show "drop_bit 4 x = 0" by (intro u32_eqI) (simp_all add: x_def bit_simps)
  qed
  with hi show ?thesis by (simp add: is_valid_len4_utf8_def x_def not_less [symmetric])
qed

lemma units_encode: "c \<le> 0x10ffff \<Longrightarrow> units (unicode_to_utf8 c) = (if c < 0x10000 then 1 else 2)"
proof -
  assume c: "c \<le> 0x10ffff"
  then show ?thesis
  proof (cases rule: code_point_cases)
    case 4
    have "drop_bit 16 c \<noteq> 0" using 4(3) by (simp add: drop_bit_eq_0 word_less_nat_alt)
    moreover have "drop_bit 16 c = 0" if "\<not> bit c 16" "\<not> bit c 17" "\<not> bit c 18" "\<not> bit c 19" "\<not> bit c 20"
      by (rule u32_eqI) (use that not_bit_of_less_exp [of c 21] 4(4) in \<open>simp_all add: bit_simps\<close>)
    ultimately have "bit c 16 \<or> bit c 17 \<or> bit c 18 \<or> bit c 19 \<or> bit c 20" by blast
    then show ?thesis using 4 lead_bits(3) [of c]
      by (auto simp add: units_def unicode_to_utf8_def unicode_to_utf8'_def len4_bits bit_simps)
  qed (auto simp: units_def unicode_to_utf8_def unicode_to_utf8'_def word_less_nat_alt)
qed


definition utf16 :: "u32 \<Rightarrow> u32 list" where
  "utf16 c = (if c < 0x10000 then [c]
     else [0xd800 + drop_bit 10 (c - 0x10000), 0xdc00 + ((c - 0x10000) AND 0x3ff)])"

definition wtf8 :: "u32 list \<Rightarrow> u8 list" where
  "wtf8 cps = concat (map unicode_to_utf8 cps)"

definition wtf16 :: "u32 list \<Rightarrow> u32 list" where
  "wtf16 cps = concat (map utf16 cps)"

definition code_points :: "u32 list \<Rightarrow> bool" where
  "code_points cps \<longleftrightarrow> (\<forall>c \<in> set cps. c \<le> 0x10ffff)"

lemma wtf8_simps [simp]:
  "wtf8 [] = []" "wtf8 (c # cs) = unicode_to_utf8 c @ wtf8 cs" "wtf8 (as @ bs) = wtf8 as @ wtf8 bs"
  by (simp_all add: wtf8_def)

lemma wtf16_simps [simp]:
  "wtf16 [] = []" "wtf16 (c # cs) = utf16 c @ wtf16 cs" "wtf16 (as @ bs) = wtf16 as @ wtf16 bs"
  by (simp_all add: wtf16_def)

lemma code_points_simps [simp]:
  "code_points []" "code_points (c # cs) \<longleftrightarrow> c \<le> 0x10ffff \<and> code_points cs"
  "code_points (as @ bs) \<longleftrightarrow> code_points as \<and> code_points bs"
  by (auto simp: code_points_def)

lemma chunks_of: "code_points cps \<Longrightarrow> \<forall>c \<in> set (map unicode_to_utf8 cps). is_chunk c"
  by (auto simp: code_points_def intro: is_chunk_encode)

section \<open>Comparison\<close>

text \<open>The order of the code: high surrogate of the UTF-16 form first, then the code point.\<close>

definition code_rank :: "u32 \<Rightarrow> nat" where
  "code_rank c = (if c < 0x10000 then unat c * 2 ^ 32
     else unat (0xd800 + drop_bit 10 (c - 0x10000)) * 2 ^ 32 + unat c)"

fun lex_compare :: "u32 list \<Rightarrow> u32 list \<Rightarrow> int" where
  "lex_compare [] [] = 0"
| "lex_compare [] (y # ys) = -1"
| "lex_compare (x # xs) [] = 1"
| "lex_compare (x # xs) (y # ys) = (if x = y then lex_compare xs ys else compare_code_points x y)"

lemma high_surrogate_unat:
  "\<not> c < 0x10000 \<Longrightarrow> unat (0xd800 + drop_bit 10 (c - 0x10000)) = 0xd800 + (unat c - 0x10000) div 1024"
  for c :: u32
proof -
  assume c: "\<not> c < 0x10000"
  have 1: "unat (c - 0x10000) = unat c - 0x10000"
    using c by (simp add: unat_sub word_less_nat_alt word_le_nat_alt)
  have "unat c < 2 ^ 32" using u32_bound [of c] by simp
  then show ?thesis
    by (subst unat_add_small) (auto simp: unat_drop_bit 1 div_less_iff_less_mult)
qed

lemma code_rank_alt:
  "code_rank c = (if c < 0x10000 then unat c * 2 ^ 32
     else (0xd800 + (unat c - 0x10000) div 1024) * 2 ^ 32 + unat c)"
  by (simp add: code_rank_def high_surrogate_unat)

lemma code_rank_less:
  assumes "a \<noteq> b" shows "compare_code_points a b = (if code_rank a < code_rank b then -1 else 1)"
proof -
  have lt: "unat a < 2 ^ 32" "unat b < 2 ^ 32" using u32_bound [of a] u32_bound [of b] by simp_all
  have ne: "unat a \<noteq> unat b" using assms by (simp add: word_unat_eq_iff)
  consider "a < 0x10000" "b < 0x10000" | "\<not> a < 0x10000" "\<not> b < 0x10000"
    | "a < 0x10000" "\<not> b < 0x10000" | "\<not> a < 0x10000" "b < 0x10000" by blast
  then show ?thesis
  proof cases
    case 1
    then show ?thesis by (simp add: compare_code_points_def code_rank_alt word_less_nat_alt)
  next
    case 2
    have "unat a < unat b \<Longrightarrow> (unat a - 0x10000) div 1024 \<le> (unat b - 0x10000) div 1024"
      "unat b < unat a \<Longrightarrow> (unat b - 0x10000) div 1024 \<le> (unat a - 0x10000) div 1024"
      by (simp_all add: div_le_mono)
    with 2 ne show ?thesis
      by (cases "unat a < unat b")
        (auto simp: compare_code_points_def code_rank_alt word_less_nat_alt word_le_nat_alt not_less)
  next
    case 3
    have "a \<le> 0xd800 + drop_bit 10 (b - 0x10000) \<longleftrightarrow> unat a \<le> 0xd800 + (unat b - 0x10000) div 1024"
      using high_surrogate_unat [OF 3(2)] by (simp add: word_le_nat_alt)
    with 3 lt show ?thesis
      by (auto simp: compare_code_points_def code_rank_alt word_less_nat_alt word_le_nat_alt not_less)
  next
    case 4
    have "0xd800 + drop_bit 10 (a - 0x10000) < b \<longleftrightarrow> 0xd800 + (unat a - 0x10000) div 1024 < unat b"
      using high_surrogate_unat [OF 4(1)] by (simp add: word_less_nat_alt)
    with 4 lt show ?thesis
      by (auto simp: compare_code_points_def code_rank_alt word_less_nat_alt word_le_nat_alt not_less)
  qed
qed

lemma code_rank_parts:
  "code_rank c mod 2 ^ 32 = (if c < 0x10000 then 0 else unat c)"
  "code_rank c div 2 ^ 32 = (if c < 0x10000 then unat c else 0xd800 + (unat c - 0x10000) div 1024)"
proof -
  have *: "(h * 2 ^ 32 + u) mod 2 ^ 32 = u" "(h * 2 ^ 32 + u) div 2 ^ 32 = h" if "u < 2 ^ 32" for h u :: nat
    using that by simp_all
  show "code_rank c mod 2 ^ 32 = (if c < 0x10000 then 0 else unat c)"
    "code_rank c div 2 ^ 32 = (if c < 0x10000 then unat c else 0xd800 + (unat c - 0x10000) div 1024)"
    unfolding code_rank_alt using * [OF u32_bound [of c]] by (simp_all only: split: if_split) simp_all
qed

lemma code_rank_inj: "code_rank a = code_rank b \<longleftrightarrow> a = b"
proof
  assume eq: "code_rank a = code_rank b"
  have "unat a = unat b"
    using code_rank_parts [of a] code_rank_parts [of b] eq
    by (auto simp: word_less_nat_alt split: if_splits)
  then show "a = b" by (simp add: word_unat_eq_iff)
qed simp

lemma lex_compare_rank:
  "lex_compare xs ys = (if xs = ys then 0 else if map code_rank xs < map code_rank ys then -1 else 1)"
  by (induction xs ys rule: lex_compare.induct) (auto simp: code_rank_less code_rank_inj)


lemma first_diff_props:
  "first_diff as bs \<le> min (length as) (length bs)"
  "first_diff as bs < min (length as) (length bs) \<Longrightarrow> as ! first_diff as bs \<noteq> bs ! first_diff as bs"
  "k < first_diff as bs \<Longrightarrow> as ! k = bs ! k"
  by (induction as bs arbitrary: k rule: first_diff.induct) (auto simp: nth_Cons split: nat.splits if_splits)

lemma first_diff_append: "first_diff (ps @ as) (ps @ bs) = length ps + first_diff as bs"
  by (induction ps) auto

lemma first_diff_prefix: "first_diff ps (ps @ bs) = length ps" "first_diff (ps @ as) ps = length ps"
  using first_diff_append [of ps "[]" bs] first_diff_append [of ps as "[]"] by simp_all

text \<open>Different characters differ within the shorter one.\<close>

lemma first_diff_encode:
  assumes "x \<noteq> y" "x \<le> 0x10ffff" "y \<le> 0x10ffff"
  shows "first_diff (unicode_to_utf8 x @ as) (unicode_to_utf8 y @ bs) <
    min (length (unicode_to_utf8 x)) (length (unicode_to_utf8 y))"
proof -
  let ?a = "unicode_to_utf8 x" let ?b = "unicode_to_utf8 y"
  let ?j = "first_diff (?a @ as) (?b @ bs)"
  have cx: "is_chunk ?a" and cy: "is_chunk ?b" using assms is_chunk_encode by auto
  have False if j: "min (length ?a) (length ?b) \<le> ?j"
  proof -
    have "0 < ?j" using j chunk_pos [OF cx] chunk_pos [OF cy] by linarith
    then have "(?a @ as) ! 0 = (?b @ bs) ! 0" by (rule first_diff_props(3))
    then have "hd ?a = hd ?b"
      using chunk_pos [OF cx] chunk_pos [OF cy] by (simp add: nth_append hd_conv_nth)
    then have len: "length ?a = length ?b" using cx cy by (simp add: is_chunk_def)
    have "?a = ?b"
    proof (rule nth_equalityI [OF len])
      fix i assume "i < length ?a"
      moreover have "(?a @ as) ! i = (?b @ bs) ! i"
        by (rule first_diff_props(3)) (use \<open>i < length ?a\<close> j len in simp)
      ultimately show "?a ! i = ?b ! i" using len by (simp add: nth_append)
    qed
    then have "x = y" using utf8_get_encode [OF assms(2), of "[]"] utf8_get_encode [OF assms(3), of "[]"] by simp
    with assms(1) show False ..
  qed
  then show ?thesis by (meson not_less)
qed

lemma string_get_cp_at:
  assumes "code_points ps" "c \<le> 0x10ffff" "code_points qs" "j < length (unicode_to_utf8 c)"
  shows "string_get_cp (wtf8 (ps @ c # qs)) (length (wtf8 ps) + j) = Some c"
proof -
  let ?cs = "map unicode_to_utf8 (ps @ c # qs)"
  have ch: "\<forall>c \<in> set ?cs. is_chunk c" by (rule chunks_of) (use assms in simp)
  have k: "length ps < length ?cs" and n: "?cs ! length ps = unicode_to_utf8 c"
    by (simp_all add: nth_append)
  have p: "pos8 ?cs (length ps) = length (wtf8 ps)" by (simp add: pos8_def wtf8_def)
  have "skip_back (wtf8 (ps @ c # qs)) (length (wtf8 ps) + j) = Some (length (wtf8 ps))"
    using skip_back_chunk [OF k ch, of j] assms(4) n p by (simp add: wtf8_def)
  then show ?thesis using utf8_get_encode [OF assms(2)] by (simp add: string_get_cp_def)
qed

lemma compare_bytes_from:
  assumes "code_points ps" "code_points xs" "code_points ys"
  shows "compare_bytes (wtf8 (ps @ xs)) (wtf8 (ps @ ys)) = Some (lex_compare xs ys)"
  using assms
proof (induction xs ys arbitrary: ps rule: lex_compare.induct)
  case (2 y ys)
  then show ?case
    using chunk_pos [OF is_chunk_encode, of y] by (simp add: compare_bytes_def first_diff_prefix)
next
  case (3 x xs)
  then show ?case
    using chunk_pos [OF is_chunk_encode, of x] by (simp add: compare_bytes_def first_diff_prefix)
next
  case (4 x xs y ys)
  show ?case
  proof (cases "x = y")
    case True
    then show ?thesis using 4(1) [of "ps @ [x]"] 4(2-) by simp
  next
    case False
    let ?j = "first_diff (wtf8 (x # xs)) (wtf8 (y # ys))"
    have j: "?j < min (length (unicode_to_utf8 x)) (length (unicode_to_utf8 y))"
      using first_diff_encode [OF False] 4(2-) by simp
    have i: "first_diff (wtf8 (ps @ x # xs)) (wtf8 (ps @ y # ys)) = length (wtf8 ps) + ?j"
      by (simp only: wtf8_simps(3) first_diff_append)
    have g: "string_get_cp (wtf8 (ps @ x # xs)) (length (wtf8 ps) + ?j) = Some x"
      "string_get_cp (wtf8 (ps @ y # ys)) (length (wtf8 ps) + ?j) = Some y"
      by (rule string_get_cp_at; use 4(2-) j in simp)+
    have ne: "length (wtf8 ps) + ?j \<noteq> min (length (wtf8 (ps @ x # xs))) (length (wtf8 (ps @ y # ys)))"
      using j unfolding wtf8_simps length_append by linarith
    show ?thesis
      unfolding compare_bytes_def Let_def i g using ne False by simp
  qed
qed (simp add: compare_bytes_def first_diff_prefix [of _ "[]", simplified])


text \<open>The order of UTF-16 strings, unit by unit.\<close>

fun units_compare :: "u32 list \<Rightarrow> u32 list \<Rightarrow> int" where
  "units_compare [] [] = 0"
| "units_compare [] (y # ys) = -1"
| "units_compare (x # xs) [] = 1"
| "units_compare (x # xs) (y # ys) = (if x < y then -1 else if y < x then 1 else units_compare xs ys)"

definition left_surrogate :: "u32 \<Rightarrow> bool" where
  "left_surrogate c \<longleftrightarrow> 0xd800 \<le> c \<and> c < 0xdc00"

lemma low_surrogate_unat: "\<not> c < 0x10000 \<Longrightarrow>
    unat (0xdc00 + ((c - 0x10000) AND 0x3ff)) = 0xdc00 + (unat c - 0x10000) mod 1024" for c :: u32
proof -
  assume c: "\<not> c < 0x10000"
  have 1: "unat (c - 0x10000) = unat c - 0x10000"
    using c by (simp add: unat_sub word_less_nat_alt word_le_nat_alt)
  have m: "unat ((c - 0x10000) AND 0x3ff) = (unat c - 0x10000) mod 1024"
    using unat_and_mask [of "c - 0x10000" 10] 1 by (simp add: mask_eq_exp_minus_1)
  have "(unat c - 0x10000) mod 1024 < 1024" by simp
  then show ?thesis by (subst unat_add_small) (simp_all only: m, simp_all)
qed

lemma less_div_mod: "m < n \<longleftrightarrow> m div d < n div d \<or> m div d = n div d \<and> m mod d < n mod d" for m n d :: nat
proof -
  have "m = m div d * d + m mod d" "n = n div d * d + n mod d" by simp_all
  moreover have "m div d \<le> n div d" if "m < n" using that by (simp add: div_le_mono)
  moreover have "m < n" if "m div d < n div d" using that by (meson div_le_mono not_less)
  ultimately show ?thesis by (metis add_less_cancel_left le_neq_implies_less)
qed

lemma units_compare_code_points:
  assumes "x \<noteq> y" "x \<le> 0x10ffff" "y \<le> 0x10ffff" "\<not> left_surrogate x" "\<not> left_surrogate y"
  shows "units_compare (utf16 x @ as) (utf16 y @ bs) = compare_code_points x y"
proof -
  have lt: "unat x \<le> 0x10ffff" "unat y \<le> 0x10ffff" using assms by (simp_all add: word_le_nat_alt)
  have hi: "(unat c - 0x10000) div 1024 < 0x400" if "unat c \<le> 0x10ffff" for c :: u32
    using that by (simp add: div_less_iff_less_mult)
  have ne: "unat x \<noteq> unat y" using assms by (simp add: word_unat_eq_iff)
  consider "x < 0x10000" "y < 0x10000" | "\<not> x < 0x10000" "\<not> y < 0x10000"
    | "x < 0x10000" "\<not> y < 0x10000" | "\<not> x < 0x10000" "y < 0x10000" by blast
  then show ?thesis
  proof cases
    case 1
    then show ?thesis using ne by (auto simp: utf16_def compare_code_points_def word_less_nat_alt)
  next
    case 2
    have "unat x < unat y \<longleftrightarrow> (unat x - 0x10000) div 1024 < (unat y - 0x10000) div 1024 \<or>
        (unat x - 0x10000) div 1024 = (unat y - 0x10000) div 1024 \<and>
        (unat x - 0x10000) mod 1024 < (unat y - 0x10000) mod 1024"
    proof -
      have "unat x < unat y \<longleftrightarrow> unat x - 0x10000 < unat y - 0x10000"
        using 2 by (simp add: word_less_nat_alt not_less) linarith
      then show ?thesis using less_div_mod [of "unat x - 0x10000" "unat y - 0x10000" 1024] by simp
    qed
    then have xy: "x < y \<longleftrightarrow> (unat x - 0x10000) div 1024 < (unat y - 0x10000) div 1024 \<or>
        (unat x - 0x10000) div 1024 = (unat y - 0x10000) div 1024 \<and>
        (unat x - 0x10000) mod 1024 < (unat y - 0x10000) mod 1024"
      by (simp only: word_less_nat_alt)
    define hx hy lx ly where "hx = 0xd800 + drop_bit 10 (x - 0x10000)" and "hy = 0xd800 + drop_bit 10 (y - 0x10000)"
      and "lx = 0xdc00 + ((x - 0x10000) AND 0x3ff)" and "ly = 0xdc00 + ((y - 0x10000) AND 0x3ff)"
    note d = this
    have u: "utf16 x = [hx, lx]" "utf16 y = [hy, ly]" using 2 by (simp_all add: utf16_def d)
    have n: "unat hx = 0xd800 + (unat x - 0x10000) div 1024" "unat hy = 0xd800 + (unat y - 0x10000) div 1024"
      "unat lx = 0xdc00 + (unat x - 0x10000) mod 1024" "unat ly = 0xdc00 + (unat y - 0x10000) mod 1024"
      unfolding d using high_surrogate_unat low_surrogate_unat 2 by blast+
    have "hx \<noteq> hy \<or> lx \<noteq> ly"
    proof (rule ccontr)
      assume "\<not> (hx \<noteq> hy \<or> lx \<noteq> ly)"
      then have "unat x - 0x10000 = unat y - 0x10000"
        using n by (metis add_left_cancel div_mult_mod_eq)
      with 2 ne show False by (simp add: word_less_nat_alt not_less)
    qed
    then have "units_compare ([hx, lx] @ as) ([hy, ly] @ bs) = (if x < y then -1 else 1)"
      using xy by (auto simp: word_less_nat_alt [of hx hy] word_less_nat_alt [of hy hx]
          word_less_nat_alt [of lx ly] word_less_nat_alt [of ly lx] word_unat_eq_iff n)
    then show ?thesis using 2 unfolding u by (simp add: compare_code_points_def not_less)
  next
    case 3
    then show ?thesis using high_surrogate_unat [OF 3(2)] hi [OF lt(2)] assms(4)
      by (auto simp: utf16_def compare_code_points_def word_less_nat_alt word_le_nat_alt left_surrogate_def)
  next
    case 4
    then show ?thesis using high_surrogate_unat [OF 4(1)] hi [OF lt(1)] assms(5)
      by (auto simp: utf16_def compare_code_points_def word_less_nat_alt word_le_nat_alt left_surrogate_def)
  qed
qed

lemma units_compare_same: "units_compare (us @ as) (us @ bs) = units_compare as bs"
  by (induction us) auto

lemma utf16_not_Nil [simp]: "utf16 c \<noteq> []" "[] \<noteq> utf16 c" by (simp_all add: utf16_def)

lemma lex_compare_utf16:
  assumes "code_points xs" "code_points ys" "\<forall>c \<in> set xs \<union> set ys. \<not> left_surrogate c"
  shows "lex_compare xs ys = units_compare (wtf16 xs) (wtf16 ys)"
  using assms
proof (induction xs ys rule: lex_compare.induct)
  case (2 y ys)
  then show ?case by (cases "utf16 y") auto
next
  case (3 x xs)
  then show ?case by (cases "utf16 x") auto
next
  case (4 x xs y ys)
  then show ?case by (auto simp: units_compare_same units_compare_code_points)
qed simp

section \<open>The order of strings\<close>

lemmas compare_bytes_wtf8 = compare_bytes_from [where ps = "[]", simplified]

text \<open>A value that is a string with the given code points.\<close>

definition has_text :: "JSContext \<Rightarrow> JSValue \<Rightarrow> u32 list \<Rightarrow> bool" where
  "has_text ctx v cps \<longleftrightarrow> code_points cps \<and> (\<exists>p. get_string_ptr ctx v = Some p \<and> str_buf p = wtf8 cps)"

lemma js_string_compare_lex:
  "has_text ctx v xs \<Longrightarrow> has_text ctx w ys \<Longrightarrow> js_string_compare ctx v w = Some (lex_compare xs ys)"
  by (auto simp: has_text_def js_string_compare_def compare_bytes_wtf8)

lemma lex_compare_order:
  "lex_compare xs ys = 0 \<longleftrightarrow> xs = ys"
  "lex_compare ys xs = - lex_compare xs ys"
  "lex_compare xs ys < 0 \<Longrightarrow> lex_compare ys zs < 0 \<Longrightarrow> lex_compare xs zs < 0"
proof -
  have inj: "map code_rank xs = map code_rank ys \<longleftrightarrow> xs = ys" for xs ys
    by (rule inj_map_eq_map) (simp add: inj_def code_rank_inj)
  show "lex_compare xs ys = 0 \<longleftrightarrow> xs = ys" by (simp add: lex_compare_rank)
  show "lex_compare ys xs = - lex_compare xs ys"
    using inj [of xs ys] by (auto simp: lex_compare_rank)
  assume "lex_compare xs ys < 0" "lex_compare ys zs < 0"
  then have "map code_rank xs < map code_rank ys" "map code_rank ys < map code_rank zs"
    by (auto simp: lex_compare_rank split: if_splits)
  then have "map code_rank xs < map code_rank zs" by (rule less_trans)
  then show "lex_compare xs zs < 0" by (auto simp: lex_compare_rank)
qed

lemma string_char_value:
  assumes "c \<le> 0x10ffff"
  shows "JS_VALUE_GET_SPECIAL_VALUE (JS_NewStringChar c) = c"
    "JS_VALUE_GET_SPECIAL_TAG (JS_NewStringChar c) = JS_TAG_STRING_CHAR"
proof -
  have "unat c < 2 ^ 21" using assms by (simp add: word_le_nat_alt)
  note hi = bit_unat_less [OF this]
  have t: "JS_TAG_STRING_CHAR = 27" by (simp add: js_tags)
  have uc: "ucast (ucast x :: u64) = x" for x :: u32
    by (rule bit_word_eqI) (simp add: bit_simps)
  have m: "signed_drop_bit 5 (27 OR push_bit 5 c) = c"
  proof (rule bit_word_eqI)
    fix n assume "n < LENGTH(32)"
    then have n: "n < 32" by simp
    show "bit (signed_drop_bit 5 (27 OR push_bit 5 c)) n = bit c n"
      using hi [of n] hi [of 26] n bit_unat_less [of "27 :: u32" 5 31] bit_unat_less [of "27 :: u32" 5 "5 + n"]
      by (auto simp: bit_signed_drop_bit_iff bit_simps)
  qed
  show "JS_VALUE_GET_SPECIAL_VALUE (JS_NewStringChar c) = c"
    by (simp add: JS_VALUE_GET_SPECIAL_VALUE_def JS_NewStringChar_def t uc m)
  show "JS_VALUE_GET_SPECIAL_TAG (JS_NewStringChar c) = JS_TAG_STRING_CHAR"
  proof -
    have "ucast (27 OR push_bit 5 c) AND mask 5 = (27 :: u64)"
    proof -
      have "unat c \<le> 0x10ffff" using assms by (simp add: word_le_nat_alt)
      then have "unat (27 OR push_bit 5 c) = unat (27 :: u32) + unat c * 2 ^ 5" by (intro unat_or_push_bit) simp_all
      then have "unat (ucast (27 OR push_bit 5 c) :: u64) mod 2 ^ 5 = 27" by (simp add: unat_ucast_up)
      then show ?thesis by (simp add: word_unat_eq_iff unat_and_mask)
    qed
    then show ?thesis by (simp add: JS_VALUE_GET_SPECIAL_TAG_def JS_NewStringChar_def t mask_eq_exp_minus_1)
  qed
qed

lemma has_text_char: "c \<le> 0x10ffff \<Longrightarrow> has_text ctx (JS_NewStringChar c) [c]"
  by (simp add: has_text_def get_string_ptr_def get_short_string_def string_char_value)


text \<open>
  C18: for strings of code points without an unpaired left surrogate, comparing the UTF-8 bytes and
  repairing the order at the first different character gives the order of the UTF-16 units the
  language asks for.
\<close>
theorem string_compare_utf16:
  assumes "has_text ctx v xs" "has_text ctx w ys" "\<forall>c \<in> set xs \<union> set ys. \<not> left_surrogate c"
  shows "js_string_compare ctx v w = Some (units_compare (wtf16 xs) (wtf16 ys))"
  using assms lex_compare_utf16 [of xs ys] by (simp add: js_string_compare_lex has_text_def)

theorem string_compare_utf16_witness:
  "js_string_compare blank_ctx (JS_NewStringChar 0x1f600) (JS_NewStringChar 0xffff) = Some (-1)"
proof -
  have "units_compare (wtf16 [0x1f600]) (wtf16 [0xffff]) = -1" by code_simp
  then show ?thesis
    using string_compare_utf16 [OF has_text_char [of "0x1f600" blank_ctx] has_text_char [of "0xffff" blank_ctx]]
    by (simp add: left_surrogate_def)
qed

text \<open>
  C39: comparison is a total order of strings of code points, unpaired surrogates included, the one
  the sorted atom tables rely on: 0 exactly for equal strings, antisymmetric and transitive.
\<close>
theorem string_compare_order:
  assumes "has_text ctx u xs" "has_text ctx v ys" "has_text ctx w zs"
    "js_string_compare ctx u v = Some c" "js_string_compare ctx v w = Some d"
  shows "c \<in> {-1, 0, 1} \<and> (c = 0 \<longleftrightarrow> xs = ys) \<and> js_string_compare ctx v u = Some (- c) \<and>
    (c < 0 \<and> d < 0 \<longrightarrow> js_string_compare ctx u w = Some (-1))"
proof -
  have cd: "c = lex_compare xs ys" "d = lex_compare ys zs" using assms js_string_compare_lex by simp_all
  have r: "lex_compare xs ys \<in> {-1, 0, 1}" for xs ys by (simp add: lex_compare_rank)
  have "lex_compare xs zs = -1" if "c < 0" "d < 0"
    using lex_compare_order(3) [of xs ys zs] that r [of xs zs] unfolding cd by auto
  then have t: "c < 0 \<and> d < 0 \<longrightarrow> js_string_compare ctx u w = Some (-1)"
    using js_string_compare_lex [OF assms(1,3)] by simp
  have s: "js_string_compare ctx v u = Some (- c)"
    unfolding cd lex_compare_order(2) [of ys xs, symmetric] by (rule js_string_compare_lex [OF assms(2,1)])
  show ?thesis using r [of xs ys] lex_compare_order(1) [of xs ys] s t unfolding cd by blast
qed

theorem string_compare_order_witness:
  "js_string_compare blank_ctx (JS_NewStringChar 0x1f600) (JS_NewStringChar 0x61) = Some (- (-1))"
proof -
  have t: "has_text blank_ctx (JS_NewStringChar 0x61) [0x61]" "has_text blank_ctx (JS_NewStringChar 0x1f600) [0x1f600]"
    by (rule has_text_char; simp)+
  have "lex_compare [0x61] [0x1f600] = -1" by code_simp
  then have c: "js_string_compare blank_ctx (JS_NewStringChar 0x61) (JS_NewStringChar 0x1f600) = Some (-1)"
    using js_string_compare_lex [OF t] by simp
  have "js_string_compare blank_ctx (JS_NewStringChar 0x1f600) (JS_NewStringChar 0x1f600) = Some 0"
    using js_string_compare_lex [OF t(2,2)] lex_compare_order(1) [of "[0x1f600]" "[0x1f600]"] by simp
  from string_compare_order [OF t(1,2,2) c this] show ?thesis by simp
qed

text \<open>
  With an unpaired left surrogate the order is not the one of the UTF-16 units: the string of the
  units D83D FFFF comes before U+1F600, which is D83D DE00, although its second unit is greater.
\<close>
theorem string_compare_lone_surrogate:
  "compare_bytes (wtf8 [0xd83d, 0xffff]) (wtf8 [0x1f600]) = Some (-1) \<and>
   units_compare (wtf16 [0xd83d, 0xffff]) (wtf16 [0x1f600]) = 1"
  using compare_bytes_wtf8 [of "[0xd83d, 0xffff]" "[0x1f600]"] by code_simp

end
