(* ===== verification/Mp.thy ===== *)
theory Mp imports Prelude Cutils begin

text \<open>
  The multiple precision arithmetic under number printing and parsing (\<open>native/mquickjs/dtoa.c\<close>):
  numbers are lists of 32 bit limbs, least significant first (\<open>mpb_t\<close>: the length of the list is
  \<open>len\<close>). Every routine is compared with its value \<open>mp_val\<close>; the division by a limb with a
  precomputed inverse is shown to be division.
\<close>

unbundle bit_operations_syntax

section \<open>Limbs\<close>

type_synonym limb = u32
type_synonym dlimb = u64

text \<open>The result is the new array and the carry.\<close>

fun mp_add_ui :: "limb list \<Rightarrow> limb \<Rightarrow> limb list \<times> limb" where
  "mp_add_ui [] k = ([], k)"
| "mp_add_ui (t # ts) k =
     (if k = 0 then (t # ts, 0)
      else let a = t + k; (r, c) = mp_add_ui ts (if a < k then 1 else 0) in (a # r, c))"

fun mp_mul1 :: "limb list \<Rightarrow> limb \<Rightarrow> limb \<Rightarrow> limb list \<times> limb" where
  "mp_mul1 [] b l = ([], l)"
| "mp_mul1 (x # xs) b l =
     (let t = ucast x * ucast b + ucast l :: dlimb; (r, h) = mp_mul1 xs b (ucast (drop_bit 32 t)) in
      (ucast t # r, h))"

definition udiv1norm_init :: "limb \<Rightarrow> limb" where
  "udiv1norm_init d =
     (let a1 = - d - 1; a0 = -1 :: limb in ucast ((push_bit 32 (ucast a1) OR ucast a0 :: dlimb) div ucast d))"

text \<open>Quotient and remainder of \<open>a1 * 2^32 + a0\<close> by \<open>d\<close>.\<close>

definition udiv1norm :: "limb \<Rightarrow> limb \<Rightarrow> limb \<Rightarrow> limb \<Rightarrow> limb \<times> limb" where
  "udiv1norm a1 a0 d d_inv =
     (let n1m = signed_drop_bit 31 a0;
          n_adj = a0 + (n1m AND d);
          a = ucast d_inv * ucast (a1 - n1m) + ucast n_adj :: dlimb;
          q = ucast (drop_bit 32 a) + a1;
          a = (push_bit 32 (ucast a1) OR ucast a0) - ucast q * ucast d - ucast d :: dlimb;
          ah = ucast (drop_bit 32 a) in
      (q + (1 + ah), ucast a + (ah AND d)))"

text \<open>The loops from the most significant limb recurse on the list first.\<close>

fun mp_div1 :: "limb list \<Rightarrow> limb \<Rightarrow> limb \<Rightarrow> limb list \<times> limb" where
  "mp_div1 [] b r = ([], r)"
| "mp_div1 (x # xs) b r =
     (let (qs, r1) = mp_div1 xs b r; a1 = push_bit 32 (ucast r1) OR ucast x :: dlimb in
      (ucast (a1 div ucast b) # qs, ucast (a1 mod ucast b)))"

fun mp_shr_loop :: "limb list \<Rightarrow> nat \<Rightarrow> limb \<Rightarrow> limb list \<times> limb" where
  "mp_shr_loop [] shift high = ([], high)"
| "mp_shr_loop (a # as) shift high =
     (let (rs, l) = mp_shr_loop as shift high in ((drop_bit shift a OR push_bit (32 - shift) l) # rs, a))"

definition mp_shr :: "limb list \<Rightarrow> nat \<Rightarrow> limb \<Rightarrow> limb list \<times> limb" where
  "mp_shr tab shift high =
     (let (rs, l) = mp_shr_loop tab shift high in (rs, l AND (push_bit shift 1 - 1)))"

fun mp_shl :: "limb list \<Rightarrow> nat \<Rightarrow> limb \<Rightarrow> limb list \<times> limb" where
  "mp_shl [] shift low = ([], low)"
| "mp_shl (a # as) shift low =
     (let (rs, h) = mp_shl as shift (drop_bit (32 - shift) a) in ((push_bit shift a OR low) # rs, h))"

fun div1norm_loop :: "limb list \<Rightarrow> limb \<Rightarrow> limb \<Rightarrow> limb \<Rightarrow> limb list \<times> limb" where
  "div1norm_loop [] b r b_inv = ([], r)"
| "div1norm_loop (x # xs) b r b_inv =
     (let (qs, r1) = div1norm_loop xs b r b_inv; (q, r2) = udiv1norm r1 x b b_inv in (q # qs, r2))"

definition mp_div1norm :: "limb list \<Rightarrow> limb \<Rightarrow> limb \<Rightarrow> limb \<Rightarrow> nat \<Rightarrow> limb list \<times> limb" where
  "mp_div1norm taba b r b_inv shift =
     (let (tab, r1) = (if shift \<noteq> 0 then
             let (t, c) = mp_shl taba shift 0 in (t, push_bit shift r OR c) else (taba, r));
          (qs, r2) = div1norm_loop tab b r1 b_inv in
      (qs, drop_bit shift r2))"

section \<open>Numbers\<close>

fun mpb_renorm :: "limb list \<Rightarrow> limb list" where
  "mpb_renorm [] = []"
| "mpb_renorm [x] = [x]"
| "mpb_renorm (x # y # ys) =
     (case mpb_renorm (y # ys) of [z] \<Rightarrow> (if z = 0 then [x] else [x, z]) | r \<Rightarrow> x # r)"

definition pow5_table :: "u32 list" where
  "pow5_table = [
    0x00000005, 0x00000019, 0x0000007d, 0x00000271,
    0x00000c35, 0x00003d09, 0x0001312d, 0x0005f5e1,
    0x001dcd65, 0x009502f9, 0x02e90edd, 0x0e8d4a51,
    0x48c27395, 0x6bcc41e9, 0x1afd498d, 0x86f26fc1,
    0xa2bc2ec5]"

definition pow5h_table :: "u8 list" where
  "pow5h_table = [0x00000001, 0x00000007, 0x00000023, 0x000000b1]"

definition pow5_inv_table :: "u32 list" where
  "pow5_inv_table = [
    0x99999999, 0x47ae147a, 0x0624dd2f, 0xa36e2eb1,
    0x4f8b588e, 0x0c6f7a0b, 0xad7f29ab, 0x5798ee23,
    0x12e0be82, 0xb7cdfd9d, 0x5fd7fe17, 0x19799812,
    0xc25c2684]"

text \<open>The square and multiply loop, for bit \<open>i\<close> of the exponent downwards.\<close>

fun pow_loop :: "u64 \<Rightarrow> u32 \<Rightarrow> nat \<Rightarrow> u64 \<Rightarrow> u64" where
  "pow_loop a b 0 r = r"
| "pow_loop a b (Suc i) r =
     (let r2 = r * r in pow_loop a b i (if drop_bit i b AND 1 \<noteq> 0 then r2 * a else r2))"

definition pow_ui_loop :: "u32 \<Rightarrow> u32 \<Rightarrow> u64" where
  "pow_ui_loop a b =
     (if b = 0 then 1 else if b = 1 then ucast a
      else pow_loop (ucast a) b (32 - clz32 b - 1) (ucast a))"

definition pow_ui_table :: "u32 \<Rightarrow> u32 \<Rightarrow> u64" where
  "pow_ui_table a b =
     (let r = ucast (pow5_table ! (unat b - 1)) :: u64;
          r1 = (if b \<ge> 14 then r OR push_bit 32 (ucast (pow5h_table ! (unat b - 14))) else r) in
      if a = 10 then push_bit (unat b) r1 else r1)"

definition pow_ui :: "u32 \<Rightarrow> u32 \<Rightarrow> u64" where
  "pow_ui a b =
     (if b = 0 then 1 else if b = 1 then ucast a
      else if (a = 5 \<or> a = 10) \<and> b \<le> 17 then pow_ui_table a b
      else pow_ui_loop a b)"

text \<open>The normalised power, its inverse and the shift.\<close>

definition pow_ui_inv :: "u32 \<Rightarrow> u32 \<Rightarrow> u32 \<times> u32 \<times> nat" where
  "pow_ui_inv a b =
     (if a = 5 \<and> b \<ge> 1 \<and> b \<le> 13 then
        let r = pow5_table ! (unat b - 1); shift = clz32 r in
        (push_bit shift r, pow5_inv_table ! (unat b - 1), shift)
      else let r = ucast (pow_ui a b) :: u32; shift = clz32 r; r1 = push_bit shift r in
        (r1, udiv1norm_init r1, shift))"

datatype rnd_mode = JS_RNDN | JS_RNDNA | JS_RNDZ

definition mpb_get_bit :: "limb list \<Rightarrow> nat \<Rightarrow> limb" where
  "mpb_get_bit r k =
     (if k div 32 \<ge> length r then 0 else drop_bit (k mod 32) (r ! (k div 32)) AND 1)"

text \<open>Whether one is added after truncating the low \<open>shift\<close> bits.\<close>

definition shr_add_one :: "limb list \<Rightarrow> nat \<Rightarrow> rnd_mode \<Rightarrow> limb" where
  "shr_add_one r shift mode =
     (if mode = JS_RNDZ then 0
      else if mpb_get_bit r (shift - 1) \<noteq> 0 then
        let bit2 = (if mode = JS_RNDNA then 1
               else if shift \<ge> 2 then
                 let l = (shift - 1) div 32; k = (shift - 1) mod 32 in
                 fold (OR) (take (min l (length r)) r) 0 OR
                   (if l < length r then r ! l AND (push_bit k 1 - 1) else 0)
               else 0) in
        if bit2 \<noteq> 0 then 1 else mpb_get_bit r shift
      else 0)"

definition mpb_shr_round :: "limb list \<Rightarrow> int \<Rightarrow> rnd_mode \<Rightarrow> limb list" where
  "mpb_shr_round r shift mode =
     (if shift = 0 then r
      else if shift < 0 then
        let sh = nat (- shift); l = sh div 32; k = sh mod 32;
            r1 = (if k \<noteq> 0 then let (t, h) = mp_shl r k 0 in mpb_renorm (t @ [h]) else r) in
        replicate l 0 @ r1
      else
        let sh = nat shift; add_one = shr_add_one r sh mode; l = sh div 32; k = sh mod 32 in
        if l \<ge> length r then [add_one]
        else
          let r1 = drop l r;
              r2 = (if k \<noteq> 0 then mpb_renorm (fst (mp_shr r1 k 0)) else r1) in
          if add_one \<noteq> 0 then
            let (t, a) = mp_add_ui r2 1 in if a \<noteq> 0 then t @ [a] else t
          else r2)"

fun mpb_cmp_loop :: "limb list \<Rightarrow> limb list \<Rightarrow> int" where
  "mpb_cmp_loop (x # xs) (y # ys) =
     (let c = mpb_cmp_loop xs ys in
      if c \<noteq> 0 then c else if x \<noteq> y then if x < y then -1 else 1 else 0)"
| "mpb_cmp_loop _ _ = 0"

definition mpb_cmp :: "limb list \<Rightarrow> limb list \<Rightarrow> int" where
  "mpb_cmp a b =
     (if length a < length b then -1 else if length a > length b then 1 else mpb_cmp_loop a b)"

definition mpb_set_u64 :: "u64 \<Rightarrow> limb list" where
  "mpb_set_u64 m =
     (let t0 = ucast m; t1 = ucast (drop_bit 32 m) in if t1 = 0 then [t0] else [t0, t1])"

definition mpb_get_u64 :: "limb list \<Rightarrow> u64" where
  "mpb_get_u64 r =
     (if length r = 1 then ucast (r ! 0) else ucast (r ! 0) OR push_bit 32 (ucast (r ! 1)))"

definition mpb_floor_log2 :: "limb list \<Rightarrow> int" where
  "mpb_floor_log2 a =
     (let v = a ! (length a - 1) in
      if v = 0 then -1 else int (length a) * 32 - 1 - int (clz32 v))"

section \<open>Values\<close>

fun mp_val :: "limb list \<Rightarrow> nat" where
  "mp_val [] = 0"
| "mp_val (x # xs) = unat x + 2 ^ 32 * mp_val xs"

text \<open>The weight of the limb after \<open>n\<close> others.\<close>

fun lbase :: "nat \<Rightarrow> nat" where
  "lbase 0 = 1"
| "lbase (Suc n) = 2 ^ 32 * lbase n"

lemma lbase_power: "lbase n = 2 ^ (32 * n)"
  by (induction n) (simp_all add: power_add)

lemma lbase_pos [simp]: "0 < lbase n" by (induction n) auto

lemma mp_val_append: "mp_val (xs @ ys) = mp_val xs + lbase (length xs) * mp_val ys"
  by (induction xs) (simp_all add: algebra_simps)

lemma mp_val_less: "mp_val xs < lbase (length xs)"
proof (induction xs)
  case (Cons x xs)
  then have "mp_val xs + 1 \<le> lbase (length xs)" by simp
  then have "2 ^ 32 * (mp_val xs + 1) \<le> 2 ^ 32 * lbase (length xs)" by (rule mult_le_mono2)
  then show ?case using u32_bound [of x] by simp
qed simp

lemma dlimb_mul: "unat (ucast x * ucast b + ucast l :: dlimb) = unat x * unat b + unat l" for x b l :: limb
proof -
  have "unat x \<le> 2 ^ 32 - 1" "unat b \<le> 2 ^ 32 - 1" "unat l \<le> 2 ^ 32 - 1"
    using u32_bound [of x] u32_bound [of b] u32_bound [of l] by simp_all
  then have "unat x * unat b \<le> (2 ^ 32 - 1) * (2 ^ 32 - 1)" by (intro mult_le_mono)
  with \<open>unat l \<le> 2 ^ 32 - 1\<close> have "unat x * unat b + unat l < 2 ^ 64" by simp
  then show ?thesis by (simp add: unat_word_ariths unat_ucast_up)
qed

lemma dlimb_parts:
  "unat (ucast t :: limb) = unat t mod 2 ^ 32" "unat (ucast (drop_bit 32 t) :: limb) = unat t div 2 ^ 32"
  for t :: dlimb
proof -
  have "unat t div 2 ^ 32 < 2 ^ 32" using u64_bound [of t] by (simp add: div_less_iff_less_mult)
  then show "unat (ucast t :: limb) = unat t mod 2 ^ 32"
    "unat (ucast (drop_bit 32 t) :: limb) = unat t div 2 ^ 32"
    by (simp_all add: unat_ucast_mod unat_drop_bit)
qed

lemma dlimb_pair: "unat (push_bit 32 (ucast h) OR ucast l :: dlimb) = unat h * 2 ^ 32 + unat l" for h l :: limb
proof -
  have "unat (ucast l OR push_bit 32 (ucast h) :: dlimb) = unat (ucast l :: dlimb) + unat (ucast h :: dlimb) * 2 ^ 32"
    by (rule unat_or_push_bit) (use u32_bound [of h] u32_bound [of l] in \<open>simp_all add: unat_ucast_up\<close>)
  then show ?thesis by (simp add: unat_ucast_up or.commute)
qed

lemma mp_add_ui_val:
  "mp_add_ui ts k = (r, c) \<Longrightarrow>
    length r = length ts \<and> mp_val r + lbase (length ts) * unat c = mp_val ts + unat k"
proof (induction ts k arbitrary: r c rule: mp_add_ui.induct)
  case (2 t ts k)
  show ?case
  proof (cases "k = 0")
    case False
    let ?k = "if t + k < k then 1 else 0 :: limb"
    obtain r1 where r1: "mp_add_ui ts ?k = (r1, c)" "r = (t + k) # r1"
      using 2(2) False by (auto simp: Let_def split: prod.splits)
    have k: "unat (t + k) + 2 ^ 32 * unat ?k = unat t + unat k"
      using u32_bound [of t] u32_bound [of k]
      by (cases "unat t + unat k < 2 ^ 32")
        (auto simp: unat_word_ariths word_less_nat_alt mod_if)
    have "length r1 = length ts" "mp_val r1 + lbase (length ts) * unat c = mp_val ts + unat ?k"
      using 2(1) [OF False refl r1(1)] by auto
    then show ?thesis unfolding r1(2) using k by (simp del: unat_1 split del: if_split) 
  qed (use 2 in auto)
qed auto

lemma mp_mul1_val:
  "mp_mul1 xs b l = (r, h) \<Longrightarrow>
    length r = length xs \<and> mp_val r + lbase (length xs) * unat h = mp_val xs * unat b + unat l"
proof (induction xs arbitrary: l r h)
  case (Cons x xs)
  let ?t = "ucast x * ucast b + ucast l :: dlimb"
  obtain r1 where r1: "mp_mul1 xs b (ucast (drop_bit 32 ?t)) = (r1, h)" "r = ucast ?t # r1"
    using Cons(2) by (auto simp: Let_def split: prod.splits)
  have "unat (ucast ?t :: limb) + 2 ^ 32 * unat (ucast (drop_bit 32 ?t) :: limb) = unat x * unat b + unat l"
    unfolding dlimb_parts(2) dlimb_parts(1) [of ?t] dlimb_mul by (rule mod_mult_div_eq)
  with Cons(1) [OF r1(1)] show ?case unfolding r1(2) by (simp add: algebra_simps)
qed auto

lemma mp_div1_val:
  assumes "mp_div1 xs b r = (qs, r1)" "unat r < unat b"
  shows "length qs = length xs \<and> mp_val qs * unat b + unat r1 = unat r * lbase (length xs) + mp_val xs \<and>
    unat r1 < unat b"
  using assms
proof (induction xs arbitrary: qs r1)
  case (Cons x xs)
  obtain qs1 r2 where d: "mp_div1 xs b r = (qs1, r2)" by (cases "mp_div1 xs b r")
  let ?a = "push_bit 32 (ucast r2) OR ucast x :: dlimb"
  have IH: "length qs1 = length xs" "mp_val qs1 * unat b + unat r2 = unat r * lbase (length xs) + mp_val xs"
    "unat r2 < unat b" using Cons.IH [OF d Cons.prems(2)] by auto
  have q: "qs = ucast (?a div ucast b) # qs1" "r1 = ucast (?a mod ucast b)" using Cons(2) d by (auto simp: Let_def)
  have a: "unat ?a = unat r2 * 2 ^ 32 + unat x" by (rule dlimb_pair)
  have "unat r2 * 2 ^ 32 + unat x < unat b * 2 ^ 32"
  proof -
    have "Suc (unat r2) * 2 ^ 32 \<le> unat b * 2 ^ 32" using IH(3) by (intro mult_le_mono1) simp
    then show ?thesis using u32_bound [of x] by simp
  qed
  then have "unat ?a div unat b < 2 ^ 32" unfolding a by (simp add: div_less_iff_less_mult IH(3) mult.commute)
  then have 1: "unat (ucast (?a div ucast b) :: limb) = unat ?a div unat b"
    unfolding dlimb_parts(1) by (simp add: unat_div_distrib unat_ucast_up)
  have "unat ?a mod unat b < 2 ^ 32" by (rule less_trans [OF _ u32_bound [of b]]) (use IH(3) in simp)
  then have 2: "unat (ucast (?a mod ucast b) :: limb) = unat ?a mod unat b"
    unfolding dlimb_parts(1) by (simp add: unat_mod_distrib unat_ucast_up)
  have "unat ?a div unat b * unat b + unat ?a mod unat b = unat r2 * 2 ^ 32 + unat x" using a by simp
  then have "mp_val qs * unat b + unat r1 = 2 ^ 32 * (mp_val qs1 * unat b + unat r2) + unat x"
    unfolding q mp_val.simps 1 2 by (simp add: algebra_simps)
  then have "mp_val qs * unat b + unat r1 = unat r * lbase (length (x # xs)) + mp_val (x # xs)"
    unfolding IH(2) by (simp add: algebra_simps)
  moreover have "unat r1 < unat b" unfolding q 2 using IH(3) by simp
  ultimately show ?case using IH(1) q by simp
qed auto

section \<open>Division by a limb with a precomputed inverse\<close>

text \<open>The estimate of the quotient is at most one too small.\<close>

lemma inverse_estimate:
  fixes d a1 a0 n1 m B h :: int
  assumes B: "B = 2 * h" "0 < h" and d: "h \<le> d" "d < B" and a1: "0 \<le> a1" "a1 < d" and a0: "0 \<le> a0" "a0 < B"
    and n1: "n1 = (if h \<le> a0 then 1 else 0)" and m: "m = (B * B - 1) div d - B"
  defines "q \<equiv> (m * (a1 + n1) + (a0 + n1 * (d - B))) div B + a1"
  shows "q * d \<le> a1 * B + a0" "a1 * B + a0 < q * d + 2 * d"
proof -
  define k where "k = (B * B - 1) mod d + 1"
  have dp: "0 < d" using d B by simp
  have k: "1 \<le> k" "k \<le> d"
    unfolding k_def using pos_mod_bound [OF dp, of "B * B - 1"] pos_mod_sign [OF dp, of "B * B - 1"] by linarith+
  have "(B * B - 1) div d * d + (B * B - 1) mod d = B * B - 1" by (rule div_mult_mod_eq)
  then have mb: "(m + B) * d = B * B - k" unfolding m k_def by (simp only: diff_add_cancel)
  define na where "na = a0 - n1 * (B - d)"
  have n01: "n1 = 0 \<and> a0 < h \<or> n1 = 1 \<and> h \<le> a0" using n1 by auto
  then have na: "0 \<le> na" "n1 = 0 \<Longrightarrow> na < h" "n1 = 1 \<Longrightarrow> na < d" using a0 d B by (auto simp: na_def)
  define X where "X = (m * (a1 + n1) + na) + a1 * B"
  have qX: "q = X div B"
  proof -
    have "X = (m * (a1 + n1) + (a0 + n1 * (d - B))) + a1 * B" by (simp add: X_def na_def algebra_simps)
    then show ?thesis unfolding q_def using B by (simp only:) (subst div_mult_self1, auto)
  qed
  have id: "B * (a1 * B + a0) - d * X = (B - d) * na + k * (a1 + n1)"
  proof -
    have "d * X = (m * d) * (a1 + n1) + d * na + d * a1 * B" by (simp add: X_def algebra_simps)
    also have "m * d = B * B - k - B * d" using mb by (simp add: algebra_simps)
    finally show ?thesis using n01 by (auto simp: na_def algebra_simps)
  qed
  have lo: "0 \<le> (B - d) * na + k * (a1 + n1)" using d k na(1) a1 n01 by auto
  have hi: "(B - d) * na + k * (a1 + n1) \<le> d * B"
  proof -
    have kb: "k * (a1 + n1) \<le> d * (a1 + n1)" using k a1 n01 by (intro mult_right_mono) auto
    have "(B - d) * na \<le> (B - d) * (if n1 = 0 then h else d - 1)"
      using d na n01 by (intro mult_left_mono) auto
    moreover have "(B - d) * h \<le> (B - d) * d" using d by (intro mult_left_mono) auto
    moreover have "d * (a1 + 1) \<le> d * d" using a1 dp by (intro mult_left_mono) auto
    ultimately show ?thesis using kb n01 d dp by (auto simp: algebra_simps)
  qed
  have "0 \<le> X mod B" "X mod B < B" "X = B * (X div B) + X mod B" using B by simp_all
  then have qb: "B * q \<le> X" "X < B * q + B" unfolding qX by linarith+
  have "B * (q * d) \<le> B * (a1 * B + a0)"
  proof -
    have "d * (B * q) \<le> d * X" using qb dp by (intro mult_left_mono) auto
    then show ?thesis using id lo by (simp add: algebra_simps)
  qed
  then show "q * d \<le> a1 * B + a0" using B by simp
  have "B * (a1 * B + a0) < B * (q * d + 2 * d)"
  proof -
    have "d * X < d * (B * q + B)" using qb dp by (intro mult_strict_left_mono) auto
    then show ?thesis using id hi by (simp add: algebra_simps)
  qed
  then show "a1 * B + a0 < q * d + 2 * d" using B by simp
qed

lemma udiv1norm_init_val:
  assumes "2 ^ 31 \<le> unat d"
  shows "unat (udiv1norm_init d) = (2 ^ 64 - 1) div unat d - 2 ^ 32"
proof -
  have d: "0 < unat d" "unat d < 2 ^ 32" using assms u32_bound [of d] by simp_all
  have a1: "unat (- d - 1) = 2 ^ 32 - 1 - unat d"
  proof -
    have "- d - 1 = -1 - d" by simp
    then show ?thesis
      using unat_sub [of d "-1"] by (simp only:) (simp add: unsigned_minus_1_eq_mask mask_eq_exp_minus_1)
  qed
  have "(2 ^ 32 - 1 - unat d) * 2 ^ 32 + (2 ^ 32 - 1) = (2 ^ 64 - 1) - 2 ^ 32 * unat d"
    using d by simp
  then have n: "unat (push_bit 32 (ucast (- d - 1)) OR ucast (-1 :: limb) :: dlimb) = (2 ^ 64 - 1) - 2 ^ 32 * unat d"
    unfolding dlimb_pair a1 by (simp add: unsigned_minus_1_eq_mask mask_eq_exp_minus_1)
  have "((2 ^ 64 - 1) - 2 ^ 32 * unat d) div unat d = (2 ^ 64 - 1) div unat d - 2 ^ 32"
  proof -
    have "(x - c * y) div y = x div y - c" if "c * y \<le> x" "0 < y" for x y c :: nat
    proof -
      have "x div y = ((x - c * y) + c * y) div y" using that by simp
      then show ?thesis using that(2) by simp
    qed
    from this [of "2 ^ 32" "unat d" "2 ^ 64 - 1"] show ?thesis using d by simp
  qed
  moreover have "(2 ^ 64 - 1) div unat d < 2 ^ 33"
  proof -
    have "(2 ^ 64 - 1) div unat d \<le> (2 ^ 64 - 1) div 2 ^ 31" by (rule div_le_mono2) (use assms in simp_all)
    then show ?thesis by simp
  qed
  ultimately show ?thesis
    unfolding udiv1norm_init_def Let_def dlimb_parts(1) unat_div_distrib n
    by (simp add: unat_ucast_up)
qed


text \<open>The sign bit as a mask.\<close>

lemma sign_mask: "signed_drop_bit 31 a = (if 2 ^ 31 \<le> unat a then -1 else 0)" for a :: limb
proof -
  have b: "bit a 31 \<longleftrightarrow> 2 ^ 31 \<le> unat a"
  proof -
    have "bit a 31 \<longleftrightarrow> odd (unat a div 2 ^ 31)"
      by (simp only: bit_iff_odd [symmetric]) (simp add: bit_unsigned_iff)
    moreover have "unat a div 2 ^ 31 = (if 2 ^ 31 \<le> unat a then 1 else 0)"
      using u32_bound [of a] by (auto intro: div_nat_eqI)
    ultimately show ?thesis by simp
  qed
  show ?thesis unfolding b [symmetric]
    by (rule u32_eqI) (auto simp: bit_simps)
qed


lemma half_uint: "2 ^ 31 \<le> unat a \<longleftrightarrow> 2 ^ 31 \<le> uint a" for a :: limb
proof -
  have "2 ^ 31 \<le> unat a \<longleftrightarrow> int (2 ^ 31) \<le> int (unat a)" by (simp only: of_nat_le_iff)
  then show ?thesis by simp
qed

text \<open>The quotient estimate as the code computes it.\<close>

lemma udiv1norm_estimate:
  fixes a1 a0 d :: limb
  assumes d: "2 ^ 31 \<le> unat d" and a1: "unat a1 < unat d"
  defines "n1m \<equiv> signed_drop_bit 31 a0"
  defines "q \<equiv> ucast (drop_bit 32 (ucast (udiv1norm_init d) * ucast (a1 - n1m) + ucast (a0 + (n1m AND d)) :: dlimb)) + a1"
  shows "unat q * unat d \<le> unat a1 * 2 ^ 32 + unat a0"
    "unat a1 * 2 ^ 32 + unat a0 < unat q * unat d + 2 * unat d"
proof -
  define v where "v = udiv1norm_init d"
  define n1 :: int where "n1 = (if 2 ^ 31 \<le> unat a0 then 1 else 0)"
  have b: "2 ^ 31 \<le> uint d" "uint d < 2 ^ 32" "0 \<le> uint a1" "uint a1 < uint d" "0 \<le> uint a0" "uint a0 < 2 ^ 32"
  proof -
    have "int (2 ^ 31) \<le> int (unat d)" "int (unat d) < int (2 ^ 32)" "int (unat a1) < int (unat d)"
      "int (unat a0) < int (2 ^ 32)"
      using assms(1,2) u32_bound [of d] u32_bound [of a0] by (simp_all only: of_nat_le_iff of_nat_less_iff)
    then show "2 ^ 31 \<le> uint d" "uint d < 2 ^ 32" "0 \<le> uint a1" "uint a1 < uint d" "0 \<le> uint a0" "uint a0 < 2 ^ 32"
      by simp_all
  qed
  have V: "uint v = (2 ^ 32 * 2 ^ 32 - 1) div uint d - 2 ^ 32"
  proof -
    have "2 ^ 32 \<le> (2 ^ 64 - 1) div unat d"
      using u32_bound [of d] d by (simp add: less_eq_div_iff_mult_less_eq)
    then have "int (unat v) = (2 ^ 64 - 1) div int (unat d) - 2 ^ 32"
      unfolding v_def udiv1norm_init_val [OF d] by (simp add: of_nat_diff zdiv_int)
    then show ?thesis unfolding uint_nat by simp
  qed
  have m: "n1m = (if 2 ^ 31 \<le> unat a0 then -1 else 0)" unfolding n1m_def by (rule sign_mask)
  have s1: "uint (a1 - n1m) = uint a1 + n1"
  proof (cases "2 ^ 31 \<le> unat a0")
    case True
    then have eq: "a1 - n1m = a1 + 1" by (simp add: m)
    show ?thesis unfolding eq using b True by (simp add: n1_def uint_word_ariths)
  qed (simp add: m n1_def)
  have s2: "uint (a0 + (n1m AND d)) = uint a0 + n1 * (uint d - 2 ^ 32)"
  proof (cases "2 ^ 31 \<le> unat a0")
    case True
    then have "2 ^ 31 \<le> uint a0" unfolding half_uint .
    then have "(uint a0 + uint d - 2 ^ 32) mod 2 ^ 32 = uint a0 + uint d - 2 ^ 32"
      using b by (intro mod_pos_pos_trivial) auto
    then have "(uint a0 + uint d) mod 2 ^ 32 = uint a0 + uint d - 2 ^ 32" by simp
    with True show ?thesis by (simp add: m n1_def uint_word_ariths)
  qed (simp add: m n1_def)
  define X where "X = (ucast v * ucast (a1 - n1m) + ucast (a0 + (n1m AND d)) :: dlimb)"
  define q0 where "q0 = (((2 ^ 32 * 2 ^ 32 - 1) div uint d - 2 ^ 32) * (uint a1 + n1) +
      (uint a0 + n1 * (uint d - 2 ^ 32))) div 2 ^ 32 + uint a1"
  have est: "q0 * uint d \<le> uint a1 * 2 ^ 32 + uint a0" "uint a1 * 2 ^ 32 + uint a0 < q0 * uint d + 2 * uint d"
  proof -
    have n1i: "n1 = (if 2 ^ 31 \<le> uint a0 then 1 else 0)" unfolding n1_def half_uint ..
    show "q0 * uint d \<le> uint a1 * 2 ^ 32 + uint a0" "uint a1 * 2 ^ 32 + uint a0 < q0 * uint d + 2 * uint d"
      unfolding q0_def using inverse_estimate [of "2 ^ 32" "2 ^ 31" "uint d" "uint a1" "uint a0" n1, OF _ _ b n1i refl]
      by simp_all
  qed
  have X: "uint X = uint v * (uint a1 + n1) + (uint a0 + n1 * (uint d - 2 ^ 32))"
  proof -
    have "uint X = uint v * uint (a1 - n1m) + uint (a0 + (n1m AND d))"
      unfolding X_def uint_nat dlimb_mul by simp
    then show ?thesis by (simp only: s1 s2)
  qed
  have q0X: "q0 = int (unat X div 2 ^ 32) + uint a1"
    unfolding q0_def V [symmetric] X [symmetric] by (simp add: zdiv_int)
  have "q0 < 2 ^ 32"
  proof -
    have "(uint a1 + 1) * 2 ^ 32 \<le> uint d * 2 ^ 32" using b by (intro mult_right_mono) auto
    moreover have "(uint a1 + 1) * 2 ^ 32 = uint a1 * 2 ^ 32 + 2 ^ 32" by (simp add: algebra_simps)
    ultimately have "q0 * uint d < uint d * 2 ^ 32" using est(1) b(6) by linarith
    then have "q0 * uint d < 2 ^ 32 * uint d" by (simp only: mult.commute)
    then show ?thesis by (rule mult_right_less_imp_less) (use b in simp)
  qed
  then have "int (unat X div 2 ^ 32 + unat a1) < int (2 ^ 32)" using q0X by simp
  then have "unat X div 2 ^ 32 + unat a1 < 2 ^ 32" by (simp only: of_nat_less_iff)
  then have "unat q = unat X div 2 ^ 32 + unat a1"
    unfolding q_def v_def [symmetric] X_def [symmetric] by (subst unat_add_small) (simp_all add: dlimb_parts(2))
  then have uq: "int (unat q) = q0" using q0X unfolding uint_nat by simp
  have "int (unat q * unat d) \<le> int (unat a1 * 2 ^ 32 + unat a0)"
    "int (unat a1 * 2 ^ 32 + unat a0) < int (unat q * unat d + 2 * unat d)"
    using est unfolding uq [symmetric] by simp_all
  then show "unat q * unat d \<le> unat a1 * 2 ^ 32 + unat a0"
    "unat a1 * 2 ^ 32 + unat a0 < unat q * unat d + 2 * unat d"
    by (simp_all only: of_nat_le_iff of_nat_less_iff)
qed


lemma udiv1norm_correct:
  assumes d: "2 ^ 31 \<le> unat d" and a1: "unat a1 < unat d"
  shows "udiv1norm a1 a0 d (udiv1norm_init d) =
    (of_nat ((unat a1 * 2 ^ 32 + unat a0) div unat d), of_nat ((unat a1 * 2 ^ 32 + unat a0) mod unat d))"
proof -
  define q where "q = ucast (drop_bit 32 (ucast (udiv1norm_init d) * ucast (a1 - signed_drop_bit 31 a0) +
      ucast (a0 + (signed_drop_bit 31 a0 AND d)) :: dlimb)) + a1"
  define N where "N = unat a1 * 2 ^ 32 + unat a0"
  have est: "unat q * unat d \<le> N" "N < unat q * unat d + 2 * unat d"
    unfolding N_def q_def using udiv1norm_estimate [OF d a1, of a0] by blast+
  have dp: "0 < unat d" "unat d < 2 ^ 32" using d u32_bound [of d] by simp_all
  define a where "a = ((push_bit 32 (ucast a1) OR ucast a0) - ucast q * ucast d - ucast d :: dlimb)"
  have res: "udiv1norm a1 a0 d (udiv1norm_init d) =
      (q + (1 + ucast (drop_bit 32 a)), ucast a + (ucast (drop_bit 32 a) AND d))"
    unfolding udiv1norm_def Let_def q_def [symmetric] a_def [symmetric] by (rule refl)
  have qd: "unat (ucast q * ucast d :: dlimb) = unat q * unat d"
    using dlimb_mul [of q d 0] by simp
  have R: "unat ((push_bit 32 (ucast a1) OR ucast a0) - ucast q * ucast d :: dlimb) = N - unat q * unat d"
    using est(1) by (subst unat_sub) (simp_all only: word_le_nat_alt qd dlimb_pair N_def)
  show ?thesis
  proof (cases "N < unat q * unat d + unat d")
    case True
    define k where "k = unat d - (N - unat q * unat d)"
    have k: "0 < k" "k \<le> unat d" using True est(1) by (auto simp: k_def)
    define R where "R = ((push_bit 32 (ucast a1) OR ucast a0) - ucast q * ucast d :: dlimb)"
    have ud: "unat (ucast d :: dlimb) = unat d" by (simp add: unat_ucast_up)
    have ua: "unat a = 2 ^ 64 - k"
    proof -
      have "R < ucast d" using True est(1) by (simp add: word_less_nat_alt ud R R_def)
      then show ?thesis
        unfolding a_def R_def [symmetric] using k
        by (simp add: unat_sub_if_size word_size ud word_le_nat_alt word_less_nat_alt) (simp add: R_def R k_def)
    qed
    have hi: "ucast (drop_bit 32 a) = (-1 :: limb)"
    proof -
      have "(2 ^ 64 - k) div 2 ^ 32 = 2 ^ 32 - (1 :: nat)" using k dp by (intro div_nat_eqI) simp_all
      then have "unat (ucast (drop_bit 32 a) :: limb) = unat (-1 :: limb)"
        unfolding dlimb_parts(2) ua by (simp add: unsigned_minus_1_eq_mask mask_eq_exp_minus_1)
      then show ?thesis by (simp add: word_unat_eq_iff)
    qed
    have dv: "N div unat d = unat q" using est(1) True by (intro div_nat_eqI) (simp_all add: mult.commute)
    have md: "N mod unat d = N - unat q * unat d" using minus_div_mult_eq_mod [of N "unat d"] dv by simp
    have "ucast a + d = of_nat (N - unat q * unat d)"
    proof -
      have u: "unat (ucast a :: limb) = 2 ^ 32 - k"
      proof -
        have "2 ^ 64 - k = (2 ^ 32 - 1) * 2 ^ 32 + (2 ^ 32 - k)" using k dp by simp
        then show ?thesis unfolding dlimb_parts(1) ua by (simp only: mod_mult_self3) (use k dp in simp)
      qed
      have "ucast a = (of_nat (unat (ucast a :: limb)) :: limb)" by simp
      also have "\<dots> = of_nat (2 ^ 32 - k)" unfolding u ..
      also have "\<dots> = - of_nat k" using k dp by (simp add: of_nat_diff)
      finally have "ucast a + d = of_nat (unat d) - (of_nat k :: limb)" by simp
      also have "\<dots> = of_nat (unat d - k)" using k by (simp add: of_nat_diff)
      finally show ?thesis using k est(1) True by (simp add: k_def)
    qed
    then show ?thesis unfolding res hi N_def [symmetric] dv md by simp
  next
    case False
    have ua: "unat a = N - unat q * unat d - unat d"
      unfolding a_def using False R
      by (subst unat_sub) (simp_all add: word_le_nat_alt unat_ucast_up)
    then have lt: "unat a < 2 ^ 32" using est dp False by linarith
    have hi: "ucast (drop_bit 32 a) = (0 :: limb)"
    proof -
      have "unat (ucast (drop_bit 32 a) :: limb) = 0" unfolding dlimb_parts(2) using lt by simp
      then show ?thesis by (simp add: unat_eq_0)
    qed
    have dv: "N div unat d = unat q + 1"
      using est False by (intro div_nat_eqI) (simp_all add: algebra_simps)
    have md: "N mod unat d = unat a"
      unfolding ua using minus_div_mult_eq_mod [of N "unat d"] dv by (simp add: algebra_simps)
    show ?thesis unfolding res hi N_def [symmetric] dv md by simp
  qed
qed

section \<open>Shifts, division and comparison\<close>

lemma unat_push_bit_mod: "unat (push_bit n w) = unat w * 2 ^ n mod 2 ^ 32" for w :: limb
proof -
  have "unat (push_bit n w) = take_bit LENGTH(32) (push_bit n (unat w))" by (rule unsigned_push_bit_eq)
  then show ?thesis unfolding take_bit_eq_mod push_bit_eq_mult by simp
qed

lemma mp_shl_val:
  assumes "mp_shl as k low = (r, h)" "k < 32" "unat low < 2 ^ k"
  shows "length r = length as \<and> mp_val r + lbase (length as) * unat h = mp_val as * 2 ^ k + unat low \<and>
    unat h < 2 ^ k"
  using assms(1,3)
proof (induction as arbitrary: low r h)
  case (Cons a as)
  obtain r1 where r1: "mp_shl as k (drop_bit (32 - k) a) = (r1, h)" "r = (push_bit k a OR low) # r1"
    using Cons.prems by (auto split: prod.splits)
  have dv: "unat (drop_bit (32 - k) a) = unat a div 2 ^ (32 - k)" by (rule unat_drop_bit)
  have p: "(2::nat) ^ (32 - k) * 2 ^ k = 2 ^ 32" using assms(2) by (simp flip: power_add)
  have lt: "unat a div 2 ^ (32 - k) < 2 ^ k"
    using u32_bound [of a] p by (simp add: div_less_iff_less_mult mult.commute)
  note IH = Cons.IH [OF r1(1)]
  have md: "unat (push_bit k a) = unat a mod 2 ^ (32 - k) * 2 ^ k"
    unfolding unat_push_bit_mod mult_mod_left p ..
  have o: "unat (push_bit k a OR low) = unat a mod 2 ^ (32 - k) * 2 ^ k + unat low"
  proof -
    have d: "push_bit k a AND low = 0"
      using bit_unat_less [OF Cons.prems(2)] by (intro bit_word_eqI) (auto simp: bit_simps)
    have m1: "unat a mod 2 ^ (32 - k) + 1 \<le> 2 ^ (32 - k)" by (simp add: Suc_leI)
    then have "(unat a mod 2 ^ (32 - k) + 1) * 2 ^ k \<le> 2 ^ (32 - k) * 2 ^ k" by (rule mult_le_mono1)
    then have "unat (push_bit k a) + unat low < 2 ^ LENGTH(32)" using Cons.prems(2) unfolding md p by simp
    then show ?thesis
      using unat_add_small [of "push_bit k a" low] d md by (simp add: disjunctive_add_eq_or)
  qed
  have i: "length r1 = length as" "mp_val r1 + lbase (length as) * unat h = mp_val as * 2 ^ k + unat a div 2 ^ (32 - k)"
    "unat h < 2 ^ k" using IH lt by (auto simp: dv)
  have e: "unat a mod 2 ^ (32 - k) * 2 ^ k + 2 ^ 32 * (unat a div 2 ^ (32 - k)) = unat a * 2 ^ k"
  proof -
    have "unat a * 2 ^ k = (unat a div 2 ^ (32 - k) * 2 ^ (32 - k) + unat a mod 2 ^ (32 - k)) * 2 ^ k"
      by (simp only: div_mult_mod_eq)
    then show ?thesis unfolding p [symmetric] by (simp only: algebra_simps)
  qed
  have "mp_val r + lbase (length (a # as)) * unat h
     = unat (push_bit k a OR low) + 2 ^ 32 * (mp_val r1 + lbase (length as) * unat h)"
    unfolding r1(2) by (simp add: algebra_simps)
  also have "\<dots> = mp_val (a # as) * 2 ^ k + unat low"
    unfolding i(2) o using e by (simp add: algebra_simps)
  finally show ?case using i r1(2) by simp
qed auto

lemma mp_shr_loop_val:
  assumes "mp_shr_loop as k high = (r, l)" "0 < k" "k < 32" "unat high < 2 ^ k"
  shows "length r = length as \<and>
    mp_val r * 2 ^ k + unat l mod 2 ^ k = mp_val as + lbase (length as) * unat high \<and> (as \<noteq> [] \<or> l = high)"
  using assms(1)
proof (induction as arbitrary: r l)
  case (Cons a as)
  obtain r1 l1 where e: "mp_shr_loop as k high = (r1, l1)" by (cases "mp_shr_loop as k high")
  have r1: "mp_shr_loop as k high = (r1, l1)" "r = (drop_bit k a OR push_bit (32 - k) l1) # r1" "l = a"
    using Cons.prems e by auto
  have p: "(2::nat) ^ (32 - k) * 2 ^ k = 2 ^ 32" using assms(3) by (simp flip: power_add)
  have md: "unat (push_bit (32 - k) l1) = unat l1 mod 2 ^ k * 2 ^ (32 - k)"
    unfolding unat_push_bit_mod mult_mod_left mult.commute [of "2 ^ k" "2 ^ (32 - k)"] p ..
  have dv: "unat (drop_bit k a) = unat a div 2 ^ k" by (rule unat_drop_bit)
  have lt: "unat a div 2 ^ k < 2 ^ (32 - k)"
    by (rule less_mult_imp_div_less) (unfold p, rule u32_bound)
  have o: "unat (drop_bit k a OR push_bit (32 - k) l1) = unat a div 2 ^ k + unat l1 mod 2 ^ k * 2 ^ (32 - k)"
  proof -
    have d: "drop_bit k a AND push_bit (32 - k) l1 = 0"
      using bit_unat_less [OF lt [folded dv]] by (intro bit_word_eqI) (auto simp: bit_simps)
    have "(unat l1 mod 2 ^ k + 1) * 2 ^ (32 - k) \<le> 2 ^ k * 2 ^ (32 - k)"
      by (rule mult_le_mono1) (simp add: Suc_leI)
    then have "unat l1 mod 2 ^ k * 2 ^ (32 - k) + 2 ^ (32 - k) \<le> 2 ^ 32"
      unfolding mult.commute [of "2 ^ k" "2 ^ (32 - k)"] p by simp
    then have "unat (drop_bit k a) + unat (push_bit (32 - k) l1) < 2 ^ LENGTH(32)"
      using lt unfolding md dv by simp
    then show ?thesis
      using unat_add_small [of "drop_bit k a" "push_bit (32 - k) l1"] d md dv by (simp add: disjunctive_add_eq_or)
  qed
  have IH: "length r1 = length as" "mp_val r1 * 2 ^ k + unat l1 mod 2 ^ k = mp_val as + lbase (length as) * unat high"
    using Cons.IH [OF r1(1)] by auto
  have "mp_val r * 2 ^ k + unat l mod 2 ^ k =
      (unat a div 2 ^ k * 2 ^ k + unat a mod 2 ^ k) + unat l1 mod 2 ^ k * (2 ^ (32 - k) * 2 ^ k) +
      2 ^ 32 * mp_val r1 * 2 ^ k"
    unfolding r1(2,3) mp_val.simps o by (simp only: algebra_simps)
  also have "\<dots> = unat a + 2 ^ 32 * (mp_val r1 * 2 ^ k + unat l1 mod 2 ^ k)"
    unfolding p by (simp add: algebra_simps)
  finally show ?case unfolding IH(2) using IH(1) r1(2) by (simp add: algebra_simps)
qed (use assms in auto)

lemma mp_shr_val:
  assumes "mp_shr as k high = (r, l)" "0 < k" "k < 32" "unat high < 2 ^ k"
  shows "length r = length as" "mp_val r = (mp_val as + lbase (length as) * unat high) div 2 ^ k"
    "unat l = (mp_val as + lbase (length as) * unat high) mod 2 ^ k"
proof -
  obtain l1 where l: "mp_shr_loop as k high = (r, l1)" "l = l1 AND (push_bit k 1 - 1)"
    using assms(1) by (auto simp: mp_shr_def split: prod.splits)
  note v = mp_shr_loop_val [OF l(1) assms(2-4)]
  have "push_bit k 1 - 1 = (mask k :: limb)" by (simp add: mask_eq_exp_minus_1 push_bit_eq_mult)
  then have u: "unat l = unat l1 mod 2 ^ k" unfolding l(2) by (simp add: unat_and_mask)
  have lt: "unat l1 mod 2 ^ k < 2 ^ k" by simp
  show "length r = length as" using v by simp
  have e: "mp_val as + lbase (length as) * unat high = mp_val r * 2 ^ k + unat l1 mod 2 ^ k" using v by simp
  show "mp_val r = (mp_val as + lbase (length as) * unat high) div 2 ^ k"
    unfolding e using lt by (simp del: mod_less_divisor)
  show "unat l = (mp_val as + lbase (length as) * unat high) mod 2 ^ k"
    unfolding e u by simp
qed


text \<open>With a normalised divisor the loop over the inverse is the schoolbook division.\<close>

lemma div1norm_loop_mp_div1:
  assumes "2 ^ 31 \<le> unat b" "unat r < unat b"
  shows "div1norm_loop xs b r (udiv1norm_init b) = mp_div1 xs b r"
proof (induction xs)
  case (Cons x xs)
  obtain qs r1 where d: "mp_div1 xs b r = (qs, r1)" by (cases "mp_div1 xs b r")
  have r1: "unat r1 < unat b" using mp_div1_val [OF d assms(2)] by simp
  let ?a = "push_bit 32 (ucast r1) OR ucast x :: dlimb"
  have "unat (ucast b :: dlimb) = unat b" by (simp add: unat_ucast_up)
  then have "ucast (?a div ucast b) = (of_nat (unat ?a div unat b) :: limb)"
    "ucast (?a mod ucast b) = (of_nat (unat ?a mod unat b) :: limb)"
    by (simp_all only: word_unat_eq_iff dlimb_parts(1) unat_div_distrib unat_mod_distrib unat_of_nat) simp_all
  then show ?case
    using Cons d udiv1norm_correct [OF assms(1) r1, of x] unfolding dlimb_pair by (simp add: Let_def dlimb_pair)
qed simp

lemma mp_div1norm_val:
  assumes "mp_div1norm tab b 0 (udiv1norm_init b) k = (qs, r)" "2 ^ 31 \<le> unat b" "k < 32" "2 ^ k dvd unat b"
  shows "length qs = length tab \<and> mp_val qs = mp_val tab div (unat b div 2 ^ k) \<and>
    unat r = mp_val tab mod (unat b div 2 ^ k)"
proof -
  define D where "D = unat b div 2 ^ k"
  have bD: "unat b = D * 2 ^ k" using assms(4) by (simp add: D_def)
  have kb: "(2::nat) ^ k \<le> unat b" using assms(2,3) power_increasing [of k 31 "2::nat"] by simp
  obtain t c where t: "(t, c) = (if k \<noteq> 0 then mp_shl tab k 0 else (tab, 0))" by (metis surj_pair)
  have tv: "length t = length tab" "mp_val t + lbase (length tab) * unat c = mp_val tab * 2 ^ k" "unat c < 2 ^ k"
    using t mp_shl_val [of tab k 0 t c] assms(3) by (auto split: if_splits)
  have cb: "unat c < unat b" using tv(3) kb by simp
  obtain r2 where d: "mp_div1 t b c = (qs, r2)" and r: "r = drop_bit k r2"
    using assms(1) t div1norm_loop_mp_div1 [OF assms(2) cb, of t]
    by (auto simp: mp_div1norm_def split: if_splits prod.splits)
  note v = mp_div1_val [OF d cb]
  have e: "mp_val tab * 2 ^ k = mp_val qs * unat b + unat r2" using v tv by (simp add: algebra_simps)
  have "mp_val qs = mp_val tab * 2 ^ k div unat b" "unat r2 = mp_val tab * 2 ^ k mod unat b"
    unfolding e using conjunct2 [OF conjunct2 [OF v]] by simp_all
  then have q: "mp_val qs = mp_val tab div D" and "unat r2 = mp_val tab mod D * 2 ^ k"
    unfolding bD by (simp_all add: mult_mod_left)
  then have "unat r = mp_val tab mod D" unfolding r by (simp add: unat_drop_bit)
  then show ?thesis using q v tv(1) by (simp add: D_def)
qed

fun lastnz :: "limb list \<Rightarrow> bool" where
  "lastnz xs \<longleftrightarrow> xs \<noteq> [] \<and> (length xs = 1 \<or> last xs \<noteq> 0)"

lemma mpb_renorm_val: "mp_val (mpb_renorm xs) = mp_val xs"
  by (induction xs rule: mpb_renorm.induct) (auto split: list.splits)

lemma mpb_renorm_norm: "xs \<noteq> [] \<Longrightarrow> lastnz (mpb_renorm xs)"
  by (induction xs rule: mpb_renorm.induct) (auto split: list.splits)


section \<open>Rounding\<close>

lemma mp_val_mod: "mp_val xs mod lbase n = mp_val (take n xs)" "mp_val xs div lbase n = mp_val (drop n xs)"
proof -
  have e: "mp_val xs = mp_val (take n xs) + lbase (min (length xs) n) * mp_val (drop n xs)"
    using mp_val_append [of "take n xs" "drop n xs"] by simp
  have lt: "mp_val (take n xs) < lbase n"
  proof -
    have "mp_val (take n xs) < lbase (min (length xs) n)" using mp_val_less [of "take n xs"] by simp
    also have "\<dots> \<le> lbase n" by (simp add: lbase_power)
    finally show ?thesis .
  qed
  have "mp_val xs = mp_val (take n xs) + lbase n * mp_val (drop n xs)"
    using e by (cases "n \<le> length xs") (simp_all add: min_def)
  then show "mp_val xs mod lbase n = mp_val (take n xs)" "mp_val xs div lbase n = mp_val (drop n xs)"
    using lt by simp_all
qed

text \<open>A bit of the number.\<close>

lemma mpb_get_bit_val: "unat (mpb_get_bit r k) = mp_val r div 2 ^ k mod 2"
proof -
  have k: "(2::nat) ^ k = lbase (k div 32) * 2 ^ (k mod 32)"
    by (simp add: lbase_power flip: power_add)
  have dv: "mp_val r div 2 ^ k = mp_val (drop (k div 32) r) div 2 ^ (k mod 32)"
    unfolding k div_mult2_eq mp_val_mod(2) ..
  show ?thesis
  proof (cases "k div 32 \<ge> length r")
    case False
    then have d: "drop (k div 32) r = r ! (k div 32) # drop (Suc (k div 32)) r" by (simp add: Cons_nth_drop_Suc)
    have m: "k mod 32 < 32" by simp
    obtain j where j: "32 = k mod 32 + Suc j" using m by (metis less_imp_Suc_add add_Suc_right)
    have "unat (mpb_get_bit r k) = unat (r ! (k div 32)) div 2 ^ (k mod 32) mod 2"
      using False unat_and_mask [of "drop_bit (k mod 32) (r ! (k div 32))" 1]
      by (simp add: mpb_get_bit_def unat_drop_bit)
    also have "\<dots> = (unat (r ! (k div 32)) + 2 ^ 32 * mp_val (drop (Suc (k div 32)) r)) div 2 ^ (k mod 32) mod 2"
    proof -
      have e: "(2::nat) ^ 32 = 2 ^ (k mod 32) * (2 * 2 ^ j)" by (subst j) (simp only: power_add power_Suc)
      have gen: "(u + (P * (2 * R)) * v) div P mod 2 = u div P mod 2" if "0 < P" for u P R v :: nat
      proof -
        have eq: "u + (P * (2 * R)) * v = u + P * (2 * (R * v))" by (simp only: ac_simps)
        show ?thesis unfolding eq using that by simp
      qed
      show ?thesis unfolding e by (rule gen [symmetric]) simp
    qed
    finally show ?thesis unfolding dv d by simp
  qed (simp add: mpb_get_bit_def dv)
qed

text \<open>Whether any of the low bits is set.\<close>

lemma fold_or_zero: "fold (OR) xs a = (0 :: limb) \<longleftrightarrow> a = 0 \<and> mp_val xs = 0"
  by (induction xs arbitrary: a) (auto simp: or_eq_0_iff unat_eq_zero)


lemma lbase_nz: "lbase n \<noteq> 0" using lbase_pos [of n] by linarith

lemma mask_limb: "push_bit k 1 - 1 = (mask k :: limb)"
  by (simp add: mask_eq_exp_minus_1 push_bit_eq_mult)

lemma low_bits_zero:
  assumes "0 < k"
  shows "(fold (OR) (take (min (k div 32) (length r)) r) 0 OR
      (if k div 32 < length r then r ! (k div 32) AND (push_bit (k mod 32) 1 - 1) else 0) = 0) \<longleftrightarrow>
    mp_val r mod 2 ^ k = 0"
proof -
  have k: "(2::nat) ^ k = lbase (k div 32) * 2 ^ (k mod 32)"
    by (simp add: lbase_power flip: power_add)
  have m: "mp_val r mod 2 ^ k = lbase (k div 32) * (mp_val (drop (k div 32) r) mod 2 ^ (k mod 32)) + mp_val (take (k div 32) r)"
    unfolding k mod_mult2_eq mp_val_mod ..
  have t: "take (min (k div 32) (length r)) r = take (k div 32) r" by (simp add: min_def)
  have d: "(if k div 32 < length r then r ! (k div 32) AND (push_bit (k mod 32) 1 - 1) else 0) = 0 \<longleftrightarrow>
      mp_val (drop (k div 32) r) mod 2 ^ (k mod 32) = 0"
  proof (cases "k div 32 < length r")
    case True
    then have dr: "drop (k div 32) r = r ! (k div 32) # drop (Suc (k div 32)) r" by (simp add: Cons_nth_drop_Suc)
    have "(2::nat) ^ (k mod 32) dvd 2 ^ 32" by (rule le_imp_power_dvd) simp
    then have "2 ^ (k mod 32) dvd 2 ^ 32 * mp_val (drop (Suc (k div 32)) r)" by (rule dvd_mult2)
    then obtain c where c: "2 ^ 32 * mp_val (drop (Suc (k div 32)) r) = 2 ^ (k mod 32) * c" ..
    have "(unat (r ! (k div 32)) + 2 ^ 32 * mp_val (drop (Suc (k div 32)) r)) mod 2 ^ (k mod 32)
       = unat (r ! (k div 32)) mod 2 ^ (k mod 32)"
      unfolding c by simp
    then show ?thesis
      using True unat_and_mask [of "r ! (k div 32)" "k mod 32"] unfolding dr mask_limb
      by (simp add: word_unat_eq_iff)
  qed simp
  show ?thesis unfolding or_eq_0_iff t d m fold_or_zero by (auto simp: lbase_nz)
qed

text \<open>The rounded quotient, as a number.\<close>

definition round_shift :: "nat \<Rightarrow> nat \<Rightarrow> rnd_mode \<Rightarrow> nat" where
  "round_shift v k mode =
     (let q = v div 2 ^ k; r = v mod 2 ^ k in
      case mode of
        JS_RNDZ \<Rightarrow> q
      | JS_RNDNA \<Rightarrow> if 2 * r \<ge> 2 ^ k then q + 1 else q
      | JS_RNDN \<Rightarrow> if 2 * r > 2 ^ k \<or> (2 * r = 2 ^ k \<and> odd q) then q + 1 else q)"

lemma half_split:
  fixes v :: nat
  shows "v mod 2 ^ Suc k = v div 2 ^ k mod 2 * 2 ^ k + v mod 2 ^ k"
  using mod_mult2_eq [of v "2 ^ k" 2] by (simp add: mult.commute)

lemma shr_add_one_val:
  assumes "0 < k"
  shows "unat (shr_add_one r k mode) + mp_val r div 2 ^ k = round_shift (mp_val r) k mode"
proof -
  define v where "v = mp_val r"
  obtain j where j: "k = Suc j" using assms by (cases k) auto
  have b: "mpb_get_bit r j \<noteq> 0 \<longleftrightarrow> odd (v div 2 ^ j)"
    using mpb_get_bit_val [of r j] by (simp add: v_def word_unat_eq_iff odd_iff_mod_2_eq_one)
  have c: "unat (mpb_get_bit r k) = (if odd (v div 2 ^ k) then 1 else 0)"
    by (simp add: mpb_get_bit_val v_def odd_iff_mod_2_eq_one)
  define q where "q = v div 2 ^ k"
  have p: "(2::nat) ^ k = 2 * 2 ^ j" by (simp add: j)
  have rs: "round_shift v k mode = (case mode of JS_RNDZ \<Rightarrow> q
      | JS_RNDNA \<Rightarrow> if 2 * (v mod 2 ^ k) \<ge> 2 ^ k then q + 1 else q
      | JS_RNDN \<Rightarrow> if 2 * (v mod 2 ^ k) > 2 ^ k \<or> (2 * (v mod 2 ^ k) = 2 ^ k \<and> odd q) then q + 1 else q)"
    by (cases mode) (simp_all add: round_shift_def q_def Let_def)
  have s: "v mod 2 ^ k = v div 2 ^ j mod 2 * 2 ^ j + v mod 2 ^ j" unfolding j by (rule half_split)
  have lt: "v mod 2 ^ j < 2 ^ j" by simp
  define low where "low = (if k \<ge> 2 then
         let l = (k - 1) div 32; m = (k - 1) mod 32 in
         fold (OR) (take (min l (length r)) r) 0 OR
           (if l < length r then r ! l AND (push_bit m 1 - 1) else 0)
       else 0 :: limb)"
  have z: "low = 0 \<longleftrightarrow> v mod 2 ^ j = 0"
  proof (cases "k \<ge> 2")
    case True
    then show ?thesis using low_bits_zero [of j r] by (simp add: low_def Let_def j v_def)
  next
    case False
    then have "j = 0" using j by simp
    then show ?thesis using False by (simp add: low_def)
  qed
  have sh: "shr_add_one r k mode = (if mode = JS_RNDZ then 0 else if mpb_get_bit r j \<noteq> 0 then
      (if (if mode = JS_RNDNA then 1 else low) \<noteq> 0 then 1 else mpb_get_bit r k) else 0)"
    by (simp add: shr_add_one_def low_def Let_def j)
  show ?thesis
  proof (cases "odd (v div 2 ^ j)")
    case True
    then have r: "v mod 2 ^ k = 2 ^ j + v mod 2 ^ j" unfolding s by (simp add: odd_iff_mod_2_eq_one)
    have "unat (shr_add_one r k mode) + q = round_shift v k mode"
      unfolding rs sh unfolding r unfolding p using True b z c [folded q_def]
      by (cases mode; cases "v mod 2 ^ j = 0") simp_all
    then show ?thesis by (simp add: q_def v_def)
  next
    case False
    then have r: "v mod 2 ^ k = v mod 2 ^ j" unfolding s by (simp add: even_iff_mod_2_eq_zero)
    have "unat (shr_add_one r k mode) + q = round_shift v k mode"
    proof -
      define w where "w = v mod 2 ^ j"
      have "w < 2 ^ j" unfolding w_def by (rule lt)
      then show ?thesis
        unfolding rs sh unfolding r unfolding p w_def [symmetric] using False b by (cases mode) simp_all
    qed
    then show ?thesis by (simp add: q_def v_def)
  qed
qed


lemma shr_add_one_01: "shr_add_one r k mode = 0 \<or> shr_add_one r k mode = 1"
proof -
  have "unat (mpb_get_bit r k) = 0 \<or> unat (mpb_get_bit r k) = 1" unfolding mpb_get_bit_val by linarith
  then have "mpb_get_bit r k = 0 \<or> mpb_get_bit r k = 1" by (simp add: word_unat_eq_iff)
  then show ?thesis unfolding shr_add_one_def Let_def by (simp split: if_split)
qed

lemma mpb_shr_round_val:
  "mp_val (mpb_shr_round r k mode) =
    (if k < 0 then mp_val r * 2 ^ nat (- k) else round_shift (mp_val r) (nat k) mode)"
proof -
  consider "k = 0" | "k < 0" | "0 < k" by linarith
  then show ?thesis
  proof cases
    case 1
    then show ?thesis by (cases mode) (simp_all add: mpb_shr_round_def round_shift_def)
  next
    case 2
    define l m where "l = nat (- k) div 32" and "m = nat (- k) mod 32"
    have p: "(2::nat) ^ nat (- k) = lbase l * 2 ^ m" by (simp add: l_def m_def lbase_power flip: power_add)
    obtain t h where t: "mp_shl r m 0 = (t, h)" by (cases "mp_shl r m 0")
    have tv: "mp_val (t @ [h]) = mp_val r * 2 ^ m"
      using mp_shl_val [OF t] by (simp add: m_def mp_val_append)
    have rep: "mp_val (replicate n 0) = 0" for n by (induction n) auto
    have "mp_val (mpb_shr_round r k mode) = lbase l * (mp_val r * 2 ^ m)"
      using 2 t tv
      by (cases "m = 0") (simp_all add: mpb_shr_round_def Let_def l_def [symmetric] m_def [symmetric]
          mp_val_append rep mpb_renorm_val)
    then show ?thesis using 2 by (simp add: p)
  next
    case 3
    define n l m where "n = nat k" and "l = nat k div 32" and "m = nat k mod 32"
    have n: "0 < n" using 3 by (simp add: n_def)
    have p: "(2::nat) ^ n = lbase l * 2 ^ m" by (simp add: l_def m_def n_def lbase_power flip: power_add)
    have dv: "mp_val r div 2 ^ n = mp_val (drop l r) div 2 ^ m"
      unfolding p div_mult2_eq mp_val_mod(2) ..
    note ao = shr_add_one_val [OF n, of r mode]
    show ?thesis
    proof (cases "l \<ge> length r")
      case True
      then show ?thesis using 3 ao dv
        by (simp add: mpb_shr_round_def Let_def l_def n_def)
    next
      case False
      define r2 where "r2 = (if m \<noteq> 0 then mpb_renorm (fst (mp_shr (drop l r) m 0)) else drop l r)"
      have r2: "mp_val r2 = mp_val r div 2 ^ n"
      proof (cases "m = 0")
        case False
        obtain t h where t: "mp_shr (drop l r) m 0 = (t, h)" by (cases "mp_shr (drop l r) m 0")
        then show ?thesis
          using mp_shr_val(2) [OF t] False by (simp add: r2_def mpb_renorm_val dv m_def)
      qed (use dv in \<open>simp add: r2_def\<close>)
      obtain t a where t: "mp_add_ui r2 1 = (t, a)" by (cases "mp_add_ui r2 1")
      have ta: "mp_val (if a \<noteq> 0 then t @ [a] else t) = mp_val r2 + 1"
        using mp_add_ui_val [OF t] by (auto simp: mp_val_append)
      have one: "unat (shr_add_one r n mode) = (if shr_add_one r n mode \<noteq> 0 then 1 else 0)"
        using shr_add_one_01 [of r n mode] by auto
      have "mpb_shr_round r k mode = (if shr_add_one r n mode \<noteq> 0 then if a \<noteq> 0 then t @ [a] else t else r2)"
      proof -
        have "mpb_shr_round r k mode = (if shr_add_one r n mode \<noteq> 0 then
            (case mp_add_ui r2 1 of (t, a) \<Rightarrow> if a \<noteq> 0 then t @ [a] else t) else r2)"
          unfolding r2_def l_def m_def n_def
          using 3 False [unfolded l_def] by (simp add: mpb_shr_round_def Let_def)
        then show ?thesis by (simp add: t)
      qed
      then show ?thesis using 3 ao one r2 ta by (auto simp: n_def split: if_splits)
    qed
  qed
qed


section \<open>Comparison and conversion\<close>

lemma lbase_mono: "m \<le> n \<Longrightarrow> lbase m \<le> lbase n" by (simp add: lbase_power)

lemma mpb_cmp_loop_val:
  "length a = length b \<Longrightarrow>
    mpb_cmp_loop a b = (if mp_val a < mp_val b then -1 else if mp_val b < mp_val a then 1 else 0)"
proof (induction a b rule: mpb_cmp_loop.induct)
  case (1 x xs y ys)
  have b: "unat x < 2 ^ 32" "unat y < 2 ^ 32" by (rule u32_bound)+
  have gap: "unat x + 2 ^ 32 * m < unat y + 2 ^ 32 * n" if "m < n" for m n
  proof -
    have "2 ^ 32 * (m + 1) \<le> 2 ^ 32 * n" using that by (intro mult_le_mono2) simp
    then show ?thesis using b by simp
  qed
  have gap': "unat y + 2 ^ 32 * m < unat x + 2 ^ 32 * n" if "m < n" for m n
  proof -
    have "2 ^ 32 * (m + 1) \<le> 2 ^ 32 * n" using that by (intro mult_le_mono2) simp
    then show ?thesis using b by simp
  qed
  have IH: "mpb_cmp_loop xs ys = (if mp_val xs < mp_val ys then -1 else if mp_val ys < mp_val xs then 1 else 0)"
    using 1 by simp
  consider "mp_val xs < mp_val ys" | "mp_val ys < mp_val xs" | "mp_val xs = mp_val ys" by linarith
  then show ?case
  proof cases
    case 1
    then show ?thesis using gap [OF 1] IH by (simp add: Let_def)
  next
    case 2
    then show ?thesis using gap' [OF 2] IH by (simp add: Let_def)
  next
    case 3
    then show ?thesis using IH by (auto simp: Let_def word_less_nat_alt word_unat_eq_iff)
  qed
qed auto

lemma lastnz_lower:
  assumes "lastnz xs" "1 < length xs" shows "lbase (length xs - 1) \<le> mp_val xs"
proof -
  have ne: "xs \<noteq> []" using assms by auto
  have v: "mp_val xs = mp_val (butlast xs) + lbase (length xs - 1) * unat (last xs)"
    using mp_val_append [of "butlast xs" "[last xs]"] ne by simp
  have "1 \<le> unat (last xs)" using assms by (simp add: unat_gt_0 Suc_le_eq)
  then have "lbase (length xs - 1) * 1 \<le> lbase (length xs - 1) * unat (last xs)" by (rule mult_le_mono2)
  then show ?thesis unfolding v by linarith
qed

lemma mpb_cmp_val:
  assumes "lastnz a" "lastnz b"
  shows "mpb_cmp a b = (if mp_val a < mp_val b then -1 else if mp_val b < mp_val a then 1 else 0)"
proof -
  have short: "mp_val x < mp_val y" if "length x < length y" "lastnz x" "lastnz y" for x y
  proof -
    have "mp_val x < lbase (length x)" by (rule mp_val_less)
    also have "\<dots> \<le> lbase (length y - 1)" using that by (intro lbase_mono) simp
    also have "\<dots> \<le> mp_val y" using that by (intro lastnz_lower) (auto simp: Suc_less_eq2 neq_Nil_conv)
    finally show ?thesis .
  qed
  show ?thesis
    using short [of a b] short [of b a] assms mpb_cmp_loop_val [of a b]
    by (cases "length a" "length b" rule: linorder_cases) (auto simp: mpb_cmp_def)
qed

lemma mpb_set_u64_val: "mp_val (mpb_set_u64 m) = unat m" "lastnz (mpb_set_u64 m)"
proof -
  have d: "unat m mod 2 ^ 32 + 2 ^ 32 * (unat m div 2 ^ 32) = unat m" by (rule mod_mult_div_eq)
  show "mp_val (mpb_set_u64 m) = unat m"
    using d unfolding mpb_set_u64_def Let_def
    by (simp add: dlimb_parts [of m, simplified] word_unat_eq_iff split: if_split)
  show "lastnz (mpb_set_u64 m)" by (simp add: mpb_set_u64_def Let_def)
qed

lemma mpb_get_u64_val:
  assumes "lastnz r" "mp_val r < 2 ^ 64" shows "unat (mpb_get_u64 r) = mp_val r"
proof -
  have "length r \<le> 2"
  proof (rule ccontr)
    assume l: "\<not> length r \<le> 2"
    then have "lbase 2 \<le> lbase (length r - 1)" by (intro lbase_mono) simp
    also have "\<dots> \<le> mp_val r" using assms l by (intro lastnz_lower) auto
    finally show False using assms(2) by (simp add: lbase_power)
  qed
  then consider x where "r = [x]" | x y where "r = [x, y]"
    using assms(1) by (cases r; cases "tl r") auto
  then show ?thesis
  proof cases
    case (2 x y)
    then show ?thesis using dlimb_pair [of y x] by (simp add: mpb_get_u64_def or.commute)
  qed (simp add: mpb_get_u64_def unat_ucast_up)
qed

lemma mpb_floor_log2_val:
  assumes "lastnz r" "0 < mp_val r"
  shows "0 \<le> mpb_floor_log2 r \<and> 2 ^ nat (mpb_floor_log2 r) \<le> mp_val r \<and>
    mp_val r < 2 ^ (nat (mpb_floor_log2 r) + 1)"
proof -
  define n v where "n = length r - 1" and "v = last r"
  have ne: "r \<noteq> []" using assms by auto
  have v: "r ! (length r - 1) = v" using ne by (simp add: v_def last_conv_nth)
  have val: "mp_val r = mp_val (butlast r) + lbase n * unat v"
    using mp_val_append [of "butlast r" "[last r]"] ne by (simp add: n_def v_def)
  have bl: "mp_val (butlast r) < lbase n" using mp_val_less [of "butlast r"] by (simp add: n_def)
  have nz: "v \<noteq> 0"
  proof
    assume "v = 0"
    with assms have "length r = 1" by (simp add: v_def)
    then have "mp_val r = 0" using val \<open>v = 0\<close> bl by (simp add: n_def)
    with assms(2) show False by simp
  qed
  note c = clz32_bounds [OF nz]
  define e where "e = 31 - clz32 v"
  have f: "mpb_floor_log2 r = int (32 * n + e)"
    unfolding mpb_floor_log2_def Let_def v
    using nz ne c(1) by (simp add: n_def e_def of_nat_diff Suc_leI)
  have e: "2 ^ e \<le> unat v" "unat v < 2 ^ Suc e" using c by (simp_all add: e_def Suc_diff_le [symmetric])
  have "lbase n * 2 ^ e \<le> lbase n * unat v" using e(1) by (rule mult_le_mono2)
  then have "lbase n * 2 ^ e \<le> mp_val r" unfolding val by linarith
  moreover have "mp_val r < lbase n * 2 ^ Suc e"
  proof -
    have "lbase n * (unat v + 1) \<le> lbase n * 2 ^ Suc e" using e by (intro mult_le_mono2) simp
    then show ?thesis using val bl by simp
  qed
  moreover have "nat (mpb_floor_log2 r) = 32 * n + e" "0 \<le> mpb_floor_log2 r" unfolding f by linarith+
  ultimately show ?thesis
    by (simp add: lbase_power power_add mult.commute)
qed

section \<open>Powers\<close>

lemma pow_loop_val: "r = a ^ (unat b div 2 ^ i) \<Longrightarrow> pow_loop a b i r = a ^ unat b"
proof (induction a b i r rule: pow_loop.induct)
  case (2 a b i r)
  have d: "unat b div 2 ^ i = 2 * (unat b div 2 ^ Suc i) + unat b div 2 ^ i mod 2"
    using div_mult2_eq [of "unat b" "2 ^ i" 2] by (simp add: mult.commute)
  have bit: "drop_bit i b AND 1 \<noteq> 0 \<longleftrightarrow> odd (unat b div 2 ^ i)"
    using unat_and_mask [of "drop_bit i b" 1] by (simp add: unat_drop_bit word_unat_eq_iff odd_iff_mod_2_eq_one)
  have "(if drop_bit i b AND 1 \<noteq> 0 then r * r * a else r * r) = a ^ (unat b div 2 ^ i)"
    using d 2(2) bit
    by (cases "odd (unat b div 2 ^ i)")
      (simp_all add: odd_iff_mod_2_eq_one power_add mult_2 mult.commute)
  then show ?case using 2(1) by (simp add: Let_def)
qed simp

lemma pow_ui_loop_val: "pow_ui_loop a b = ucast a ^ unat b"
proof (cases "b = 0 \<or> b = 1")
  case False
  then have b: "b \<noteq> 0" by simp
  note c = clz32_bounds [OF b]
  have "unat b div 2 ^ (31 - clz32 b) = 1"
  proof -
    have "32 - clz32 b = Suc (31 - clz32 b)" using c(1) by simp
    then have "unat b < 2 * 2 ^ (31 - clz32 b)" using c(3) by simp
    then show ?thesis using c(2) by (intro div_nat_eqI) simp_all
  qed
  then have "pow_loop (ucast a) b (31 - clz32 b) (ucast a) = (ucast a :: u64) ^ unat b"
    by (intro pow_loop_val) simp
  then show ?thesis using False c(1) by (simp add: pow_ui_loop_def)
qed (auto simp: pow_ui_loop_def)

lemma small_exponents: "b \<noteq> 0 \<Longrightarrow> b \<le> 17 \<Longrightarrow>
    b \<in> {1,2,3,4,5,6,7,8,9,10,11,12,13,14,15,16,17}" for b :: u32
proof -
  assume "b \<noteq> 0" "b \<le> 17"
  then have "0 < unat b" "unat b \<le> 17" by (simp_all add: unat_gt_0 word_le_nat_alt)
  moreover have "n \<in> {1,2,3,4,5,6,7,8,9,10,11,12,13,14,15,16,17}" if "0 < n" "n \<le> 17" for n :: nat
    using that by (simp add: eval_nat_numeral le_Suc_eq)
  ultimately have "unat b \<in> {1,2,3,4,5,6,7,8,9,10,11,12,13,14,15,16,17}" by blast
  then show ?thesis by (auto simp: word_unat_eq_iff)
qed

lemma pow_ui_table_val:
  assumes "a = 5 \<or> a = 10" "b \<noteq> 0" "b \<le> 17"
  shows "pow_ui_table a b = pow_ui_loop a b"
proof -
  have "\<forall>b \<in> set [1,2,3,4,5,6,7,8,9,10,11,12,13,14,15,16,17].
     pow_ui_table 5 b = pow_ui_loop 5 b \<and> pow_ui_table 10 b = pow_ui_loop 10 b" by code_simp
  then show ?thesis using small_exponents [OF assms(2,3)] assms(1) by auto
qed

lemma pow_ui_val: "pow_ui a b = ucast a ^ unat b"
  using pow_ui_table_val [of a b] pow_ui_loop_val [of a b]
  by (auto simp: pow_ui_def)

text \<open>
  Integer powers modulo 2^64, the same with the tables of powers of 5 (high parts included) and
  with the square and multiply loop, for every base and exponent.
\<close>
theorem pow_ui_power: "pow_ui a b = ucast a ^ unat b"
  by (rule pow_ui_val)

lemma pow_ui_unat: "unat a ^ unat b < 2 ^ 64 \<Longrightarrow> unat (pow_ui a b) = unat a ^ unat b"
proof -
  assume lt: "unat a ^ unat b < 2 ^ 64"
  have "pow_ui a b = of_nat (unat a ^ unat b)"
    unfolding pow_ui_val by (simp add: word_unat_eq_iff unat_ucast_up flip: of_nat_unat [of "ucast a :: u64"])
  then show ?thesis using lt by (simp only: unat_of_nat) simp
qed

lemma pow5_inverses:
  assumes "b \<ge> 1" "b \<le> 13"
  shows "pow5_table ! (unat b - 1) = ucast (pow_ui 5 b)"
    "pow5_inv_table ! (unat b - 1) = udiv1norm_init (push_bit (clz32 (ucast (pow_ui 5 b))) (ucast (pow_ui 5 b)))"
proof -
  have "\<forall>b \<in> set [1,2,3,4,5,6,7,8,9,10,11,12,13].
      pow5_table ! (unat b - 1) = ucast (pow_ui 5 b) \<and>
      pow5_inv_table ! (unat b - 1) = udiv1norm_init (push_bit (clz32 (ucast (pow_ui 5 b))) (ucast (pow_ui 5 b)))"
    by code_simp
  moreover have "b \<in> set [1,2,3,4,5,6,7,8,9,10,11,12,13]"
  proof -
    have "b \<noteq> 0" "b \<le> 17" using assms by (auto simp: word_le_nat_alt)
    from small_exponents [OF this] assms(2) show ?thesis by auto
  qed
  ultimately show "pow5_table ! (unat b - 1) = ucast (pow_ui 5 b)"
    "pow5_inv_table ! (unat b - 1) = udiv1norm_init (push_bit (clz32 (ucast (pow_ui 5 b))) (ucast (pow_ui 5 b)))"
    by blast+
qed

lemma pow_ui_inv_computed:
  "pow_ui_inv a b = (let r = ucast (pow_ui a b) :: u32; shift = clz32 r; r1 = push_bit shift r in
     (r1, udiv1norm_init r1, shift))"
  using pow5_inverses [of b] by (auto simp: pow_ui_inv_def Let_def)

lemma normalised_unat:
  assumes "r \<noteq> 0" shows "unat (push_bit (clz32 r) r) = unat r * 2 ^ clz32 r" "2 ^ 31 \<le> unat (push_bit (clz32 r) r)"
proof -
  note c = clz32_bounds [OF assms]
  have p: "(2::nat) ^ (32 - clz32 r) * 2 ^ clz32 r = 2 ^ 32" "(2::nat) ^ (31 - clz32 r) * 2 ^ clz32 r = 2 ^ 31"
    using c(1) by (simp_all flip: power_add)
  have "unat r * 2 ^ clz32 r < 2 ^ (32 - clz32 r) * 2 ^ clz32 r" using c(3) by simp
  then show e: "unat (push_bit (clz32 r) r) = unat r * 2 ^ clz32 r"
    unfolding p by (intro unat_push_bit) simp
  have "2 ^ (31 - clz32 r) * 2 ^ clz32 r \<le> unat r * 2 ^ clz32 r" using c(2) by (rule mult_le_mono1)
  then show "2 ^ 31 \<le> unat (push_bit (clz32 r) r)" unfolding e p .
qed

lemma pow_ui_inv_val:
  assumes "pow_ui_inv a b = (d, d_inv, k)" "0 < unat a ^ unat b" "unat a ^ unat b < 2 ^ 32"
  shows "d_inv = udiv1norm_init d \<and> unat d = unat a ^ unat b * 2 ^ k \<and> 2 ^ 31 \<le> unat d \<and> k < 32"
proof -
  define r :: u32 where "r = ucast (pow_ui a b)"
  have r: "unat r = unat a ^ unat b"
    using assms(3) pow_ui_unat [of a b] by (simp add: r_def dlimb_parts [simplified])
  then have nz: "r \<noteq> 0" using assms(2) by (metis unat_0 less_irrefl)
  have "d = push_bit (clz32 r) r" "d_inv = udiv1norm_init d" "k = clz32 r"
    using assms(1) unfolding pow_ui_inv_computed Let_def r_def by auto
  then show ?thesis using normalised_unat [OF nz] clz32_bounds(1) [OF nz] r by simp
qed

text \<open>
  Dividing a number by a power of the radix with the normalised power, its precomputed inverse
  and the shift gives the quotient and the remainder; the inverses of the table are the right ones.
  The estimate of each quotient limb is off by at most one and is corrected.
\<close>
theorem div_by_power:
  assumes "0 < unat a ^ unat b" "unat a ^ unat b < 2 ^ 32"
    "pow_ui_inv a b = (d, d_inv, k)" "mp_div1norm tab d 0 d_inv k = (qs, r)"
  shows "length qs = length tab \<and> mp_val qs = mp_val tab div unat a ^ unat b \<and>
    unat r = mp_val tab mod unat a ^ unat b"
proof -
  note v = pow_ui_inv_val [OF assms(3,1,2)]
  have "mp_div1norm tab d 0 (udiv1norm_init d) k = (qs, r)" using assms(4) v by simp
  from mp_div1norm_val [OF this] show ?thesis using v by simp
qed

theorem div_by_power_witness:
  "mp_val (fst (mp_div1norm [7, 1] 0xc8000000 0 0x47ae147a 27)) = mp_val [7, 1] div 25"
proof -
  have "pow_ui_inv 5 2 = (0xc8000000, 0x47ae147a, 27)" by code_simp
  from div_by_power [OF _ _ this, of "[7, 1]"] show ?thesis
    by (cases "mp_div1norm [7, 1] 0xc8000000 0 0x47ae147a 27") simp
qed

text \<open>
  The shift with rounding computes the power of two multiple for a negative shift and else the
  quotient by 2^shift rounded as the mode says, ties to even or away from zero, whatever the
  number of limbs.
\<close>
theorem mpb_shr_round_correct:
  "mp_val (mpb_shr_round r k mode) =
    (if k < 0 then mp_val r * 2 ^ nat (- k) else round_shift (mp_val r) (nat k) mode)"
  by (rule mpb_shr_round_val)

end
