(* ===== verification/DtoaInt.thy ===== *)
theory DtoaInt imports Mp begin

text \<open>
  Printing of integers (\<open>native/mquickjs/dtoa.c\<close>): fixed width digit loops, the fast decimal routines
  that split a 64 bit number in groups of nine digits, and the general radix. Each routine returns
  the bytes it stores. The reference is \<open>digits\<close>, the digits of a natural number, most significant
  first, and \<open>digits_val\<close> reads them back.
\<close>

unbundle bit_operations_syntax

section \<open>The code\<close>

definition JS_RADIX_MAX :: nat where "JS_RADIX_MAX = 36"

fun u32toa_len :: "u32 \<Rightarrow> nat \<Rightarrow> u8 list" where
  "u32toa_len n 0 = []"
| "u32toa_len n (Suc len) = u32toa_len (n div 10) len @ [ucast (n mod 10) + 0x30]"

definition digit_char :: "u64 \<Rightarrow> u8" where
  "digit_char digit = (if digit < 10 then ucast digit + 0x30 else ucast digit + (0x61 - 10))"

fun u64toa_bin_len :: "u64 \<Rightarrow> nat \<Rightarrow> nat \<Rightarrow> u8 list" where
  "u64toa_bin_len n radix_bits 0 = []"
| "u64toa_bin_len n radix_bits (Suc len) =
     u64toa_bin_len (drop_bit radix_bits n) radix_bits len @ [digit_char (n AND (push_bit radix_bits 1 - 1))]"

fun limb_to_a_loop :: "u32 \<Rightarrow> u32 \<Rightarrow> nat \<Rightarrow> u8 list" where
  "limb_to_a_loop n radix 0 = []"
| "limb_to_a_loop n radix (Suc len) =
     limb_to_a_loop (n div radix) radix len @ [digit_char (ucast (n mod radix))]"

definition limb_to_a :: "u32 \<Rightarrow> u32 \<Rightarrow> nat \<Rightarrow> u8 list" where
  "limb_to_a n radix len = (if radix = 10 then u32toa_len n len else limb_to_a_loop n radix len)"

lemma word_div_less: "n div r \<noteq> 0 \<Longrightarrow> 1 < unat r \<Longrightarrow> unat (n div r) < unat n" for n r :: "'a::len word"
  by (metis div_less_dividend unat_div_distrib unat_eq_zero div_0 neq0_conv)

text \<open>The \<open>do\<close> loops; with a radix below 2 they would not end, which no caller asks for.\<close>

function u32toa :: "u32 \<Rightarrow> u8 list" where
  "u32toa n = (if n div 10 = 0 then [ucast (n mod 10) + 0x30]
               else u32toa (n div 10) @ [ucast (n mod 10) + 0x30])"
  by pat_completeness auto
termination
  by (relation "measure unat") (auto intro!: word_div_less)

definition i32toa :: "s32 \<Rightarrow> u8 list" where
  "i32toa n = (if 0 \<le> sint n then u32toa n else 0x2d # u32toa (- n))"

definition u64toa :: "u64 \<Rightarrow> u8 list" where
  "u64toa n =
     (if n < 0x100000000 then u32toa (ucast n)
      else
        let n1 = n div 1000000000; n0 = n mod 1000000000 in
        (if n1 \<ge> 0x100000000 then
           let n2 = ucast (n1 div 1000000000) :: u32; n1 = n1 mod 1000000000 in
           (if n2 \<ge> 10 then [ucast (n2 div 10) + 0x30, ucast (n2 mod 10) + 0x30] else [ucast n2 + 0x30]) @
           u32toa_len (ucast n1) 9
         else u32toa (ucast n1)) @ u32toa_len (ucast n0) 9)"

definition i64toa :: "s64 \<Rightarrow> u8 list" where
  "i64toa n = (if 0 \<le> sint n then u64toa n else 0x2d # u64toa (- n))"

function u64toa_loop :: "u64 \<Rightarrow> u64 \<Rightarrow> u8 list" where
  "u64toa_loop n radix =
     (if radix \<le> 1 \<or> n div radix = 0 then [digit_char (n mod radix)]
      else u64toa_loop (n div radix) radix @ [digit_char (n mod radix)])"
  by pat_completeness auto
termination
  by (relation "measure (unat \<circ> fst)") (auto intro!: word_div_less simp: word_le_nat_alt)

declare u32toa.simps [simp del] u64toa_loop.simps [simp del]

definition u64toa_radix :: "u64 \<Rightarrow> u32 \<Rightarrow> u8 list" where
  "u64toa_radix n radix =
     (if radix = 10 then u64toa n
      else if radix AND (radix - 1) = 0 then
        let radix_bits = 31 - clz32 radix;
            l = (if n = 0 then 1 else (64 - clz64 n + radix_bits - 1) div radix_bits) in
        u64toa_bin_len n radix_bits l
      else u64toa_loop n (ucast radix))"

definition i64toa_radix :: "s64 \<Rightarrow> u32 \<Rightarrow> u8 list" where
  "i64toa_radix n radix = (if 0 \<le> sint n then u64toa_radix n radix else 0x2d # u64toa_radix (- n) radix)"

section \<open>Digits\<close>

function digits :: "nat \<Rightarrow> nat \<Rightarrow> nat list" where
  "digits r n = (if n < r \<or> r \<le> 1 then [n] else digits r (n div r) @ [n mod r])"
  by pat_completeness auto
termination
  by (relation "measure snd") auto

declare digits.simps [simp del]

text \<open>With a fixed number of digits, leading zeros included.\<close>

fun wdigits :: "nat \<Rightarrow> nat \<Rightarrow> nat \<Rightarrow> nat list" where
  "wdigits r n 0 = []"
| "wdigits r n (Suc len) = wdigits r (n div r) len @ [n mod r]"

definition digit :: "nat \<Rightarrow> u8" where
  "digit d = digit_char (of_nat d)"

lemma digits_append:
  assumes "1 < r" "0 < a" "b < r ^ k"
  shows "digits r (a * r ^ k + b) = digits r a @ wdigits r b k"
  using assms(3)
proof (induction k arbitrary: b)
  case (Suc k)
  have "r \<le> a * r ^ Suc k + b"
  proof -
    have "1 \<le> a * r ^ k" using assms(1,2) by (simp add: Suc_le_eq)
    then have "1 * r \<le> a * r ^ k * r" by (rule mult_le_mono1)
    then have "r \<le> a * r ^ Suc k" by (simp only: power_Suc mult_1 ac_simps)
    then show ?thesis by linarith
  qed
  moreover have e: "a * r ^ Suc k + b = b + a * r ^ k * r" by (simp add: ac_simps)
  have "(a * r ^ Suc k + b) div r = a * r ^ k + b div r" unfolding e using assms(1) by simp
  moreover have "(a * r ^ Suc k + b) mod r = b mod r" unfolding e by simp
  moreover have "b div r < r ^ k" using Suc.prems by (simp add: less_mult_imp_div_less mult.commute)
  ultimately show ?case using assms(1) Suc.IH [of "b div r"] by (subst digits.simps) simp
qed simp

lemma wdigits_digits:
  assumes "1 < r" "r ^ k \<le> n \<or> k = 0" "n < r ^ Suc k"
  shows "wdigits r n (Suc k) = digits r n"
  using assms(2,3)
proof (induction k arbitrary: n)
  case 0
  then show ?case by (subst digits.simps) simp
next
  case (Suc k)
  have "r ^ k \<le> n div r" using Suc.prems(1) assms(1) by (simp add: less_eq_div_iff_mult_less_eq mult.commute)
  moreover have "n div r < r ^ Suc k" using Suc.prems(2) by (simp add: less_mult_imp_div_less mult.commute)
  moreover have "\<not> n < r"
  proof -
    have "1 \<le> r ^ k" using assms(1) by (simp add: Suc_le_eq)
    then have "1 * r \<le> r ^ k * r" by (rule mult_le_mono1)
    then have "r \<le> r ^ Suc k" by (simp only: power_Suc mult_1 ac_simps)
    then show ?thesis using Suc.prems(1) by linarith
  qed
  ultimately show ?case using Suc.IH [of "n div r"] assms(1) by (subst digits.simps) simp
qed

lemma digit_decimal: "d < 10 \<Longrightarrow> digit d = of_nat d + 0x30"
proof -
  assume d: "d < 10"
  then have "(of_nat d :: u64) < 10" by (simp add: word_less_nat_alt unat_of_nat)
  then show ?thesis using d
    by (simp add: digit_def digit_char_def word_unat_eq_iff unat_word_ariths unat_ucast_mod unat_of_nat)
qed

lemma digit_u32: "ucast (n mod 10) + 0x30 = digit (unat n mod 10)" for n :: u32
  using digit_decimal [of "unat n mod 10"] 
  by (simp add: word_unat_eq_iff unat_word_ariths unat_ucast_mod unat_of_nat)

lemma u32toa_len_digits: "u32toa_len n len = map digit (wdigits 10 (unat n) len)"
  by (induction n len rule: u32toa_len.induct) (simp_all add: digit_u32 unat_div_distrib)

lemma u32toa_digits: "u32toa n = map digit (digits 10 (unat n))"
proof (induction n rule: u32toa.induct)
  case (1 n)
  have "n div 10 = 0 \<longleftrightarrow> unat n < 10" by (simp add: word_unat_eq_iff unat_div_distrib div_eq_0_iff)
  then show ?case using 1
    by (subst u32toa.simps, subst digits.simps) (auto simp: digit_u32 unat_div_distrib)
qed


lemma ucast_digits: "unat (ucast n :: u32) = unat n" if "unat n < 2 ^ 32" for n :: u64
  using that by (simp add: dlimb_parts [simplified])

lemma u64toa_digits: "u64toa n = map digit (digits 10 (unat n))"
proof (cases "n < 0x100000000")
  case True
  then show ?thesis by (simp add: u64toa_def u32toa_digits ucast_digits word_less_nat_alt)
next
  case False
  define a b where "a = unat n div 10 ^ 9" and "b = unat n mod 10 ^ 9"
  have n: "unat n = a * 10 ^ 9 + b" by (simp add: a_def b_def)
  have big: "2 ^ 32 \<le> unat n" using False by (simp add: word_less_nat_alt)
  have a0: "0 < a" "b < 10 ^ 9" "a < 18446744074"
    using big u64_bound [of n] by (simp_all add: a_def b_def div_greater_zero_iff less_mult_imp_div_less)
  have u: "unat (n div 1000000000) = a" "unat (n mod 1000000000) = b"
    by (simp_all add: a_def b_def unat_div_distrib unat_mod_distrib)
  have lo: "u32toa_len (ucast (n mod 1000000000)) 9 = map digit (wdigits 10 b 9)"
    using a0 u by (simp add: u32toa_len_digits ucast_digits)
  show ?thesis
  proof (cases "n div 1000000000 \<ge> 0x100000000")
    case False
    then have "a < 2 ^ 32" using u by (simp add: word_le_nat_alt)
    then show ?thesis
      using \<open>\<not> n < 0x100000000\<close> False lo digits_append [of 10 a b 9] a0 u
      by (simp add: u64toa_def Let_def u32toa_digits ucast_digits n)
  next
    case True
    define c e where "c = a div 10 ^ 9" and "e = a mod 10 ^ 9"
    have a: "a = c * 10 ^ 9 + e" by (simp add: c_def e_def)
    have "2 ^ 32 \<le> a" using True u by (simp add: word_le_nat_alt)
    then have c: "0 < c" "c < 19" "e < 10 ^ 9"
      using a0 by (simp_all add: c_def e_def div_greater_zero_iff less_mult_imp_div_less)
    have uc: "unat (n div 1000000000 div 1000000000) = c" "unat (n div 1000000000 mod 1000000000) = e"
      using u by (simp_all add: c_def e_def unat_div_distrib unat_mod_distrib)
    have mid: "u32toa_len (ucast (n div 1000000000 mod 1000000000)) 9 = map digit (wdigits 10 e 9)"
      using c uc by (simp add: u32toa_len_digits ucast_digits)
    define n2 where "n2 = (ucast (n div 1000000000 div 1000000000) :: u32)"
    have n2: "unat n2 = c" using uc c by (simp add: n2_def ucast_digits)
    have hi: "(if n2 \<ge> 10 then [ucast (n2 div 10) + 0x30, ucast (n2 mod 10) + 0x30] else [ucast n2 + 0x30])
      = map digit (digits 10 c)"
    proof (cases "n2 \<ge> 10")
      case True
      then have c10: "10 \<le> c" using n2 by (simp add: word_le_nat_alt)
      have "(ucast (n2 div 10) :: u8) + 0x30 = digit (c div 10)"
        using digit_u32 [of "n2 div 10"] c n2 by (simp add: word_unat_eq_iff unat_div_distrib mod_word_less word_less_nat_alt)
      moreover have "digits 10 c = [c div 10, c mod 10]"
      proof -
        have "digits 10 (c div 10) = [c div 10]"
        proof -
          have "c div 10 < 10" using c(2) by presburger
          then show ?thesis by (subst digits.simps) simp
        qed
        then show ?thesis using c10 by (subst digits.simps) simp
      qed
      ultimately show ?thesis using True digit_u32 [of n2] n2 by simp
    next
      case False
      then have c10: "c < 10" using n2 by (simp add: word_le_nat_alt)
      have "n2 mod 10 = n2" using False by (simp add: mod_word_less not_le)
      then show ?thesis using False digit_u32 [of n2] n2 c10 by (simp add: digits.simps)
    qed
    show ?thesis
      using \<open>\<not> n < 0x100000000\<close> True lo mid hi digits_append [of 10 c e 9] digits_append [of 10 a b 9] a0 c
      by (simp add: u64toa_def Let_def n2_def [symmetric] n a)
  qed
qed


lemma digit_u64: "unat radix \<le> 36 \<Longrightarrow> digit_char (n mod radix) = digit (unat n mod unat radix)" for n :: u64
  by (simp add: digit_def flip: unat_mod_distrib)

lemma digit_of_unat: "digit (unat w) = digit_char w"
  by (simp add: digit_def)

lemma u64toa_bin_len_digits:
  "0 < rb \<Longrightarrow> rb < 64 \<Longrightarrow> u64toa_bin_len n rb len = map digit (wdigits (2 ^ rb) (unat n) len)"
proof (induction n rb len rule: u64toa_bin_len.induct)
  case (2 n rb len)
  have "(push_bit rb 1 - 1 :: u64) = mask rb" by (simp add: mask_eq_exp_minus_1 push_bit_eq_mult)
  then have "unat (n AND (push_bit rb 1 - 1)) = unat n mod 2 ^ rb" by (simp add: unat_and_mask)
  then have "digit_char (n AND (push_bit rb 1 - 1)) = digit (unat n mod 2 ^ rb)"
    by (metis digit_of_unat)
  then show ?case using 2 by (simp add: unat_drop_bit)
qed simp

lemma u64toa_loop_digits: "1 < unat radix \<Longrightarrow> u64toa_loop n radix = map digit (digits (unat radix) (unat n))"
proof (induction n radix rule: u64toa_loop.induct)
  case (1 n radix)
  have z: "n div radix = 0 \<longleftrightarrow> unat n < unat radix"
    using 1(2) by (simp add: word_unat_eq_iff unat_div_distrib div_eq_0_iff)
  have d: "digit_char (n mod radix) = digit (unat n mod unat radix)"
    by (simp add: digit_def flip: unat_mod_distrib)
  have r: "\<not> radix \<le> 1" using 1(2) by (simp add: word_le_nat_alt)
  show ?case using 1 z r
    by (subst u64toa_loop.simps, subst digits.simps) (auto simp: d unat_div_distrib)
qed

text \<open>A power of two radix: the shift and the number of digits the code computes.\<close>

lemma radix_power_of_two:
  assumes "r AND (r - 1) = 0" "r \<noteq> 0" shows "unat r = 2 ^ (31 - clz32 r)"
proof -
  note c = clz32_bounds [OF assms(2)]
  define k where "k = 31 - clz32 r"
  have k: "2 ^ k \<le> unat r" "unat r < 2 ^ Suc k" "k < 32" using c by (simp_all add: k_def Suc_diff_le [symmetric])
  have "unat r = 2 ^ k"
  proof (rule ccontr)
    assume "unat r \<noteq> 2 ^ k"
    then have lt: "2 ^ k < unat r" using k by simp
    have m: "unat (r - 1) = unat r - 1" using assms(2) by (simp add: unat_sub word_le_nat_alt Suc_le_eq unat_gt_0)
    have b: "bit w k" if "2 ^ k \<le> unat w" "unat w < 2 ^ Suc k" for w :: u32
    proof -
      have "unat w div 2 ^ k = 1" using that by (intro div_nat_eqI) simp_all
      then have "odd (unat w div 2 ^ k)" by simp
      then show ?thesis by (simp only: bit_iff_odd [symmetric]) (simp add: bit_unsigned_iff)
    qed
    have "bit r k" "bit (r - 1) k" using b [of r] b [of "r - 1"] k lt m by simp_all
    then have "bit (r AND (r - 1)) k" by (simp add: bit_simps)
    then show False using assms(1) by simp
  qed
  then show ?thesis by (simp add: k_def)
qed


lemma bin_digits_count:
  assumes "n \<noteq> 0" "0 < rb" "rb < 64"
  shows "wdigits (2 ^ rb) (unat n) ((64 - clz64 n + rb - 1) div rb) = digits (2 ^ rb) (unat n)"
proof -
  note c = clz64_bounds [OF assms(1)]
  define b where "b = 64 - clz64 n"
  have b: "0 < b" "2 ^ (b - 1) \<le> unat n" "unat n < 2 ^ b"
    using c by (simp_all add: b_def)
  define l where "l = (b + rb - 1) div rb"
  have l1: "rb * l \<le> b + rb - 1" by (simp add: l_def)
  have l2: "b + rb - 1 < rb * l + rb"
    using dividend_less_div_times [OF assms(2), of "b + rb - 1"] by (simp add: l_def mult.commute)
  have l: "0 < l" using b(1) assms(2) by (simp add: l_def div_greater_zero_iff)
  then obtain k where k: "l = Suc k" by (cases l) auto
  have "rb * k \<le> b - 1" using l1 k by simp
  then have "(2::nat) ^ (rb * k) \<le> 2 ^ (b - 1)" by (intro power_increasing) auto
  then have lo: "(2 ^ rb) ^ k \<le> unat n" using b(2) by (simp add: power_mult)
  have "b \<le> rb * l" using l2 b(1) by simp
  then have "(2::nat) ^ b \<le> 2 ^ (rb * l)" by (intro power_increasing) auto
  then have "unat n < 2 ^ (rb * l)" by (rule less_le_trans [OF b(3)])
  then have hi: "unat n < (2 ^ rb) ^ Suc k" by (simp only: power_mult k)
  have "1 < (2::nat) ^ rb" by (rule one_less_power) (use assms(2) in simp_all)
  from wdigits_digits [OF this disjI1 [OF lo] hi] show ?thesis
    unfolding b_def [symmetric] l_def [symmetric] k .
qed

lemma u64toa_radix_digits:
  assumes "2 \<le> radix" "radix \<le> 36"
  shows "u64toa_radix n radix = map digit (digits (unat radix) (unat n))"
proof -
  have r: "2 \<le> unat radix" "unat radix \<le> 36" using assms by (simp_all add: word_le_nat_alt)
  have nz: "radix \<noteq> 0" using r by auto
  consider "radix = 10" | "radix \<noteq> 10" "radix AND (radix - 1) = 0" | "radix \<noteq> 10" "radix AND (radix - 1) \<noteq> 0" by blast
  then show ?thesis
  proof cases
    case 1
    then show ?thesis by (simp add: u64toa_radix_def u64toa_digits)
  next
    case 2
    define rb where "rb = 31 - clz32 radix"
    have u: "unat radix = 2 ^ rb" unfolding rb_def by (rule radix_power_of_two [OF 2(2) nz])
    have rb: "0 < rb" "rb < 64" using r u by (auto simp: rb_def [symmetric] intro!: gr0I) (simp add: rb_def)
    have "u64toa_radix n radix = map digit (wdigits (2 ^ rb) (unat n)
        (if n = 0 then 1 else (64 - clz64 n + rb - 1) div rb))"
      using 2 u64toa_bin_len_digits [OF rb] by (simp add: u64toa_radix_def Let_def rb_def)
    then show ?thesis
    proof (cases "n = 0")
      case True
      have "digits (2 ^ rb) 0 = [0]" by (subst digits.simps) simp
      then show ?thesis using \<open>u64toa_radix n radix = _\<close> True u by simp
    next
      case False
      then show ?thesis using \<open>u64toa_radix n radix = _\<close> bin_digits_count [OF False rb] u by simp
    qed
  next
    case 3
    have "unat (ucast radix :: u64) = unat radix" by (simp add: unat_ucast_up)
    then show ?thesis using 3 r u64toa_loop_digits [of "ucast radix" n] by (simp add: u64toa_radix_def)
  qed
qed

text \<open>
  C32: for every radix the printer of 64 bit numbers gives the digits of the number, most significant
  first and without leading zeros: the decimal fast path that splits the number in groups of nine
  digits, the shift path of power of two radixes and the general division loop agree.
\<close>
theorem u64toa_radix_correct:
  assumes "2 \<le> radix" "radix \<le> 36"
  shows "u64toa_radix n radix = map digit (digits (unat radix) (unat n))"
  by (rule u64toa_radix_digits [OF assms])

theorem u64toa_radix_correct_witness:
  "u64toa_radix 0xffffffffffffffff 10 = map digit (digits (unat (10::u32)) (unat (0xffffffffffffffff :: u64)))"
  by (rule u64toa_radix_correct) simp_all

end
