(* ===== verification/Dtoa.thy ===== *)
theory Dtoa imports DtoaInt Float64 begin

text \<open>
  Conversion between doubles and text (\<open>native/mquickjs/dtoa.c\<close>): \<open>js_dtoa\<close> with its free, fixed and
  fraction formats and \<open>js_atod\<close> with its prefixes, separators and exponents, over the limb
  arithmetic of \<open>Mp\<close>. Text is a list of bytes; reading past its end sees the terminating zero.
  Exponents are 32 bit integers that wrap as they do on the machine. Loops whose end the code only
  argues for are \<open>option\<close> valued: \<open>None\<close> is a loop that does not end or a failed assertion.
\<close>

unbundle bit_operations_syntax

section \<open>Tables\<close>

definition mul_log2_radix_table :: "nat list" where
  "mul_log2_radix_table = [
    0x000000, 0xa1849d, 0x000000, 0x6e40d2,
    0x6308c9, 0x5b3065, 0x000000, 0x50c24e,
    0x4d104d, 0x4a0027, 0x4768ce, 0x452e54,
    0x433d00, 0x418677, 0x000000, 0x3ea16b,
    0x3d645a, 0x3c43c2, 0x3b3b9a, 0x3a4899,
    0x39680b, 0x3897b3, 0x37d5af, 0x372069,
    0x367686, 0x35d6df, 0x354072, 0x34b261,
    0x342bea, 0x33ac62, 0x000000, 0x32bfd9,
    0x3251dd, 0x31e8d6, 0x318465]"

definition digits_per_limb_table :: "nat list" where
  "digits_per_limb_table =
    [32,20,16,13,12,11,10,10, 9, 9, 8, 8, 8, 8, 8, 7, 7, 7, 7, 7, 7, 7, 6, 6, 6, 6, 6, 6, 6, 6, 6, 6, 6, 6, 6]"

definition radix_base_table :: "u32 list" where
  "radix_base_table = [
    0x00000000, 0xcfd41b91, 0x00000000, 0x48c27395,
    0x81bf1000, 0x75db9c97, 0x40000000, 0xcfd41b91,
    0x3b9aca00, 0x8c8b6d2b, 0x19a10000, 0x309f1021,
    0x57f6c100, 0x98c29b81, 0x00000000, 0x18754571,
    0x247dbc80, 0x3547667b, 0x4c4b4000, 0x6b5a6e1d,
    0x94ace180, 0xcaf18367, 0x0b640000, 0x0e8d4a51,
    0x1269ae40, 0x17179149, 0x1cb91000, 0x23744899,
    0x2b73a840, 0x34e63b41, 0x40000000, 0x4cfa3cc1,
    0x5c13d840, 0x6d91b519, 0x81bf1000]"

definition dtoa_max_digits_table :: "nat list" where
  "dtoa_max_digits_table =
    [54, 35, 28, 24, 22, 20, 19, 18, 17, 17, 16, 16, 15, 15, 15, 14, 14, 14, 14, 14, 13, 13, 13, 13, 13, 13, 13,
     12, 12, 12, 12, 12, 12, 12, 12]"

definition atod_max_digits_table :: "nat list" where
  "atod_max_digits_table =
    [64, 80, 32, 55, 49, 45, 21, 40, 38, 37, 35, 34, 33, 32, 16, 31, 30, 30, 29, 29, 28, 28, 27, 27, 27, 26, 26,
     26, 26, 25, 12, 25, 25, 24, 24]"

definition max_exponent :: "int list" where
  "max_exponent =
    [1024, 647, 512, 442, 397, 365, 342, 324,
     309, 297, 286, 277, 269, 263, 256, 251,
     246, 242, 237, 234, 230, 227, 224, 221,
     218, 216, 214, 211, 209, 207, 205, 203,
     202, 200, 199]"

definition min_exponent :: "int list" where
  "min_exponent =
    [-1075, -679, -538, -463, -416, -383, -359, -340,
     -324, -311, -300, -291, -283, -276, -269, -263,
     -258, -254, -249, -245, -242, -238, -235, -232,
     -229, -227, -224, -222, -220, -217, -215, -214,
     -212, -210, -208]"

section \<open>Scaling by powers of the radix\<close>

definition radix_is_power_of_2 :: "nat \<Rightarrow> bool" where
  "radix_is_power_of_2 radix \<longleftrightarrow> radix AND (radix - 1) = 0"

text \<open>\<open>a / radix_bits\<close> truncates; the shift of a negative product rounds down.\<close>

definition mul_log2_radix :: "int \<Rightarrow> nat \<Rightarrow> int" where
  "mul_log2_radix a radix =
     (if radix_is_power_of_2 radix then
        let radix_bits = 31 - int (clz32 (of_nat radix));
            a1 = (if a < 0 then a - (radix_bits - 1) else a) in
        (if a1 < 0 then - (- a1 div radix_bits) else a1 div radix_bits)
      else a * int (mul_log2_radix_table ! (radix - 2)) div 2 ^ 24)"

text \<open>The digit counts per limb are positive for every radix, which is what ends the loops.\<close>

function mul_pow_up :: "limb list \<Rightarrow> u32 \<Rightarrow> nat \<Rightarrow> nat \<Rightarrow> limb list" where
  "mul_pow_up a radix1 d f =
     (if f = 0 \<or> d = 0 then a
      else let n = min f d; (r, h) = mp_mul1 a (ucast (pow_ui radix1 (of_nat n))) 0 in
        mul_pow_up (if h \<noteq> 0 then r @ [h] else r) radix1 d (f - n))"
  by pat_completeness auto
termination by (relation "measure (\<lambda>(a, radix1, d, f). f)") auto

function mul_pow_down :: "limb list \<Rightarrow> u32 \<Rightarrow> nat \<Rightarrow> nat \<Rightarrow> limb \<Rightarrow> limb list \<times> limb" where
  "mul_pow_down a radix1 d f rem =
     (if f = 0 \<or> d = 0 then (a, rem)
      else let n = min f d; (b, b_inv, shift) = pow_ui_inv radix1 (of_nat n);
               (q, r) = mp_div1norm a b 0 b_inv shift in
        mul_pow_down (mpb_renorm q) radix1 d (f - n) (rem OR r))"
  by pat_completeness auto
termination by (relation "measure (\<lambda>(a, radix1, d, f, rem). f)") auto

declare mul_pow_up.simps [simp del] mul_pow_down.simps [simp del]

text \<open>The scaled number and \<open>e_offset\<close>.\<close>

definition mul_pow :: "limb list \<Rightarrow> u32 \<Rightarrow> nat \<Rightarrow> int \<Rightarrow> bool \<Rightarrow> int \<Rightarrow> limb list \<times> int" where
  "mul_pow a radix1 radix_shift f is_int e =
     (let e_offset = - f * int radix_shift in
      if radix1 = 1 then (a, e_offset)
      else let d = digits_per_limb_table ! (unat radix1 - 2) in
        if f \<ge> 0 then (mul_pow_up a radix1 d (nat f), e_offset)
        else
          let f1 = nat (- f); l = (f1 + d - 1) div d; e_offset1 = e_offset + int l * 32;
              extra_bits = (if \<not> is_int then max (e - mpb_floor_log2 a) 0 else max (2 + e - e_offset1) 0);
              a1 = mpb_shr_round a (- (int l * 32 + extra_bits)) JS_RNDZ;
              (a2, rem) = mul_pow_down a1 radix1 d f1 0 in
          (a2[0 := a2 ! 0 OR of_bool (rem \<noteq> 0)], e_offset1 + extra_bits))"

definition mul_pow_round :: "u64 \<Rightarrow> int \<Rightarrow> u32 \<Rightarrow> nat \<Rightarrow> int \<Rightarrow> rnd_mode \<Rightarrow> limb list" where
  "mul_pow_round m e radix1 radix_shift f mode =
     (let (tmp1, e_offset) = mul_pow (mpb_set_u64 m) radix1 radix_shift f True e in
      mpb_shr_round tmp1 (- e + e_offset) mode)"

text \<open>The mantissa and the exponent.\<close>

definition round_to_d :: "limb list \<Rightarrow> int \<Rightarrow> rnd_mode \<Rightarrow> u64 \<times> int" where
  "round_to_d a e_offset mode =
     (if a ! 0 = 0 \<and> length a = 1 then (0, 0)
      else
        let e = mpb_floor_log2 a + 1 - e_offset;
            prec = (if e < -1021 then 53 - (-1021 - e) else 53);
            m = push_bit (nat (53 - prec)) (mpb_get_u64 (mpb_shr_round a (e + e_offset - prec) mode)) in
        if m \<ge> push_bit 53 1 then (drop_bit 1 m, e + 1) else (m, e))"

definition mul_pow_round_to_d :: "limb list \<Rightarrow> u32 \<Rightarrow> nat \<Rightarrow> int \<Rightarrow> rnd_mode \<Rightarrow> u64 \<times> int" where
  "mul_pow_round_to_d a radix1 radix_shift f mode =
     (let (a1, e_offset) = mul_pow a radix1 radix_shift f False 55 in round_to_d a1 e_offset mode)"

section \<open>Printing\<close>

text \<open>The digits, written from the last group to the first.\<close>

function output_bin :: "limb list \<Rightarrow> nat \<Rightarrow> nat \<Rightarrow> nat \<Rightarrow> u8 list \<Rightarrow> u8 list" where
  "output_bin a radix_bits dpl n_digits buf =
     (let n = min n_digits dpl; rest = n_digits - n;
          buf1 = u64toa_bin_len (ucast (a ! 0)) radix_bits n @ buf in
      if rest = 0 \<or> dpl = 0 then buf1
      else output_bin (mpb_shr_round a (int (dpl * radix_bits)) JS_RNDZ) radix_bits dpl rest buf1)"
  by pat_completeness auto
termination by (relation "measure (\<lambda>(a, rb, dpl, n, buf). n)") (auto simp: Let_def)

function output_div :: "limb list \<Rightarrow> u32 \<Rightarrow> limb \<Rightarrow> nat \<Rightarrow> nat \<Rightarrow> u8 list \<Rightarrow> u8 list" where
  "output_div a radix radix_base dpl n_digits buf =
     (if n_digits = 0 \<or> dpl = 0 then buf
      else let n = min n_digits dpl; (q, r) = mp_div1 a radix_base 0 in
        output_div (mpb_renorm q) radix radix_base dpl (n_digits - n) (limb_to_a r radix n @ buf))"
  by pat_completeness auto
termination by (relation "measure (\<lambda>(a, radix, base, dpl, n, buf). n)") auto

declare output_bin.simps [simp del] output_div.simps [simp del]

definition output_digits :: "limb list \<Rightarrow> nat \<Rightarrow> nat \<Rightarrow> nat \<Rightarrow> u8 list" where
  "output_digits a radix n_digits1 dot_pos =
     (let dpl = digits_per_limb_table ! (radix - 2);
          buf = (if radix_is_power_of_2 radix
                 then output_bin a (31 - clz32 (of_nat radix)) dpl n_digits1 []
                 else output_div a (of_nat radix) (radix_base_table ! (radix - 2)) dpl n_digits1 []) in
      if dot_pos \<noteq> n_digits1 then take dot_pos buf @ [0x2e] @ drop dot_pos buf else buf)"

definition JS_DTOA_FORMAT_FREE :: u32 where "JS_DTOA_FORMAT_FREE = 0"
definition JS_DTOA_FORMAT_FIXED :: u32 where "JS_DTOA_FORMAT_FIXED = 1"
definition JS_DTOA_FORMAT_FRAC :: u32 where "JS_DTOA_FORMAT_FRAC = 2"
definition JS_DTOA_FORMAT_MASK :: u32 where "JS_DTOA_FORMAT_MASK = 3"
definition JS_DTOA_EXP_AUTO :: u32 where "JS_DTOA_EXP_AUTO = 0"
definition JS_DTOA_EXP_ENABLED :: u32 where "JS_DTOA_EXP_ENABLED = 4"
definition JS_DTOA_EXP_DISABLED :: u32 where "JS_DTOA_EXP_DISABLED = 8"
definition JS_DTOA_EXP_MASK :: u32 where "JS_DTOA_EXP_MASK = 12"
definition JS_DTOA_MINUS_ZERO :: u32 where "JS_DTOA_MINUS_ZERO = 16"
definition JS_DTOA_MAX_DIGITS :: nat where "JS_DTOA_MAX_DIGITS = 101"

definition js_dtoa_max_len :: "float64 \<Rightarrow> nat \<Rightarrow> int \<Rightarrow> u32 \<Rightarrow> int" where
  "js_dtoa_max_len d radix n_digits flags =
     (let fmt = flags AND JS_DTOA_FORMAT_MASK; e0 = int (unat (drop_bit 52 d AND 0x7ff));
          n = (if fmt \<noteq> JS_DTOA_FORMAT_FRAC then
                 let n0 = (if fmt = JS_DTOA_FORMAT_FREE then int (dtoa_max_digits_table ! (radix - 2)) else n_digits) in
                 if flags AND JS_DTOA_EXP_MASK = JS_DTOA_EXP_DISABLED then
                   if e0 = 0x7ff then 0 else n0 + (10 + \<bar>mul_log2_radix (e0 - 1023 - 1) radix\<bar>)
                 else n0 + (1 + 1 + 6)
               else if e0 = 0x7ff then 0
               else let e = e0 - 1023 in
                 (if e < 0 then 1 else 2 + mul_log2_radix (e - 1) radix) + (1 + 1 + 1 + n_digits)) in
      max n 9)"

text \<open>The exponent that makes the mantissa fit in \<open>P\<close> digits.\<close>

partial_function (option) free_mantissa ::
  "nat \<Rightarrow> u32 \<Rightarrow> nat \<Rightarrow> u64 \<Rightarrow> int \<Rightarrow> int \<Rightarrow> int \<Rightarrow> u64 \<Rightarrow> (int \<times> u64) option" where
  "free_mantissa radix radix1 radix_shift m e P E mant_max1 =
     (let mant = mpb_get_u64 (mul_pow_round m (e - 53) radix1 radix_shift (P - E) JS_RNDN) in
      if mant < mant_max1 then Some (E, mant)
      else free_mantissa radix radix1 radix_shift m e P (E + 1) mant_max1)"

partial_function (option) strip_zeros :: "u64 \<Rightarrow> u64 \<Rightarrow> int \<Rightarrow> (u64 \<times> int) option" where
  "strip_zeros radix mant P =
     (if mant mod radix = 0 then strip_zeros radix (mant div radix) (P - 1) else Some (mant, P))"

text \<open>Fewer and fewer digits as long as they read back as the same double.\<close>

partial_function (option) free_search ::
  "nat \<Rightarrow> u32 \<Rightarrow> nat \<Rightarrow> u64 \<Rightarrow> int \<Rightarrow> int \<Rightarrow> int \<Rightarrow> (int \<times> int \<times> u64) option \<Rightarrow> (int \<times> int \<times> u64) option" where
  "free_search radix radix1 radix_shift m e E0 P found =
     Option.bind (free_mantissa radix radix1 radix_shift m e P E0 (pow_ui (of_nat radix) (of_int P))) (\<lambda>(E, mant0).
     Option.bind (strip_zeros (of_nat radix) mant0 P) (\<lambda>(mant, P1).
       if found = None \<or>
          mul_pow_round_to_d (mpb_set_u64 mant) radix1 radix_shift (E - P1) JS_RNDN = (m, e)
       then
         (if P1 = 1 then Some (P1, E, mant)
          else free_search radix radix1 radix_shift m e E0 (P1 - 1) (Some (P1, E, mant)))
       else found))"

partial_function (option) fixed_mantissa ::
  "u32 \<Rightarrow> nat \<Rightarrow> u64 \<Rightarrow> int \<Rightarrow> int \<Rightarrow> int \<Rightarrow> limb list \<Rightarrow> (int \<times> limb list) option" where
  "fixed_mantissa radix1 radix_shift m e P E mant_max =
     (let tmp1 = mul_pow_round m (e - 53) radix1 radix_shift (P - E) JS_RNDNA in
      if mpb_cmp tmp1 mant_max < 0 then Some (E, tmp1)
      else fixed_mantissa radix1 radix_shift m e P (E + 1) mant_max)"

declare free_mantissa.simps [code] strip_zeros.simps [code] free_search.simps [code] fixed_mantissa.simps [code]

text \<open>The part after the label \<open>output\<close>.\<close>

definition dtoa_output :: "limb list \<Rightarrow> nat \<Rightarrow> u32 \<Rightarrow> nat \<Rightarrow> int \<Rightarrow> u32 \<Rightarrow> int \<Rightarrow> int \<Rightarrow> u8 list" where
  "dtoa_output tmp1 radix radix1 radix_shift n_digits flags P E =
     (let fmt = flags AND JS_DTOA_FORMAT_MASK; expm = flags AND JS_DTOA_EXP_MASK;
          E_max = (if fmt = JS_DTOA_FORMAT_FIXED then n_digits
                   else int (dtoa_max_digits_table ! (radix - 2)) + 4) in
      if expm = JS_DTOA_EXP_ENABLED \<or> (expm = JS_DTOA_EXP_AUTO \<and> (E \<le> -6 \<or> E > E_max)) then
        let E1 = E - 1; p = radix1 = 1 \<and> radix_shift \<le> 4;
            E2 = (if radix \<noteq> 10 \<and> p then E1 * int radix_shift else E1) in
        output_digits tmp1 radix (nat P) 1 @
        [if radix = 10 then 0x65 else if p then 0x70 else 0x40] @
        [if E2 < 0 then 0x2d else 0x2b] @ u32toa (of_int \<bar>E2\<bar>)
      else if E \<le> 0 then
        [0x30, 0x2e] @ replicate (nat (- E)) 0x30 @ output_digits tmp1 radix (nat P) (nat P)
      else
        output_digits tmp1 radix (nat P) (nat (min P E)) @ replicate (nat (E - P)) 0x30)"

definition js_dtoa :: "float64 \<Rightarrow> nat \<Rightarrow> nat \<Rightarrow> u32 \<Rightarrow> u8 list option" where
  "js_dtoa d radix n_digits flags =
     (let fmt = flags AND JS_DTOA_FORMAT_MASK; radix_shift = ctz32 (of_nat radix);
          radix1 = drop_bit radix_shift (of_nat radix); sgn = drop_bit 63 d \<noteq> 0;
          e0 = int (unat (drop_bit 52 d AND 0x7ff)); m0 = d AND (push_bit 52 1 - 1);
          minus = (if sgn then [0x2d] else []) in
      if e0 = 0x7ff then
        Some (if m0 = 0 then minus @ [0x49, 0x6e, 0x66, 0x69, 0x6e, 0x69, 0x74, 0x79] else [0x4e, 0x61, 0x4e])
      else if e0 = 0 \<and> m0 = 0 then
        let P = (if fmt = JS_DTOA_FORMAT_FREE then 1
                 else if fmt = JS_DTOA_FORMAT_FRAC then int n_digits + 1 else int n_digits) in
        Some ((if sgn \<and> flags AND JS_DTOA_MINUS_ZERO \<noteq> 0 then [0x2d] else []) @
              dtoa_output [0] radix radix1 radix_shift (int n_digits) flags P 1)
      else
        let l = clz64 m0 - 11;
            m = (if e0 = 0 then push_bit l m0 else m0 OR push_bit 52 1);
            e = (if e0 = 0 then - (int l - 1) else e0) - 1022 in
        if fmt = JS_DTOA_FORMAT_FREE \<and> e \<ge> 1 \<and> e \<le> 53 \<and>
           m AND (push_bit (nat (53 - e)) 1 - 1) = 0 \<and> flags AND JS_DTOA_EXP_MASK \<noteq> JS_DTOA_EXP_ENABLED
        then Some (minus @ u64toa_radix (drop_bit (nat (53 - e)) m) (of_nat radix))
        else
          let E0 = 1 + mul_log2_radix (e - 1) radix in
          if fmt = JS_DTOA_FORMAT_FREE then
            map_option (\<lambda>(P, E, mant). minus @
                dtoa_output (mpb_set_u64 mant) radix radix1 radix_shift (int n_digits) flags P E)
              (free_search radix radix1 radix_shift m e E0 (int (dtoa_max_digits_table ! (radix - 2))) None)
          else if fmt = JS_DTOA_FORMAT_FRAC then
            if n_digits > JS_DTOA_MAX_DIGITS then None
            else
              let tmp1 = mul_pow_round m (e - 53) radix1 radix_shift (int n_digits) JS_RNDNA;
                  q = output_digits tmp1 radix (nat (max (E0 + 1) 1) + n_digits) (nat (max (E0 + 1) 1)) in
              Some (minus @ (if q ! 0 = 0x30 \<and> length q \<ge> 2 \<and> q ! 1 \<noteq> 0x2e then tl q else q))
          else
            if n_digits < 1 \<or> n_digits > JS_DTOA_MAX_DIGITS then None
            else
              let (mant_max, pow_shift) = mul_pow [1] radix1 radix_shift (int n_digits) False 0 in
              map_option (\<lambda>(E, tmp1). minus @
                  dtoa_output tmp1 radix radix1 radix_shift (int n_digits) flags (int n_digits) E)
                (fixed_mantissa radix1 radix_shift m e (int n_digits) E0 (mpb_shr_round mant_max pow_shift JS_RNDZ)))"

section \<open>Parsing\<close>

definition JS_ATOD_INT_ONLY :: u32 where "JS_ATOD_INT_ONLY = 1"
definition JS_ATOD_ACCEPT_BIN_OCT :: u32 where "JS_ATOD_ACCEPT_BIN_OCT = 2"
definition JS_ATOD_ACCEPT_LEGACY_OCTAL :: u32 where "JS_ATOD_ACCEPT_LEGACY_OCTAL = 4"
definition JS_ATOD_ACCEPT_UNDERSCORES :: u32 where "JS_ATOD_ACCEPT_UNDERSCORES = 8"

text \<open>A byte of the zero terminated string.\<close>

definition chr :: "u8 list \<Rightarrow> nat \<Rightarrow> u8" where
  "chr s i = (if i < length s then s ! i else 0)"

definition to_digit :: "u8 \<Rightarrow> nat" where
  "to_digit c =
     (if 0x30 \<le> c \<and> c \<le> 0x39 then unat (c - 0x30)
      else if 0x41 \<le> c \<and> c \<le> 0x5a then unat (c - 0x41) + 10
      else if 0x61 \<le> c \<and> c \<le> 0x7a then unat (c - 0x61) + 10
      else 36)"

definition mpb_mul1_base :: "limb list \<Rightarrow> limb \<Rightarrow> limb \<Rightarrow> limb list" where
  "mpb_mul1_base r radix_base a =
     (if r ! 0 = 0 \<and> length r = 1 then [a]
      else if radix_base = 0 then mpb_renorm (a # r)
      else let (t, h) = mp_mul1 r radix_base a in mpb_renorm (t @ [h]))"

text \<open>
  How the digits start: a failure at a position, \<open>Infinity\<close> read up to a position, or digits from a
  position in a radix (0 when none was given), with the separator between digits if one is accepted.
\<close>

datatype atod_start =
    Atod_fail nat
  | Atod_overflow nat
  | Atod_digits nat nat "u8 option"

definition is_sep :: "u8 option \<Rightarrow> u8 \<Rightarrow> bool" where
  "is_sep sep c \<longleftrightarrow> sep = Some c"

text \<open>Octal digits after the leading zero.\<close>

function skip_octal :: "u8 list \<Rightarrow> nat \<Rightarrow> nat" where
  "skip_octal s i = (if 0x30 \<le> chr s i \<and> chr s i \<le> 0x37 then skip_octal s (i + 1) else i)"
  by pat_completeness auto
termination
  by (relation "measure (\<lambda>(s, i). length s - i)") (auto simp: chr_def split: if_splits)

declare skip_octal.simps [simp del]

definition atod_prefix :: "u8 list \<Rightarrow> nat \<Rightarrow> nat \<Rightarrow> u32 \<Rightarrow> atod_start" where
  "atod_prefix s p radix flags =
     (let sep = (if flags AND JS_ATOD_ACCEPT_UNDERSCORES \<noteq> 0 then Some 0x5f else None);
          c1 = chr s (p + 1);
          prefixed = (\<lambda>p radix sep. if to_digit (chr s p) \<ge> radix then Atod_fail p else Atod_digits p radix sep) in
      if chr s p = 0x30 then
        (if (c1 = 0x78 \<or> c1 = 0x58) \<and> (radix = 0 \<or> radix = 16) then prefixed (p + 2) 16 sep
         else if (c1 = 0x6f \<or> c1 = 0x4f) \<and> radix = 0 \<and> flags AND JS_ATOD_ACCEPT_BIN_OCT \<noteq> 0 then
           prefixed (p + 2) 8 sep
         else if (c1 = 0x62 \<or> c1 = 0x42) \<and> radix = 0 \<and> flags AND JS_ATOD_ACCEPT_BIN_OCT \<noteq> 0 then
           prefixed (p + 2) 2 sep
         else if 0x30 \<le> c1 \<and> c1 \<le> 0x39 \<and> radix = 0 \<and> flags AND JS_ATOD_ACCEPT_LEGACY_OCTAL \<noteq> 0 then
           (let i = skip_octal s (p + 1) in
            if chr s i = 0x38 \<or> chr s i = 0x39 then Atod_digits p radix None
            else prefixed (p + 1) 8 None)
         else Atod_digits p radix sep)
      else if flags AND JS_ATOD_INT_ONLY = 0 \<and>
              strstart (drop p s) [0x49, 0x6e, 0x66, 0x69, 0x6e, 0x69, 0x74, 0x79] \<noteq> None then Atod_overflow (p + 8)
      else Atod_digits p radix sep)"

text \<open>
  The test for a decimal point that both digit loops start with: the new position and the position
  of the point (-1 when there is none), \<open>Inl\<close> of \<open>True\<close> for the failure and of \<open>False\<close> for the
  end of the loop.
\<close>

definition atod_dot ::
  "u8 list \<Rightarrow> nat \<Rightarrow> nat \<Rightarrow> u32 \<Rightarrow> u8 option \<Rightarrow> nat \<Rightarrow> int \<Rightarrow> int \<Rightarrow> bool + (nat \<times> int)" where
  "atod_dot s p_start radix flags sep p pos dot_pos =
     (if chr s p = 0x2e \<and> (p > p_start \<or> to_digit (chr s (p + 1)) < radix) \<and> flags AND JS_ATOD_INT_ONLY = 0
      then if is_sep sep (chr s p) then Inl True
           else if dot_pos \<ge> 0 then Inl False
           else Inr (p + 1, pos)
      else Inr (p, dot_pos))"

text \<open>The leading zeros: position, digit position and position of the point; \<open>None\<close> is a failure.\<close>

function atod_zeros ::
  "u8 list \<Rightarrow> nat \<Rightarrow> nat \<Rightarrow> u32 \<Rightarrow> u8 option \<Rightarrow> nat \<Rightarrow> int \<Rightarrow> int \<Rightarrow> (nat \<times> int \<times> int) option" where
  "atod_zeros s p_start radix flags sep p pos dot_pos =
     (case atod_dot s p_start radix flags sep p pos dot_pos of
        Inl True \<Rightarrow> None
      | Inl False \<Rightarrow> Some (p, pos, dot_pos)
      | Inr (p1, dot_pos1) \<Rightarrow>
          let p2 = (if is_sep sep (chr s p1) \<and> p1 > p_start \<and> chr s (p1 + 1) = 0x30 then p1 + 1 else p1) in
          if chr s p2 \<noteq> 0x30 then Some (p2, pos, dot_pos1)
          else atod_zeros s p_start radix flags sep (p2 + 1) (pos + 1) dot_pos1)"
  by pat_completeness auto
termination
  by (relation "measure (\<lambda>(s, p_start, radix, flags, sep, p, pos, dot_pos). length s - p)")
    (auto simp: chr_def atod_dot_def split: if_splits)

record atod_acc =
  cur_limb :: limb
  limb_digit_count :: nat
  digit_count :: nat
  extra_digits :: limb
  acc_num :: "limb list"

definition add_digit :: "nat \<Rightarrow> atod_acc \<Rightarrow> limb \<Rightarrow> atod_acc" where
  "add_digit radix acc c =
     (if digit_count acc < atod_max_digits_table ! (radix - 2) then
        let cur = cur_limb acc * of_nat radix + c; n = limb_digit_count acc + 1 in
        if n = digits_per_limb_table ! (radix - 2) then
          acc\<lparr>cur_limb := 0, limb_digit_count := 0, digit_count := digit_count acc + 1,
              acc_num := mpb_mul1_base (acc_num acc) (radix_base_table ! (radix - 2)) cur\<rparr>
        else acc\<lparr>cur_limb := cur, limb_digit_count := n, digit_count := digit_count acc + 1\<rparr>
      else acc\<lparr>extra_digits := extra_digits acc OR c\<rparr>)"

function atod_number ::
  "u8 list \<Rightarrow> nat \<Rightarrow> nat \<Rightarrow> u32 \<Rightarrow> u8 option \<Rightarrow> nat \<Rightarrow> int \<Rightarrow> int \<Rightarrow> atod_acc \<Rightarrow>
   (nat \<times> int \<times> int \<times> atod_acc) option" where
  "atod_number s p_start radix flags sep p pos dot_pos acc =
     (case atod_dot s p_start radix flags sep p pos dot_pos of
        Inl True \<Rightarrow> None
      | Inl False \<Rightarrow> Some (p, pos, dot_pos, acc)
      | Inr (p1, dot_pos1) \<Rightarrow>
          let p2 = (if is_sep sep (chr s p1) \<and> p1 > p_start \<and> to_digit (chr s (p1 + 1)) < radix
                    then p1 + 1 else p1);
              c = to_digit (chr s p2) in
          if c \<ge> radix \<or> p2 \<ge> length s then Some (p2, pos, dot_pos1, acc)
          else atod_number s p_start radix flags sep (p2 + 1) (pos + 1) dot_pos1 (add_digit radix acc (of_nat c)))"
  by pat_completeness auto
termination
  by (relation "measure (\<lambda>(s, p_start, radix, flags, sep, p, pos, dot_pos, acc). length s - p)")
    (auto simp: atod_dot_def split: if_splits)

text \<open>The digits of the exponent, with the overflow test in front of every multiplication.\<close>

function atod_exponent :: "u8 list \<Rightarrow> u8 option \<Rightarrow> nat \<Rightarrow> s32 \<Rightarrow> bool \<Rightarrow> nat \<times> s32 \<times> bool" where
  "atod_exponent s sep p expn overflow =
     (let p1 = (if is_sep sep (chr s p) \<and> to_digit (chr s (p + 1)) < 10 then p + 1 else p);
          c = to_digit (chr s p1) in
      if c \<ge> 10 \<or> p1 \<ge> length s then (p1, expn, overflow)
      else if overflow then atod_exponent s sep (p1 + 1) expn True
      else if sint expn > (2 ^ 31 - 1 - 2 - 9) div 10 then atod_exponent s sep (p1 + 1) expn True
      else atod_exponent s sep (p1 + 1) (expn * 10 + of_nat c) False)"
  by pat_completeness auto
termination
  by (relation "measure (\<lambda>(s, sep, p, expn, ov). length s - p)") (auto simp: Let_def split: if_splits)

declare atod_zeros.simps [simp del] atod_number.simps [simp del] atod_exponent.simps [simp del]

text \<open>
  The exponent part, if there is one: \<open>Inl\<close> is a failure at a position, \<open>Inr\<close> the new position, the
  exponent, its sign, whether it overflowed and whether it counts bits.
\<close>

definition atod_expn ::
  "u8 list \<Rightarrow> nat \<Rightarrow> nat \<Rightarrow> nat \<Rightarrow> u32 \<Rightarrow> u8 option \<Rightarrow> nat \<Rightarrow> nat + (nat \<times> s32 \<times> bool \<times> bool \<times> bool)" where
  "atod_expn s p_start radix radix_bits flags sep p =
     (let c = chr s p in
      if flags AND JS_ATOD_INT_ONLY = 0 \<and>
         ((radix = 10 \<and> (c = 0x65 \<or> c = 0x45)) \<or>
          (radix \<noteq> 10 \<and> (c = 0x40 \<or> (radix_bits \<ge> 1 \<and> radix_bits \<le> 4 \<and> (c = 0x70 \<or> c = 0x50))))) \<and>
         p > p_start
      then
        let is_bin_exp = (c = 0x70 \<or> c = 0x50);
            exp_is_neg = (chr s (p + 1) = 0x2d);
            p1 = (if chr s (p + 1) = 0x2b \<or> exp_is_neg then p + 2 else p + 1);
            d = to_digit (chr s p1) in
        if d \<ge> 10 then Inl p1
        else let (p2, expn, overflow) = atod_exponent s sep (p1 + 1) (of_nat d) False in
          Inr (p2, if exp_is_neg then - expn else expn, exp_is_neg, overflow, is_bin_exp)
      else Inr (p, 0, False, False, False))"

definition float_infinity :: u64 where "float_infinity = push_bit 52 0x7ff"
definition float_nan :: u64 where "float_nan = push_bit 51 0xfff"

text \<open>The encoding of a rounded mantissa and exponent, without the sign.\<close>

definition atod_pack :: "u64 \<Rightarrow> int \<Rightarrow> u64" where
  "atod_pack m e =
     (if m = 0 then 0
      else if e > 1024 then float_infinity
      else if e < -1073 then 0
      else if e < -1021 then drop_bit (nat (- e - 1021)) m
      else push_bit 52 (of_int (e + 1022)) OR (m AND (push_bit 52 1 - 1)))"

text \<open>
  The value of a number that is not zero: \<open>expn\<close> is the parsed exponent, \<open>expn_offset\<close> the number
  of stored digits right of the point.
\<close>

definition atod_value ::
  "nat \<Rightarrow> u32 \<Rightarrow> nat \<Rightarrow> nat \<Rightarrow> limb list \<Rightarrow> nat \<Rightarrow> int \<Rightarrow> s32 \<Rightarrow> bool \<Rightarrow> u64" where
  "atod_value radix radix1 radix_shift radix_bits num n_digits expn_offset expn0 is_bin_exp =
     (if radix_bits \<noteq> 0 then
        let expn1 = (if is_bin_exp then expn0 else expn0 * of_nat radix_bits);
            expn = expn1 - of_int (expn_offset * int radix_bits);
            top = expn + of_nat (n_digits * radix_bits) in
        if sint top \<ge> 1024 + int radix_bits then float_infinity
        else if sint top \<le> -1075 then 0
        else let (m, e) = round_to_d num (- sint expn) JS_RNDN in atod_pack m e
      else
        let expn = expn0 - of_int expn_offset; top = expn + of_nat n_digits in
        if sint top \<ge> max_exponent ! (radix - 2) + 1 then float_infinity
        else if sint top \<le> min_exponent ! (radix - 2) then 0
        else let (m, e) = mul_pow_round_to_d num radix1 radix_shift (sint expn) JS_RNDN in atod_pack m e)"

text \<open>The part after the prefix, for digits that start at \<open>p\<close>.\<close>

definition atod_body ::
  "u8 list \<Rightarrow> nat \<Rightarrow> nat \<Rightarrow> u32 \<Rightarrow> u8 option \<Rightarrow> nat \<Rightarrow> nat + (u64 \<times> nat)" where
  "atod_body s p_start radix flags sep p =
     (let radix_shift = ctz32 (of_nat radix); radix1 = drop_bit radix_shift (of_nat radix);
          radix_bits = (if radix1 = 1 then radix_shift else 0) in
      case atod_zeros s p_start radix flags sep p 0 (-1) of
        None \<Rightarrow> Inl p
      | Some (p1, sig_pos, dot_pos1) \<Rightarrow>
          (case atod_number s p_start radix flags sep p1 sig_pos dot_pos1
                  \<lparr>cur_limb = 0, limb_digit_count = 0, digit_count = 0, extra_digits = 0, acc_num = [0]\<rparr> of
             None \<Rightarrow> Inl p1
           | Some (p2, pos, dot_pos2, acc) \<Rightarrow>
               let num0 = (if limb_digit_count acc \<noteq> 0
                     then mpb_mul1_base (acc_num acc)
                            (ucast (pow_ui (of_nat radix) (of_nat (limb_digit_count acc)))) (cur_limb acc)
                     else acc_num acc);
                   is_zero = (digit_count acc = 0);
                   dot_pos = (if dot_pos2 < 0 then pos else dot_pos2);
                   expn_offset = (if is_zero then 0 else sig_pos + int (digit_count acc) - dot_pos);
                   num = (if radix_bits \<noteq> 0 \<and> extra_digits acc \<noteq> 0 then num0[0 := num0 ! 0 OR 1] else num0) in
               (case atod_expn s p_start radix radix_bits flags sep p2 of
                  Inl p3 \<Rightarrow> Inl p3
                | Inr (p3, expn, exp_is_neg, overflow, is_bin_exp) \<Rightarrow>
                    if \<not> is_zero \<and> overflow then Inr (if exp_is_neg then 0 else float_infinity, p3)
                    else if p3 = p_start then Inl p3
                    else Inr (if is_zero then 0
                              else atod_value radix radix1 radix_shift radix_bits num (digit_count acc)
                                     expn_offset expn is_bin_exp, p3))))"

text \<open>The double and the position after the number; a failure is a NaN.\<close>

definition js_atod :: "u8 list \<Rightarrow> nat \<Rightarrow> u32 \<Rightarrow> float64 \<times> nat" where
  "js_atod s radix flags =
     (let is_neg = (chr s 0 = 0x2d); p_start = (if chr s 0 = 0x2b \<or> is_neg then 1 else 0);
          sign = (\<lambda>(a, p). (a OR (if is_neg then push_bit 63 1 else 0), p)) in
      case atod_prefix s p_start radix flags of
        Atod_fail p \<Rightarrow> (float_nan, p)
      | Atod_overflow p \<Rightarrow> sign (float_infinity, p)
      | Atod_digits p r sep \<Rightarrow>
          (case atod_body s p_start (if r = 0 then 10 else r) flags sep p of
             Inl q \<Rightarrow> (float_nan, q)
           | Inr (a, q) \<Rightarrow> sign (a, q)))"

end
