(* ===== verification/DtoaInteger.thy ===== *)
theory DtoaInteger imports Dtoa begin

text \<open>
  Integers through \<open>js_dtoa\<close> and \<open>js_atod\<close>: the digit loops of the parser, the exact rounding of a
  number of at most 53 bits, and the round trip in every radix.
\<close>

unbundle bit_operations_syntax

section \<open>The digits of an integer\<close>

lemma digit_below_10: "d < 10 \<Longrightarrow> unat (digit d) = d + 48"
  by (simp add: digit_decimal unat_word_ariths unat_of_nat)

lemma digit_from_10:
  assumes "10 \<le> d" "d < 36" shows "unat (digit d) = d + 87"
proof -
  have "\<not> (of_nat d :: u64) < 10" using assms by (simp add: word_less_nat_alt unat_of_nat)
  then show ?thesis using assms
    by (simp add: digit_def digit_char_def unat_word_ariths unat_ucast_mod unat_of_nat)
qed

lemma digit_ranges: "d < 36 \<Longrightarrow> unat (digit d) \<in> {48..57} \<union> {97..122}"
  using digit_below_10 [of d] digit_from_10 [of d] by (cases "d < 10") auto

lemma digit_not:
  assumes "d < 36"
  shows "digit d \<noteq> 0x2e" "digit d \<noteq> 0x5f" "digit d \<noteq> 0x49" "digit d \<noteq> 0x2b" "digit d \<noteq> 0x2d"
  using digit_ranges [OF assms] by (auto simp: word_unat_eq_iff)

lemma digit_zero: "d < 36 \<Longrightarrow> digit d = 0x30 \<longleftrightarrow> d = 0"
  using digit_below_10 [of d] digit_from_10 [of d] by (cases "d < 10") (auto simp: word_unat_eq_iff)

lemma to_digit_digit: "d < 36 \<Longrightarrow> to_digit (digit d) = d"
proof -
  assume d: "d < 36"
  show ?thesis
  proof (cases "d < 10")
    case True
    then show ?thesis using digit_below_10 [OF True] unat_sub [of "0x30" "digit d"]
      by (simp add: to_digit_def word_le_nat_alt)
  next
    case False
    then show ?thesis using digit_from_10 [of d] d unat_sub [of "0x61" "digit d"]
      by (simp add: to_digit_def word_le_nat_alt)
  qed
qed

lemma digits_less: "1 < r \<Longrightarrow> d \<in> set (digits r n) \<Longrightarrow> d < r"
proof (induction r n rule: digits.induct)
  case (1 r n)
  show ?case
  proof (cases "n < r")
    case True
    then show ?thesis using 1(3) by (subst (asm) digits.simps) simp
  next
    case False
    then have "d \<in> set (digits r (n div r)) \<or> d = n mod r" using 1(2,3) by (subst (asm) digits.simps) auto
    then show ?thesis using 1(1) [OF _ 1(2)] 1(2) False by auto
  qed
qed

lemma digits_hd: "1 < r \<Longrightarrow> 0 < n \<Longrightarrow> digits r n \<noteq> [] \<and> hd (digits r n) \<noteq> 0"
proof (induction r n rule: digits.induct)
  case (1 r n)
  show ?case
  proof (cases "n < r")
    case False
    moreover then have "0 < n div r" using 1(2) by (simp add: div_greater_zero_iff)
    ultimately show ?thesis using 1(1) 1(2) by (subst (1 2) digits.simps) auto
  qed (use 1 in \<open>subst (1 2) digits.simps, simp\<close>)
qed

text \<open>Horner's rule.\<close>

lemma digits_value: "1 < r \<Longrightarrow> foldl (\<lambda>v d. v * r + d) 0 (digits r n) = n"
proof (induction r n rule: digits.induct)
  case (1 r n)
  show ?case
    by (cases "n < r"; subst digits.simps) (use 1 in \<open>simp_all add: not_less\<close>)
qed

lemma digits_length: "1 < r \<Longrightarrow> n < r ^ k \<Longrightarrow> 0 < k \<Longrightarrow> length (digits r n) \<le> k"
proof (induction k arbitrary: n)
  case (Suc k)
  show ?case
  proof (cases "n < r")
    case False
    have "n div r < r ^ k" using Suc(3) by (simp add: less_mult_imp_div_less mult.commute)
    moreover have "0 < k" using Suc(3) False by (cases k) auto
    ultimately show ?thesis using Suc(1) [of "n div r"] Suc(2) False by (subst digits.simps) simp
  qed (subst digits.simps, simp)
qed simp

section \<open>The tables\<close>

lemma radix_tables:
  "list_all (\<lambda>r. let d = digits_per_limb_table ! (r - 2) in
     0 < d \<and> r ^ d \<le> 2 ^ 32 \<and> 2 ^ 32 < r ^ (d + 1) \<and> radix_base_table ! (r - 2) = of_nat (r ^ d) \<and>
     2 ^ 53 < r ^ (atod_max_digits_table ! (r - 2)))
   [2..<37]"
  by (simp add: upt_rec_numeral Let_def digits_per_limb_table_def radix_base_table_def atod_max_digits_table_def)

lemma radix_facts:
  assumes "2 \<le> r" "r \<le> 36"
  shows "0 < digits_per_limb_table ! (r - 2)" "r ^ (digits_per_limb_table ! (r - 2)) \<le> 2 ^ 32"
    "radix_base_table ! (r - 2) = of_nat (r ^ (digits_per_limb_table ! (r - 2)))"
    "2 ^ 53 < r ^ (atod_max_digits_table ! (r - 2))"
proof -
  have "r \<in> set [2..<37]" using assms by (simp only: set_upt atLeastLessThan_iff) simp
  with radix_tables have *: "let d = digits_per_limb_table ! (r - 2) in
     0 < d \<and> r ^ d \<le> 2 ^ 32 \<and> 2 ^ 32 < r ^ (d + 1) \<and> radix_base_table ! (r - 2) = of_nat (r ^ d) \<and>
     2 ^ 53 < r ^ (atod_max_digits_table ! (r - 2))"
    unfolding list_all_iff by blast
  then show "0 < digits_per_limb_table ! (r - 2)" "r ^ (digits_per_limb_table ! (r - 2)) \<le> 2 ^ 32"
    "radix_base_table ! (r - 2) = of_nat (r ^ (digits_per_limb_table ! (r - 2)))"
    "2 ^ 53 < r ^ (atod_max_digits_table ! (r - 2))"
    unfolding Let_def by blast+
qed

section \<open>Reading digits\<close>

text \<open>The number read so far: the full limbs, then the digits of the limb that is not full.\<close>

definition acc_ok :: "nat \<Rightarrow> atod_acc \<Rightarrow> nat \<Rightarrow> nat \<Rightarrow> bool" where
  "acc_ok r acc v n \<longleftrightarrow>
     lastnz (acc_num acc) \<and> unat (cur_limb acc) < r ^ limb_digit_count acc \<and>
     limb_digit_count acc < digits_per_limb_table ! (r - 2) \<and> digit_count acc = n \<and> extra_digits acc = 0 \<and>
     mp_val (acc_num acc) * r ^ limb_digit_count acc + unat (cur_limb acc) = v"

lemma mpb_mul1_base_val:
  assumes "lastnz num" "0 < B" "B \<le> 2 ^ 32" "unat a < B"
  shows "mp_val (mpb_mul1_base num (of_nat B) a) = mp_val num * B + unat a"
    "lastnz (mpb_mul1_base num (of_nat B) a)"
proof -
  let ?x = "of_nat B :: limb"
  have "mp_val (mpb_mul1_base num ?x a) = mp_val num * B + unat a \<and> lastnz (mpb_mul1_base num ?x a)"
  proof (cases "num ! 0 = 0 \<and> length num = 1")
    case True
    then have "num = [0]" by (cases num) auto
    then show ?thesis by (simp add: mpb_mul1_base_def)
  next
    case nz: False
    show ?thesis
    proof (cases "B = 2 ^ 32")
      case True
      then have "?x = 0" by (simp add: word_unat_eq_iff unat_of_nat)
      then have "mpb_mul1_base num ?x a = mpb_renorm (a # num)" using nz by (simp only: mpb_mul1_base_def if_False) simp
      then show ?thesis by (simp add: True mpb_renorm_val mpb_renorm_norm del: lastnz.simps)
    next
      case False
      have x: "unat ?x = B" using False assms(3) by (simp add: unat_of_nat)
      then have x0: "?x \<noteq> 0" using assms(2) by auto
      obtain t h where th: "mp_mul1 num ?x a = (t, h)" by fastforce
      have "mp_val (t @ [h]) = mp_val num * B + unat a"
        using mp_mul1_val [OF th] by (simp add: mp_val_append x)
      moreover have "mpb_mul1_base num ?x a = mpb_renorm (t @ [h])"
        using nz x0 by (simp only: mpb_mul1_base_def if_False th Let_def prod.case)
      ultimately show ?thesis by (simp add: mpb_renorm_val mpb_renorm_norm del: lastnz.simps)
    qed
  qed
  then show "mp_val (mpb_mul1_base num ?x a) = mp_val num * B + unat a" "lastnz (mpb_mul1_base num ?x a)"
    by blast+
qed

lemma add_digit_ok:
  assumes r: "2 \<le> r" "r \<le> 36" and d: "d < r" and ok: "acc_ok r acc v n"
    and n: "n < atod_max_digits_table ! (r - 2)"
  shows "acc_ok r (add_digit r acc (of_nat d)) (v * r + d) (Suc n)"
proof -
  let ?D = "digits_per_limb_table ! (r - 2)"
  note t = radix_facts [OF r]
  define c l where "c = cur_limb acc" and "l = limb_digit_count acc"
  have c: "unat c < r ^ l" and l: "l < ?D" and nd: "digit_count acc = n" and ex: "extra_digits acc = 0"
    and nz: "lastnz (acc_num acc)" and v: "mp_val (acc_num acc) * r ^ l + unat c = v"
    using ok unfolding acc_ok_def c_def l_def by blast+
  define c1 where "c1 = c * of_nat r + of_nat d"
  have "unat c * r + d < r ^ Suc l"
  proof -
    have "(unat c + 1) * r \<le> r ^ l * r" using c by (intro mult_right_mono) simp_all
    then show ?thesis using d by (simp add: algebra_simps)
  qed
  moreover have "r ^ Suc l \<le> r ^ ?D" using l r by (intro power_increasing) simp_all
  ultimately have lt: "unat c * r + d < r ^ Suc l" "unat c * r + d < 2 ^ 32" using t(2) by simp_all
  have c1: "unat c1 = unat c * r + d"
    using lt(2) by (simp add: c1_def unat_word_ariths unat_of_nat mod_simps)
  have vr: "v * r + d = mp_val (acc_num acc) * r ^ Suc l + unat c1"
    unfolding c1 v [symmetric] by (simp add: algebra_simps)
  show ?thesis
  proof (cases "Suc l = ?D")
    case True
    have "unat c1 < r ^ ?D" using lt(1) unfolding c1 True .
    note m = mpb_mul1_base_val [OF nz _ t(2) this]
    have "add_digit r acc (of_nat d) = acc\<lparr>cur_limb := 0, limb_digit_count := 0, digit_count := n + 1,
        acc_num := mpb_mul1_base (acc_num acc) (radix_base_table ! (r - 2)) c1\<rparr>"
      using n True by (simp add: add_digit_def Let_def nd c1_def c_def l_def)
    then show ?thesis
      using m r t(1) unfolding acc_ok_def vr t(3) True [symmetric] by (simp add: ex del: lastnz.simps)
  next
    case False
    then have "add_digit r acc (of_nat d) = acc\<lparr>cur_limb := c1, limb_digit_count := Suc l, digit_count := n + 1\<rparr>"
      using n by (simp add: add_digit_def Let_def nd c1_def c_def l_def)
    then show ?thesis
      using lt(1) False l nz unfolding acc_ok_def vr by (simp add: ex c1 del: lastnz.simps)
  qed
qed

lemma chr_drop: "drop p s = c # cs \<Longrightarrow> chr s p = c \<and> p < length s \<and> drop (p + 1) s = cs"
proof -
  assume d: "drop p s = c # cs"
  then have l: "p < length s" by (metis drop_all list.distinct(1) not_le)
  then have "drop p s = s ! p # drop (Suc p) s" by (rule Cons_nth_drop_Suc [symmetric])
  then show ?thesis using d l by (simp add: chr_def)
qed

lemma chr_end: "p \<ge> length s \<Longrightarrow> chr s p = 0"
  by (simp add: chr_def)

lemma to_digit_0 [simp]: "to_digit 0 = 36"
  by (simp add: to_digit_def)

text \<open>The separator of a call: none or an underscore.\<close>

definition sep_ok :: "u8 option \<Rightarrow> bool" where
  "sep_ok sep \<longleftrightarrow> sep = None \<or> sep = Some 0x5f"

lemma is_sep_digit: "sep_ok sep \<Longrightarrow> d < 36 \<Longrightarrow> \<not> is_sep sep (digit d)"
  using digit_not(2) [of d] by (auto simp: sep_ok_def is_sep_def)

lemma is_sep_0: "sep_ok sep \<Longrightarrow> \<not> is_sep sep 0"
  by (auto simp: sep_ok_def is_sep_def)

lemma atod_number_digits:
  assumes r: "2 \<le> r" "r \<le> 36" and sep: "sep_ok sep"
    and "drop p s = map digit ds" "\<forall>d \<in> set ds. d < r" "acc_ok r acc v n"
    "n + length ds \<le> atod_max_digits_table ! (r - 2)" "p \<le> length s"
  shows "\<exists>acc'. atod_number s ps r flags sep p pos dp acc = Some (length s, pos + int (length ds), dp, acc') \<and>
    acc_ok r acc' (foldl (\<lambda>v d. v * r + d) v ds) (n + length ds)"
  using assms(4-8)
proof (induction ds arbitrary: p pos acc v n)
  case Nil
  then have p: "p = length s" by simp
  have 0: "chr s p = 0" by (rule chr_end) (simp add: p)
  have "atod_number s ps r flags sep p pos dp acc = Some (p, pos, dp, acc)"
    by (subst atod_number.simps) (use r in \<open>simp add: atod_dot_def 0 is_sep_0 [OF sep]\<close>)
  then show ?case using Nil by (simp add: p)
next
  case (Cons d ds)
  have "drop p s = digit d # map digit ds" using Cons.prems(1) by simp
  note c = chr_drop [OF this]
  have d: "d < r" "d < 36" using Cons.prems(2) r by auto
  have step: "atod_number s ps r flags sep p pos dp acc =
      atod_number s ps r flags sep (p + 1) (pos + 1) dp (add_digit r acc (of_nat d))"
    by (subst atod_number.simps)
      (use c d in \<open>simp add: atod_dot_def digit_not is_sep_digit [OF sep d(2)] to_digit_digit\<close>)
  have "\<exists>acc'. atod_number s ps r flags sep (p + 1) (pos + 1) dp (add_digit r acc (of_nat d)) =
       Some (length s, pos + 1 + int (length ds), dp, acc') \<and>
     acc_ok r acc' (foldl (\<lambda>v d. v * r + d) (v * r + d) ds) (Suc n + length ds)"
    by (rule Cons.IH) (use c Cons.prems add_digit_ok [OF r d(1) Cons.prems(3)] in auto)
  then show ?case unfolding step by (auto simp: add.commute add.left_commute)
qed

section \<open>Exact rounding\<close>

lemma lastnz_shift_left:
  assumes "lastnz a" "0 < mp_val a" shows "lastnz (mpb_shr_round a (- int k) mode)"
proof (cases "k = 0")
  case False
  have z: "lastnz (replicate l 0 @ b)" if "lastnz b" "0 < mp_val b" for b l
  proof -
    have "last b \<noteq> 0" using that by (cases b rule: rev_cases; cases "length b = 1") auto
    then show ?thesis using that(1) by (cases b) auto
  qed
  obtain t h where t: "mp_shl a (k mod 32) 0 = (t, h)" by fastforce
  have v: "mp_val (t @ [h]) = mp_val a * 2 ^ (k mod 32)"
    using mp_shl_val [OF t] by (simp add: mp_val_append)
  have r: "mpb_shr_round a (- int k) mode =
      replicate (k div 32) 0 @ (if k mod 32 \<noteq> 0 then mpb_renorm (t @ [h]) else a)"
    using False by (simp add: mpb_shr_round_def Let_def t)
  show ?thesis unfolding r
    by (rule z) (use assms v in \<open>simp_all add: mpb_renorm_val mpb_renorm_norm del: lastnz.simps\<close>)
qed (use assms(1) in \<open>simp add: mpb_shr_round_def\<close>)

lemma shift_left_val: "mp_val (mpb_shr_round a (- int j) mode) = mp_val a * 2 ^ j"
  using mpb_shr_round_val [of a "- int j" mode] by (cases "j = 0"; cases mode) (simp_all add: round_shift_def)

lemma round_to_d_exact:
  assumes a: "lastnz a" "mp_val a = n" and n: "0 < n" "n < 2 ^ 53"
  defines "k \<equiv> floorlog 2 n - 1"
  shows "round_to_d a 0 JS_RNDN = (of_nat (n * 2 ^ (52 - k)), int k + 1)"
proof -
  note k = floorlog_exp [OF n, folded k_def]
  note sb = shifted_bounds [OF k(2,3,1)]
  have va: "0 < mp_val a" using a(2) n by simp
  note fl = mpb_floor_log2_val [OF a(1) va]
  have "floorlog 2 n - 1 = nat (mpb_floor_log2 a)"
    by (rule floorlog_unique [OF _ _ n(2)]) (use fl a(2) in simp_all)
  then have F: "mpb_floor_log2 a = int k" using fl by (simp add: k_def)
  let ?b = "mpb_shr_round a (- int (52 - k)) JS_RNDN"
  have vb: "mp_val ?b = n * 2 ^ (52 - k)"
    by (simp only: shift_left_val a(2))
  have lb: "lastnz ?b" by (rule lastnz_shift_left [OF a(1) va])
  have m: "unat (mpb_get_u64 ?b) = n * 2 ^ (52 - k)"
    using mpb_get_u64_val [OF lb] sb(2) unfolding vb by simp
  then have mw: "mpb_get_u64 ?b = of_nat (n * 2 ^ (52 - k))" by (metis of_nat_unat ucast_id)
  have a0: "(a ! 0 = 0 \<and> length a = 1) = False"
  proof
    assume "a ! 0 = 0 \<and> length a = 1"
    then have "a = [0]" by (cases a) auto
    then show False using va by simp
  qed simp
  have big: "(push_bit 53 1 \<le> mpb_get_u64 ?b) = False"
    using sb(2) by (simp only: word_le_nat_alt m) (simp add: push_bit_eq_mult)
  have p: "(if int k + 1 - 0 < - 1021 then 53 - (- 1021 - (int k + 1 - 0)) else 53) = (53 :: int)" by simp
  have sh: "int k + 1 - 0 + 0 - 53 = - int (52 - k)" using k(1) by simp
  have "push_bit (nat (53 - 53)) (mpb_get_u64 ?b) = mpb_get_u64 ?b" by simp
  then show ?thesis
    unfolding round_to_d_def F Let_def a0 p sh by (simp only: big if_False) (simp add: mw)
qed

lemma pack_fields:
  assumes "e < 2048" "unat m < 2 ^ 52"
  shows "push_bit 52 (of_nat e) OR m = f_make False e (unat m)"
    "f_make False e (unat m) OR push_bit 63 1 = f_make True e (unat m)"
proof -
  have lt: "e * 2 ^ 52 + unat m < 2 ^ 63"
  proof -
    have "e * 2 ^ 52 + unat m < (e + 1) * 2 ^ 52" using assms(2) by simp
    also have "\<dots> \<le> 2048 * 2 ^ 52" using assms(1) by (intro mult_right_mono) simp_all
    finally show ?thesis by simp
  qed
  have e: "unat (of_nat e :: u64) = e" using assms(1) by (simp add: unat_of_nat)
  have "unat (m OR push_bit 52 (of_nat e)) = unat m + unat (of_nat e :: u64) * 2 ^ 52"
    by (rule unat_or_push_bit) (use lt assms(2) e in \<open>simp_all del: unsigned_of_nat\<close>)
  then have "m OR push_bit 52 (of_nat e) = of_nat (unat m + e * 2 ^ 52)" unfolding e by (metis of_nat_unat ucast_id)
  then show "push_bit 52 (of_nat e) OR m = f_make False e (unat m)"
    by (simp add: f_make_def or.commute add.commute)
  have u: "unat (f_make False e (unat m)) = e * 2 ^ 52 + unat m"
    unfolding f_make_def by (subst unat_of_nat_64) (use lt in simp_all)
  have "unat (f_make False e (unat m) OR push_bit 63 1) = unat (f_make False e (unat m)) + unat (1 :: u64) * 2 ^ 63"
    by (rule unat_or_push_bit; unfold u) (use lt in simp_all)
  then have "f_make False e (unat m) OR push_bit 63 1 = of_nat (2 ^ 63 + (e * 2 ^ 52 + unat m))"
    unfolding u by (metis add.commute mult_1 of_nat_unat ucast_id unsigned_1)
  then show "f_make False e (unat m) OR push_bit 63 1 = f_make True e (unat m)"
    by (simp add: f_make_def add.assoc)
qed

lemma atod_pack_exact:
  assumes n: "0 < n" "n < 2 ^ 53"
  defines "k \<equiv> floorlog 2 n - 1"
  shows "atod_pack (of_nat (n * 2 ^ (52 - k))) (int k + 1) = f_of_nat False n"
    "f_of_nat False n OR push_bit 63 1 = f_of_nat True n"
proof -
  note k = floorlog_exp [OF n, folded k_def]
  note sb = shifted_bounds [OF k(2,3,1)]
  define m :: u64 where "m = of_nat (n * 2 ^ (52 - k))"
  have um: "unat m = n * 2 ^ (52 - k)" using sb(2) unfolding m_def by (subst unat_of_nat_64) simp_all
  have low: "unat (m AND (push_bit 52 1 - 1)) = n * 2 ^ (52 - k) - 2 ^ 52"
  proof -
    have "m AND (push_bit 52 1 - 1) = m AND mask 52" by (simp add: mask_eq_exp_minus_1)
    then have "unat (m AND (push_bit 52 1 - 1)) = (n * 2 ^ (52 - k)) mod 2 ^ 52" by (simp only: unat_and_mask um)
    also have "\<dots> = n * 2 ^ (52 - k) - 2 ^ 52"
      by (subst le_mod_geq [OF sb(1)], subst mod_less) (use sb in simp_all)
    finally show ?thesis .
  qed
  have f: "f_of_nat s n = f_make s (1023 + k) (unat (m AND (push_bit 52 1 - 1)))" for s
    unfolding low using n(1) k(1) by (simp add: f_of_nat_def Let_def k_def)
  have lt: "unat (m AND (push_bit 52 1 - 1)) < 2 ^ 52" unfolding low using sb by simp
  have e: "1023 + k < 2048" using k(1) by simp
  have "m \<noteq> 0" using um sb(1) by auto
  then have "atod_pack m (int k + 1) = push_bit 52 (of_int (int (1023 + k))) OR (m AND (push_bit 52 1 - 1))"
    using k(1) by (simp add: atod_pack_def algebra_simps)
  then show "atod_pack (of_nat (n * 2 ^ (52 - k))) (int k + 1) = f_of_nat False n"
    unfolding m_def [symmetric] f by (simp only: of_int_of_nat_eq pack_fields(1) [OF e lt])
  show "f_of_nat False n OR push_bit 63 1 = f_of_nat True n"
    unfolding f by (rule pack_fields(2) [OF e lt])
qed

section \<open>The round trip of integers\<close>

lemma radix_shift_tables:
  "list_all (\<lambda>r. ctz32 (of_nat r) \<le> 5 \<and> (drop_bit (ctz32 (of_nat r)) (of_nat r :: u32) = 1 \<longrightarrow> ctz32 (of_nat r) \<noteq> 0))
   [2..<37]"
  by code_simp

lemma exponent_tables:
  "list_all (\<lambda>r. 199 \<le> max_exponent ! (r - 2) \<and> min_exponent ! (r - 2) \<le> - 208 \<and>
     atod_max_digits_table ! (r - 2) \<le> 80) [2..<37]"
  by (simp add: upt_rec_numeral max_exponent_def min_exponent_def atod_max_digits_table_def)

lemma radix_in: "2 \<le> r \<Longrightarrow> r \<le> 36 \<Longrightarrow> r \<in> set [2..<37]"
  by (simp only: set_upt atLeastLessThan_iff) simp

lemmas radix_shift_facts = radix_shift_tables [unfolded list_all_iff, rule_format, OF radix_in]
lemmas exponent_facts = exponent_tables [unfolded list_all_iff, rule_format, OF radix_in]


lemma atod_value_exact:
  assumes r: "2 \<le> r" "r \<le> 36" and a: "lastnz num" "mp_val num = n" and n: "0 < n" "n < 2 ^ 53"
    and dc: "dc \<le> 80"
  defines "sh \<equiv> ctz32 (of_nat r)"
  defines "r1 \<equiv> drop_bit sh (of_nat r)"
  shows "atod_value r r1 sh (if r1 = 1 then sh else 0) num dc 0 0 False = f_of_nat False n"
proof -
  note sf = radix_shift_facts [OF r, folded sh_def, folded r1_def] and ef = exponent_facts [OF r]
  note rd = round_to_d_exact [OF a n] and pk = atod_pack_exact(1) [OF n]
  show ?thesis
  proof (cases "r1 = 1")
    case True
    then have sh: "0 < sh" "sh \<le> 5" using sf by auto
    have lt: "dc * sh \<le> 80 * 5" using dc sh by (intro mult_mono) simp_all
    have top: "sint (of_nat dc * of_nat sh :: s32) = int (dc * sh)"
      using sint_of_nat_small [of "dc * sh"] lt by simp
    have "int (dc * sh) \<le> int (80 * 5)" using lt by (rule of_nat_mono)
    moreover have "0 \<le> int (dc * sh)" by (rule of_nat_0_le_iff)
    ultimately have "\<not> 1024 + int sh \<le> int (dc * sh)" "\<not> int (dc * sh) \<le> - 1075" by linarith+
    then show ?thesis using True sh rd pk top by (simp add: atod_value_def Let_def)
  next
    case False
    have top: "sint (of_nat dc :: s32) = int dc"
      by (rule sint_of_nat_small) (use dc in simp)
    have mp: "mul_pow num r1 sh 0 False 55 = (num, 0)"
      using False by (simp add: mul_pow_def Let_def mul_pow_up.simps)
    show ?thesis using False ef dc rd pk
      by (simp add: atod_value_def Let_def top mul_pow_round_to_d_def mp)
  qed
qed


lemma atod_prefix_digits:
  assumes "0 < d" "d < 36" "chr s p = digit d"
  shows "\<exists>sep. sep_ok sep \<and> atod_prefix s p r flags = Atod_digits p r sep"
proof -
  have "strstart (drop p s) (0x49 # q) = None" for q
    using assms(3) digit_not(3) [OF assms(2)] by (cases "drop p s") (auto simp: chr_def hd_drop_conv_nth [symmetric] split: if_splits)
  then show ?thesis
    using assms digit_zero [OF assms(2)] by (simp add: atod_prefix_def sep_ok_def Let_def)
qed

lemma atod_body_digits:
  assumes r: "2 \<le> r" "r \<le> 36" and n: "0 < n" "n < 2 ^ 53" and sep: "sep_ok sep"
    and s: "drop p s = map digit (digits r n)" "p \<le> length s"
  shows "atod_body s p r flags sep p = Inr (f_of_nat False n, length s)"
proof -
  let ?ds = "digits r n" and ?M = "atod_max_digits_table ! (r - 2)"
  note tf = radix_facts [OF r]
  have r1: "1 < r" using r by simp
  have len: "length ?ds \<le> ?M"
    by (rule digits_length [OF r1]) (use n tf(4) exponent_facts [OF r] in \<open>auto intro: Suc_lessD gr0I\<close>)
  obtain d ds where ds: "?ds = d # ds" and d: "d \<noteq> 0" using digits_hd [OF r1 n(1)] by (cases ?ds) auto
  have dr: "\<forall>d \<in> set ?ds. d < r" using digits_less [OF r1] by blast
  then have d36: "d < 36" using r ds by auto
  have "drop p s = digit d # map digit ds" using s(1) ds by simp
  note c = chr_drop [OF this]
  have z: "atod_zeros s p r flags sep p 0 (-1) = Some (p, 0, -1)"
    by (subst atod_zeros.simps)
      (use c d d36 in \<open>simp add: atod_dot_def digit_not is_sep_digit [OF sep] digit_zero\<close>)
  let ?a0 = "\<lparr>cur_limb = 0, limb_digit_count = 0, digit_count = 0, extra_digits = 0, acc_num = [0]\<rparr>"
  have "acc_ok r ?a0 0 0" using tf(1) by (simp add: acc_ok_def)
  from atod_number_digits [OF r sep s(1) dr this, of p flags 0 "-1"] len s(2)
  obtain acc where acc: "atod_number s p r flags sep p 0 (-1) ?a0 = Some (length s, int (length ?ds), -1, acc)"
    "acc_ok r acc n (length ?ds)"
    by (auto simp: digits_value [OF r1])
  have e: "atod_expn s p r rb flags sep (length s) = Inr (length s, 0, False, False, False)" for rb
    by (simp add: atod_expn_def chr_end Let_def)
  define num where "num = (if limb_digit_count acc \<noteq> 0
     then mpb_mul1_base (acc_num acc) (ucast (pow_ui (of_nat r) (of_nat (limb_digit_count acc)))) (cur_limb acc)
     else acc_num acc)"
  let ?l = "limb_digit_count acc" and ?D = "digits_per_limb_table ! (r - 2)"
  have ok: "lastnz (acc_num acc)" "unat (cur_limb acc) < r ^ ?l" "?l < ?D" "digit_count acc = length ?ds"
    "extra_digits acc = 0" "mp_val (acc_num acc) * r ^ ?l + unat (cur_limb acc) = n"
    using acc(2) unfolding acc_ok_def by blast+
  have num: "lastnz num" "mp_val num = n"
  proof -
    have "r ^ ?l < r ^ ?D" using ok(3) r1 by (rule power_strict_increasing)
    then have b: "r ^ ?l < 2 ^ 32" "0 < r ^ ?l" using tf(2) r by (blast intro: less_le_trans, simp)
    have "?D \<le> 32"
    proof (rule ccontr)
      assume "\<not> ?D \<le> 32"
      then have "(2::nat) ^ 33 \<le> 2 ^ ?D" by (intro power_increasing) simp_all
      also have "\<dots> \<le> r ^ ?D" using r by (intro power_mono) simp_all
      finally show False using tf(2) by simp
    qed
    then have u: "unat (of_nat r :: u32) = r" "unat (of_nat ?l :: u32) = ?l"
      using r ok(3) by (simp_all add: unat_of_nat)
    have "unat (pow_ui (of_nat r) (of_nat ?l)) = r ^ ?l"
      using pow_ui_unat [of "of_nat r" "of_nat ?l"] b(1) by (simp only: u) simp
    then have "ucast (pow_ui (of_nat r) (of_nat ?l)) = (of_nat (r ^ ?l) :: limb)"
      by (simp only: word_unat_eq_iff unat_ucast_mod unat_of_nat)
    then have *: "num = (if ?l \<noteq> 0 then mpb_mul1_base (acc_num acc) (of_nat (r ^ ?l)) (cur_limb acc) else acc_num acc)"
      unfolding num_def by simp
    note m = mpb_mul1_base_val [OF ok(1) b(2) less_imp_le [OF b(1)] ok(2)]
    show "lastnz num" "mp_val num = n" unfolding * using ok m
      by (cases "?l = 0"; simp del: lastnz.simps of_nat_power)+
  qed
  have "length ?ds \<noteq> 0" using ds by simp
  moreover have "length ?ds \<le> 80" using len exponent_facts [OF r] by simp
  moreover have "length s \<noteq> p" using c by simp
  ultimately show ?thesis
    using atod_value_exact [OF r num n, of "length ?ds"]
    unfolding atod_body_def Let_def z acc(1) option.case prod.case num_def [symmetric] ok(4,5) e sum.case
    by simp
qed

lemma js_dtoa_integer:
  assumes n: "0 < n" "n < 2 ^ 53" and fl: "flags AND JS_DTOA_FORMAT_MASK = JS_DTOA_FORMAT_FREE"
    "flags AND JS_DTOA_EXP_MASK \<noteq> JS_DTOA_EXP_ENABLED"
  shows "js_dtoa (f_of_nat s n) r nd flags = Some ((if s then [0x2d] else []) @ u64toa_radix (of_nat n) (of_nat r))"
proof -
  define k d where "k = floorlog 2 n - 1" and "d = f_of_nat s n"
  note k = floorlog_exp [OF n, folded k_def]
  note f = f_of_nat_fields [OF n, of s, folded k_def d_def]
  have e: "unat (drop_bit 52 d AND 0x7ff) = 1023 + k" by (simp only: unat_exp_field f(2))
  let ?m = "(d AND (push_bit 52 1 - 1)) OR push_bit 52 1"
  have m: "unat ?m = n * 2 ^ (52 - k)" by (simp only: unat_mantissa f(4))
  have en: "nat (53 - (int (1023 + k) - 1022)) = 52 - k" using k(1) by simp
  have dr: "drop_bit (52 - k) ?m = of_nat n"
  proof -
    have "unat (drop_bit (52 - k) ?m) = n" by (simp only: unat_drop_bit m) simp
    then show ?thesis by (metis of_nat_unat ucast_id)
  qed
  have "?m AND (push_bit (52 - k) 1 - 1) = ?m AND mask (52 - k)" by (simp add: mask_eq_exp_minus_1 push_bit_eq_mult)
  moreover have "unat (?m AND mask (52 - k)) = 0" by (simp only: unat_and_mask m) simp
  ultimately have mk: "?m AND (push_bit (52 - k) 1 - 1) = 0" by (simp add: unat_eq_zero)
  have c: "(int (1023 + k) = 0x7ff) = False" "(int (1023 + k) = 0) = False"
    "(int (1023 + k) - 1022 \<ge> 1) = True" "(int (1023 + k) - 1022 \<le> 53) = True" using k(1) by simp_all
  show ?thesis
    unfolding d_def [symmetric] js_dtoa_def Let_def e c en if_False simp_thms dr mk
    using fl by (simp add: drop_63 f(1))
qed

lemma js_atod_integer:
  assumes r: "2 \<le> r" "r \<le> 36" and n: "0 < n" "n < 2 ^ 53"
  shows "js_atod ((if s then [0x2d] else []) @ map digit (digits r n)) r flags =
    (f_of_nat s n, of_bool s + length (digits r n))"
proof -
  let ?b = "map digit (digits r n)" and ?p = "of_bool s :: nat"
  define t where "t = (if s then [0x2d :: u8] else []) @ ?b"
  have r1: "1 < r" using r by simp
  obtain d ds where ds: "digits r n = d # ds" and d0: "0 < d"
    using digits_hd [OF r1 n(1)] by (cases "digits r n") auto
  have d: "d < 36" using digits_less [OF r1, of d n] ds r by simp
  have dp: "drop ?p t = ?b" "?p \<le> length t" "length t = of_bool s + length (digits r n)" by (simp_all add: t_def)
  have c: "chr t ?p = digit d" using chr_drop [of ?p t "digit d" "map digit ds"] dp ds by simp
  have c0: "chr t 0 = (if s then 0x2d else digit d)" using ds by (simp add: t_def chr_def)
  obtain sep where sep: "sep_ok sep" "atod_prefix t ?p r flags = Atod_digits ?p r sep"
    using atod_prefix_digits [OF d0 d c] by blast
  note b = atod_body_digits [OF r n sep(1) dp(1,2), of flags]
  have neg: "(chr t 0 = 0x2d) = s" and p: "(if chr t 0 = 0x2b \<or> s then 1 else 0) = ?p"
    using digit_not [OF d] by (auto simp: c0)
  have r0: "(if r = 0 then 10 else r) = r" using r by simp
  have "js_atod t r flags = (f_of_nat s n, length t)"
    unfolding js_atod_def Let_def neg p sep(2) atod_start.case r0 b sum.case prod.case
    using atod_pack_exact(2) [OF n] by simp
  then show ?thesis by (simp only: t_def [symmetric] dp(3))
qed

text \<open>
  C17: the round trip of integers: \<open>js_dtoa\<close> in the free format (any digit count, any flags but a
  forced exponent) prints a double that is a nonzero integer of magnitude below 2^53, in every radix
  from 2 to 36, as its digits after an optional minus, and \<open>js_atod\<close> in that radix, whatever its
  flags, reads the text back to the same 64 bits and stops at its end.
\<close>
theorem dtoa_atod_integer:
  assumes "2 \<le> r" "r \<le> 36" "0 < n" "n < 2 ^ 53"
    "flags AND JS_DTOA_FORMAT_MASK = JS_DTOA_FORMAT_FREE" "flags AND JS_DTOA_EXP_MASK \<noteq> JS_DTOA_EXP_ENABLED"
  shows "\<exists>text. js_dtoa (f_of_nat s n) r nd flags = Some text \<and>
    text = (if s then [0x2d] else []) @ map digit (digits r n) \<and>
    js_atod text r flags' = (f_of_nat s n, length text)"
proof -
  have "unat (of_nat r :: u32) = r" "unat (of_nat n :: u64) = n" using assms by (simp_all add: unat_of_nat)
  moreover from this have "2 \<le> (of_nat r :: u32)" "(of_nat r :: u32) \<le> 36" using assms by (simp_all add: word_le_nat_alt)
  ultimately have "u64toa_radix (of_nat n) (of_nat r) = map digit (digits r n)" by (simp add: u64toa_radix_digits)
  then show ?thesis
    using js_dtoa_integer [OF assms(3-6)] js_atod_integer [OF assms(1-4)] by auto
qed

theorem dtoa_atod_integer_witness:
  "\<exists>text. js_dtoa (f_of_nat True 255) 16 0 0 = Some text \<and> text = [0x2d] @ map digit (digits 16 255) \<and>
    js_atod text 16 JS_ATOD_ACCEPT_UNDERSCORES = (f_of_nat True 255, length text)"
  using dtoa_atod_integer [of 16 255 0 True 0 JS_ATOD_ACCEPT_UNDERSCORES]
  by (simp add: JS_DTOA_FORMAT_MASK_def JS_DTOA_FORMAT_FREE_def JS_DTOA_EXP_MASK_def JS_DTOA_EXP_ENABLED_def)

section \<open>Exponents at the end of their range\<close>

text \<open>The text 0.0000000000001e-... with the given digits of the exponent.\<close>

definition tiny_text :: "nat list \<Rightarrow> u8 list" where
  "tiny_text e = [0x30, 0x2e] @ replicate 12 0x30 @ [0x31, 0x65, 0x2d] @ map digit e"

text \<open>
  The exponent is limited to 2147483639 while its digits are read, but the digits after the point
  are subtracted from it afterwards without a test. When that leaves the 32 bit type, as for
  0.0000000000001e-2147483639, the result wraps to a large positive exponent and a number close to
  zero is read as infinity; one with an exponent ten times nearer to zero is read as 0.
\<close>
theorem atod_exponent_wraps:
  "js_atod (tiny_text [2,1,4,7,4,8,3,6,3,9]) 10 0 = (float_infinity, 27) \<and>
   js_atod (tiny_text [2,1,4,7,4,8,3,6,3]) 10 0 = (0, 26)"
  by code_simp

end
