(* ===== verification/JsAtoms.thy ===== *)
theory JsAtoms imports JsWtf8 DtoaInteger begin

text \<open>
  The table of unique strings (\<open>native/mquickjs/mquickjs.c\<close>, \<open>find_atom\<close>, \<open>js_is_numeric_string\<close>,
  \<open>JS_MakeUniqueString\<close>): a sorted array searched by bisection, into which a string is inserted after
  the test whether it is the canonical text of a number. The lemmas show that the search finds a
  string or its place, that short integers are recognised exactly in their canonical decimal form,
  and what happens when a collection shrinks the table between the search and the insertion.
\<close>

unbundle bit_operations_syntax

section \<open>Numeric strings\<close>

text \<open>
  The result is 1, 0, or -1 for an exception. The temporary array holds the work space of the
  conversions (37 and 27 words of 8 bytes), whose content does not matter.
\<close>

definition js_is_numeric_string :: "js_env \<Rightarrow> JSContext \<Rightarrow> JSValue \<Rightarrow> (JSContext \<times> int) option" where
  "js_is_numeric_string env ctx v =
     (case block_of ctx v of
        Some (MB_string p) \<Rightarrow>
          if str_buf p = [] \<or> \<not> is_ascii p then Some (ctx, 0)
          else let c = str_buf p ! 0 in
            if c = 0x2d \<and> length (str_buf p) = 1 then Some (ctx, 0)
            else if \<not> is_num (if c = 0x2d then str_buf p ! 1 else c) then Some (ctx, 0)
            else
              let (ctx1, tmp_arr) = js_alloc_byte_array env (JS_PushGCRef ctx v) (replicate (max (37 * 8) (27 * 8)) 0);
                  (ctx2, v2) = JS_PopGCRef ctx1 in
              (case (tmp_arr, block_of ctx2 v2) of
                 (None, _) \<Rightarrow> Some (ctx2, -1)
               | (Some tmp, Some (MB_string p2)) \<Rightarrow>
                   let (d, r) = js_atod (str_buf p2) 10 0 in
                   if r \<noteq> length (str_buf p2) then Some (js_free ctx2 tmp, 0)
                   else (case js_dtoa d 10 0 JS_DTOA_FORMAT_FREE of
                           None \<Rightarrow> None
                         | Some buf \<Rightarrow> Some (js_free ctx2 tmp, of_bool (buf = str_buf p2)))
               | _ \<Rightarrow> None)
      | _ \<Rightarrow> None)"

section \<open>The sorted table\<close>

text \<open>
  The search between \<open>a\<close> and \<open>b\<close>: the index with the string found, or the insertion point with
  \<open>JS_NULL\<close>. \<open>None\<close> is a read outside the array or of a value that is not a string.
\<close>

function find_atom_loop ::
  "JSContext \<Rightarrow> JSValue list \<Rightarrow> JSValue \<Rightarrow> int \<Rightarrow> int \<Rightarrow> (int \<times> JSValue) option" where
  "find_atom_loop ctx arr v a b =
     (if a \<le> b then
        let m = (a + b) div 2; val1 = arr ! nat m in
        if m < 0 \<or> int (length arr) \<le> m then None
        else case js_string_compare ctx v val1 of
            None \<Rightarrow> None
          | Some r \<Rightarrow> if r = 0 then Some (m, val1)
                      else if r < 0 then find_atom_loop ctx arr v a (m - 1)
                      else find_atom_loop ctx arr v (m + 1) b
      else Some (a, JS_NULL))"
  by pat_completeness auto
termination
  by (relation "measure (\<lambda>(ctx, arr, v, a, b). nat (b + 1 - a))") auto

declare find_atom_loop.simps [simp del]

definition find_atom :: "JSContext \<Rightarrow> JSValue list \<Rightarrow> nat \<Rightarrow> JSValue \<Rightarrow> (int \<times> JSValue) option" where
  "find_atom ctx arr len v = find_atom_loop ctx arr v 0 (int len - 1)"

text \<open>The tables of the program image, in order; the inner \<open>None\<close> when none has the string.\<close>

fun find_rom_atom :: "JSContext \<Rightarrow> JSValue list list \<Rightarrow> JSValue \<Rightarrow> JSValue option option" where
  "find_rom_atom ctx [] v = Some None"
| "find_rom_atom ctx (arr1 # tabs) v =
     (case find_atom ctx arr1 (length arr1) v of
        None \<Rightarrow> None
      | Some (a, val1) \<Rightarrow> if val1 \<noteq> JS_NULL then Some (Some val1) else find_rom_atom ctx tabs v)"

definition unique_table :: "JSContext \<Rightarrow> JSValue list option" where
  "unique_table ctx = (if unique_strings ctx = JS_NULL then Some [] else value_array_of ctx (unique_strings ctx))"

text \<open>
  The insertion at \<open>a\<close>. The code moves \<open>unique_strings_len - a\<close> elements up; with \<open>a\<close> beyond the
  length that count is negative and the behaviour undefined, as it is when the array is too short.
\<close>

definition insert_atom :: "JSContext \<Rightarrow> JSValue \<Rightarrow> nat \<Rightarrow> bool \<Rightarrow> (JSContext \<times> JSValue) option" where
  "insert_atom ctx v a numeric =
     (case (value_array_of ctx (unique_strings ctx), block_of ctx v) of
        (Some arr, Some (MB_string p)) \<Rightarrow>
          let len = unique_strings_len ctx in
          if a > len \<or> len \<ge> length arr then None
          else Some (ctx\<lparr>heap := (heap ctx)
                 (val_ptr (unique_strings ctx) \<mapsto>
                    MB_value_array (take a arr @ v # drop a (take len arr) @ drop (len + 1) arr),
                  val_ptr v \<mapsto> MB_string (p\<lparr>is_unique := True, is_numeric := numeric\<rparr>)),
               unique_strings_len := len + 1\<rparr>, v)
      | _ \<Rightarrow> None)"

definition JS_MakeUniqueString :: "js_env \<Rightarrow> JSContext \<Rightarrow> JSValue \<Rightarrow> (JSContext \<times> JSValue) option" where
  "JS_MakeUniqueString env ctx v =
     (if \<not> JS_IsPtr v then Some (ctx, v)
      else case block_of ctx v of
        None \<Rightarrow> None
      | Some (MB_string p) \<Rightarrow>
          if is_unique p then Some (ctx, v)
          else
            (case find_rom_atom ctx (rom_atom_tables ctx) v of
               None \<Rightarrow> None
             | Some (Some val1) \<Rightarrow> Some (ctx, val1)
             | Some None \<Rightarrow>
                 (case Option.bind (unique_table ctx) (\<lambda>arr. find_atom ctx arr (unique_strings_len ctx) v) of
                    None \<Rightarrow> None
                  | Some (a, val1) \<Rightarrow>
                      if val1 \<noteq> JS_NULL then Some (ctx, val1)
                      else
                        (case js_is_numeric_string env (JS_PushGCRef ctx v) v of
                           None \<Rightarrow> None
                         | Some (ctx1, res) \<Rightarrow>
                             let (ctx2, v2) = JS_PopGCRef ctx1 in
                             if res < 0 then Some (ctx2, JS_EXCEPTION)
                             else
                               (case js_resize_value_array env (JS_PushGCRef ctx2 v2) (unique_strings ctx2)
                                       (unique_strings_len ctx2 + 1) of
                                  None \<Rightarrow> None
                                | Some (ctx3, new_tab) \<Rightarrow>
                                    let (ctx4, v4) = JS_PopGCRef ctx3 in
                                    if JS_IsException new_tab then Some (ctx4, JS_EXCEPTION)
                                    else insert_atom (ctx4\<lparr>unique_strings := new_tab\<rparr>) v4 (nat a) (res \<noteq> 0)))))
      | Some _ \<Rightarrow> Some (ctx, v))"

section \<open>Short integers in canonical decimal\<close>

lemma digits_unique:
  assumes "1 < r" shows "ds \<noteq> [] \<Longrightarrow> hd ds \<noteq> 0 \<Longrightarrow> \<forall>d \<in> set ds. d < r \<Longrightarrow>
    digits r (foldl (\<lambda>v d. v * r + d) 0 ds) = ds"
proof (induction ds rule: rev_induct)
  case (snoc d ds)
  show ?case
  proof (cases "ds = []")
    case True
    then show ?thesis using snoc.prems by (subst digits.simps) simp
  next
    case False
    define v where "v = foldl (\<lambda>v d. v * r + d) 0 ds"
    have v: "digits r v = ds" unfolding v_def using snoc False by simp
    have "v \<noteq> 0"
    proof
      assume "v = 0"
      then have "digits r v = [0]" using assms by (subst digits.simps) simp
      then show False using v snoc.prems False by simp
    qed
    then have "\<not> v * r + d < r" by (cases v) simp_all
    then have "digits r (v * r + d) = digits r ((v * r + d) div r) @ [(v * r + d) mod r]"
      using assms by (subst digits.simps) simp
    then show ?thesis using assms snoc.prems(3) by (simp add: v_def [symmetric] v)
  qed
qed simp

lemma foldl_ge: "1 \<le> r \<Longrightarrow> v \<le> foldl (\<lambda>v d. v * r + d) v ds" for v r :: nat
proof (induction ds arbitrary: v)
  case (Cons d ds)
  have "v \<le> v * r + d" using Cons.prems by (simp add: trans_le_add1)
  also have "\<dots> \<le> foldl (\<lambda>v d. v * r + d) (v * r + d) ds" by (rule Cons.IH) (use Cons.prems in simp)
  finally show ?case by simp
qed simp

lemma is_num_digit: "is_num c \<longleftrightarrow> (\<exists>d < 10. c = digit d)"
proof
  assume "is_num c"
  then have c: "48 \<le> unat c" "unat c \<le> 57" by (simp_all add: is_num_def word_le_nat_alt)
  then have "c = digit (unat c - 48)"
    using digit_below_10 [of "unat c - 48"] by (simp add: word_unat_eq_iff)
  then show "\<exists>d < 10. c = digit d" using c by (intro exI [of _ "unat c - 48"]) simp
qed (auto simp: is_num_def word_le_nat_alt digit_below_10)

lemma num_loop_digits:
  assumes "limit < 2 ^ 31"
  shows "unat n \<le> limit \<Longrightarrow> \<forall>d \<in> set ds. d < 10 \<Longrightarrow> num_loop limit n (map digit ds) =
    (let v = foldl (\<lambda>v d. v * 10 + d) (unat n) ds in if v \<le> limit then Some (of_nat v) else None)"
proof (induction ds arbitrary: n)
  case (Cons d ds)
  have d: "d < 10" using Cons.prems by simp
  define n64 :: u64 where "n64 = ucast n * 10 + (ucast (digit d) - 0x30)"
  have "ucast (digit d) - 0x30 = (of_nat d :: u64)"
    using d by (simp add: digit_decimal word_unat_eq_iff unat_sub word_le_nat_alt unat_ucast_mod unat_word_ariths unat_of_nat)
  then have u: "unat n64 = unat n * 10 + d"
    using d assms Cons.prems(1) by (simp add: n64_def unat_word_ariths unat_of_nat unat_ucast_mod)
  have num: "is_num (digit d)" using d is_num_digit by blast
  show ?case
  proof (cases "unat n * 10 + d \<le> limit")
    case True
    then have uc: "unat (ucast n64 :: u32) = unat n * 10 + d" using assms by (simp add: unat_ucast_mod u)
    have "num_loop limit n (map digit (d # ds)) = num_loop limit (ucast n64) (map digit ds)"
      using num True u by (simp add: Let_def n64_def)
    then show ?thesis using Cons.IH [of "ucast n64"] Cons.prems(2) True by (simp add: uc)
  next
    case False
    moreover have "unat n * 10 + d \<le> foldl (\<lambda>v d. v * 10 + d) (unat n * 10 + d) ds" by (rule foldl_ge) simp
    ultimately show ?thesis using num u by (simp add: Let_def n64_def)
  qed
qed (simp add: Let_def)

lemma num_loop_is_num: "num_loop limit n cs \<noteq> None \<Longrightarrow> \<forall>c \<in> set cs. is_num c"
  by (induction limit n cs rule: num_loop.induct) (auto simp: Let_def split: if_splits)

lemma num_bytes_digits: "\<forall>c \<in> set cs. is_num c \<Longrightarrow> \<exists>ds. cs = map digit ds \<and> (\<forall>d \<in> set ds. d < 10)"
proof (induction cs)
  case (Cons c cs)
  then obtain d ds where "c = digit d" "d < 10" "cs = map digit ds" "\<forall>d \<in> set ds. d < 10"
    by (auto simp: is_num_digit)
  then show ?case by (intro exI [of _ "d # ds"]) simp
qed simp

lemma digit_inj: "a < 36 \<Longrightarrow> b < 36 \<Longrightarrow> digit a = digit b \<Longrightarrow> a = b"
  using to_digit_digit by metis

text \<open>The digit loop accepts exactly the digits of the numbers up to the limit.\<close>

lemma num_loop_canonical:
  assumes L: "limit < 2 ^ 31" "9 \<le> limit" and c: "is_num c" "c \<noteq> 0x30"
  shows "num_loop limit (ucast c - 0x30) p = Some m \<longleftrightarrow>
    c # p = map digit (digits 10 (unat m)) \<and> 0 < unat m \<and> unat m \<le> limit"
proof -
  obtain d where d: "d < 10" "c = digit d" "d \<noteq> 0" using c digit_zero [of 0] by (auto simp: is_num_digit)
  have u: "unat (ucast c - 0x30 :: u32) = d"
    using d by (simp add: digit_decimal unat_sub word_le_nat_alt unat_ucast_mod unat_word_ariths unat_of_nat)
  have le: "unat (ucast c - 0x30 :: u32) \<le> limit" using u d(1) L(2) by simp
  note nl = num_loop_digits [OF L(1) le, unfolded u]
  have un: "unat (of_nat k :: u32) = k" if "k \<le> limit" for k using that L(1) by (simp add: unat_of_nat)
  show ?thesis
  proof
    assume n: "num_loop limit (ucast c - 0x30) p = Some m"
    then obtain ds where ds: "p = map digit ds" "\<forall>d \<in> set ds. d < 10"
      using num_bytes_digits [OF num_loop_is_num [of limit "ucast c - 0x30" p]] by auto
    define v where "v = foldl (\<lambda>v d. v * 10 + d) d ds"
    have v: "v \<le> limit" "m = of_nat v" using n nl [OF ds(2)] by (auto simp: ds(1) v_def Let_def split: if_splits)
    have "digits 10 (foldl (\<lambda>v d. v * 10 + d) 0 (d # ds)) = d # ds"
      by (rule digits_unique) (use d ds in auto)
    then have dg: "digits 10 v = d # ds" by (simp add: v_def)
    have "d \<le> v" unfolding v_def by (rule foldl_ge) simp
    then show "c # p = map digit (digits 10 (unat m)) \<and> 0 < unat m \<and> unat m \<le> limit"
      using v d ds(1) by (simp add: un dg)
  next
    assume m: "c # p = map digit (digits 10 (unat m)) \<and> 0 < unat m \<and> unat m \<le> limit"
    then obtain d' ds where ds: "digits 10 (unat m) = d' # ds" by (cases "digits 10 (unat m)") auto
    have l: "\<forall>x \<in> set (d' # ds). x < 10" using digits_less [of 10 _ "unat m"] unfolding ds [symmetric] by simp
    have "d' = d" using m ds l d by (intro digit_inj) auto
    moreover have "foldl (\<lambda>v d. v * 10 + d) 0 (d' # ds) = unat m" using digits_value [of 10 "unat m"] ds by simp
    ultimately have "foldl (\<lambda>v d. v * 10 + d) d ds = unat m" by simp
    moreover have "p = map digit ds" using m ds by simp
    ultimately show "num_loop limit (ucast c - 0x30) p = Some m"
      using nl [of ds] l m by (simp add: Let_def)
  qed
qed


lemma sint_u32:
  assumes "unat v = n" shows "sint (v :: u32) = (if n < 2 ^ 31 then int n else int n - 2 ^ 32)"
proof -
  have v: "v = of_nat n" using assms by (metis of_nat_unat ucast_id)
  have n: "n < 2 ^ 32" using assms u32_bound [of v] by simp
  show ?thesis
  proof (cases "n < 2 ^ 31")
    case False
    have "v = word_of_int (int n - 2 ^ 32)" by (simp add: v)
    then have "sint v = (int n - 2 ^ 32 + 2 ^ 31) mod 2 ^ 32 - 2 ^ 31" using int_word_sint [of "int n - 2 ^ 32", where 'a = 32] by simp
    also have "(int n - 2 ^ 32 + 2 ^ 31) mod 2 ^ 32 = int n - 2 ^ 32 + 2 ^ 31"
      using n False by (intro mod_pos_pos_trivial) simp_all
    finally show ?thesis using False by simp
  qed (simp add: v sint_of_nat_small)
qed

lemma short_nonneg: "0 \<le> sint v \<and> sint v \<le> JS_SHORTINT_MAX \<longleftrightarrow> unat v \<le> 2 ^ 30 - 1" for v :: u32
proof -
  obtain n where n: "unat v = n" by blast
  then have "n < 2 ^ 32" using u32_bound [of v] by simp
  then show ?thesis by (auto simp: sint_u32 [OF n] n JS_SHORTINT_MAX_def split: if_splits)
qed

lemma short_negative: "sint v < 0 \<and> JS_SHORTINT_MIN \<le> sint v \<longleftrightarrow> 0 < unat (- v) \<and> unat (- v) \<le> 2 ^ 30" for v :: u32
proof (cases "v = 0")
  case False
  obtain n where n: "unat v = n" by blast
  have "0 < n" "n < 2 ^ 32" using n False u32_bound [of v] by (auto simp: unat_eq_zero intro: gr0I)
  then have "unat (- v) = 2 ^ 32 - n"
  proof -
    have "(n + unat (- v)) mod 2 ^ 32 = 0" using unat_word_ariths(1) [of v "- v"] n by simp
    moreover have "n + unat (- v) < 2 * 2 ^ 32" using \<open>n < 2 ^ 32\<close> u32_bound [of "- v"] by linarith
    ultimately show ?thesis using \<open>0 < n\<close>
      by (cases "n + unat (- v) < 2 ^ 32") (simp_all add: le_mod_geq)
  qed
  then show ?thesis using \<open>n < 2 ^ 32\<close> \<open>0 < n\<close> by (auto simp: sint_u32 [OF n] JS_SHORTINT_MIN_def split: if_splits)
qed simp

lemma is_num_bytes_canonical:
  assumes "bs \<noteq> []"
  shows "is_num_bytes bs = Some v \<longleftrightarrow> bs = i32toa v \<and> JS_SHORTINT_MIN \<le> sint v \<and> sint v \<le> JS_SHORTINT_MAX"
proof -
  obtain b bs' where bs: "bs = b # bs'" using assms by (cases bs) auto
  have minus: "\<not> is_num 0x2d" by (simp add: is_num_def)
  have dg: "\<exists>d ds. u32toa n = digit d # ds \<and> d < 10 \<and> (d = 0 \<longrightarrow> n = 0)" for n :: u32
  proof -
    have "digits 10 (unat n) \<noteq> []" using digits.simps [of 10 "unat n"] by simp
    then obtain d ds where "digits 10 (unat n) = d # ds" by (cases "digits 10 (unat n)") auto
    moreover then have "d < 10" using digits_less [of 10 d "unat n"] by simp
    moreover have "d = 0 \<longrightarrow> n = 0"
      using digits_hd [of 10 "unat n"] calculation(1) by (cases "unat n = 0") (auto simp: unat_eq_zero)
    ultimately show ?thesis by (auto simp: u32toa_digits)
  qed
  have zero: "u32toa 0 = [0x30]" by (subst u32toa.simps) simp
  show ?thesis
  proof (cases "b = 0x2d")
    case True
    have nonneg: "bs \<noteq> u32toa n" for n
      using dg [of n] digit_not(5) True bs by force
    show ?thesis
    proof (cases "bs' = [] \<or> \<not> is_num (hd bs') \<or> hd bs' = 0x30")
      case no: True
      have "\<not> (bs = i32toa v \<and> sint v < 0)"
      proof
        assume a: "bs = i32toa v \<and> sint v < 0"
        obtain d ds where d: "u32toa (- v) = digit d # ds" "d < 10" "d = 0 \<longrightarrow> - v = 0" using dg by blast
        have "\<not> 0 \<le> sint v" using a by simp
        then have "i32toa v = 0x2d # u32toa (- v)" unfolding i32toa_def by (rule if_not_P)
        then have "bs' = digit d # ds" using a d(1) unfolding bs by simp
        moreover have "is_num (digit d)" using d(2) is_num_digit by blast
        ultimately have "d = 0" using no d(2) digit_zero [of d] by simp
        then show False using d(3) a by simp
      qed
      then show ?thesis using no True bs nonneg by (auto simp: is_num_bytes_def i32toa_def Let_def)
    next
      case False
      then obtain c p where p: "bs' = c # p" "is_num c" "c \<noteq> 0x30" by (cases bs') auto
      have "is_num_bytes bs = Some v \<longleftrightarrow> num_loop (nat JS_SHORTINT_MAX + 1) (ucast c - 0x30) p = Some (- v)"
        using True bs p by (auto simp: is_num_bytes_def Let_def split: option.splits)
      also have "\<dots> \<longleftrightarrow> bs' = u32toa (- v) \<and> 0 < unat (- v) \<and> unat (- v) \<le> 2 ^ 30"
        by (subst num_loop_canonical) (use p in \<open>simp_all add: JS_SHORTINT_MAX_def u32toa_digits\<close>)
      also have "\<dots> \<longleftrightarrow> bs' = u32toa (- v) \<and> sint v < 0 \<and> JS_SHORTINT_MIN \<le> sint v"
        by (simp only: short_negative)
      also have "\<dots> \<longleftrightarrow> bs = i32toa v \<and> JS_SHORTINT_MIN \<le> sint v \<and> sint v \<le> JS_SHORTINT_MAX"
        using True bs nonneg [of v] by (auto simp: i32toa_def JS_SHORTINT_MAX_def)
      finally show ?thesis .
    qed
  next
    case False
    have pos: "bs = i32toa v \<longleftrightarrow> 0 \<le> sint v \<and> bs = u32toa v" using False bs by (auto simp: i32toa_def)
    have min: "0 \<le> sint v \<Longrightarrow> JS_SHORTINT_MIN \<le> sint v" by (simp add: JS_SHORTINT_MIN_def)
    show ?thesis
    proof (cases "\<not> is_num b \<or> b = 0x30")
      case True
      obtain d ds where d: "u32toa v = digit d # ds" "d < 10" "d = 0 \<longrightarrow> v = 0" using dg by blast
      have "is_num (digit d)" using d(2) is_num_digit by blast
      have "bs = u32toa v \<longleftrightarrow> v = 0 \<and> bs = [0x30]"
      proof
        assume e: "bs = u32toa v"
        then have "b = digit d" using d(1) bs by simp
        then have "d = 0" using True \<open>is_num (digit d)\<close> digit_zero [of d] d(2) by simp
        then show "v = 0 \<and> bs = [0x30]" using d(3) e zero by simp
      qed (use zero in simp)
      moreover have "is_num_bytes bs = Some v \<longleftrightarrow> v = 0 \<and> bs = [0x30]"
        using True False bs by (auto simp: is_num_bytes_def Let_def is_num_def)
      ultimately show ?thesis by (auto simp: pos JS_SHORTINT_MIN_def JS_SHORTINT_MAX_def)
    next
      case num: False
      have "is_num_bytes bs = Some v \<longleftrightarrow> num_loop (nat JS_SHORTINT_MAX) (ucast b - 0x30) bs' = Some v"
        using num False bs by (auto simp: is_num_bytes_def Let_def split: option.splits)
      also have "\<dots> \<longleftrightarrow> bs = u32toa v \<and> 0 < unat v \<and> unat v \<le> 2 ^ 30 - 1"
        by (subst num_loop_canonical) (use num bs in \<open>simp_all add: JS_SHORTINT_MAX_def u32toa_digits\<close>)
      also have "\<dots> \<longleftrightarrow> bs = u32toa v \<and> unat v \<le> 2 ^ 30 - 1"
      proof -
        have "v \<noteq> 0" if "bs = u32toa v" using that num bs zero by auto
        then show ?thesis using unat_gt_0 [of v] by blast
      qed
      also have "\<dots> \<longleftrightarrow> bs = i32toa v \<and> JS_SHORTINT_MIN \<le> sint v \<and> sint v \<le> JS_SHORTINT_MAX"
        using min short_nonneg [of v] pos by blast
      finally show ?thesis .
    qed
  qed
qed

text \<open>
  C40: a property name is taken as a short integer exactly when it is the canonical decimal text of
  one (no leading zero, no minus zero, in the 31 bit range), and then as that integer.
\<close>
theorem is_num_string_canonical:
  assumes "get_string_ptr ctx s = Some p" "str_buf p \<noteq> []" "is_ascii p"
  shows "is_num_string ctx s = Some (Some v) \<longleftrightarrow>
    str_buf p = i32toa v \<and> JS_SHORTINT_MIN \<le> sint v \<and> sint v \<le> JS_SHORTINT_MAX"
proof -
  have "length (str_buf p) \<le> 11" if "str_buf p = i32toa v"
  proof -
    have "length (digits 10 (unat n)) \<le> 10" for n :: u32
      by (rule digits_length) (use u32_bound [of n] in simp_all)
    from this [of v] this [of "- v"] show ?thesis unfolding that by (simp add: i32toa_def u32toa_digits)
  qed
  then show ?thesis
    using assms is_num_bytes_canonical [OF assms(2)] by (auto simp: is_num_string_def)
qed

theorem is_num_string_canonical_witness:
  "is_num_string blank_ctx (JS_NewStringChar 0x37) = Some (Some 7)"
proof -
  have "get_string_ptr blank_ctx (JS_NewStringChar 0x37) =
      Some \<lparr>is_unique = False, is_ascii = True, is_numeric = False, str_buf = [0x37]\<rparr>"
    by (simp add: get_string_ptr_def get_short_string_def string_char_value unicode_to_utf8_def)
  moreover have "i32toa 7 = [0x37]" by (simp add: i32toa_def u32toa.simps)
  ultimately show ?thesis using is_num_string_canonical [of blank_ctx "JS_NewStringChar 0x37" _ 7]
    by (simp add: JS_SHORTINT_MIN_def JS_SHORTINT_MAX_def)
qed

section \<open>Searching a sorted table\<close>

text \<open>The laws a three way comparison promises to a bisection.\<close>

locale three_way =
  fixes cmp :: "'k \<Rightarrow> 'k \<Rightarrow> int"
  assumes cmp_zero: "cmp x y = 0 \<longleftrightarrow> x = y"
    and cmp_swap: "cmp y x = - cmp x y"
    and cmp_trans: "cmp x y < 0 \<Longrightarrow> cmp y z < 0 \<Longrightarrow> cmp x z < 0"
begin

lemma greater_before:
  assumes "sorted_wrt (\<lambda>x y. cmp x y < 0) ks" "m < length ks" "0 < cmp x (ks ! m)" "i \<le> m"
  shows "0 < cmp x (ks ! i)"
proof (cases "i = m")
  case False
  then have "cmp (ks ! i) (ks ! m) < 0" using assms by (auto simp: sorted_wrt_iff_nth_less)
  moreover have "cmp (ks ! m) x < 0" using assms(3) cmp_swap [of "ks ! m" x] by simp
  ultimately have "cmp (ks ! i) x < 0" by (rule cmp_trans)
  then show ?thesis using cmp_swap [of x "ks ! i"] by simp
qed (use assms in simp)

lemma less_after:
  assumes "sorted_wrt (\<lambda>x y. cmp x y < 0) ks" "i < length ks" "cmp x (ks ! m) < 0" "m \<le> i"
  shows "cmp x (ks ! i) < 0"
proof (cases "i = m")
  case False
  then have "cmp (ks ! m) (ks ! i) < 0" using assms by (auto simp: sorted_wrt_iff_nth_less)
  with assms(3) show ?thesis by (rule cmp_trans)
qed (use assms in simp)

lemma insert_at:
  assumes "sorted_wrt (\<lambda>x y. cmp x y < 0) ks" "a \<le> length ks"
    "\<forall>i < a. 0 < cmp x (ks ! i)" "\<forall>i. a \<le> i \<and> i < length ks \<longrightarrow> cmp x (ks ! i) < 0"
  shows "sorted_wrt (\<lambda>x y. cmp x y < 0) (take a ks @ x # drop a ks)" "x \<notin> set ks"
proof -
  have t: "cmp y x < 0" if y: "y \<in> set (take a ks)" for y
  proof -
    obtain i where i: "i < a" "y = ks ! i" using y assms(2) by (auto simp: in_set_conv_nth)
    then have "0 < cmp x y" using assms(3) by blast
    then show ?thesis using cmp_swap [of y x] cmp_swap [of x y] by linarith
  qed
  have d: "cmp x y < 0" if y: "y \<in> set (drop a ks)" for y
  proof -
    obtain i where "i < length ks - a" "y = ks ! (a + i)" using y assms(2) by (auto simp: in_set_conv_nth)
    then show ?thesis using assms(4) by simp
  qed
  show "sorted_wrt (\<lambda>x y. cmp x y < 0) (take a ks @ x # drop a ks)"
    using assms(1) t d cmp_trans by (auto simp: sorted_wrt_append sorted_wrt_take sorted_wrt_drop) blast
  have "cmp x y \<noteq> 0" if "y \<in> set ks" for y
  proof -
    have "y \<in> set (take a ks) \<union> set (drop a ks)" using that by (metis append_take_drop_id set_append)
    then show ?thesis using t [of y] d [of y] cmp_swap [of x y] by auto
  qed
  then show "x \<notin> set ks" using cmp_zero by blast
qed

end

interpretation text_order: three_way lex_compare
  by (unfold_locales; (rule lex_compare_order(1) | rule lex_compare_order(2) | erule (1) lex_compare_order(3)))

text \<open>A table of values whose texts are \<open>ks\<close>, strictly increasing.\<close>

definition sorted_texts :: "u32 list list \<Rightarrow> bool" where
  "sorted_texts ks \<longleftrightarrow> sorted_wrt (\<lambda>x y. lex_compare x y < 0) ks"

definition table_texts :: "JSContext \<Rightarrow> JSValue list \<Rightarrow> u32 list list \<Rightarrow> bool" where
  "table_texts ctx arr ks \<longleftrightarrow>
     length ks \<le> length arr \<and> (\<forall>i < length ks. has_text ctx (arr ! i) (ks ! i)) \<and> sorted_texts ks"

text \<open>What the search returns for the text \<open>x\<close>.\<close>

definition search_result :: "JSValue list \<Rightarrow> u32 list list \<Rightarrow> u32 list \<Rightarrow> int \<Rightarrow> JSValue \<Rightarrow> bool" where
  "search_result arr ks x a r \<longleftrightarrow>
     0 \<le> a \<and> nat a \<le> length ks \<and>
     (if x \<in> set ks then nat a < length ks \<and> ks ! nat a = x \<and> r = arr ! nat a
      else r = JS_NULL \<and> sorted_texts (take (nat a) ks @ x # drop (nat a) ks))"

lemma find_atom_loop_correct:
  assumes tab: "table_texts ctx arr ks" and v: "has_text ctx v x"
  shows "0 \<le> a \<Longrightarrow> a \<le> b + 1 \<Longrightarrow> b < int (length ks) \<Longrightarrow> \<forall>i < nat a. 0 < lex_compare x (ks ! i) \<Longrightarrow>
    \<forall>i. nat (b + 1) \<le> i \<and> i < length ks \<longrightarrow> lex_compare x (ks ! i) < 0 \<Longrightarrow>
    \<exists>m r. find_atom_loop ctx arr v a b = Some (m, r) \<and> search_result arr ks x m r"
proof (induction "nat (b + 1 - a)" arbitrary: a b rule: less_induct)
  case less
  note s = tab [unfolded table_texts_def sorted_texts_def]
  show ?case
  proof (cases "a \<le> b")
    case False
    then have ab: "a = b + 1" using less.prems by simp
    have "sorted_texts (take (nat a) ks @ x # drop (nat a) ks)" "x \<notin> set ks"
      using text_order.insert_at [of ks "nat a" x] s less.prems unfolding ab sorted_texts_def by auto
    then show ?thesis using less.prems False
      by (subst find_atom_loop.simps) (auto simp: search_result_def ab)
  next
    case True
    define m where "m = (a + b) div 2"
    have m: "a \<le> m" "m \<le> b" "0 \<le> m" "m < int (length arr)" "nat m < length ks"
      using True less.prems s by (auto simp: m_def)
    have hm: "has_text ctx (arr ! nat m) (ks ! nat m)" using s m by blast
    define c where "c = lex_compare x (ks ! nat m)"
    have cmp: "js_string_compare ctx v (arr ! nat m) = Some c"
      unfolding c_def by (rule js_string_compare_lex [OF v hm])
    have step: "find_atom_loop ctx arr v a b = (if c = 0 then Some (m, arr ! nat m)
        else if c < 0 then find_atom_loop ctx arr v a (m - 1) else find_atom_loop ctx arr v (m + 1) b)"
      using True m by (subst find_atom_loop.simps) (simp add: m_def [symmetric] cmp)
    consider "c = 0" | "c < 0" | "0 < c" by linarith
    then show ?thesis
    proof cases
      case 1
      then have "x = ks ! nat m" using lex_compare_order(1) c_def by simp
      then show ?thesis using 1 m by (auto simp: step search_result_def)
    next
      case 2
      have "\<forall>i. nat (m - 1 + 1) \<le> i \<and> i < length ks \<longrightarrow> lex_compare x (ks ! i) < 0"
        using text_order.less_after [of ks _ x "nat m"] s 2 unfolding c_def by auto
      then show ?thesis using less.hyps [of "m - 1" a] less.prems m 2 by (auto simp: step)
    next
      case 3
      have "\<forall>i < nat (m + 1). 0 < lex_compare x (ks ! i)"
        using text_order.greater_before [of ks "nat m" x] s 3 m unfolding c_def by (auto simp: nat_add_distrib less_Suc_eq_le)
      then show ?thesis using less.hyps [of b "m + 1"] less.prems m 3 by (auto simp: step)
    qed
  qed
qed

text \<open>
  C19: the bisection: in a sorted table the search returns the entry with the text of the string, and
  otherwise \<open>JS_NULL\<close> and the only place where inserting it keeps the table sorted.
\<close>
theorem find_atom_correct:
  assumes "table_texts ctx arr ks" "has_text ctx v x"
  shows "\<exists>a r. find_atom ctx arr (length ks) v = Some (a, r) \<and> search_result arr ks x a r"
  using find_atom_loop_correct [OF assms, of 0 "int (length ks) - 1"] by (simp add: find_atom_def)

theorem find_atom_correct_witness:
  "\<exists>a r. find_atom blank_ctx [JS_NewStringChar 0x61, JS_NewStringChar 0x1f600] 2 (JS_NewStringChar 0x62) =
      Some (a, r) \<and>
     search_result [JS_NewStringChar 0x61, JS_NewStringChar 0x1f600] [[0x61], [0x1f600]] [0x62] a r"
proof -
  have "table_texts blank_ctx [JS_NewStringChar 0x61, JS_NewStringChar 0x1f600] [[0x61], [0x1f600]]"
    by (auto simp: table_texts_def sorted_texts_def less_Suc_eq nth_Cons compare_code_points_def
        intro!: has_text_char split: nat.splits)
  moreover have "has_text blank_ctx (JS_NewStringChar 0x62) [0x62]" by (rule has_text_char) simp
  ultimately have "\<exists>a r. find_atom blank_ctx [JS_NewStringChar 0x61, JS_NewStringChar 0x1f600]
      (length [[0x61 :: u32], [0x1f600]]) (JS_NewStringChar 0x62) = Some (a, r) \<and>
     search_result [JS_NewStringChar 0x61, JS_NewStringChar 0x1f600] [[0x61], [0x1f600]] [0x62] a r"
    by (rule find_atom_correct)
  moreover have "length [[0x61 :: u32], [0x1f600]] = 2" by simp
  ultimately show ?thesis by (simp only:)
qed

section \<open>A collection between the search and the insertion\<close>

text \<open>
  A heap with the string \<open>1x\<close> at 64, the table at 96 with the single unique string \<open>0\<close> (at 80) that
  nothing else refers to, and \<open>limit\<close> as its end. The table holds its strings weakly: the collector
  drops it together with the dead string, as \<open>gc_mark_all\<close> does.
\<close>

definition plain_string :: "u8 list \<Rightarrow> bool \<Rightarrow> mblock" where
  "plain_string bs unique = MB_string \<lparr>is_unique = unique, is_ascii = True, is_numeric = unique, str_buf = bs\<rparr>"

definition weak_ctx :: "int \<Rightarrow> JSContext" where
  "weak_ctx limit = blank_ctx\<lparr>heap_base := 64, heap_free := 112, stack_bottom := limit, min_free_size := 0,
     heap := [64 \<mapsto> plain_string [0x31, 0x78] False, 80 \<mapsto> plain_string [0x30] True,
              96 \<mapsto> MB_value_array [ptr_val 80]],
     unique_strings := ptr_val 96, unique_strings_len := 1\<rparr>"

definition weak_env :: js_env where
  "weak_env = idle_env\<lparr>JS_GC := (\<lambda>c. c\<lparr>heap := (heap c)(80 := None, 96 := None), heap_free := 80,
     unique_strings := JS_NULL, unique_strings_len := 0\<rparr>)\<rparr>"

text \<open>
  \<open>JS_MakeUniqueString\<close> remembers the insertion index across \<open>js_is_numeric_string\<close>, which
  allocates. When that triggers a collection and the weak table shrinks, the index is beyond the new
  length: the count of elements to move is negative. With more free memory the same call succeeds.
\<close>
theorem stale_insertion_index:
  "find_atom (weak_ctx 400) [ptr_val 80] 1 (ptr_val 64) = Some (1, JS_NULL) \<and>
   map_option snd (JS_MakeUniqueString weak_env (weak_ctx 4096) (ptr_val 64)) = Some (ptr_val 64) \<and>
   JS_MakeUniqueString weak_env (weak_ctx 400) (ptr_val 64) = None"
  by code_simp

end
