(* ===== verification/JsProps.thy ===== *)
theory JsProps imports JsAlloc begin

text \<open>
  Property tables (\<open>native/mquickjs/mquickjs.c\<close>, \<open>find_own_property\<close> to \<open>js_create_property\<close> and
  \<open>JS_DeleteProperty\<close>). A table is one array of words: the number of properties, the hash mask, the
  hash buckets, then the entries of three words each: key, value, and a word with the next entry of
  the bucket in its low 30 bits and the kind of the property in the next two. Links are twice the
  index of the entry; the last entry, while it is free, holds the index of the first free one. The
  operations on the array come first, then those on objects in the heap. A read or write outside
  the array, or a walk that does not end, is \<open>None\<close>.
\<close>

unbundle bit_operations_syntax

section \<open>The words of an entry\<close>

definition JS_PROP_NORMAL :: u64 where "JS_PROP_NORMAL = 0"
definition JS_PROP_GETSET :: u64 where "JS_PROP_GETSET = 1"
definition JS_PROP_VARREF :: u64 where "JS_PROP_VARREF = 2"
definition JS_PROP_SPECIAL :: u64 where "JS_PROP_SPECIAL = 3"

definition prop_hash_next :: "u64 \<Rightarrow> u32" where
  "prop_hash_next w = ucast (w AND mask 30)"

definition set_hash_next :: "u64 \<Rightarrow> u32 \<Rightarrow> u64" where
  "set_hash_next w h = (w AND NOT (mask 30)) OR (ucast h AND mask 30)"

definition prop_type :: "u64 \<Rightarrow> u64" where
  "prop_type w = drop_bit 30 w AND 3"

definition set_prop_type :: "u64 \<Rightarrow> u64 \<Rightarrow> u64" where
  "set_prop_type w t = (w AND NOT (push_bit 30 3)) OR push_bit 30 (t AND 3)"

definition hash_prop :: "JSValue \<Rightarrow> u32" where
  "hash_prop prop = ucast ((prop div of_nat JSW) XOR (prop mod of_nat JSW))"

definition get_prop_hash_size_log2 :: "nat \<Rightarrow> nat" where
  "get_prop_hash_size_log2 prop_count =
     (if prop_count \<le> 1 then 0 else (32 - clz32 (of_nat (prop_count - 1))) - 1)"

definition hash_mask :: "JSValue list \<Rightarrow> nat" where
  "hash_mask arr = unat (JS_VALUE_GET_INT (arr ! 1))"

definition prop_count :: "JSValue list \<Rightarrow> nat" where
  "prop_count arr = unat (JS_VALUE_GET_INT (arr ! 0))"

text \<open>The index of the bucket of a key.\<close>

definition bucket :: "JSValue list \<Rightarrow> JSValue \<Rightarrow> nat" where
  "bucket arr prop = 2 + unat (hash_prop prop AND JS_VALUE_GET_INT (arr ! 1))"

section \<open>Lookup\<close>

partial_function (option) find_prop_loop :: "JSValue list \<Rightarrow> JSValue \<Rightarrow> u32 \<Rightarrow> nat option option" where
  "find_prop_loop arr prop idx =
     (if idx = 0 then Some None
      else let i = unat idx div 2 in
        if odd (unat idx) \<or> i + 2 \<ge> length arr then None
        else if arr ! i = prop then Some (Some i)
        else find_prop_loop arr prop (prop_hash_next (arr ! (i + 2))))"

declare find_prop_loop.simps [code]

text \<open>The index of the entry.\<close>

definition find_own_property :: "JSValue list \<Rightarrow> JSValue \<Rightarrow> nat option option" where
  "find_own_property arr prop =
     (if length arr < 3 \<or> bucket arr prop \<ge> length arr then None
      else find_prop_loop arr prop (ucast (arr ! bucket arr prop)))"

section \<open>Creation and rehashing\<close>

definition empty_entries :: "nat \<Rightarrow> JSValue list" where
  "empty_entries n = concat (replicate n [JS_UNINITIALIZED, JS_UNDEFINED, JS_UNDEFINED])"

text \<open>The content of a new table for \<open>n \<ge> 1\<close> properties; what the code leaves as \<open>JS_UNDEFINED\<close>.\<close>

definition alloc_props :: "nat \<Rightarrow> JSValue list" where
  "alloc_props n =
     (let hm = 2 ^ get_prop_hash_size_log2 n - 1; first_free = 2 + hm + 1;
          arr = [JS_NewShortInt 0, JS_NewShortInt (of_nat hm)] @ replicate (hm + 1) 0 @ empty_entries n;
          last = length arr - 1 in
      arr[last := set_hash_next (arr ! last) (of_nat (2 * first_free))])"

function rehash_loop :: "JSValue list \<Rightarrow> nat \<Rightarrow> nat \<Rightarrow> nat \<Rightarrow> nat \<Rightarrow> JSValue list option" where
  "rehash_loop arr hm count i j =
     (if j < count then
        let idx = 2 + (hm + 1) + 3 * i in
        if idx + 2 \<ge> length arr then None
        else if arr ! idx \<noteq> JS_UNINITIALIZED then
          let h = bucket arr (arr ! idx) in
          if h \<ge> length arr then None
          else rehash_loop (arr[idx + 2 := set_hash_next (arr ! (idx + 2)) (ucast (arr ! h)),
                                h := JS_NewShortInt (of_nat idx)]) hm count (i + 1) (j + 1)
        else rehash_loop arr hm count (i + 1) j
      else Some arr)"
  by pat_completeness auto
termination
  by (relation "measure (\<lambda>(arr, hm, count, i, j). length arr - (3 + hm + 3 * i))") auto

declare rehash_loop.simps [simp del]

definition rehash_props :: "JSValue list \<Rightarrow> JSValue list option" where
  "rehash_props arr =
     (let hm = hash_mask arr in
      if 2 + hm \<ge> length arr then None
      else rehash_loop (take 2 arr @ replicate (hm + 1) (JS_NewShortInt 0) @ drop (3 + hm) arr)
             hm (prop_count arr) 0 0)"

function compact_loop :: "JSValue list \<Rightarrow> nat \<Rightarrow> nat \<Rightarrow> nat \<Rightarrow> nat \<Rightarrow> nat \<Rightarrow> JSValue list option" where
  "compact_loop arr hm new_hm count i j =
     (if j < count then
        let src = 2 + (hm + 1) + 3 * i; dst = 2 + (new_hm + 1) + 3 * j in
        if src + 2 \<ge> length arr then None
        else if arr ! src \<noteq> JS_UNINITIALIZED then
          compact_loop (arr[dst := arr ! src, dst + 1 := arr ! (src + 1), dst + 2 := arr ! (src + 2)])
            hm new_hm count (i + 1) (j + 1)
        else compact_loop arr hm new_hm count (i + 1) j
      else Some arr)"
  by pat_completeness auto
termination
  by (relation "measure (\<lambda>(arr, hm, new_hm, count, i, j). length arr - (3 + hm + 3 * i))") auto

declare compact_loop.simps [simp del]

text \<open>The compacted table of \<open>prop_count > 0\<close> properties, before the array is shrunk to its size.\<close>

definition compact_size :: "JSValue list \<Rightarrow> nat \<times> nat" where
  "compact_size arr =
     (let new_hm = min (hash_mask arr) (2 ^ get_prop_hash_size_log2 (prop_count arr) - 1) in
      (new_hm, 2 + new_hm + 1 + 3 * prop_count arr))"

definition compact_props :: "JSValue list \<Rightarrow> JSValue list option" where
  "compact_props arr =
     (let (new_hm, new_size) = compact_size arr in
      compact_loop (arr[1 := JS_NewShortInt (of_nat new_hm)]) (hash_mask arr) new_hm (prop_count arr) 0 0)"

definition get_first_free :: "JSValue list \<Rightarrow> nat" where
  "get_first_free arr =
     (if arr ! (length arr - 3) = JS_UNINITIALIZED then unat (prop_hash_next (arr ! (length arr - 1))) div 2
      else length arr)"

text \<open>
  The room for one more entry in a table that is full: the sizes, and after the array has grown (its
  old content followed by words without meaning) the move of the entries when the hash table doubles.
\<close>

definition grown_mask :: "JSValue list \<Rightarrow> nat" where
  "grown_mask arr =
     (if prop_count arr + 1 > 2 * (hash_mask arr + 1) then 2 * (hash_mask arr + 1) - 1 else hash_mask arr)"

definition grow_props :: "JSValue list \<Rightarrow> nat \<Rightarrow> nat \<Rightarrow> (JSValue list \<times> nat) option" where
  "grow_props arr first_free new_hm =
     (let hm = hash_mask arr in
      if new_hm \<noteq> hm then
        (let d = new_hm - hm;
             moved = take (3 + new_hm) arr @ take (first_free - (3 + hm)) (drop (3 + hm) arr) @
                     drop (first_free + d) arr in
         if first_free + d > length arr then None
         else map_option (\<lambda>arr2. (arr2, first_free + d)) (rehash_props (moved[1 := JS_NewShortInt (of_nat new_hm)])))
      else Some (arr, first_free))"

definition mark_last_free :: "JSValue list \<Rightarrow> JSValue list" where
  "mark_last_free arr = arr[length arr - 3 := JS_UNINITIALIZED]"

text \<open>The new entry at \<open>first_free\<close>.\<close>

definition put_prop :: "JSValue list \<Rightarrow> nat \<Rightarrow> JSValue \<Rightarrow> JSValue list option" where
  "put_prop arr first_free prop =
     (let h = bucket arr prop in
      if first_free + 2 \<ge> length arr \<or> h \<ge> length arr then None
      else
        let arr1 = arr[first_free := prop, first_free + 1 := JS_UNDEFINED];
            w = set_hash_next (set_prop_type (arr ! (first_free + 2)) JS_PROP_NORMAL) (ucast (arr1 ! h));
            arr2 = arr1[first_free + 2 := w, h := JS_NewShortInt (of_nat first_free),
                        0 := JS_NewShortInt (of_nat (prop_count arr + 1))];
            next = first_free + 3; last = length arr - 1 in
        Some (if next < length arr then arr2[last := set_hash_next (arr2 ! last) (of_nat (2 * next))] else arr2))"

section \<open>Deletion\<close>

text \<open>The entry with the key and the one before it in its bucket, if any.\<close>

partial_function (option) find_unlink ::
  "JSValue list \<Rightarrow> JSValue \<Rightarrow> nat option \<Rightarrow> nat \<Rightarrow> (nat \<times> nat option) option option" where
  "find_unlink arr prop last_idx idx =
     (if idx = 0 then Some None
      else if idx + 2 \<ge> length arr then None
      else if arr ! idx = prop then Some (Some (idx, last_idx))
      else find_unlink arr prop (Some idx) (unat (prop_hash_next (arr ! (idx + 2))) div 2))"

declare find_unlink.simps [code]

fun lower_first_free :: "JSValue list \<Rightarrow> nat \<Rightarrow> nat \<Rightarrow> nat" where
  "lower_first_free arr bottom 0 = bottom"
| "lower_first_free arr bottom (Suc n) =
     (if arr ! (bottom + 3 * n) \<noteq> JS_UNINITIALIZED then bottom + 3 * Suc n else lower_first_free arr bottom n)"

definition unlink_prop :: "JSValue list \<Rightarrow> nat \<Rightarrow> nat \<Rightarrow> nat option \<Rightarrow> JSValue list" where
  "unlink_prop arr h idx last_idx =
     (let next = prop_hash_next (arr ! (idx + 2)) in
      case last_idx of
        Some l \<Rightarrow> arr[l + 2 := set_hash_next (arr ! (l + 2)) next]
      | None \<Rightarrow> arr[h := ucast next])"

definition delete_at :: "JSValue list \<Rightarrow> nat \<Rightarrow> nat \<Rightarrow> nat option \<Rightarrow> JSValue list" where
  "delete_at arr h idx last_idx =
     (let hm = hash_mask arr;
          arr1 = unlink_prop arr h idx last_idx;
          first_free = get_first_free arr1;
          arr2 = arr1[0 := JS_NewShortInt (of_nat (prop_count arr1 - 1)),
                      idx + 2 := set_prop_type (arr1 ! (idx + 2)) JS_PROP_NORMAL,
                      idx := JS_UNINITIALIZED, idx + 1 := JS_UNDEFINED];
          first_free1 = lower_first_free arr2 (3 + hm) ((first_free - (3 + hm)) div 3);
          last = length arr - 1 in
      if first_free1 < length arr then arr2[last := set_hash_next (arr2 ! last) (of_nat (2 * first_free1))]
      else arr2)"

section \<open>Objects\<close>

definition JS_IS_ROM_PTR :: "JSContext \<Rightarrow> nat \<Rightarrow> bool" where
  "JS_IS_ROM_PTR ctx a \<longleftrightarrow> a < ctx_addr ctx \<or> a \<ge> stack_top ctx"

definition set_obj_props :: "JSContext \<Rightarrow> JSValue \<Rightarrow> JSValue \<Rightarrow> JSContext" where
  "set_obj_props ctx obj v =
     (case the_object ctx obj of
        None \<Rightarrow> ctx
      | Some p \<Rightarrow> ctx\<lparr>heap := (heap ctx)(val_ptr obj \<mapsto> MB_object (p\<lparr>obj_props := v\<rparr>))\<rparr>)"

definition set_value_array :: "JSContext \<Rightarrow> JSValue \<Rightarrow> JSValue list \<Rightarrow> JSContext" where
  "set_value_array ctx v arr = ctx\<lparr>heap := (heap ctx)(val_ptr v \<mapsto> MB_value_array arr)\<rparr>"

definition props_of :: "JSContext \<Rightarrow> JSValue \<Rightarrow> JSValue list option" where
  "props_of ctx obj = Option.bind (the_object ctx obj) (\<lambda>p. value_array_of ctx (obj_props p))"

definition js_alloc_props :: "js_env \<Rightarrow> JSContext \<Rightarrow> nat \<Rightarrow> JSContext \<times> nat option" where
  "js_alloc_props env ctx n =
     (case js_alloc_value_array env ctx 0 (length (alloc_props n)) of
        (ctx1, None) \<Rightarrow> (ctx1, None)
      | (ctx1, Some a) \<Rightarrow> (set_value_array ctx1 (ptr_val a) (alloc_props n), Some a))"

definition js_rehash_props :: "JSContext \<Rightarrow> JSValue \<Rightarrow> bool \<Rightarrow> JSContext option" where
  "js_rehash_props ctx obj gc_rehash =
     (case the_object ctx obj of
        None \<Rightarrow> None
      | Some p \<Rightarrow>
          (case value_array_of ctx (obj_props p) of
             None \<Rightarrow> None
           | Some arr \<Rightarrow>
               if JS_IS_ROM_PTR ctx (val_ptr (obj_props p)) then Some ctx
               else if hash_mask arr = 0 \<and> gc_rehash then Some ctx
               else map_option (set_value_array ctx (obj_props p)) (rehash_props arr)))"

definition js_compact_props :: "JSContext \<Rightarrow> JSValue \<Rightarrow> JSContext option" where
  "js_compact_props ctx obj =
     (case the_object ctx obj of
        None \<Rightarrow> None
      | Some p \<Rightarrow>
          (case value_array_of ctx (obj_props p) of
             None \<Rightarrow> None
           | Some arr \<Rightarrow>
               if prop_count arr = 0 then Some (set_obj_props ctx obj (empty_props ctx))
               else let (new_hm, new_size) = compact_size arr in
                 if new_size \<ge> length arr then Some ctx
                 else Option.bind (compact_props arr) (\<lambda>arr1.
                      Option.bind (js_shrink_value_array (set_value_array ctx (obj_props p) arr1) (obj_props p) new_size)
                        (\<lambda>(ctx1, v). js_rehash_props (set_obj_props ctx1 obj v) obj False))))"

text \<open>The properties \<open>prototype\<close> and \<open>constructor\<close> of objects in ROM; out of range is \<open>JS_NULL\<close> here.\<close>

definition get_special_prop :: "JSContext \<Rightarrow> JSValue \<Rightarrow> JSValue" where
  "get_special_prop ctx v =
     (let idx = sint (JS_VALUE_GET_INT v); nth0 = (\<lambda>xs i. if i < length xs then xs ! i else JS_NULL) in
      if idx \<ge> 0 then nth0 (class_proto ctx) (nat idx) else nth0 (class_obj ctx) (nat (- idx - 1)))"

definition convert_special :: "JSContext \<Rightarrow> JSValue list \<Rightarrow> nat \<Rightarrow> JSValue list" where
  "convert_special ctx arr idx =
     (if prop_type (arr ! (idx + 2)) = JS_PROP_SPECIAL then
        arr[idx + 1 := get_special_prop ctx (arr ! (idx + 1)),
            idx + 2 := set_prop_type (arr ! (idx + 2)) JS_PROP_NORMAL]
      else arr)"

text \<open>The boolean is false on an exception; the failed assertion is \<open>None\<close>.\<close>

definition js_update_props :: "js_env \<Rightarrow> JSContext \<Rightarrow> JSValue \<Rightarrow> (JSContext \<times> bool) option" where
  "js_update_props env ctx obj =
     (case the_object ctx obj of
        None \<Rightarrow> None
      | Some p \<Rightarrow>
          if \<not> JS_IS_ROM_PTR ctx (val_ptr (obj_props p)) then Some (ctx, True)
          else (case value_array_of ctx (obj_props p) of
              None \<Rightarrow> None
            | Some arr \<Rightarrow>
                let (ctx1, r) = js_alloc_value_array env (JS_PushGCRef ctx obj) 0 (length arr);
                    (ctx2, obj1) = JS_PopGCRef ctx1 in
                (case r of
                   None \<Rightarrow> Some (ctx2, False)
                 | Some a \<Rightarrow>
                     if length arr \<noteq> 3 + hash_mask arr + 3 * prop_count arr then None
                     else Some (set_obj_props (set_value_array ctx2 (ptr_val a)
                            (fold (\<lambda>i arr1. convert_special ctx2 arr1 (3 + hash_mask arr + 3 * i))
                               [0..<prop_count arr] arr)) obj1 (ptr_val a), True))))"

text \<open>The address of the table and the index of the new entry, or \<open>None\<close> inside for an exception.\<close>

definition js_create_property ::
  "js_env \<Rightarrow> JSContext \<Rightarrow> JSValue \<Rightarrow> JSValue \<Rightarrow> (JSContext \<times> (JSValue \<times> nat) option) option" where
  "js_create_property env ctx obj prop =
     (let finish = (\<lambda>ctx v prop arr first_free.
            map_option (\<lambda>arr1. (set_value_array ctx v arr1, Some (v, first_free))) (put_prop arr first_free prop)) in
      case the_object ctx obj of
        None \<Rightarrow> None
      | Some p \<Rightarrow>
          (case value_array_of ctx (obj_props p) of
             None \<Rightarrow> None
           | Some arr \<Rightarrow>
               if length arr < 3 then None
               else if arr ! (length arr - 3) = JS_UNINITIALIZED then
                 finish ctx (obj_props p) prop arr (get_first_free arr)
               else if obj_props p = empty_props ctx then
                 (let (ctx1, r) = js_alloc_props env (JS_PushGCRef (JS_PushGCRef ctx obj) prop) 1;
                      (ctx2, prop1) = JS_PopGCRef ctx1; (ctx3, obj1) = JS_PopGCRef ctx2 in
                  case r of
                    None \<Rightarrow> Some (ctx3, None)
                  | Some a \<Rightarrow> finish (set_obj_props ctx3 obj1 (ptr_val a)) (ptr_val a) prop1
                                (mark_last_free (alloc_props 1)) 3)
               else
                 (let new_hm = grown_mask arr; first_free = length arr;
                      new_size = first_free + 3 + (new_hm - hash_mask arr) in
                  case js_resize_value_array2 env (JS_PushGCRef (JS_PushGCRef ctx obj) prop) (obj_props p)
                         new_size (2 + new_hm + 1) of
                    None \<Rightarrow> None
                  | Some (ctx1, new_props) \<Rightarrow>
                      let (ctx2, prop1) = JS_PopGCRef ctx1; (ctx3, obj1) = JS_PopGCRef ctx2 in
                      if JS_IsException new_props then Some (ctx3, None)
                      else let ctx4 = set_obj_props ctx3 obj1 new_props in
                        Option.bind (value_array_of ctx4 new_props) (\<lambda>arr1.
                        Option.bind (grow_props arr1 first_free new_hm) (\<lambda>(arr2, first_free2).
                          finish ctx4 new_props prop1 (mark_last_free arr2) first_free2)))))"

definition JS_DEF_PROP_LOOKUP :: u32 where "JS_DEF_PROP_LOOKUP = 1"
definition JS_DEF_PROP_RET_VAL :: u32 where "JS_DEF_PROP_RET_VAL = 2"
definition JS_DEF_PROP_HAS_VALUE :: u32 where "JS_DEF_PROP_HAS_VALUE = 4"
definition JS_DEF_PROP_HAS_GET :: u32 where "JS_DEF_PROP_HAS_GET = 8"
definition JS_DEF_PROP_HAS_SET :: u32 where "JS_DEF_PROP_HAS_SET = 16"

text \<open>
  \<open>throw\<close> is \<open>JS_ThrowTypeError\<close>: the context with the exception. The roots pushed around an
  allocation come back in reverse order.
\<close>

definition with_roots :: "JSContext \<Rightarrow> JSValue list \<Rightarrow> (JSContext \<Rightarrow> JSContext \<times> 'a) \<Rightarrow> JSContext \<times> JSValue list \<times> 'a" where
  "with_roots ctx vs f =
     (let (ctx1, r) = f (foldl JS_PushGCRef ctx vs); n = length vs in
      (ctx1\<lparr>top_gc_ref := drop n (top_gc_ref ctx1)\<rparr>, rev (take n (top_gc_ref ctx1)), r))"

text \<open>
  The change of an existing property at index \<open>i\<close> of its table. The result is the context and whether
  the change is allowed; the getter pair of an object in ROM is copied first, which may fail with an
  exception (the inner \<open>None\<close>).
\<close>

definition modify_property ::
  "js_env \<Rightarrow> JSContext \<Rightarrow> JSValue \<Rightarrow> JSValue \<Rightarrow> JSValue \<Rightarrow> JSValue \<Rightarrow> u32 \<Rightarrow> nat \<Rightarrow> (JSContext \<times> bool option) option" where
  "modify_property env ctx obj prop v setter flags i =
     (case the_object ctx obj of
        None \<Rightarrow> None
      | Some p \<Rightarrow>
          (case value_array_of ctx (obj_props p) of
             None \<Rightarrow> None
           | Some tab \<Rightarrow>
               let kind = prop_type (tab ! (i + 2)) in
               if flags AND JS_DEF_PROP_HAS_VALUE \<noteq> 0 then
                 if kind = JS_PROP_NORMAL then
                   Some (set_value_array ctx (obj_props p) (tab[i + 1 := v]), Some True)
                 else if kind = JS_PROP_VARREF then
                   Some (ctx\<lparr>heap := (heap ctx)(val_ptr (tab ! (i + 1)) \<mapsto> MB_varref_detached v)\<rparr>, Some True)
                 else Some (ctx, Some False)
               else if flags AND (JS_DEF_PROP_HAS_GET OR JS_DEF_PROP_HAS_SET) \<noteq> 0 then
                 if kind \<noteq> JS_PROP_GETSET then Some (ctx, Some False)
                 else
                   let store = (\<lambda>ctx pair v setter arr.
                         set_value_array ctx pair
                           (let arr1 = (if flags AND JS_DEF_PROP_HAS_GET \<noteq> 0 then arr[0 := v] else arr) in
                            if flags AND JS_DEF_PROP_HAS_SET \<noteq> 0 then arr1[1 := setter] else arr1)) in
                   if JS_IS_ROM_PTR ctx (val_ptr (tab ! (i + 1))) then
                     (case with_roots ctx [obj, prop, v, setter] (\<lambda>c. js_alloc_value_array env c 0 2) of
                        (ctx1, roots, None) \<Rightarrow> Some (ctx1, None)
                      | (ctx1, roots, Some a) \<Rightarrow>
                          let obj1 = roots ! 0; prop1 = roots ! 1 in
                          Option.bind (the_object ctx1 obj1) (\<lambda>p1.
                          Option.bind (value_array_of ctx1 (obj_props p1)) (\<lambda>tab1.
                          case find_own_property tab1 prop1 of
                            Some (Some j) \<Rightarrow>
                              Option.bind (value_array_of ctx1 (tab1 ! (j + 1))) (\<lambda>arr.
                                let ctx2 = set_value_array ctx1 (obj_props p1) (tab1[j + 1 := ptr_val a]) in
                                Some (store ctx2 (ptr_val a) (roots ! 2) (roots ! 3) (take 2 arr), Some True))
                          | _ \<Rightarrow> None)))
                   else
                     Option.bind (value_array_of ctx (tab ! (i + 1))) (\<lambda>arr.
                       Some (store ctx (tab ! (i + 1)) v setter arr, Some True))
               else Some (ctx, Some True)))"

text \<open>
  The value and the kind a new property is stored with: a getter pair, a variable reference for the
  global object, or the value itself. The inner \<open>None\<close> is an exception.
\<close>

definition new_prop_value ::
  "js_env \<Rightarrow> JSContext \<Rightarrow> JSValue \<Rightarrow> JSValue \<Rightarrow> JSValue \<Rightarrow> JSValue \<Rightarrow> u32 \<Rightarrow>
   JSContext \<times> JSValue \<times> JSValue \<times> (JSValue \<times> u64) option" where
  "new_prop_value env ctx obj prop v setter flags =
     (if flags AND (JS_DEF_PROP_HAS_GET OR JS_DEF_PROP_HAS_SET) \<noteq> 0 then
        (case with_roots ctx [obj, prop, v, setter] (\<lambda>c. js_alloc_value_array env c 0 2) of
           (ctx1, roots, None) \<Rightarrow> (ctx1, obj, prop, None)
         | (ctx1, roots, Some a) \<Rightarrow>
             (set_value_array ctx1 (ptr_val a) [roots ! 2, roots ! 3], roots ! 0, roots ! 1,
              Some (ptr_val a, JS_PROP_GETSET)))
      else if obj = global_obj ctx then
        (case with_roots ctx [obj, prop, v] (\<lambda>c. js_malloc env c 16 (MB_varref_detached v)) of
           (ctx1, roots, None) \<Rightarrow> (ctx1, obj, prop, None)
         | (ctx1, roots, Some a) \<Rightarrow>
             (ctx1\<lparr>heap := (heap ctx1)(a \<mapsto> MB_varref_detached (roots ! 2))\<rparr>, roots ! 0, roots ! 1,
              Some (ptr_val a, JS_PROP_VARREF)))
      else (ctx, obj, prop, Some (v, JS_PROP_NORMAL)))"

definition JS_DefinePropertyInternal ::
  "js_env \<Rightarrow> (JSContext \<Rightarrow> JSContext) \<Rightarrow> JSContext \<Rightarrow> JSValue \<Rightarrow> JSValue \<Rightarrow> JSValue \<Rightarrow> JSValue \<Rightarrow> u32 \<Rightarrow>
   (JSContext \<times> JSValue) option" where
  "JS_DefinePropertyInternal env throw ctx obj0 prop0 v0 setter0 flags =
     (let (ctx1, roots, ok) = (case js_update_props env (foldl JS_PushGCRef ctx [obj0, prop0, v0, setter0]) obj0 of
            None \<Rightarrow> (ctx, [], None)
          | Some (c, b) \<Rightarrow> (c\<lparr>top_gc_ref := drop 4 (top_gc_ref c)\<rparr>, rev (take 4 (top_gc_ref c)), Some b));
          obj = roots ! 0; prop = roots ! 1; v = roots ! 2; setter = roots ! 3 in
      case ok of
        None \<Rightarrow> None
      | Some False \<Rightarrow> Some (ctx1, JS_EXCEPTION)
      | Some True \<Rightarrow>
          (case (if flags AND JS_DEF_PROP_LOOKUP \<noteq> 0
                 then Option.bind (props_of ctx1 obj) (\<lambda>arr. find_own_property arr prop) else Some None) of
             None \<Rightarrow> None
           | Some (Some i) \<Rightarrow>
               (case modify_property env ctx1 obj prop v setter flags i of
                  None \<Rightarrow> None
                | Some (ctx2, None) \<Rightarrow> Some (ctx2, JS_EXCEPTION)
                | Some (ctx2, Some False) \<Rightarrow> Some (throw ctx2, JS_EXCEPTION)
                | Some (ctx2, Some True) \<Rightarrow>
                    if flags AND JS_DEF_PROP_RET_VAL \<noteq> 0
                    then map_option (\<lambda>arr. (ctx2, arr ! (i + 1))) (props_of ctx2 obj)
                    else Some (ctx2, JS_UNDEFINED))
           | Some None \<Rightarrow>
               (case new_prop_value env ctx1 obj prop v setter flags of
                  (ctx2, obj2, prop2, None) \<Rightarrow> Some (ctx2, JS_EXCEPTION)
                | (ctx2, obj2, prop2, Some (v2, kind)) \<Rightarrow>
                    (case js_create_property env (JS_PushGCRef ctx2 v2) obj2 prop2 of
                       None \<Rightarrow> None
                     | Some (ctx3, r) \<Rightarrow>
                         let (ctx4, v4) = JS_PopGCRef ctx3 in
                         (case r of
                            None \<Rightarrow> Some (ctx4, JS_EXCEPTION)
                          | Some (t, i) \<Rightarrow>
                              map_option (\<lambda>arr. (set_value_array ctx4 t
                                    (arr[i + 1 := v4, i + 2 := set_prop_type (arr ! (i + 2)) kind]),
                                  if flags AND JS_DEF_PROP_RET_VAL \<noteq> 0 then v4 else JS_UNDEFINED))
                                (value_array_of ctx4 t))))))"

definition JS_DefinePropertyValue ::
  "js_env \<Rightarrow> (JSContext \<Rightarrow> JSContext) \<Rightarrow> JSContext \<Rightarrow> JSValue \<Rightarrow> JSValue \<Rightarrow> JSValue \<Rightarrow> (JSContext \<times> JSValue) option" where
  "JS_DefinePropertyValue env throw ctx obj prop v =
     JS_DefinePropertyInternal env throw ctx obj prop v JS_NULL (JS_DEF_PROP_LOOKUP OR JS_DEF_PROP_HAS_VALUE)"

definition JS_DefinePropertyGetSet ::
  "js_env \<Rightarrow> (JSContext \<Rightarrow> JSContext) \<Rightarrow> JSContext \<Rightarrow> JSValue \<Rightarrow> JSValue \<Rightarrow> JSValue \<Rightarrow> JSValue \<Rightarrow> u32 \<Rightarrow>
   (JSContext \<times> JSValue) option" where
  "JS_DefinePropertyGetSet env throw ctx obj prop getter setter flags =
     JS_DefinePropertyInternal env throw ctx obj prop getter setter (JS_DEF_PROP_LOOKUP OR flags)"

definition add_global_var ::
  "js_env \<Rightarrow> (JSContext \<Rightarrow> JSContext) \<Rightarrow> (JSContext \<Rightarrow> JSContext) \<Rightarrow> JSContext \<Rightarrow> JSValue \<Rightarrow> bool \<Rightarrow>
   (JSContext \<times> JSValue) option" where
  "add_global_var env throw throw_ref ctx prop define_flag =
     (case props_of ctx (global_obj ctx) of
        None \<Rightarrow> None
      | Some arr \<Rightarrow>
          (case find_own_property arr prop of
             None \<Rightarrow> None
           | Some (Some i) \<Rightarrow>
               if prop_type (arr ! (i + 2)) \<noteq> JS_PROP_VARREF then Some (throw_ref ctx, JS_EXCEPTION)
               else let pv = arr ! (i + 1) in
                 if define_flag \<and> block_of ctx pv = Some (MB_varref_detached JS_UNINITIALIZED)
                 then Some (ctx\<lparr>heap := (heap ctx)(val_ptr pv \<mapsto> MB_varref_detached JS_UNDEFINED)\<rparr>, pv)
                 else Some (ctx, pv)
           | Some None \<Rightarrow>
               JS_DefinePropertyInternal env throw ctx (global_obj ctx) prop
                 (if define_flag then JS_UNDEFINED else JS_UNINITIALIZED) JS_NULL
                 (JS_DEF_PROP_RET_VAL OR JS_DEF_PROP_HAS_VALUE)))"

text \<open>The walk along the prototypes.\<close>

partial_function (option) has_property_from :: "JSContext \<Rightarrow> JSValue \<Rightarrow> JSValue \<Rightarrow> bool option" where
  "has_property_from ctx obj prop =
     (case the_object ctx obj of
        None \<Rightarrow> None
      | Some p \<Rightarrow>
          (case Option.bind (value_array_of ctx (obj_props p)) (\<lambda>arr. find_own_property arr prop) of
             None \<Rightarrow> None
           | Some (Some i) \<Rightarrow> Some True
           | Some None \<Rightarrow> if obj_proto p = JS_NULL then Some False else has_property_from ctx (obj_proto p) prop))"

declare has_property_from.simps [code]

definition JS_HasProperty :: "JSContext \<Rightarrow> JSValue \<Rightarrow> JSValue \<Rightarrow> bool option" where
  "JS_HasProperty ctx obj prop =
     (if \<not> JS_IsPtr obj \<or> the_object ctx obj = None then Some False else has_property_from ctx obj prop)"

text \<open>\<open>prop\<close> is the property key after the conversion the function starts with.\<close>

definition JS_DeleteProperty :: "js_env \<Rightarrow> JSContext \<Rightarrow> JSValue \<Rightarrow> JSValue \<Rightarrow> (JSContext \<times> JSValue) option" where
  "JS_DeleteProperty env ctx this_obj prop =
     (if \<not> JS_IsPtr this_obj \<or> the_object ctx this_obj = None then Some (ctx, JS_TRUE)
      else case props_of ctx this_obj of
        None \<Rightarrow> None
      | Some arr \<Rightarrow>
          let h = bucket arr prop in
          if h \<ge> length arr then None
          else case find_unlink arr prop None (unat (JS_VALUE_GET_INT (arr ! h))) of
              None \<Rightarrow> None
            | Some None \<Rightarrow> Some (ctx, JS_TRUE)
            | Some (Some (idx, last_idx)) \<Rightarrow>
                (case js_update_props env (JS_PushGCRef ctx this_obj) this_obj of
                   None \<Rightarrow> None
                 | Some (ctx1, ok) \<Rightarrow>
                     let (ctx2, obj2) = JS_PopGCRef ctx1 in
                     if \<not> ok then Some (ctx2, JS_EXCEPTION)
                     else Option.bind (the_object ctx2 obj2) (\<lambda>p.
                          Option.bind (value_array_of ctx2 (obj_props p)) (\<lambda>arr2.
                            let arr3 = delete_at arr2 h idx last_idx;
                                ctx3 = set_value_array ctx2 (obj_props p) arr3 in
                            if 3 + hash_mask arr2 + 3 * prop_count arr2 < length arr2 div 2
                            then map_option (\<lambda>c. (c, JS_TRUE)) (js_compact_props ctx3 obj2)
                            else Some (ctx3, JS_TRUE)))))"

section \<open>The bit fields\<close>

named_theorems prop_bits

lemma hash_next_set [prop_bits]: "unat h < 2 ^ 30 \<Longrightarrow> prop_hash_next (set_hash_next w h) = h"
proof -
  assume "unat h < 2 ^ 30"
  then have "bit h n \<Longrightarrow> n < 30" for n using bit_unat_less [of h 30 n] by (meson not_less)
  then show ?thesis by (intro bit_word_eqI) (auto simp: prop_hash_next_def set_hash_next_def bit_simps)
qed

lemma prop_type_bit: "bit (prop_type w) n \<longleftrightarrow> n < 2 \<and> bit w (30 + n)"
proof -
  have "prop_type w = drop_bit 30 w AND mask 2" by (simp add: prop_type_def mask_eq_exp_minus_1)
  then show ?thesis by (auto simp: bit_simps dest: bit_imp_le_length)
qed

lemma type_set_next [prop_bits]: "prop_type (set_hash_next w h) = prop_type w"
  by (rule bit_word_eqI) (auto simp: prop_type_bit set_hash_next_def bit_simps)

lemma set_prop_type_mask: "set_prop_type w t = (w AND NOT (push_bit 30 (mask 2))) OR push_bit 30 (t AND mask 2)"
  by (simp add: set_prop_type_def mask_eq_exp_minus_1)

lemma hash_next_set_type [prop_bits]: "prop_hash_next (set_prop_type w t) = prop_hash_next w"
  by (rule bit_word_eqI) (auto simp: prop_hash_next_def set_prop_type_mask bit_simps)

lemma type_set [prop_bits]: "prop_type (set_prop_type w t) = t AND 3"
proof -
  have "prop_type (set_prop_type w t) = t AND mask 2"
    by (rule bit_word_eqI) (auto simp: prop_type_bit set_prop_type_mask bit_simps)
  then show ?thesis by (simp add: mask_eq_exp_minus_1)
qed

lemma short_int_word [prop_bits]: "ucast (JS_NewShortInt n) = push_bit 1 n" for n :: s32
proof -
  have "ucast (scast w :: u64) = w" for w :: s32 by (rule bit_word_eqI) (simp add: bit_simps)
  then show ?thesis by (simp add: JS_NewShortInt_def JS_TAG_INT_def)
qed

lemma short_int_nat [prop_bits]: "n < 2 ^ 30 \<Longrightarrow> JS_VALUE_GET_INT (JS_NewShortInt (of_nat n)) = of_nat n"
  by (rule conjunct1 [OF short_int_value])
    (simp_all add: sint_of_nat_small JS_SHORTINT_MIN_def JS_SHORTINT_MAX_def)

lemma push_bit_1_nat: "push_bit 1 (of_nat i :: u32) = of_nat (2 * i)"
  by (simp add: push_bit_eq_mult)

section \<open>Well formed tables\<close>

text \<open>Entry \<open>i\<close> of a table with hash mask \<open>hm\<close> starts at this index.\<close>

definition off :: "nat \<Rightarrow> nat \<Rightarrow> nat" where
  "off hm i = 3 + hm + 3 * i"

lemma off_simps [simp]:
  "off hm i = off hm j \<longleftrightarrow> i = j" "off hm i \<noteq> Suc (off hm j)" "off hm i \<noteq> Suc (Suc (off hm j))"
  "Suc (off hm i) \<noteq> off hm j" "Suc (Suc (off hm i)) \<noteq> off hm j" "Suc (off hm i) \<noteq> Suc (Suc (off hm j))"
  "Suc (Suc (off hm i)) \<noteq> Suc (off hm j)" "off hm i \<noteq> 0" "off hm i \<noteq> Suc 0"
  unfolding off_def by presburger+

definition slot :: "nat \<Rightarrow> JSValue \<Rightarrow> nat" where
  "slot hm k = unat (hash_prop k AND of_nat hm)"

lemma slot_le: "hm < 2 ^ 32 \<Longrightarrow> slot hm k \<le> hm"
proof -
  assume hm: "hm < 2 ^ 32"
  have "hash_prop k AND of_nat hm \<le> (of_nat hm :: u32)" by (simp add: word_and_le1 word_and_le2)
  then show ?thesis using hm by (simp add: slot_def word_le_nat_alt unat_of_nat)
qed

definition used_entries :: "JSValue list \<Rightarrow> nat \<Rightarrow> nat \<Rightarrow> nat set" where
  "used_entries arr hm u = {i. i < u \<and> arr ! off hm i \<noteq> JS_UNINITIALIZED}"

text \<open>\<open>cap\<close> entries fit, the first \<open>u\<close> are used, their keys that are not deleted are distinct.\<close>

definition props_core :: "JSValue list \<Rightarrow> nat \<Rightarrow> nat \<Rightarrow> nat \<Rightarrow> bool" where
  "props_core arr hm cap u \<longleftrightarrow>
     length arr = off hm cap \<and> length arr < 2 ^ 28 \<and> u \<le> cap \<and>
     JS_VALUE_GET_INT (arr ! 1) = of_nat hm \<and> JS_VALUE_GET_INT (arr ! 0) = of_nat (card (used_entries arr hm u)) \<and>
     inj_on (\<lambda>i. arr ! off hm i) (used_entries arr hm u)"

text \<open>The entries of one bucket, from the link that leads to them.\<close>

fun linked :: "JSValue list \<Rightarrow> nat \<Rightarrow> u32 \<Rightarrow> nat list \<Rightarrow> bool" where
  "linked arr hm w [] \<longleftrightarrow> w = 0"
| "linked arr hm w (i # is) \<longleftrightarrow>
     w = of_nat (2 * off hm i) \<and> linked arr hm (prop_hash_next (arr ! (off hm i + 2))) is"

definition bucket_ok :: "JSValue list \<Rightarrow> nat \<Rightarrow> nat set \<Rightarrow> nat \<Rightarrow> nat list \<Rightarrow> bool" where
  "bucket_ok arr hm entries h is \<longleftrightarrow>
     distinct is \<and> set is = {i \<in> entries. slot hm (arr ! off hm i) = h} \<and>
     linked arr hm (ucast (arr ! (2 + h))) is"

definition props_ok :: "JSValue list \<Rightarrow> nat \<Rightarrow> nat \<Rightarrow> nat \<Rightarrow> bool" where
  "props_ok arr hm cap u \<longleftrightarrow>
     props_core arr hm cap u \<and> get_first_free arr = off hm u \<and>
     (\<forall>h \<le> hm. \<exists>is. bucket_ok arr hm (used_entries arr hm u) h is)"

text \<open>The properties: the value and the kind of every key.\<close>

definition prop_map :: "JSValue list \<Rightarrow> nat \<Rightarrow> nat \<Rightarrow> JSValue \<Rightarrow> (JSValue \<times> u64) option" where
  "prop_map arr hm u k =
     (if \<exists>i \<in> used_entries arr hm u. arr ! off hm i = k then
        let i = (THE i. i \<in> used_entries arr hm u \<and> arr ! off hm i = k) in
        Some (arr ! (off hm i + 1), prop_type (arr ! (off hm i + 2)))
      else None)"

lemma prop_map_Some:
  assumes "inj_on (\<lambda>i. arr ! off hm i) (used_entries arr hm u)" "i \<in> used_entries arr hm u" "arr ! off hm i = k"
  shows "prop_map arr hm u k = Some (arr ! (off hm i + 1), prop_type (arr ! (off hm i + 2)))"
proof -
  have "(THE i. i \<in> used_entries arr hm u \<and> arr ! off hm i = k) = i"
    using assms by (auto simp: inj_on_def intro!: the_equality)
  then show ?thesis using assms(2,3) by (auto simp: prop_map_def Let_def)
qed

lemma prop_map_None: "\<forall>i \<in> used_entries arr hm u. arr ! off hm i \<noteq> k \<Longrightarrow> prop_map arr hm u k = None"
  by (simp add: prop_map_def)

lemma prop_map_dom: "k \<in> dom (prop_map arr hm u) \<longleftrightarrow> (\<exists>i \<in> used_entries arr hm u. arr ! off hm i = k)"
  by (auto simp: prop_map_def dom_def Let_def)

lemma core_bounds:
  assumes "props_core arr hm cap u"
  shows "hm < 2 ^ 28" "i < u \<Longrightarrow> off hm i + 2 < length arr" "h \<le> hm \<Longrightarrow> 2 + h < length arr"
    "bucket arr k = 2 + slot hm k" "bucket arr k < off hm i" "bucket arr k < length arr" "hash_mask arr = hm"
    "prop_count arr = card (used_entries arr hm u)" "i < cap \<Longrightarrow> off hm i < 2 ^ 28"
proof -
  note c = assms [unfolded props_core_def]
  show hm: "hm < 2 ^ 28" using c by (simp add: off_def)
  show "i < u \<Longrightarrow> off hm i + 2 < length arr" using c by (auto simp: off_def)
  show "h \<le> hm \<Longrightarrow> 2 + h < length arr" using c by (auto simp: off_def)
  show b: "bucket arr k = 2 + slot hm k" using c by (simp add: bucket_def slot_def)
  have s: "slot hm k \<le> hm" by (rule slot_le) (use hm in simp)
  show "bucket arr k < off hm i" "bucket arr k < length arr" using s c by (simp_all add: b off_def)
  show "hash_mask arr = hm" using c hm by (simp add: hash_mask_def unat_of_nat)
  have "card (used_entries arr hm u) \<le> u" using card_mono [of "{..<u}" "used_entries arr hm u"] by (auto simp: used_entries_def)
  then have "card (used_entries arr hm u) < 2 ^ 28" using c by (simp add: off_def)
  then show "prop_count arr = card (used_entries arr hm u)" using c by (simp add: prop_count_def unat_of_nat)
  show "i < cap \<Longrightarrow> off hm i < 2 ^ 28" using c by (simp add: off_def)
qed

section \<open>Lookup\<close>

lemma find_prop_loop_linked:
  assumes "linked arr hm w is" "\<forall>i \<in> set is. off hm i + 2 < length arr" "length arr < 2 ^ 28"
  shows "find_prop_loop arr k w = Some (map_option (off hm) (find (\<lambda>i. arr ! off hm i = k) is))"
  using assms(1,2)
proof (induction "is" arbitrary: w)
  case Nil
  then show ?case by (subst find_prop_loop.simps) simp
next
  case (Cons i "is")
  have "off hm i < 2 ^ 28" using Cons.prems(2) assms(3) by simp
  moreover have "w = of_nat (2 * off hm i)" using Cons.prems(1) by (simp only: linked.simps)
  ultimately have u: "unat w = 2 * off hm i" by (simp only: unat_of_nat) simp
  then have w: "w \<noteq> 0" by (metis off_simps(8) mult_eq_0_iff unat_0 zero_neq_numeral)
  have "find_prop_loop arr k (prop_hash_next (arr ! (off hm i + 2))) =
      Some (map_option (off hm) (find (\<lambda>i. arr ! off hm i = k) is))"
    by (rule Cons.IH) (use Cons.prems in simp_all)
  moreover have "off hm i + 2 < length arr" using Cons.prems(2) by simp
  ultimately show ?case
    by (subst find_prop_loop.simps) (simp add: w u Let_def)
qed

lemma find_own_property_loop:
  assumes "props_ok arr hm cap u"
  obtains "is" where "bucket_ok arr hm (used_entries arr hm u) (slot hm k) is"
    "find_own_property arr k = Some (map_option (off hm) (find (\<lambda>i. arr ! off hm i = k) is))"
proof -
  have core: "props_core arr hm cap u" using assms by (simp add: props_ok_def)
  note cb = core_bounds [OF core]
  have "slot hm k \<le> hm" by (rule slot_le) (use cb(1) in simp)
  then obtain "is" where b: "bucket_ok arr hm (used_entries arr hm u) (slot hm k) is"
    using assms by (auto simp: props_ok_def)
  have l: "linked arr hm (ucast (arr ! (2 + slot hm k))) is" "\<forall>i \<in> set is. off hm i + 2 < length arr"
    using b cb(2) by (auto simp: bucket_ok_def used_entries_def)
  have "\<not> length arr < 3" using core by (simp add: props_core_def off_def)
  then have "find_own_property arr k = Some (map_option (off hm) (find (\<lambda>i. arr ! off hm i = k) is))"
    using find_prop_loop_linked [OF l, of k] core cb(4,6) [of k]
    by (simp add: find_own_property_def props_core_def)
  with b that show thesis by blast
qed

lemma find_in_bucket:
  assumes ok: "props_ok arr hm cap u" and b: "bucket_ok arr hm (used_entries arr hm u) (slot hm k) is"
  shows "case find (\<lambda>i. arr ! off hm i = k) is of
      None \<Rightarrow> \<forall>i \<in> used_entries arr hm u. arr ! off hm i \<noteq> k
    | Some i \<Rightarrow> i \<in> used_entries arr hm u \<and> arr ! off hm i = k"
proof -
  have s: "set is = {i \<in> used_entries arr hm u. slot hm (arr ! off hm i) = slot hm k}"
    using b by (simp add: bucket_ok_def)
  show ?thesis
  proof (cases "find (\<lambda>i. arr ! off hm i = k) is")
    case None
    then have "\<not> (\<exists>i \<in> set is. arr ! off hm i = k)" by (auto simp: find_None_iff)
    then show ?thesis using s None by auto
  next
    case (Some i)
    then have "i \<in> set is" "arr ! off hm i = k" by (auto simp: find_Some_iff)
    then show ?thesis using s Some by simp
  qed
qed

lemma find_own_property_map:
  assumes "props_ok arr hm cap u"
  shows "\<exists>r. find_own_property arr k = Some r \<and>
    prop_map arr hm u k = map_option (\<lambda>i. (arr ! (i + 1), prop_type (arr ! (i + 2)))) r"
proof -
  obtain "is" where b: "bucket_ok arr hm (used_entries arr hm u) (slot hm k) is"
    "find_own_property arr k = Some (map_option (off hm) (find (\<lambda>i. arr ! off hm i = k) is))"
    by (rule find_own_property_loop [OF assms])
  have inj: "inj_on (\<lambda>i. arr ! off hm i) (used_entries arr hm u)"
    using assms by (simp add: props_ok_def props_core_def)
  show ?thesis
    using find_in_bucket [OF assms b(1)] b(2) prop_map_Some [OF inj] prop_map_None [of arr hm u k]
    by (cases "find (\<lambda>i. arr ! off hm i = k) is") auto
qed

section \<open>Changes outside a chain\<close>

lemma linked_cong:
  "(\<And>i. i \<in> set is \<Longrightarrow> prop_hash_next (arr ! (off hm i + 2)) = prop_hash_next (arr' ! (off hm i + 2))) \<Longrightarrow>
   linked arr hm w is = linked arr' hm w is"
  by (induction "is" arbitrary: w) auto

lemma linked_bound:
  "linked arr hm w is \<Longrightarrow> \<forall>i \<in> set is. off hm i < 2 ^ 28 \<Longrightarrow> unat w < 2 ^ 30"
proof (cases "is")
  case (Cons i is')
  assume "linked arr hm w is" "\<forall>i \<in> set is. off hm i < 2 ^ 28"
  then have "w = of_nat (2 * off hm i)" "off hm i < 2 ^ 28" unfolding Cons by (simp_all only: linked.simps list.set insert_iff) blast
  then show ?thesis by (simp only: unat_of_nat) simp
qed simp

lemma off_bucket [simp]:
  assumes "h \<le> hm"
  shows "off hm i \<noteq> Suc (Suc h)" "Suc (off hm i) \<noteq> Suc (Suc h)" "Suc (Suc (off hm i)) \<noteq> Suc (Suc h)"
    "Suc (Suc h) \<noteq> off hm i" "off hm i \<noteq> Suc h" "Suc h \<noteq> off hm i" "off hm i \<noteq> h" "h \<noteq> off hm i"
  using assms by (simp_all add: off_def)

lemma bucket_ok_cong:
  assumes "\<And>i. i \<in> E \<Longrightarrow> arr' ! off hm i = arr ! off hm i"
    "\<And>i. i \<in> E \<Longrightarrow> prop_hash_next (arr' ! (off hm i + 2)) = prop_hash_next (arr ! (off hm i + 2))"
    "ucast (arr' ! (2 + h)) = (ucast (arr ! (2 + h)) :: u32)"
    "bucket_ok arr hm E h is"
  shows "bucket_ok arr' hm E h is"
proof -
  have s: "set is = {i \<in> E. slot hm (arr ! off hm i) = h}" using assms(4) by (simp add: bucket_ok_def)
  have "linked arr' hm w is = linked arr hm w is" for w
    by (rule linked_cong) (use s assms(2) in auto)
  moreover have "{i \<in> E. slot hm (arr' ! off hm i) = h} = {i \<in> E. slot hm (arr ! off hm i) = h}"
    using assms(1) by auto
  ultimately show ?thesis using assms(3,4) by (simp add: bucket_ok_def)
qed

lemma card_live: "card (used_entries arr hm u) \<le> u"
  using card_mono [of "{..<u}" "used_entries arr hm u"] by (auto simp: used_entries_def)

lemma finite_live [simp]: "finite (used_entries arr hm u)"
  by (rule finite_subset [of _ "{..<u}"]) (auto simp: used_entries_def)

lemma off_Suc: "off hm (Suc u) = off hm u + 3"
  by (simp add: off_def)

section \<open>Adding a property\<close>

text \<open>The words of the table after the entry \<open>u\<close> has been written and linked.\<close>

lemma put_prop_words:
  assumes core: "props_core arr hm cap u" and u: "u < cap"
  obtains arr' where "put_prop arr (off hm u) k = Some arr'" "length arr' = length arr"
    "arr' ! 0 = JS_NewShortInt (of_nat (card (used_entries arr hm u) + 1))" "arr' ! 1 = arr ! 1"
    "arr' ! (2 + slot hm k) = JS_NewShortInt (of_nat (off hm u))"
    "\<And>h. h \<le> hm \<Longrightarrow> h \<noteq> slot hm k \<Longrightarrow> arr' ! (2 + h) = arr ! (2 + h)"
    "\<And>i. i < u \<Longrightarrow> arr' ! off hm i = arr ! off hm i \<and> arr' ! (off hm i + 1) = arr ! (off hm i + 1) \<and>
       arr' ! (off hm i + 2) = arr ! (off hm i + 2)"
    "arr' ! off hm u = k" "arr' ! (off hm u + 1) = JS_UNDEFINED"
    "arr' ! (off hm u + 2) = set_hash_next (set_prop_type (arr ! (off hm u + 2)) JS_PROP_NORMAL)
       (ucast (arr ! (2 + slot hm k)))"
    "Suc u < cap \<Longrightarrow> arr' ! off hm (cap - 1) = arr ! off hm (cap - 1) \<and>
       prop_hash_next (arr' ! (off hm (cap - 1) + 2)) = of_nat (2 * off hm (Suc u))"
proof -
  note cb = core_bounds [OF core]
  note c = core [unfolded props_core_def]
  have s: "slot hm k \<le> hm" by (rule slot_le) (use cb(1) in simp)
  have len: "length arr = off hm cap" using c by blast
  have lt: "off hm u + 2 < length arr" using u by (simp add: len off_def)
  have b: "bucket arr k = Suc (Suc (slot hm k))" using cb(4) by simp
  have bl: "Suc (Suc (slot hm k)) < length arr" using cb(6) [of k] b by simp
  let ?w = "set_hash_next (set_prop_type (arr ! (off hm u + 2)) JS_PROP_NORMAL) (ucast (arr ! (2 + slot hm k)))"
  let ?a2 = "arr[off hm u := k, off hm u + 1 := JS_UNDEFINED, off hm u + 2 := ?w,
      Suc (Suc (slot hm k)) := JS_NewShortInt (of_nat (off hm u)),
      0 := JS_NewShortInt (of_nat (card (used_entries arr hm u) + 1))]"
  let ?arr = "if off hm u + 3 < length arr
    then ?a2[length arr - 1 := set_hash_next (?a2 ! (length arr - 1)) (of_nat (2 * (off hm u + 3)))] else ?a2"
  have last: "length arr - 1 = Suc (Suc (off hm (cap - 1)))" using u by (simp add: len off_def)
  have nonempty: "0 < length arr" "off hm u < length arr" "Suc (off hm u) < length arr" "Suc (Suc (off hm u)) < length arr"
    using lt by (cases arr; simp)+
  have e: "arr[off hm u := k, Suc (off hm u) := JS_UNDEFINED] ! Suc (Suc (slot hm k)) = arr ! Suc (Suc (slot hm k))"
    using s by (simp add: nth_list_update)
  show thesis
  proof (rule that [of ?arr])
    show "put_prop arr (off hm u) k = Some ?arr"
      using lt bl s cb(8) by (simp add: put_prop_def Let_def b not_le e)
  next
    assume "Suc u < cap"
    then have more: "off hm u + 3 < length arr" by (simp add: len off_def)
    have n: "unat (of_nat (2 * (off hm u + 3)) :: u32) < 2 ^ 30"
      using more c by (simp only: unat_of_nat) simp
    define x :: u32 where "x = of_nat (2 * (off hm u + 3))"
    have x: "of_nat (2 * off hm (Suc u)) = x" by (simp only: x_def off_Suc)
    have nx: "prop_hash_next (set_hash_next w x) = x" for w by (rule hash_next_set) (use n x_def in simp)
    have "?a2 ! off hm (cap - 1) = arr ! off hm (cap - 1)"
      using \<open>Suc u < cap\<close> s by (auto simp: nth_list_update)
    moreover have "length arr - 1 < length ?a2" using u by (simp add: len off_def)
    moreover have "?arr = ?a2[length arr - 1 := set_hash_next (?a2 ! (length arr - 1)) x]"
      using more by (simp only: x_def if_True)
    ultimately show "?arr ! off hm (cap - 1) = arr ! off hm (cap - 1) \<and>
       prop_hash_next (?arr ! (off hm (cap - 1) + 2)) = of_nat (2 * off hm (Suc u))"
      unfolding x using last by (simp add: nx nth_list_update)
  next
    fix i assume i: "i < u"
    then have "off hm u + 3 < length arr \<Longrightarrow> i \<noteq> cap - 1" using u by simp
    moreover have "i \<noteq> u" using i by simp
    ultimately show "?arr ! off hm i = arr ! off hm i \<and> ?arr ! (off hm i + 1) = arr ! (off hm i + 1) \<and>
       ?arr ! (off hm i + 2) = arr ! (off hm i + 2)"
      using s last by (auto simp: nth_list_update)
  qed (use s lt bl last u nonempty in \<open>auto simp: nth_list_update\<close>)
qed

lemma live_Suc:
  assumes "\<And>i. i < u \<Longrightarrow> arr' ! off hm i = arr ! off hm i" "arr' ! off hm u \<noteq> JS_UNINITIALIZED"
  shows "used_entries arr' hm (Suc u) = insert u (used_entries arr hm u)"
  using assms by (auto simp: used_entries_def less_Suc_eq)

lemma first_free_last:
  assumes "length arr = off hm cap" "off hm cap < 2 ^ 28" "u \<le> cap" "0 < cap"
    "u < cap \<Longrightarrow> arr ! off hm (cap - 1) = JS_UNINITIALIZED \<and> prop_hash_next (arr ! (off hm (cap - 1) + 2)) = of_nat (2 * off hm u)"
    "u = cap \<Longrightarrow> arr ! off hm (cap - 1) \<noteq> JS_UNINITIALIZED"
  shows "get_first_free arr = off hm u"
proof (cases "u < cap")
  case True
  have i: "length arr - 3 = off hm (cap - 1)" "length arr - 1 = off hm (cap - 1) + 2"
    using assms(1,4) by (simp_all add: off_def)
  have "2 * off hm u < 2 ^ 32" using assms(2,3) by (simp add: off_def)
  then have "unat (of_nat (2 * off hm u) :: u32) = 2 * off hm u" by (simp only: unat_of_nat) simp
  then show ?thesis using assms(5) [OF True] by (simp only: get_first_free_def i) simp
next
  case False
  have i: "length arr - 3 = off hm (cap - 1)" using assms(1,4) by (simp add: off_def)
  show ?thesis unfolding get_first_free_def i using False assms(1,3,6) by simp
qed

lemma put_prop_ok:
  assumes core: "props_core arr hm cap u" and u: "u < cap"
    and chains: "\<forall>h \<le> hm. \<exists>is. bucket_ok arr hm (used_entries arr hm u) h is"
    and free: "Suc u < cap \<Longrightarrow> arr ! off hm (cap - 1) = JS_UNINITIALIZED"
    and k: "k \<noteq> JS_UNINITIALIZED" and new: "k \<notin> dom (prop_map arr hm u)"
  obtains arr' where "put_prop arr (off hm u) k = Some arr'" "props_ok arr' hm cap (Suc u)"
    "prop_map arr' hm (Suc u) = (prop_map arr hm u)(k \<mapsto> (JS_UNDEFINED, JS_PROP_NORMAL))"
    "arr' ! off hm u = k"
proof (rule put_prop_words [OF core u, of k])
  fix arr'
  assume w: "put_prop arr (off hm u) k = Some arr'" "length arr' = length arr"
    "arr' ! 0 = JS_NewShortInt (of_nat (card (used_entries arr hm u) + 1))" "arr' ! 1 = arr ! 1"
    "arr' ! (2 + slot hm k) = JS_NewShortInt (of_nat (off hm u))"
    "\<And>h. h \<le> hm \<Longrightarrow> h \<noteq> slot hm k \<Longrightarrow> arr' ! (2 + h) = arr ! (2 + h)"
    "\<And>i. i < u \<Longrightarrow> arr' ! off hm i = arr ! off hm i \<and> arr' ! (off hm i + 1) = arr ! (off hm i + 1) \<and>
       arr' ! (off hm i + 2) = arr ! (off hm i + 2)"
    "arr' ! off hm u = k" "arr' ! (off hm u + 1) = JS_UNDEFINED"
    "arr' ! (off hm u + 2) = set_hash_next (set_prop_type (arr ! (off hm u + 2)) JS_PROP_NORMAL)
       (ucast (arr ! (2 + slot hm k)))"
    "Suc u < cap \<Longrightarrow> arr' ! off hm (cap - 1) = arr ! off hm (cap - 1) \<and>
       prop_hash_next (arr' ! (off hm (cap - 1) + 2)) = of_nat (2 * off hm (Suc u))"
  note c = core [unfolded props_core_def]
  have liv: "used_entries arr' hm (Suc u) = insert u (used_entries arr hm u)"
    by (rule live_Suc) (use w k in auto)
  have nu: "u \<notin> used_entries arr hm u" by (simp add: used_entries_def)
  have keys: "i \<in> used_entries arr hm u \<Longrightarrow> arr' ! off hm i = arr ! off hm i \<and> arr ! off hm i \<noteq> k" for i
    using w(7) [of i] new by (auto simp: prop_map_dom used_entries_def)
  have cd: "card (used_entries arr' hm (Suc u)) = card (used_entries arr hm u) + 1" using liv nu by simp
  have inj: "inj_on (\<lambda>i. arr' ! off hm i) (used_entries arr' hm (Suc u))"
  proof -
    have "inj_on (\<lambda>i. arr' ! off hm i) (used_entries arr hm u) = inj_on (\<lambda>i. arr ! off hm i) (used_entries arr hm u)"
      by (rule inj_on_cong) (use keys in auto)
    moreover have "arr' ! off hm u \<notin> (\<lambda>i. arr' ! off hm i) ` (used_entries arr hm u - {u})" using keys w(8) by fastforce
    ultimately show ?thesis using c unfolding liv inj_on_insert by simp
  qed
  have "card (used_entries arr hm u) + 1 < 2 ^ 30" using card_live [of arr hm u] c u by (simp add: off_def)
  then have "JS_VALUE_GET_INT (arr' ! 0) = of_nat (card (used_entries arr hm u) + 1)"
    unfolding w(3) by (rule short_int_nat)
  then have core': "props_core arr' hm cap (Suc u)"
    using c u w(2,4) inj cd by (simp add: props_core_def)
  have ff: "get_first_free arr' = off hm (Suc u)"
    by (rule first_free_last [of _ hm cap]) (use w c u k free in auto)
  have chains': "\<exists>is. bucket_ok arr' hm (used_entries arr' hm (Suc u)) h is" if h: "h \<le> hm" for h
  proof -
    obtain "is" where b: "bucket_ok arr hm (used_entries arr hm u) h is" using chains h by blast
    have b': "bucket_ok arr' hm (used_entries arr hm u) h is" if "h \<noteq> slot hm k"
      by (rule bucket_ok_cong [OF _ _ _ b]) (use w(6,7) h that in \<open>auto simp: used_entries_def\<close>)
    show ?thesis
    proof (cases "h = slot hm k")
      case False
      then have "{i \<in> insert u (used_entries arr hm u). slot hm (arr' ! off hm i) = h} =
          {i \<in> used_entries arr hm u. slot hm (arr' ! off hm i) = h}" using w(8) by auto
      then show ?thesis using b' [OF False] unfolding liv by (auto simp: bucket_ok_def)
    next
      case True
      have ids: "set is \<subseteq> used_entries arr hm u" "distinct is" using b by (auto simp: bucket_ok_def)
      have l: "linked arr hm (ucast (arr ! (2 + slot hm k))) is" using b True by (simp add: bucket_ok_def)
      have "unat (ucast (arr ! (2 + slot hm k)) :: u32) < 2 ^ 30"
        by (rule linked_bound [OF l]) (use ids(1) core_bounds(9) [OF core] u in \<open>auto simp: used_entries_def\<close>)
      then have nx: "prop_hash_next (arr' ! (off hm u + 2)) = ucast (arr ! (2 + slot hm k))"
        unfolding w(10) by (rule hash_next_set)
      have "linked arr' hm w is = linked arr hm w is" for w
        by (rule linked_cong) (use ids w(7) in \<open>auto simp: used_entries_def\<close>)
      then have "linked arr' hm (ucast (arr' ! (2 + slot hm k))) (u # is)"
        using l nx unfolding w(5) short_int_word push_bit_1_nat linked.simps by simp
      moreover have "set (u # is) = {i \<in> insert u (used_entries arr hm u). slot hm (arr' ! off hm i) = slot hm k}"
        using b keys w(8) True by (auto simp: bucket_ok_def)
      ultimately show ?thesis using ids nu True unfolding liv bucket_ok_def by (intro exI [of _ "u # is"]) auto
    qed
  qed
  have pm: "prop_map arr' hm (Suc u) = (prop_map arr hm u)(k \<mapsto> (JS_UNDEFINED, JS_PROP_NORMAL))"
  proof
    fix k'
    show "prop_map arr' hm (Suc u) k' = ((prop_map arr hm u)(k \<mapsto> (JS_UNDEFINED, JS_PROP_NORMAL))) k'"
    proof (cases "k' = k")
      case True
      have "prop_map arr' hm (Suc u) k = Some (arr' ! (off hm u + 1), prop_type (arr' ! (off hm u + 2)))"
        by (rule prop_map_Some [OF inj]) (simp_all add: liv w(8))
      then show ?thesis using True unfolding w(9,10) by (simp add: prop_bits JS_PROP_NORMAL_def)
    next
      case False
      show ?thesis
      proof (cases "\<exists>i \<in> used_entries arr hm u. arr ! off hm i = k'")
        case True
        then obtain i where i: "i \<in> used_entries arr hm u" "arr ! off hm i = k'" by blast
        have "prop_map arr hm u k' = Some (arr ! (off hm i + 1), prop_type (arr ! (off hm i + 2)))"
          by (rule prop_map_Some) (use c i in auto)
        moreover have "prop_map arr' hm (Suc u) k' = Some (arr' ! (off hm i + 1), prop_type (arr' ! (off hm i + 2)))"
          by (rule prop_map_Some [OF inj]) (use i keys [of i] in \<open>auto simp: liv\<close>)
        ultimately show ?thesis using False i(1) w(7) [of i] by (simp add: used_entries_def)
      next
        case none: False
        then have "\<forall>i \<in> used_entries arr' hm (Suc u). arr' ! off hm i \<noteq> k'" using False keys by (auto simp: liv w(8))
        then show ?thesis using none False by (simp add: prop_map_None)
      qed
    qed
  qed
  show thesis
    by (rule that [OF w(1) _ pm w(8)]) (simp add: props_ok_def core' ff chains')
qed

section \<open>Deleting a property\<close>

lemma linked_link:
  "linked arr hm w (i # is) \<Longrightarrow> off hm i < 2 ^ 28 \<Longrightarrow> unat w = 2 * off hm i"
  by (simp only: linked.simps unat_of_nat) simp

lemma find_unlink_linked:
  assumes "linked arr hm w is" "\<forall>i \<in> set is. off hm i + 2 < length arr" "length arr < 2 ^ 28"
  shows "(\<exists>pre i post. is = pre @ i # post \<and> arr ! off hm i = k \<and>
        find_unlink arr k l (unat w div 2) = Some (Some (off hm i, if pre = [] then l else Some (off hm (last pre))))) \<or>
     (\<forall>i \<in> set is. arr ! off hm i \<noteq> k) \<and> find_unlink arr k l (unat w div 2) = Some None"
  using assms(1,2)
proof (induction "is" arbitrary: w l)
  case Nil
  then show ?case by (subst find_unlink.simps) simp
next
  case (Cons i "is")
  have "off hm i < 2 ^ 28" using Cons.prems(2) assms(3) by simp
  then have u: "unat w div 2 = off hm i" using linked_link [OF Cons.prems(1)] by simp
  have lt: "off hm i + 2 < length arr" using Cons.prems(2) by simp
  show ?case
  proof (cases "arr ! off hm i = k")
    case True
    then have "find_unlink arr k l (unat w div 2) = Some (Some (off hm i, l))"
      using lt unfolding u by (subst find_unlink.simps) simp
    then show ?thesis using True by (intro disjI1 exI [of _ "[]"] exI [of _ i] exI [of _ "is"]) simp
  next
    case False
    let ?w = "prop_hash_next (arr ! (off hm i + 2))"
    have step: "find_unlink arr k l (unat w div 2) = find_unlink arr k (Some (off hm i)) (unat ?w div 2)"
      using lt False unfolding u by (subst find_unlink.simps) simp
    have l: "linked arr hm ?w is" "\<forall>i \<in> set is. off hm i + 2 < length arr" using Cons.prems by simp_all
    from Cons.IH [OF this, of "Some (off hm i)"] show ?thesis
    proof (elim disjE exE conjE)
      fix pre j post
      assume "is = pre @ j # post" "arr ! off hm j = k"
        "find_unlink arr k (Some (off hm i)) (unat ?w div 2) =
         Some (Some (off hm j, if pre = [] then Some (off hm i) else Some (off hm (last pre))))"
      then show ?thesis
        by (intro disjI1 exI [of _ "i # pre"] exI [of _ j] exI [of _ post]) (simp add: step)
    qed (use False step in simp)
  qed
qed

lemma prop_hash_next_lt: "unat (prop_hash_next w) < 2 ^ 30"
proof -
  have "prop_hash_next w = take_bit 30 (ucast w :: u32)"
    by (rule bit_word_eqI) (auto simp: prop_hash_next_def bit_simps)
  then have "unat (prop_hash_next w) = take_bit 30 (unat (ucast w :: u32))" by (simp only: unsigned_take_bit_eq)
  then show ?thesis by (simp add: take_bit_eq_mod)
qed

lemma set_next_copy [simp]: "prop_hash_next (set_hash_next w (prop_hash_next v)) = prop_hash_next v"
  by (rule hash_next_set [OF prop_hash_next_lt])

lemma linked_unlink:
  assumes "linked arr hm w (pre @ i # post)" "pre \<noteq> [] \<and> last pre = l" "distinct (pre @ i # post)"
    "\<forall>j \<in> set (pre @ i # post). off hm j + 2 < length arr"
    "arr' = arr[off hm l + 2 := set_hash_next (arr ! (off hm l + 2)) (prop_hash_next (arr ! (off hm i + 2)))]"
  shows "linked arr' hm w (pre @ post)"
  using assms(1-4)
proof (induction pre arbitrary: w)
  case (Cons a pre)
  show ?case
  proof (cases "pre = []")
    case True
    have "linked arr' hm (prop_hash_next (arr ! (off hm i + 2))) post =
        linked arr hm (prop_hash_next (arr ! (off hm i + 2))) post"
      by (rule linked_cong [symmetric]) (use Cons.prems True in \<open>auto simp: assms(5) nth_list_update\<close>)
    then show ?thesis using Cons.prems True by (simp add: assms(5))
  next
    case False
    then have "linked arr' hm (prop_hash_next (arr ! (off hm a + 2))) (pre @ post)"
      by (intro Cons.IH) (use Cons.prems in auto)
    moreover have "a \<noteq> l" using Cons.prems(2,3) False by auto
    ultimately show ?thesis using Cons.prems(1) False by (simp add: assms(5))
  qed
qed simp

lemma lower_first_free_off:
  obtains u' where "lower_first_free arr (3 + hm) u = off hm u'" "u' \<le> u"
    "\<forall>j. u' \<le> j \<and> j < u \<longrightarrow> arr ! off hm j = JS_UNINITIALIZED"
    "u' = 0 \<or> arr ! off hm (u' - 1) \<noteq> JS_UNINITIALIZED"
proof -
  have "\<exists>u'. lower_first_free arr (3 + hm) u = off hm u' \<and> u' \<le> u \<and>
    (\<forall>j. u' \<le> j \<and> j < u \<longrightarrow> arr ! off hm j = JS_UNINITIALIZED) \<and>
    (u' = 0 \<or> arr ! off hm (u' - 1) \<noteq> JS_UNINITIALIZED)"
  proof (induction u)
    case 0
    then show ?case by (simp add: off_def)
  next
    case (Suc u)
    show ?case
    proof (cases "arr ! off hm u = JS_UNINITIALIZED")
      case True
      then have "lower_first_free arr (3 + hm) (Suc u) = lower_first_free arr (3 + hm) u" by (simp add: off_def)
      then show ?thesis using Suc True by (metis le_SucI less_SucE)
    next
      case False
      then have "lower_first_free arr (3 + hm) (Suc u) = off hm (Suc u)" by (simp add: off_def)
      then show ?thesis using False by (intro exI [of _ "Suc u"]) auto
    qed
  qed
  then show thesis using that by blast
qed

lemma bucket_link_index:
  "ucast v = (of_nat (2 * n) :: u32) \<Longrightarrow> n < 2 ^ 28 \<Longrightarrow> unat (JS_VALUE_GET_INT v) = n"
proof -
  assume v: "ucast v = (of_nat (2 * n) :: u32)" and n: "n < 2 ^ 28"
  have "JS_VALUE_GET_INT v = JS_VALUE_GET_INT (JS_NewShortInt (of_nat n))"
    unfolding JS_VALUE_GET_INT_def v short_int_word push_bit_1_nat ..
  also have "\<dots> = of_nat n" by (rule short_int_nat) (use n in simp)
  finally show ?thesis using n by (simp add: unat_of_nat)
qed

lemma bucket_ok_live_bounds:
  assumes "props_core arr hm cap u" "bucket_ok arr hm (used_entries arr hm u) h is"
  shows "\<forall>i \<in> set is. off hm i + 2 < length arr" "length arr < 2 ^ 28" "distinct is"
    "linked arr hm (ucast (arr ! (2 + h))) is" "set is \<subseteq> used_entries arr hm u"
  using assms core_bounds(2) [OF assms(1)] by (auto simp: bucket_ok_def used_entries_def props_core_def)

text \<open>The words after the entry \<open>i\<close> has been taken out of its chain.\<close>

lemma unlink_prop_ok:
  assumes ok: "props_ok arr hm cap u" and b: "bucket_ok arr hm (used_entries arr hm u) h (pre @ i # post)" and h: "h \<le> hm"
    and arr1: "arr1 = unlink_prop arr (2 + h) (off hm i) (if pre = [] then None else Some (off hm (last pre)))"
  shows "length arr1 = length arr" "arr1 ! 0 = arr ! 0" "arr1 ! 1 = arr ! 1"
    "\<And>j. arr1 ! off hm j = arr ! off hm j \<and> arr1 ! (off hm j + 1) = arr ! (off hm j + 1) \<and>
       prop_type (arr1 ! (off hm j + 2)) = prop_type (arr ! (off hm j + 2))"
    "get_first_free arr1 = get_first_free arr"
    "\<And>h. h \<le> hm \<Longrightarrow> \<exists>is. bucket_ok arr1 hm (used_entries arr hm u - {i}) h is"
proof -
  have core: "props_core arr hm cap u" using ok by (simp add: props_ok_def)
  note c = core [unfolded props_core_def]
  note lb = bucket_ok_live_bounds [OF core b]
  have lens: "2 + h < length arr" by (rule core_bounds(3) [OF core h])
  show l: "length arr1 = length arr" by (simp add: arr1 unlink_prop_def Let_def split: option.split)
  show "arr1 ! 0 = arr ! 0" "arr1 ! 1 = arr ! 1" by (simp_all add: arr1 unlink_prop_def Let_def nth_list_update)
  show words: "arr1 ! off hm j = arr ! off hm j \<and> arr1 ! (off hm j + 1) = arr ! (off hm j + 1) \<and>
       prop_type (arr1 ! (off hm j + 2)) = prop_type (arr ! (off hm j + 2))" for j
    using h lb(1) by (auto simp: arr1 unlink_prop_def Let_def nth_list_update prop_bits split: if_splits)
  have nxt: "arr1 ! (off hm j + 2) = arr ! (off hm j + 2)" if "j \<notin> set pre" for j
    using h lb(1) that by (auto simp: arr1 unlink_prop_def Let_def nth_list_update)
  have bkt: "arr1 ! (2 + h') = arr ! (2 + h')" if "h' \<le> hm" "h' \<noteq> h" for h'
    using h that by (auto simp: arr1 unlink_prop_def Let_def nth_list_update)
  have cap0: "0 < cap" using c lb(5) by (auto simp: used_entries_def)
  then have i: "length arr - 3 = off hm (cap - 1)" "length arr - 1 = off hm (cap - 1) + 2"
    using c by (simp_all add: off_def)
  have "arr ! off hm (cap - 1) = JS_UNINITIALIZED \<Longrightarrow> cap - 1 \<notin> set pre" using lb(5) by (auto simp: used_entries_def)
  then show "get_first_free arr1 = get_first_free arr"
    unfolding get_first_free_def l i using words nxt by simp
  show "\<exists>is. bucket_ok arr1 hm (used_entries arr hm u - {i}) h' is" if h': "h' \<le> hm" for h'
  proof (cases "h' = h")
    case False
    obtain "is" where b': "bucket_ok arr hm (used_entries arr hm u) h' is" using ok h' by (auto simp: props_ok_def)
    have i': "i \<notin> set is" "j \<in> set is \<Longrightarrow> j \<notin> set pre" for j
      using b b' False by (auto simp: bucket_ok_def)
    have "linked arr1 hm w is = linked arr hm w is" for w
      by (rule linked_cong) (use i'(2) nxt in auto)
    moreover have "set is = {j \<in> used_entries arr hm u - {i}. slot hm (arr1 ! off hm j) = h'}"
      using b' i'(1) words by (auto simp: bucket_ok_def)
    ultimately show ?thesis using b' bkt [OF h' False] by (auto simp: bucket_ok_def)
  next
    case True
    have "linked arr1 hm (ucast (arr1 ! (2 + h))) (pre @ post)"
    proof (cases "pre = []")
      case True
      have "linked arr1 hm w post = linked arr hm w post" for w
        by (rule linked_cong) (use True nxt in auto)
      moreover have "arr1 ! (2 + h) = ucast (prop_hash_next (arr ! (off hm i + 2)))"
        using True lens by (simp add: arr1 unlink_prop_def Let_def)
      moreover have "ucast (ucast x :: u64) = x" for x :: u32 by (rule bit_word_eqI) (simp add: bit_simps)
      ultimately show ?thesis using True lb(4) by simp
    next
      case False
      have "linked arr1 hm (ucast (arr ! (2 + h))) (pre @ post)"
        by (rule linked_unlink [where arr = arr and i = i and l = "last pre"])
          (use False lb in \<open>auto simp: arr1 unlink_prop_def Let_def\<close>)
      moreover have "arr1 ! (2 + h) = arr ! (2 + h)" using False h by (auto simp: arr1 unlink_prop_def Let_def)
      ultimately show ?thesis by simp
    qed
    moreover have "set (pre @ post) = {j \<in> used_entries arr hm u - {i}. slot hm (arr1 ! off hm j) = h}"
    proof -
      have "set (pre @ post) = set (pre @ i # post) - {i}" using lb(3) by auto
      then show ?thesis using b words by (auto simp: bucket_ok_def)
    qed
    moreover have "distinct (pre @ post)" using lb(3) by simp
    ultimately show ?thesis unfolding bucket_ok_def True by blast
  qed
qed

lemma prop_map_graph:
  assumes "inj_on (\<lambda>i. arr ! off hm i) (used_entries arr hm u)"
  shows "prop_map arr hm u k = Some p \<longleftrightarrow>
    (\<exists>i \<in> used_entries arr hm u. arr ! off hm i = k \<and> p = (arr ! (off hm i + 1), prop_type (arr ! (off hm i + 2))))"
  using prop_map_Some [OF assms] prop_map_dom [of k arr hm u] by (fastforce simp: dom_def)

lemma prop_map_delete:
  assumes inj: "inj_on (\<lambda>i. arr ! off hm i) (used_entries arr hm u)" and i: "i \<in> used_entries arr hm u" "arr ! off hm i = k"
    and l: "used_entries arr' hm u' = used_entries arr hm u - {i}"
    and w: "\<And>j. j \<in> used_entries arr hm u - {i} \<Longrightarrow> arr' ! off hm j = arr ! off hm j \<and>
      arr' ! (off hm j + 1) = arr ! (off hm j + 1) \<and> prop_type (arr' ! (off hm j + 2)) = prop_type (arr ! (off hm j + 2))"
  shows "inj_on (\<lambda>i. arr' ! off hm i) (used_entries arr' hm u')" "prop_map arr' hm u' = (prop_map arr hm u)(k := None)"
proof -
  have "inj_on (\<lambda>j. arr' ! off hm j) (used_entries arr hm u - {i}) = inj_on (\<lambda>j. arr ! off hm j) (used_entries arr hm u - {i})"
    by (rule inj_on_cong) (use w in blast)
  moreover have "inj_on (\<lambda>j. arr ! off hm j) (used_entries arr hm u - {i})" by (rule inj_on_subset [OF inj]) blast
  ultimately show inj': "inj_on (\<lambda>i. arr' ! off hm i) (used_entries arr' hm u')" by (simp add: l)
  have ne: "arr ! off hm j \<noteq> k" if "j \<in> used_entries arr hm u - {i}" for j
    using inj_onD [OF inj, of j i] that i by auto
  have "(prop_map arr' hm u' k' = Some p) = (((prop_map arr hm u)(k := None)) k' = Some p)" for k' p
  proof (cases "k' = k")
    case True
    then have "prop_map arr' hm u' k' = None" using ne w by (intro prop_map_None) (auto simp: l)
    then show ?thesis using True by simp
  next
    case False
    then show ?thesis unfolding prop_map_graph [OF inj'] fun_upd_other [OF False] prop_map_graph [OF inj] l
      using w i by (metis Diff_iff singletonD)
  qed
  then show "prop_map arr' hm u' = (prop_map arr hm u)(k := None)"
    by (intro ext) (metis option.exhaust)
qed

lemma prop_type_next_update: "prop_type (xs[a := set_hash_next (xs ! a) x] ! b) = prop_type (xs ! b)"
  by (cases "a < length xs"; cases "a = b") (simp_all add: prop_bits list_update_beyond)

lemma delete_at_ok:
  assumes ok: "props_ok arr hm cap u" and b: "bucket_ok arr hm (used_entries arr hm u) (slot hm k) (pre @ i # post)"
    and k: "arr ! off hm i = k"
    and arr': "arr' = delete_at arr (2 + slot hm k) (off hm i) (if pre = [] then None else Some (off hm (last pre)))"
  shows "\<exists>u' \<le> u. props_ok arr' hm cap u' \<and> prop_map arr' hm u' = (prop_map arr hm u)(k := None)"
proof -
  have core: "props_core arr hm cap u" and ff: "get_first_free arr = off hm u" using ok by (simp_all add: props_ok_def)
  note c = core [unfolded props_core_def] and cb = core_bounds [OF core]
  note lb = bucket_ok_live_bounds [OF core b]
  have s: "slot hm k \<le> hm" by (rule slot_le) (use cb(1) in simp)
  define arr1 where "arr1 = unlink_prop arr (2 + slot hm k) (off hm i) (if pre = [] then None else Some (off hm (last pre)))"
  note u1 = unlink_prop_ok [OF ok b s arr1_def]
  have i: "i \<in> used_entries arr hm u" "i < u" using lb(5) by (auto simp: used_entries_def)
  have lens: "off hm i + 2 < length arr1" "0 < length arr1" using lb(1) u1(1) by auto
  have "prop_count arr1 = card (used_entries arr hm u)" using cb(8) u1(2) by (simp add: prop_count_def)
  define n where "n = card (used_entries arr hm u) - 1"
  define arr2 where "arr2 = arr1[0 := JS_NewShortInt (of_nat n), off hm i + 2 := set_prop_type (arr1 ! (off hm i + 2)) JS_PROP_NORMAL,
    off hm i := JS_UNINITIALIZED, off hm i + 1 := JS_UNDEFINED]"
  obtain u' where u': "lower_first_free arr2 (3 + hm) u = off hm u'" "u' \<le> u"
    "\<forall>j. u' \<le> j \<and> j < u \<longrightarrow> arr2 ! off hm j = JS_UNINITIALIZED"
    "u' = 0 \<or> arr2 ! off hm (u' - 1) \<noteq> JS_UNINITIALIZED"
    by (rule lower_first_free_off)
  have e: "arr' = (if off hm u' < length arr then arr2[length arr - 1 := set_hash_next (arr2 ! (length arr - 1)) (of_nat (2 * off hm u'))] else arr2)"
    unfolding arr' delete_at_def Let_def arr1_def [symmetric] cb(7) u1(5) ff \<open>prop_count arr1 = _\<close> n_def [symmetric] arr2_def [symmetric]
    using u'(1) by (simp add: off_def)
  have cap0: "0 < cap" "u \<le> cap" using c i by auto
  then have last: "length arr - 1 = off hm (cap - 1) + 2" "length arr - 3 = off hm (cap - 1)"
    using c by (simp_all add: off_def)
  note e = e [unfolded last]
  have len2: "length arr2 = length arr" "length arr' = length arr" using u1(1) by (simp_all add: arr2_def e)
  have hdr: "arr' ! 0 = JS_NewShortInt (of_nat n)" "arr' ! 1 = arr ! 1"
    using lens u1(3) by (simp_all add: e arr2_def)
  have bkt: "arr' ! (2 + h) = arr1 ! (2 + h)" if "h \<le> hm" for h
    using that by (simp add: e arr2_def)
  have keys: "arr' ! off hm j = arr2 ! off hm j" "arr2 ! off hm j = (if j = i then JS_UNINITIALIZED else arr ! off hm j)" for j
    using lens u1(4) [of j] by (simp_all add: e arr2_def)
  have vals: "arr' ! (off hm j + 1) = arr ! (off hm j + 1) \<and> prop_type (arr' ! (off hm j + 2)) = prop_type (arr ! (off hm j + 2))"
    if "j \<noteq> i" for j
  proof -
    have "prop_type (arr' ! m) = prop_type (arr2 ! m)" for m by (simp add: e prop_type_next_update)
    moreover have "arr' ! (off hm j + 1) = arr1 ! (off hm j + 1)" "arr2 ! (off hm j + 2) = arr1 ! (off hm j + 2)"
      using that by (simp_all add: e arr2_def)
    ultimately show ?thesis using u1(4) [of j] by simp
  qed
  have liv: "used_entries arr' hm u' = used_entries arr hm u - {i}"
    using u'(2,3) by (fastforce simp: used_entries_def keys not_less split: if_splits)
  have nxt: "arr' ! (off hm j + 2) = arr1 ! (off hm j + 2)" if "j \<in> used_entries arr hm u - {i}" for j
  proof -
    have "j < u'" using that unfolding liv [symmetric] by (simp add: used_entries_def)
    moreover have "off hm u' < length arr \<Longrightarrow> u' < cap" using c by (simp add: off_def)
    ultimately have "off hm u' < length arr \<Longrightarrow> cap - 1 \<noteq> j" by linarith
    moreover have "arr2 ! (off hm j + 2) = arr1 ! (off hm j + 2)" using that by (simp add: arr2_def)
    ultimately show ?thesis by (simp add: e)
  qed
  have chains: "\<exists>is. bucket_ok arr' hm (used_entries arr' hm u') h is" if h: "h \<le> hm" for h
  proof -
    obtain "is" where b1: "bucket_ok arr1 hm (used_entries arr hm u - {i}) h is" using u1(6) [OF h] by blast
    have "bucket_ok arr' hm (used_entries arr hm u - {i}) h is"
      by (rule bucket_ok_cong [OF _ _ _ b1]) (use bkt [OF h] nxt keys u1(4) in auto)
    then show ?thesis unfolding liv by blast
  qed
  have "get_first_free arr' = off hm u'"
  proof (rule first_free_last [of _ hm cap])
    show "length arr' = off hm cap" "off hm cap < 2 ^ 28" "u' \<le> cap" "0 < cap" using len2 c cap0 u'(2) by simp_all
  next
    assume "u' < cap"
    have "arr ! off hm (cap - 1) = JS_UNINITIALIZED" if "u < cap"
      using ff c that unfolding get_first_free_def last by (auto split: if_splits)
    then have 1: "arr' ! off hm (cap - 1) = JS_UNINITIALIZED"
      using u'(3) \<open>u' < cap\<close> cap0 keys [of "cap - 1"] by (cases "u < cap") auto
    have lt: "off hm u' < length arr" using \<open>u' < cap\<close> c by (simp add: off_def)
    define x :: u32 where "x = of_nat (2 * off hm u')"
    have "unat x < 2 ^ 30" unfolding x_def using lt c by (simp only: unat_of_nat) simp
    then have "prop_hash_next (arr' ! (off hm (cap - 1) + 2)) = x"
      unfolding e x_def [symmetric] using lt len2(1) last cap0 c by (simp add: hash_next_set off_def)
    then show "arr' ! off hm (cap - 1) = JS_UNINITIALIZED \<and> prop_hash_next (arr' ! (off hm (cap - 1) + 2)) = of_nat (2 * off hm u')"
      using 1 by (simp only: x_def)
  next
    assume "u' = cap"
    then show "arr' ! off hm (cap - 1) \<noteq> JS_UNINITIALIZED" using u'(4) cap0 keys by simp
  qed
  moreover have inj: "inj_on (\<lambda>i. arr ! off hm i) (used_entries arr hm u)" using c by blast
  have pd: "inj_on (\<lambda>i. arr' ! off hm i) (used_entries arr' hm u')" "prop_map arr' hm u' = (prop_map arr hm u)(k := None)"
    using prop_map_delete [OF inj i(1) k liv] keys vals by auto
  moreover have "card (used_entries arr' hm u') = n" using i(1) by (simp add: liv n_def)
  moreover have "u < 2 ^ 28" using c by (simp add: off_def)
  then have "n < 2 ^ 30" using card_live [of arr hm u] by (simp add: n_def)
  then have "JS_VALUE_GET_INT (arr' ! 0) = of_nat n" unfolding hdr by (rule short_int_nat)
  ultimately have "props_ok arr' hm cap u'"
    using c u'(2) hdr(2) len2(2) chains by (simp add: props_ok_def props_core_def)
  then show ?thesis using pd(2) u'(2) by blast
qed

section \<open>Rehashing\<close>

text \<open>The tables hold the same entries, but for the links of those in use.\<close>

definition same_entries :: "nat \<Rightarrow> nat set \<Rightarrow> JSValue list \<Rightarrow> JSValue list \<Rightarrow> bool" where
  "same_entries hm E arr arr' \<longleftrightarrow>
     length arr' = length arr \<and> arr' ! 0 = arr ! 0 \<and> arr' ! 1 = arr ! 1 \<and>
     (\<forall>i. arr' ! off hm i = arr ! off hm i \<and> arr' ! (off hm i + 1) = arr ! (off hm i + 1) \<and>
        prop_type (arr' ! (off hm i + 2)) = prop_type (arr ! (off hm i + 2)) \<and>
        (i \<notin> E \<longrightarrow> arr' ! (off hm i + 2) = arr ! (off hm i + 2)))"

lemma same_entries_trans:
  "same_entries hm E a b \<Longrightarrow> same_entries hm E b c \<Longrightarrow> same_entries hm E a c"
  by (simp add: same_entries_def)

lemma same_entries_live: "same_entries hm E arr arr' \<Longrightarrow> used_entries arr' hm u = used_entries arr hm u"
  by (simp add: same_entries_def used_entries_def)

lemma entries_transfer:
  assumes "\<forall>i < u. arr' ! off hm' i = arr ! off hm i \<and> arr' ! (off hm' i + 1) = arr ! (off hm i + 1) \<and>
    prop_type (arr' ! (off hm' i + 2)) = prop_type (arr ! (off hm i + 2))"
  shows "used_entries arr' hm' u = used_entries arr hm u"
    "inj_on (\<lambda>i. arr' ! off hm' i) (used_entries arr hm u) = inj_on (\<lambda>i. arr ! off hm i) (used_entries arr hm u)"
    "inj_on (\<lambda>i. arr ! off hm i) (used_entries arr hm u) \<Longrightarrow> prop_map arr' hm' u = prop_map arr hm u"
proof -
  show l: "used_entries arr' hm' u = used_entries arr hm u" using assms by (auto simp: used_entries_def)
  show i: "inj_on (\<lambda>i. arr' ! off hm' i) (used_entries arr hm u) = inj_on (\<lambda>i. arr ! off hm i) (used_entries arr hm u)"
    by (rule inj_on_cong) (use assms in \<open>simp add: used_entries_def\<close>)
  assume inj: "inj_on (\<lambda>i. arr ! off hm i) (used_entries arr hm u)"
  then have inj': "inj_on (\<lambda>i. arr' ! off hm' i) (used_entries arr' hm' u)" by (simp add: l i)
  have "(prop_map arr' hm' u k = Some p) = (prop_map arr hm u k = Some p)" for k p
    unfolding prop_map_graph [OF inj] prop_map_graph [OF inj'] l
    using assms by (auto simp: used_entries_def)
  then show "prop_map arr' hm' u = prop_map arr hm u" by (intro ext) (metis option.exhaust)
qed

lemma same_entries_core:
  assumes s: "same_entries hm E arr arr'" and c: "props_core arr hm cap u"
  shows "props_core arr' hm cap u" "prop_map arr' hm u = prop_map arr hm u"
proof -
  note l = same_entries_live [OF s] and w = s [unfolded same_entries_def] and c' = c [unfolded props_core_def]
  have "\<forall>i < u. arr' ! off hm i = arr ! off hm i \<and> arr' ! (off hm i + 1) = arr ! (off hm i + 1) \<and>
      prop_type (arr' ! (off hm i + 2)) = prop_type (arr ! (off hm i + 2))" using w by blast
  note t = entries_transfer [of u arr' hm arr hm, OF this]
  show "props_core arr' hm cap u" using c' w t(2) by (simp add: props_core_def l)
  show "prop_map arr' hm u = prop_map arr hm u" by (rule t(3)) (use c' in blast)
qed

lemma same_entries_ok:
  assumes s: "same_entries hm (used_entries arr hm u) arr arr'" and core: "props_core arr hm cap u" and cap: "0 < cap"
    and ff: "get_first_free arr = off hm u" and chains: "\<forall>h \<le> hm. \<exists>is. bucket_ok arr' hm (used_entries arr hm u) h is"
  shows "props_ok arr' hm cap u"
proof -
  have i: "length arr - 3 = off hm (cap - 1)" "length arr - 1 = off hm (cap - 1) + 2" "length arr' = length arr"
    using core s cap by (simp_all add: off_def props_core_def same_entries_def)
  have "arr ! off hm (cap - 1) = JS_UNINITIALIZED \<Longrightarrow> cap - 1 \<notin> used_entries arr hm u" by (simp add: used_entries_def)
  then have "get_first_free arr' = get_first_free arr"
    unfolding get_first_free_def i using s by (simp add: same_entries_def)
  then show ?thesis
    using same_entries_core(1) [OF s core] ff chains by (simp add: props_ok_def same_entries_live [OF s])
qed

lemma rehash_step:
  assumes core: "props_core arr hm cap u" and i: "i \<in> used_entries arr hm u"
    and chains: "\<forall>h \<le> hm. \<exists>is. bucket_ok arr hm (used_entries arr hm i) h is"
    and arr': "arr' = arr[off hm i + 2 := set_hash_next (arr ! (off hm i + 2)) (ucast (arr ! (2 + slot hm (arr ! off hm i)))),
        2 + slot hm (arr ! off hm i) := JS_NewShortInt (of_nat (off hm i))]"
  shows "same_entries hm (used_entries arr hm u) arr arr'" "\<forall>h \<le> hm. \<exists>is. bucket_ok arr' hm (insert i (used_entries arr hm i)) h is"
proof -
  let ?h = "slot hm (arr ! off hm i)"
  note cb = core_bounds [OF core]
  have s: "?h \<le> hm" by (rule slot_le) (use cb(1) in simp)
  have lt: "off hm i + 2 < length arr" by (rule cb(2)) (use i in \<open>simp add: used_entries_def\<close>)
  have lth: "2 + ?h < length arr" by (rule cb(3) [OF s])
  show "same_entries hm (used_entries arr hm u) arr arr'"
    using s i lt lth by (auto simp: same_entries_def arr' nth_list_update prop_bits)
  have keys: "arr' ! off hm j = arr ! off hm j" for j using s by (simp add: arr')
  have nxt: "j \<noteq> i \<Longrightarrow> arr' ! (off hm j + 2) = arr ! (off hm j + 2)" for j using s by (simp add: arr')
  show "\<forall>h \<le> hm. \<exists>is. bucket_ok arr' hm (insert i (used_entries arr hm i)) h is"
  proof (intro allI impI)
    fix h assume h: "h \<le> hm"
    obtain "is" where b: "bucket_ok arr hm (used_entries arr hm i) h is" using chains h by blast
    have ids: "set is \<subseteq> used_entries arr hm i" "i \<notin> used_entries arr hm i" using b by (auto simp: bucket_ok_def used_entries_def)
    have lk: "linked arr' hm w is = linked arr hm w is" for w
      by (rule linked_cong) (use ids nxt in fastforce)
    show "\<exists>is. bucket_ok arr' hm (insert i (used_entries arr hm i)) h is"
    proof (cases "h = ?h")
      case False
      then have "{j \<in> insert i (used_entries arr hm i). slot hm (arr' ! off hm j) = h} = {j \<in> used_entries arr hm i. slot hm (arr ! off hm j) = h}"
        by (auto simp: keys)
      moreover have "arr' ! (2 + h) = arr ! (2 + h)" using False h by (simp add: arr')
      ultimately show ?thesis using b by (auto simp: bucket_ok_def lk)
    next
      case True
      have l: "linked arr hm (ucast (arr ! (2 + h))) is" using b by (simp add: bucket_ok_def)
      have "off hm j < 2 ^ 28" if "j \<in> set is" for j
        using that ids i core by (intro cb(9)) (auto simp: used_entries_def props_core_def)
      then have "unat (ucast (arr ! (2 + h)) :: u32) < 2 ^ 30" by (intro linked_bound [OF l]) blast
      then have nx: "prop_hash_next (arr' ! (off hm i + 2)) = ucast (arr ! (2 + h))"
        using s lt by (simp add: arr' True hash_next_set)
      have "arr' ! (2 + h) = JS_NewShortInt (of_nat (off hm i))" using lth by (simp add: arr' True)
      then have "linked arr' hm (ucast (arr' ! (2 + h))) (i # is)"
        unfolding linked.simps nx lk using l by (simp only: short_int_word push_bit_1_nat)
      moreover have "set (i # is) = {j \<in> insert i (used_entries arr hm i). slot hm (arr' ! off hm j) = h}"
        using b True by (auto simp: bucket_ok_def keys)
      moreover have "distinct (i # is)" using ids b by (auto simp: bucket_ok_def)
      ultimately show ?thesis unfolding bucket_ok_def by blast
    qed
  qed
qed

lemma live_0 [simp]: "used_entries arr hm 0 = {}"
  by (simp add: used_entries_def)

lemma live_step: "used_entries arr hm (Suc i) = (if arr ! off hm i \<noteq> JS_UNINITIALIZED then insert i (used_entries arr hm i) else used_entries arr hm i)"
  by (auto simp: used_entries_def less_Suc_eq)

lemma rehash_loop_end: "rehash_loop arr hm n i n = Some arr"
  by (subst rehash_loop.simps) simp

lemma same_entries_refl: "same_entries hm E arr arr"
  by (simp add: same_entries_def)

lemma rehash_loop_ok:
  assumes "props_core arr hm cap u" "i \<le> u" "\<forall>h \<le> hm. \<exists>is. bucket_ok arr hm (used_entries arr hm i) h is"
  shows "\<exists>arr'. rehash_loop arr hm (card (used_entries arr hm u)) i (card (used_entries arr hm i)) = Some arr' \<and>
    same_entries hm (used_entries arr hm u) arr arr' \<and> (\<forall>h \<le> hm. \<exists>is. bucket_ok arr' hm (used_entries arr hm u) h is)"
  using assms
proof (induction "u - i" arbitrary: arr i)
  case 0
  then have "i = u" by simp
  then show ?case using 0(4) by (simp add: rehash_loop_end same_entries_refl)
next
  case (Suc n)
  then have i: "i < u" "n = u - Suc i" "Suc i \<le> u" by simp_all
  note core = Suc.prems(1)
  have sub: "used_entries arr hm i \<subseteq> used_entries arr hm u" using i by (auto simp: used_entries_def)
  show ?case
  proof (cases "card (used_entries arr hm i) < card (used_entries arr hm u)")
    case False
    then have eq: "used_entries arr hm i = used_entries arr hm u"
      using card_mono [OF finite_live sub] by (intro card_subset_eq [OF finite_live sub]) simp
    show ?thesis using Suc.prems(3)
      unfolding eq by (simp add: rehash_loop_end same_entries_refl)
  next
    case True
    have lt: "off hm i + 2 < length arr" by (rule core_bounds(2) [OF core i(1)])
    then have lt': "\<not> length arr \<le> 2 + (hm + 1) + 3 * i + 2" by (simp add: off_def)
    have o: "2 + (hm + 1) + 3 * i = off hm i" by (simp add: off_def)
    show ?thesis
    proof (cases "arr ! off hm i = JS_UNINITIALIZED")
      case dead: True
      then have l: "used_entries arr hm (Suc i) = used_entries arr hm i" by (simp add: live_step)
      have "rehash_loop arr hm (card (used_entries arr hm u)) i (card (used_entries arr hm i)) =
          rehash_loop arr hm (card (used_entries arr hm u)) (Suc i) (card (used_entries arr hm i))"
        using True lt' dead by (subst rehash_loop.simps) (simp only: o Let_def if_True if_False not_True_eq_False Suc_eq_plus1 simp_thms)
      then show ?thesis using Suc.hyps(1) [OF i(2) core i(3)] Suc.prems(3) unfolding l by simp
    next
      case False
      let ?h = "slot hm (arr ! off hm i)"
      define arr' where "arr' = arr[off hm i + 2 := set_hash_next (arr ! (off hm i + 2)) (ucast (arr ! (2 + ?h))),
        2 + ?h := JS_NewShortInt (of_nat (off hm i))]"
      have il: "i \<in> used_entries arr hm u" using i False by (simp add: used_entries_def)
      note st = rehash_step [OF core il Suc.prems(3) arr'_def]
      note lv = same_entries_live [OF st(1)]
      have l: "used_entries arr hm (Suc i) = insert i (used_entries arr hm i)" using False by (simp add: live_step)
      then have cd: "card (used_entries arr hm (Suc i)) = Suc (card (used_entries arr hm i))" by (simp add: used_entries_def)
      have core': "props_core arr' hm cap u" by (rule same_entries_core [OF st(1) core])
      have "rehash_loop arr hm (card (used_entries arr hm u)) i (card (used_entries arr hm i)) =
          rehash_loop arr' hm (card (used_entries arr' hm u)) (Suc i) (card (used_entries arr' hm (Suc i)))"
        using True lt False core_bounds(4,6) [OF core, of "arr ! off hm i"] unfolding lv cd
        by (subst rehash_loop.simps)
          (simp only: o Let_def if_True if_False not_False_eq_True Suc_eq_plus1 not_le [symmetric] arr'_def simp_thms)
      then show ?thesis
        using Suc.hyps(1) [OF i(2) core' i(3)] st(2) same_entries_trans [OF st(1)] unfolding lv l by fastforce
    qed
  qed
qed

lemma rehash_props_entries:
  assumes core: "props_core arr hm cap u" and cap: "0 < cap"
  shows "\<exists>arr'. rehash_props arr = Some arr' \<and> same_entries hm (used_entries arr hm u) arr arr' \<and>
    (\<forall>h \<le> hm. \<exists>is. bucket_ok arr' hm (used_entries arr hm u) h is)"
proof -
  note c = core [unfolded props_core_def] and cb = core_bounds [OF core]
  define arr0 where "arr0 = take 2 arr @ replicate (hm + 1) (JS_NewShortInt 0) @ drop (3 + hm) arr"
  have len: "3 + hm < length arr" using c cap by (simp add: off_def)
  have at: "arr0 ! m = arr ! m" if "m < 2 \<or> 3 + hm \<le> m" for m
    using that len by (auto simp: arr0_def nth_append not_less)
  have ent: "arr0 ! (off hm i + m) = arr ! (off hm i + m)" for i m by (rule at) (simp add: off_def)
  have e0: "same_entries hm E arr arr0" for E
    using ent [of _ 0] ent [of _ 1] ent [of _ 2] at [of 0] at [of 1] len
    by (simp add: same_entries_def arr0_def [THEN arg_cong, of length])
  have lv: "used_entries arr0 hm v = used_entries arr hm v" for v by (rule same_entries_live [OF e0])
  have bk: "arr0 ! (2 + h) = JS_NewShortInt 0" if "h \<le> hm" for h
  proof -
    have "arr0 ! (2 + h) = (replicate (hm + 1) (JS_NewShortInt 0) @ drop (3 + hm) arr) ! h"
      using len by (simp add: arr0_def nth_append)
    then show ?thesis using that by (simp only: nth_append length_replicate) (simp add: less_Suc_eq_le del: replicate_Suc)
  qed
  have core0: "props_core arr0 hm cap u" by (rule same_entries_core [OF e0 [of "{}"] core])
  have "ucast (JS_NewShortInt 0) = (0 :: u32)" by (simp only: short_int_word) simp
  then have "\<forall>h \<le> hm. \<exists>is. bucket_ok arr0 hm (used_entries arr0 hm 0) h is"
    using bk by (intro allI impI exI [of _ "[]"]) (simp add: bucket_ok_def)
  from rehash_loop_ok [OF core0 _ this] obtain arr' where
    r: "rehash_loop arr0 hm (card (used_entries arr hm u)) 0 0 = Some arr'" "same_entries hm (used_entries arr hm u) arr0 arr'"
      "\<forall>h \<le> hm. \<exists>is. bucket_ok arr' hm (used_entries arr hm u) h is"
    unfolding lv live_0 by auto
  have s: "same_entries hm (used_entries arr hm u) arr arr'" by (rule same_entries_trans [OF e0 r(2)])
  have "rehash_props arr = Some arr'"
    using r(1) len unfolding rehash_props_def cb(7,8) arr0_def by simp
  then show ?thesis using s r(3) by blast
qed

lemma rehash_props_ok:
  assumes core: "props_core arr hm cap u" and cap: "0 < cap" and ff: "get_first_free arr = off hm u"
  shows "\<exists>arr'. rehash_props arr = Some arr' \<and> props_ok arr' hm cap u \<and> prop_map arr' hm u = prop_map arr hm u"
  using rehash_props_entries [OF core cap] same_entries_ok [OF _ core cap ff] same_entries_core(2) [OF _ core] by blast

section \<open>New and growing tables\<close>

lemma empty_entries_Suc: "empty_entries (Suc n) = JS_UNINITIALIZED # JS_UNDEFINED # JS_UNDEFINED # empty_entries n"
  by (simp add: empty_entries_def)

lemma empty_entries_length [simp]: "length (empty_entries n) = 3 * n"
  by (induction n) (simp_all add: empty_entries_Suc, simp add: empty_entries_def)

lemma empty_entries_nth: "i < n \<Longrightarrow> empty_entries n ! (3 * i) = JS_UNINITIALIZED"
proof (induction n arbitrary: i)
  case (Suc n)
  then show ?case by (cases i) (simp_all add: empty_entries_Suc)
qed simp

lemma alloc_props_ok:
  assumes n: "0 < n" and hm: "hm = 2 ^ get_prop_hash_size_log2 n - 1" and len: "off hm n < 2 ^ 28"
  shows "props_ok (alloc_props n) hm n 0" "prop_map (alloc_props n) hm 0 = Map.empty"
proof -
  let ?pre = "[JS_NewShortInt 0, JS_NewShortInt (of_nat hm)] @ replicate (hm + 1) 0"
  define arr where "arr = ?pre @ empty_entries n"
  have l: "length arr = off hm n" by (simp add: arr_def off_def)
  then have i: "length arr - 1 = off hm (n - 1) + 2" "length arr - 3 = off hm (n - 1)" using n by (simp_all add: off_def)
  have ff: "2 + hm + 1 = off hm 0" by (simp add: off_def)
  have a: "alloc_props n = arr[off hm (n - 1) + 2 := set_hash_next (arr ! (off hm (n - 1) + 2)) (of_nat (2 * off hm 0))]"
    unfolding alloc_props_def hm [symmetric] Let_def ff append_assoc [symmetric]
    using i by (simp add: arr_def)
  have lp: "length ?pre = off hm 0" by (simp add: off_def)
  have key: "arr ! off hm i = JS_UNINITIALIZED" if "i < n" for i
  proof -
    have "off hm i = length ?pre + 3 * i" by (simp add: off_def)
    then show ?thesis unfolding arr_def using empty_entries_nth [OF that] by (simp only: nth_append_length_plus)
  qed
  have w: "alloc_props n ! 0 = JS_NewShortInt 0" "alloc_props n ! 1 = JS_NewShortInt (of_nat hm)"
    by (simp_all add: a arr_def)
  have bk: "alloc_props n ! (2 + h) = 0" if "h \<le> hm" for h
  proof -
    have "arr ! (2 + h) = (replicate (hm + 1) 0 @ empty_entries n) ! h" by (simp add: arr_def)
    also have "\<dots> = 0" using that by (simp only: nth_append length_replicate) (simp add: less_Suc_eq_le del: replicate_Suc)
    finally show ?thesis using that by (simp add: a)
  qed
  have hm28: "hm < 2 ^ 30" using len by (simp add: off_def)
  have "JS_VALUE_GET_INT (JS_NewShortInt (of_nat 0)) = of_nat 0" by (rule short_int_nat) simp
  then have core: "props_core (alloc_props n) hm n 0"
    using len short_int_nat [OF hm28] unfolding props_core_def w by (simp add: a l)
  have chains: "\<exists>is. bucket_ok (alloc_props n) hm (used_entries (alloc_props n) hm 0) h is" if "h \<le> hm" for h
    by (rule exI [of _ "[]"]) (use bk [OF that] in \<open>simp add: bucket_ok_def\<close>)
  have "get_first_free (alloc_props n) = off hm 0"
  proof (rule first_free_last [of _ hm n])
    define x :: u32 where "x = of_nat (2 * off hm 0)"
    have "unat x < 2 ^ 30" unfolding x_def using len by (simp only: unat_of_nat) (simp add: off_def)
    moreover have "off hm (n - 1) + 2 < length arr" using i(1) l n by (simp add: off_def)
    ultimately have "prop_hash_next (alloc_props n ! (off hm (n - 1) + 2)) = x"
      unfolding a x_def [symmetric] by (simp add: hash_next_set)
    then show "alloc_props n ! off hm (n - 1) = JS_UNINITIALIZED \<and>
        prop_hash_next (alloc_props n ! (off hm (n - 1) + 2)) = of_nat (2 * off hm 0)"
      using key [of "n - 1"] n by (simp only: x_def) (simp add: a)
  qed (use len n in \<open>simp_all add: a l\<close>)
  then show "props_ok (alloc_props n) hm n 0" using core chains by (simp add: props_ok_def)
  show "prop_map (alloc_props n) hm 0 = Map.empty" by (rule ext, rule prop_map_None) simp
qed

lemma mark_last_free_ok:
  assumes core: "props_core arr hm cap u" and u: "u < cap"
    and chains: "\<forall>h \<le> hm. \<exists>is. bucket_ok arr hm (used_entries arr hm u) h is"
  shows "props_core (mark_last_free arr) hm cap u" "prop_map (mark_last_free arr) hm u = prop_map arr hm u"
    "\<forall>h \<le> hm. \<exists>is. bucket_ok (mark_last_free arr) hm (used_entries (mark_last_free arr) hm u) h is"
    "mark_last_free arr ! off hm (cap - 1) = JS_UNINITIALIZED"
proof -
  note c = core [unfolded props_core_def]
  have a: "mark_last_free arr = arr[off hm (cap - 1) := JS_UNINITIALIZED]"
  proof -
    have "length arr - 3 = off hm (cap - 1)" using c u by (simp add: off_def)
    then show ?thesis by (simp only: mark_last_free_def)
  qed
  have w: "mark_last_free arr ! off hm i = arr ! off hm i" if "i < u" for i
    using that u by (simp add: a)
  have v: "mark_last_free arr ! Suc (off hm i) = arr ! Suc (off hm i)"
    "mark_last_free arr ! Suc (Suc (off hm i)) = arr ! Suc (Suc (off hm i))" for i by (simp_all add: a)
  have hd: "mark_last_free arr ! 0 = arr ! 0" "mark_last_free arr ! 1 = arr ! 1" by (simp_all add: a)
  have "\<forall>i < u. mark_last_free arr ! off hm i = arr ! off hm i \<and> mark_last_free arr ! (off hm i + 1) = arr ! (off hm i + 1) \<and>
      prop_type (mark_last_free arr ! (off hm i + 2)) = prop_type (arr ! (off hm i + 2))"
    using w v by simp
  note t = entries_transfer [of u "mark_last_free arr" hm arr hm, OF this]
  note l = t(1)
  show "props_core (mark_last_free arr) hm cap u"
    using c t(2) unfolding props_core_def l hd by (simp add: a)
  show "prop_map (mark_last_free arr) hm u = prop_map arr hm u" by (rule t(3)) (use c in blast)
  show "\<forall>h \<le> hm. \<exists>is. bucket_ok (mark_last_free arr) hm (used_entries (mark_last_free arr) hm u) h is"
  proof (intro allI impI)
    fix h assume h: "h \<le> hm"
    then obtain "is" where b: "bucket_ok arr hm (used_entries arr hm u) h is" using chains by blast
    have "bucket_ok (mark_last_free arr) hm (used_entries arr hm u) h is"
      by (rule bucket_ok_cong [OF _ _ _ b]) (use h v w in \<open>simp_all add: a used_entries_def\<close>)
    then show "\<exists>is. bucket_ok (mark_last_free arr) hm (used_entries (mark_last_free arr) hm u) h is" unfolding l by blast
  qed
  show "mark_last_free arr ! off hm (cap - 1) = JS_UNINITIALIZED"
  proof -
    have "off hm (cap - 1) < length arr" using c u by (simp add: off_def)
    then show ?thesis by (simp add: a)
  qed
qed

text \<open>The table after the growth, with the words that have no meaning yet at the end.\<close>

lemma grow_props_ok:
  assumes ok: "props_ok arr0 hm cap cap" and cap: "0 < cap" "cap < cap'"
    and hm': "hm' = grown_mask arr0" and len: "length (arr0 @ junk) = off hm' cap'" "off hm' cap' < 2 ^ 28"
  shows "\<exists>arr. grow_props (arr0 @ junk) (length arr0) hm' = Some (arr, off hm' cap) \<and> props_core arr hm' cap' cap \<and>
    (\<forall>h \<le> hm'. \<exists>is. bucket_ok arr hm' (used_entries arr hm' cap) h is) \<and> prop_map arr hm' cap = prop_map arr0 hm cap"
proof -
  have core: "props_core arr0 hm cap cap" using ok by (simp add: props_ok_def)
  note c = core [unfolded props_core_def] and cb = core_bounds [OF core]
  have ent: "(arr0 @ junk) ! (off hm i + m) = arr0 ! (off hm i + m)" if "i < cap" "m < 3" for i m
    using that c by (simp add: nth_append off_def)
  have hd: "(arr0 @ junk) ! 0 = arr0 ! 0" "(arr0 @ junk) ! 1 = arr0 ! 1" using c by (simp_all add: nth_append off_def)
  have mask: "hash_mask (arr0 @ junk) = hm" using cb(7) hd by (simp add: hash_mask_def)
  have cnt: "card (used_entries arr0 hm cap) < 2 ^ 28" using card_live [of arr0 hm cap] c by (simp add: off_def)
  show ?thesis
  proof (cases "hm' = hm")
    case True
    have g: "grow_props (arr0 @ junk) (length arr0) hm' = Some (arr0 @ junk, off hm' cap)"
      using True c by (simp add: grow_props_def mask)
    have "\<forall>i < cap. (arr0 @ junk) ! off hm' i = arr0 ! off hm i \<and> (arr0 @ junk) ! (off hm' i + 1) = arr0 ! (off hm i + 1) \<and>
        prop_type ((arr0 @ junk) ! (off hm' i + 2)) = prop_type (arr0 ! (off hm i + 2))"
      using ent [of _ 0] ent [of _ 1] ent [of _ 2] True by simp
    note t = entries_transfer [of cap "arr0 @ junk" hm' arr0 hm, OF this]
    have core': "props_core (arr0 @ junk) hm' cap' cap"
      using c t(2) len cap unfolding props_core_def t(1) hd by (simp add: True)
    have "\<exists>is. bucket_ok (arr0 @ junk) hm' (used_entries (arr0 @ junk) hm' cap) h is" if h: "h \<le> hm'" for h
    proof -
      obtain "is" where b: "bucket_ok arr0 hm (used_entries arr0 hm cap) h is" using ok h True by (auto simp: props_ok_def)
      have "(arr0 @ junk) ! (2 + h) = arr0 ! (2 + h)" using core_bounds(3) [OF core, of h] h True by (simp add: nth_append)
      then have "bucket_ok (arr0 @ junk) hm (used_entries arr0 hm cap) h is"
        using ent [of _ 0] ent [of _ 2] by (intro bucket_ok_cong [OF _ _ _ b]) (simp_all add: used_entries_def)
      then show ?thesis unfolding t(1) unfolding True by blast
    qed
    moreover have "prop_map (arr0 @ junk) hm' cap = prop_map arr0 hm cap" by (rule t(3)) (use c in blast)
    ultimately show ?thesis using g core' by blast
  next
    case False
    then have gm: "hm < hm'" by (auto simp: hm' grown_mask_def cb(7) split: if_splits)
    define d where "d = hm' - hm"
    define M where "M = (take (3 + hm') (arr0 @ junk) @ take (length arr0 - (3 + hm)) (drop (3 + hm) (arr0 @ junk)) @
      drop (length arr0 + d) (arr0 @ junk))[1 := JS_NewShortInt (of_nat hm')]"
    have off': "off hm' cap \<le> length (arr0 @ junk)" using len cap by (simp add: off_def)
    have lM: "length M = length (arr0 @ junk)" using off' c gm by (simp add: M_def off_def d_def)
    have entM: "M ! (off hm' i + m) = arr0 ! (off hm i + m)" if "i < cap" "m < 3" for i m
    proof -
      let ?x = "arr0 @ junk"
      let ?rest = "take (length arr0 - (3 + hm)) (drop (3 + hm) ?x) @ drop (length arr0 + d) ?x"
      have o: "off hm' i + m = length (take (3 + hm') ?x) + (3 * i + m)" using off' by (simp add: off_def)
      have "M ! (off hm' i + m) = (take (3 + hm') ?x @ ?rest) ! (off hm' i + m)"
        unfolding M_def by (simp add: off_def)
      also have "\<dots> = ?rest ! (3 * i + m)" unfolding o by (rule nth_append_length_plus)
      also have "\<dots> = (arr0 @ junk) ! (off hm i + m)" using that c by (simp add: nth_append off_def add.assoc)
      finally show ?thesis using ent [OF that] by simp
    qed
    have hdM: "M ! 0 = arr0 ! 0" "M ! 1 = JS_NewShortInt (of_nat hm')"
    proof -
      have "0 < length arr0" using c by (simp add: off_def)
      then show "M ! 0 = arr0 ! 0" "M ! 1 = JS_NewShortInt (of_nat hm')"
        using off' lM by (simp_all add: M_def nth_append off_def)
    qed
    have "\<forall>i < cap. M ! off hm' i = arr0 ! off hm i \<and> M ! (off hm' i + 1) = arr0 ! (off hm i + 1) \<and>
        prop_type (M ! (off hm' i + 2)) = prop_type (arr0 ! (off hm i + 2))"
      using entM [of _ 0] entM [of _ 1] entM [of _ 2] by simp
    note t = entries_transfer [of cap M hm' arr0 hm, OF this]
    have "hm' < 2 ^ 30" using len(2) by (simp add: off_def)
    note si = short_int_nat [OF this]
    have coreM: "props_core M hm' cap' cap"
      using c t(2) len cap lM unfolding props_core_def t(1) hdM si by simp
    obtain arr where r: "rehash_props M = Some arr" "same_entries hm' (used_entries M hm' cap) M arr"
      "\<forall>h \<le> hm'. \<exists>is. bucket_ok arr hm' (used_entries M hm' cap) h is"
      using rehash_props_entries [OF coreM] cap by auto
    have "grow_props (arr0 @ junk) (length arr0) hm' = Some (arr, off hm' cap)"
    proof -
      have "length arr0 + d = off hm' cap" using c gm by (simp add: d_def off_def)
      moreover have "\<not> off hm' cap > length (arr0 @ junk)" using off' by simp
      ultimately show ?thesis using r(1) False unfolding grow_props_def mask Let_def d_def [symmetric] M_def by simp
    qed
    moreover have "props_core arr hm' cap' cap" "prop_map arr hm' cap = prop_map M hm' cap"
      by (rule same_entries_core [OF r(2) coreM])+
    moreover have "prop_map M hm' cap = prop_map arr0 hm cap" by (rule t(3)) (use c in blast)
    ultimately show ?thesis using r(3) same_entries_live [OF r(2)] by (intro exI [of _ arr]) simp
  qed
qed

section \<open>The operations refine a map\<close>

lemma last_is_free:
  assumes "props_ok arr hm cap u" "u < cap"
  shows "arr ! off hm (cap - 1) = JS_UNINITIALIZED"
proof -
  have "length arr = off hm cap" "get_first_free arr = off hm u" using assms(1) by (auto simp: props_ok_def props_core_def)
  moreover have "off hm cap - 3 = off hm (cap - 1)" using assms(2) by (simp add: off_def)
  ultimately show ?thesis using assms(2) by (auto simp: get_first_free_def split: if_splits)
qed

lemma find_unlink_start:
  assumes "props_ok arr hm cap u"
  obtains (absent) "k \<notin> dom (prop_map arr hm u)"
      "find_unlink arr k None (unat (JS_VALUE_GET_INT (arr ! (2 + slot hm k)))) = Some None"
    | (found) pre i post where "bucket_ok arr hm (used_entries arr hm u) (slot hm k) (pre @ i # post)" "arr ! off hm i = k"
      "find_unlink arr k None (unat (JS_VALUE_GET_INT (arr ! (2 + slot hm k)))) =
         Some (Some (off hm i, if pre = [] then None else Some (off hm (last pre))))"
proof -
  have core: "props_core arr hm cap u" using assms by (simp add: props_ok_def)
  have s: "slot hm k \<le> hm" by (rule slot_le) (use core_bounds(1) [OF core] in simp)
  then obtain "is" where b: "bucket_ok arr hm (used_entries arr hm u) (slot hm k) is" using assms by (auto simp: props_ok_def)
  note lb = bucket_ok_live_bounds [OF core b]
  let ?w = "ucast (arr ! (2 + slot hm k)) :: u32"
  have start: "unat (JS_VALUE_GET_INT (arr ! (2 + slot hm k))) = unat ?w div 2"
  proof (cases "is")
    case Nil
    then show ?thesis using lb(4) bucket_link_index [of "arr ! (2 + slot hm k)" 0] by simp
  next
    case (Cons i js)
    then have o: "off hm i < 2 ^ 28" using lb(1,2) by simp
    have l: "linked arr hm ?w (i # js)" using lb(4) Cons by simp
    then have "?w = of_nat (2 * off hm i)" by (simp only: linked.simps)
    then show ?thesis using bucket_link_index [OF _ o] linked_link [OF l o] by simp
  qed
  from find_unlink_linked [OF lb(4,1,2), of k None] show thesis
  proof (elim disjE exE conjE)
    fix pre i post
    assume "is = pre @ i # post" "arr ! off hm i = k" "find_unlink arr k None (unat ?w div 2) =
         Some (Some (off hm i, if pre = [] then None else Some (off hm (last pre))))"
    then show thesis using b found start by simp
  next
    assume "\<forall>i \<in> set is. arr ! off hm i \<noteq> k" "find_unlink arr k None (unat ?w div 2) = Some None"
    then show thesis using b absent start by (auto simp: prop_map_dom bucket_ok_def)
  qed
qed

lemma put_at_first_free:
  assumes "props_ok arr hm cap u" "u < cap" "k \<noteq> JS_UNINITIALIZED" "k \<notin> dom (prop_map arr hm u)"
  shows "\<exists>arr'. put_prop arr (get_first_free arr) k = Some arr' \<and> props_ok arr' hm cap (u + 1) \<and>
    prop_map arr' hm (u + 1) = (prop_map arr hm u)(k \<mapsto> (JS_UNDEFINED, JS_PROP_NORMAL))"
proof -
  have core: "props_core arr hm cap u" and ff: "get_first_free arr = off hm u"
    and ch: "\<forall>h \<le> hm. \<exists>is. bucket_ok arr hm (used_entries arr hm u) h is" using assms(1) by (simp_all add: props_ok_def)
  show ?thesis
    by (rule put_prop_ok [OF core assms(2) ch last_is_free [OF assms(1,2)] assms(3,4)]) (auto simp: ff)
qed

text \<open>Two small tables: one of two properties with one in use, and the same with both.\<close>

definition small_table :: "JSValue list" where
  "small_table = the (put_prop (alloc_props 2) (get_first_free (alloc_props 2)) 16)"

definition full_table :: "JSValue list" where
  "full_table = the (put_prop small_table (get_first_free small_table) 24)"

lemma no_key: "JS_UNINITIALIZED \<noteq> 16" "JS_UNINITIALIZED \<noteq> 24" "JS_UNINITIALIZED \<noteq> 32"
  by code_simp+

lemma one_lt_two: "(1 :: nat) < 2"
  by simp

lemma new_table: "props_ok (alloc_props 2) 0 2 0" "prop_map (alloc_props 2) 0 0 = Map.empty"
proof -
  have "get_prop_hash_size_log2 2 = 0" by code_simp
  then have h: "(0 :: nat) = 2 ^ get_prop_hash_size_log2 2 - 1" by simp
  show "props_ok (alloc_props 2) 0 2 0" "prop_map (alloc_props 2) 0 0 = Map.empty"
    using alloc_props_ok [OF _ h] by (simp_all add: off_def)
qed

lemma small_table_ok:
  "props_ok small_table 0 2 1" "prop_map small_table 0 1 = [16 \<mapsto> (JS_UNDEFINED, JS_PROP_NORMAL)]"
proof -
  have "16 \<notin> dom (prop_map (alloc_props 2) 0 0)" by (simp add: new_table(2))
  note p = put_at_first_free [OF new_table(1) zero_less_numeral no_key(1) [symmetric] this]
  show "props_ok small_table 0 2 1" "prop_map small_table 0 1 = [16 \<mapsto> (JS_UNDEFINED, JS_PROP_NORMAL)]"
    using p unfolding new_table(2) small_table_def by auto
qed

lemma full_table_ok:
  "props_ok full_table 0 2 2"
  "prop_map full_table 0 2 = [16 \<mapsto> (JS_UNDEFINED, JS_PROP_NORMAL), 24 \<mapsto> (JS_UNDEFINED, JS_PROP_NORMAL)]"
proof -
  have "24 \<notin> dom (prop_map small_table 0 1)" by (simp only: small_table_ok(2)) simp
  note p = put_at_first_free [OF small_table_ok(1) one_lt_two no_key(2) [symmetric] this]
  show "props_ok full_table 0 2 2"
    "prop_map full_table 0 2 = [16 \<mapsto> (JS_UNDEFINED, JS_PROP_NORMAL), 24 \<mapsto> (JS_UNDEFINED, JS_PROP_NORMAL)]"
    using p unfolding small_table_ok(2) full_table_def one_add_one by auto
qed

text \<open>
  C9: Looking up a key in a well formed property table ends, within the array, at the entry of the
  key if the table has one and at nothing otherwise.
\<close>

theorem find_own_property_terminates:
  assumes "props_ok arr hm cap u"
  shows "\<exists>r. find_own_property arr k = Some r \<and>
    prop_map arr hm u k = map_option (\<lambda>i. (arr ! (i + 1), prop_type (arr ! (i + 2)))) r"
  by (rule find_own_property_map [OF assms])

lemma find_own_property_terminates_witness: "\<exists>i. find_own_property small_table 16 = Some (Some i)"
proof -
  obtain r where "find_own_property small_table 16 = Some r" "prop_map small_table 0 1 16 \<noteq> None \<Longrightarrow> r \<noteq> None"
    using find_own_property_terminates [OF small_table_ok(1), of 16] by auto
  then show ?thesis unfolding small_table_ok(2) by auto
qed

text \<open>
  C6: A table made for \<open>n\<close> properties is well formed and empty, and adding a new key to a well formed
  table with room keeps it well formed and adds exactly that key, as a plain property with an
  undefined value.
\<close>

theorem create_property_refines:
  assumes "props_ok arr hm cap u" "u < cap" "k \<noteq> JS_UNINITIALIZED" "k \<notin> dom (prop_map arr hm u)"
  shows "\<exists>arr'. put_prop arr (get_first_free arr) k = Some arr' \<and> props_ok arr' hm cap (u + 1) \<and>
    prop_map arr' hm (u + 1) = (prop_map arr hm u)(k \<mapsto> (JS_UNDEFINED, JS_PROP_NORMAL))"
  by (rule put_at_first_free [OF assms])

lemma create_property_refines_witness:
  "\<exists>arr'. put_prop small_table (get_first_free small_table) 24 = Some arr' \<and> props_ok arr' 0 2 (1 + 1)"
  using create_property_refines [OF small_table_ok(1) one_lt_two no_key(2) [symmetric]]
  unfolding small_table_ok(2) by auto

text \<open>
  C8: Adding a key to a full table: after the array has grown, with the hash table doubled when it
  holds too few buckets and the entries moved and rehashed, the table is well formed and has exactly
  the old properties and the new one.
\<close>

theorem create_property_grows:
  assumes "props_ok arr0 hm cap cap" "0 < cap" "cap < cap'"
    "length (arr0 @ junk) = off (grown_mask arr0) cap'" "off (grown_mask arr0) cap' < 2 ^ 28"
    "k \<noteq> JS_UNINITIALIZED" "k \<notin> dom (prop_map arr0 hm cap)"
  shows "\<exists>arr free arr'. grow_props (arr0 @ junk) (length arr0) (grown_mask arr0) = Some (arr, free) \<and>
    put_prop (mark_last_free arr) free k = Some arr' \<and> props_ok arr' (grown_mask arr0) cap' (cap + 1) \<and>
    prop_map arr' (grown_mask arr0) (cap + 1) = (prop_map arr0 hm cap)(k \<mapsto> (JS_UNDEFINED, JS_PROP_NORMAL))"
proof -
  obtain arr where g: "grow_props (arr0 @ junk) (length arr0) (grown_mask arr0) = Some (arr, off (grown_mask arr0) cap)"
    "props_core arr (grown_mask arr0) cap' cap"
    "\<forall>h \<le> grown_mask arr0. \<exists>is. bucket_ok arr (grown_mask arr0) (used_entries arr (grown_mask arr0) cap) h is"
    "prop_map arr (grown_mask arr0) cap = prop_map arr0 hm cap"
    using grow_props_ok [OF assms(1,2,3) refl assms(4,5)] by blast
  note m = mark_last_free_ok [OF g(2) assms(3) g(3)]
  show ?thesis
    by (rule put_prop_ok [OF m(1) assms(3) m(3) m(4) assms(6)]) (use g(1,4) m(2) assms(7) in auto)
qed

lemma create_property_grows_witness:
  "\<exists>arr free arr'. grow_props (full_table @ replicate 4 0) (length full_table) (grown_mask full_table) = Some (arr, free) \<and>
    put_prop (mark_last_free arr) free 32 = Some arr' \<and> props_ok arr' 1 3 (2 + 1)"
proof -
  have m: "grown_mask full_table = 1" by code_simp
  have l: "length (full_table @ replicate 4 0) = off 1 3" by code_simp
  have "32 \<notin> dom (prop_map full_table 0 2)" by (simp only: full_table_ok(2)) simp
  then show ?thesis
    using create_property_grows [OF full_table_ok(1) _ _ l [folded m] _ no_key(3) [symmetric]] unfolding m
    by (simp add: off_def) blast
qed

text \<open>
  C7: Deleting: the search in the bucket of the key ends; when the key is absent nothing is found,
  otherwise the entry is unlinked and cleared, and the table is well formed and has exactly the other
  properties.
\<close>

theorem delete_property_refines:
  assumes "props_ok arr hm cap u"
  shows "case find_unlink arr k None (unat (JS_VALUE_GET_INT (arr ! bucket arr k))) of
      None \<Rightarrow> False
    | Some None \<Rightarrow> prop_map arr hm u k = None
    | Some (Some (i, l)) \<Rightarrow> k \<in> dom (prop_map arr hm u) \<and>
        (\<exists>u' \<le> u. props_ok (delete_at arr (bucket arr k) i l) hm cap u' \<and>
           prop_map (delete_at arr (bucket arr k) i l) hm u' = (prop_map arr hm u)(k := None))"
proof -
  have "props_core arr hm cap u" using assms by (simp add: props_ok_def)
  then have b: "bucket arr k = 2 + slot hm k" by (rule core_bounds(4))
  show ?thesis
  proof (rule find_unlink_start [OF assms, of k])
    assume "k \<notin> dom (prop_map arr hm u)"
      "find_unlink arr k None (unat (JS_VALUE_GET_INT (arr ! (2 + slot hm k)))) = Some None"
    then show ?thesis unfolding b by auto
  next
    fix pre i post
    assume f: "bucket_ok arr hm (used_entries arr hm u) (slot hm k) (pre @ i # post)" "arr ! off hm i = k"
      "find_unlink arr k None (unat (JS_VALUE_GET_INT (arr ! (2 + slot hm k)))) =
         Some (Some (off hm i, if pre = [] then None else Some (off hm (last pre))))"
    have "k \<in> dom (prop_map arr hm u)" using f(1,2) by (auto simp: prop_map_dom bucket_ok_def)
    then show ?thesis unfolding b f(3) using delete_at_ok [OF assms f(1,2) refl] by simp
  qed
qed

lemma delete_property_refines_witness:
  "case find_unlink full_table 16 None (unat (JS_VALUE_GET_INT (full_table ! bucket full_table 16))) of
     Some (Some (i, l)) \<Rightarrow> \<exists>u'. props_ok (delete_at full_table (bucket full_table 16) i l) 0 2 u'
   | _ \<Rightarrow> False"
proof -
  have "prop_map full_table 0 2 16 \<noteq> None" by (simp only: full_table_ok(2)) simp
  then show ?thesis using delete_property_refines [OF full_table_ok(1), of 16] by (auto split: option.splits)
qed

end
