(* ===== verification/Shim.thy ===== *)
theory Shim imports Ref_Store Kmp_Buf Run_State Float64 DtoaInt "HOL-Library.Monad_Syntax" begin

text \<open>
  The operations of the shim (\<open>native/shim/mquickjs_kmp.c\<close>): conversion of values between the engine
  and the host, the ref operations, calls of host functions, loading and running of bytecode. The
  state is \<open>kmpjs_engine\<close>, with the ref table, the buffers and the run state of the other theories.

  The functions of the engine that the shim calls are the record \<open>js_api\<close>. Most of them may collect
  garbage, run script and so re-enter the shim through a host function; they therefore map the whole
  state to a new one. The host function is such a parameter too. Outcomes of \<open>malloc\<close> and
  \<open>realloc\<close> are functions of a counter that every allocation advances. \<open>None\<close> is \<open>abort()\<close> or a
  memory error.
\<close>

unbundle bit_operations_syntax

section \<open>Values and state\<close>

definition KMPJS_TAG_UNDEFINED :: s32 where "KMPJS_TAG_UNDEFINED = 0"
definition KMPJS_TAG_NULL :: s32 where "KMPJS_TAG_NULL = 1"
definition KMPJS_TAG_BOOL :: s32 where "KMPJS_TAG_BOOL = 2"
definition KMPJS_TAG_NUMBER :: s32 where "KMPJS_TAG_NUMBER = 3"
definition KMPJS_TAG_STRING :: s32 where "KMPJS_TAG_STRING = 4"
definition KMPJS_TAG_OBJECT :: s32 where "KMPJS_TAG_OBJECT = 5"
definition KMPJS_TAG_EXCEPTION :: s32 where "KMPJS_TAG_EXCEPTION = 6"
definition KMPJS_TAG_REF :: s32 where "KMPJS_TAG_REF = 7"

lemmas tag_defs = KMPJS_TAG_UNDEFINED_def KMPJS_TAG_NULL_def KMPJS_TAG_BOOL_def KMPJS_TAG_NUMBER_def
  KMPJS_TAG_STRING_def KMPJS_TAG_OBJECT_def KMPJS_TAG_EXCEPTION_def KMPJS_TAG_REF_def

definition KMPJS_REF_FUNCTION :: nat where "KMPJS_REF_FUNCTION = 1"
definition KMPJS_REF_ARRAY :: nat where "KMPJS_REF_ARRAY = 2"
definition KMPJS_FLAG_REF_OBJECTS :: s32 where "KMPJS_FLAG_REF_OBJECTS = 1"
definition KMPJS_BYTECODE_HEADER_SIZE :: u32 where "KMPJS_BYTECODE_HEADER_SIZE = 52"
definition KMP_MIN_MEM :: int where "KMP_MIN_MEM = 4096"

text \<open>The buffers a published string can point into; \<open>Arg i\<close> is a buffer of a running host call.\<close>

datatype kmp_sink = Out_str | Out_stack | Log_line | Arg nat

text \<open>A \<open>str\<close> or \<open>stack\<close> field with its length: null, bytes of their own, or the start of a buffer.\<close>

datatype payload = P_null | P_bytes "u8 list" | P_buf kmp_sink int

record kmpjs_value =
  vtag :: s32
  vref :: s64
  vnum :: float64
  vstr :: payload
  vstack :: payload

definition zero_value :: kmpjs_value where
  "zero_value = \<lparr>vtag = 0, vref = 0, vnum = 0, vstr = P_null, vstack = P_null\<rparr>"

text \<open>
  \<open>gc_stack\<close> is the engine's stack of local roots, newest first; \<open>arg_bufs\<close> are the buffers of the
  host calls in progress, \<open>blocks\<close> the loaded bytecode, newest first.
\<close>

record 'c kmpjs_engine =
  ctx :: 'c
  blocks :: "u8 list list"
  run_state :: kmp_state
  out_str :: kmp_buf
  out_stack :: kmp_buf
  log_line :: kmp_buf
  refs :: ref_table
  gc_stack :: "JSValue list"
  arg_bufs :: "kmp_buf list"
  alloc_clock :: nat

type_synonym ('c, 'r) eff = "'c kmpjs_engine \<Rightarrow> 'c kmpjs_engine \<times> 'r"

record 'c js_api =
  api_IsNumber :: "'c \<Rightarrow> JSValue \<Rightarrow> bool"
  api_IsString :: "'c \<Rightarrow> JSValue \<Rightarrow> bool"
  api_IsFunction :: "'c \<Rightarrow> JSValue \<Rightarrow> bool"
  api_IsArray :: "'c \<Rightarrow> JSValue \<Rightarrow> bool"
  api_IsError :: "'c \<Rightarrow> JSValue \<Rightarrow> bool"
  api_GetGlobalObject :: "'c \<Rightarrow> JSValue"
  api_PushArg :: "JSValue \<Rightarrow> 'c \<Rightarrow> 'c"
  api_ToNumber :: "JSValue \<Rightarrow> ('c, float64 option) eff"
  api_ToString :: "JSValue \<Rightarrow> ('c, JSValue) eff"
  api_ToCStringLen :: "JSValue \<Rightarrow> ('c, u8 list option) eff"
  api_GetException :: "('c, JSValue) eff"
  api_Throw :: "string \<Rightarrow> u8 list \<Rightarrow> ('c, JSValue) eff"
  api_GetPropertyStr :: "JSValue \<Rightarrow> string \<Rightarrow> ('c, JSValue) eff"
  api_GetPropertyUint32 :: "JSValue \<Rightarrow> u32 \<Rightarrow> ('c, JSValue) eff"
  api_SetPropertyStr :: "JSValue \<Rightarrow> string \<Rightarrow> JSValue \<Rightarrow> ('c, JSValue) eff"
  api_StackCheck :: "u32 \<Rightarrow> ('c, bool) eff"
  api_Call :: "nat \<Rightarrow> ('c, JSValue) eff"
  api_Eval :: "u8 list \<Rightarrow> nat \<Rightarrow> string \<Rightarrow> ('c, JSValue) eff"
  api_ParseJSON :: "u8 list \<Rightarrow> nat \<Rightarrow> string \<Rightarrow> ('c, JSValue) eff"
  api_Run :: "JSValue \<Rightarrow> ('c, JSValue) eff"
  api_NewInt32 :: "s32 \<Rightarrow> ('c, JSValue) eff"
  api_NewFloat64 :: "float64 \<Rightarrow> ('c, JSValue) eff"
  api_NewStringLen :: "u8 list \<Rightarrow> ('c, JSValue) eff"
  api_NewCFunctionParams :: "JSValue \<Rightarrow> ('c, JSValue) eff"
  api_IsBytecode :: "u8 list \<Rightarrow> bool"
  api_RelocateBytecode :: "u8 list \<Rightarrow> ('c, u8 list option) eff"
  api_LoadBytecode :: "u8 list \<Rightarrow> ('c, JSValue) eff"
  api_DumpMemory :: "('c, unit) eff"
  api_PrintValueF :: "JSValue \<Rightarrow> ('c, unit) eff"
  api_log :: "(u8 list \<Rightarrow> ('c, unit) eff) option"
  api_host :: "(s32 \<Rightarrow> kmpjs_value list \<Rightarrow> ('c, s32 \<times> kmpjs_value) eff) option"
  api_cast_int32 :: "float64 \<Rightarrow> s32"
  api_malloc_ok :: "nat \<Rightarrow> bool"
  api_realloc :: "nat \<Rightarrow> realloc_result"

definition PushGCRef :: "JSValue \<Rightarrow> 'c kmpjs_engine \<Rightarrow> 'c kmpjs_engine" where
  "PushGCRef v e = e\<lparr>gc_stack := v # gc_stack e\<rparr>"

definition PopGCRef :: "'c kmpjs_engine \<Rightarrow> 'c kmpjs_engine" where
  "PopGCRef e = e\<lparr>gc_stack := tl (gc_stack e)\<rparr>"

text \<open>The rooted value \<open>i\<close> pushes below the newest.\<close>

definition root :: "nat \<Rightarrow> 'c kmpjs_engine \<Rightarrow> JSValue" where
  "root i e = (if i < length (gc_stack e) then gc_stack e ! i else JS_UNDEFINED)"

definition malloc_tick :: "'c js_api \<Rightarrow> ('c, bool) eff" where
  "malloc_tick api e = (e\<lparr>alloc_clock := alloc_clock e + 1\<rparr>, api_malloc_ok api (alloc_clock e))"

fun sink_buf :: "kmp_sink \<Rightarrow> 'c kmpjs_engine \<Rightarrow> kmp_buf" where
  "sink_buf Out_str e = out_str e"
| "sink_buf Out_stack e = out_stack e"
| "sink_buf Log_line e = log_line e"
| "sink_buf (Arg i) e = (if i < length (arg_bufs e) then arg_bufs e ! i else empty_buf)"

fun set_sink :: "kmp_sink \<Rightarrow> kmp_buf \<Rightarrow> 'c kmpjs_engine \<Rightarrow> 'c kmpjs_engine" where
  "set_sink Out_str b e = e\<lparr>out_str := b\<rparr>"
| "set_sink Out_stack b e = e\<lparr>out_stack := b\<rparr>"
| "set_sink Log_line b e = e\<lparr>log_line := b\<rparr>"
| "set_sink (Arg i) b e = e\<lparr>arg_bufs := (arg_bufs e)[i := b]\<rparr>"

text \<open>The bytes a payload stands for when it is read.\<close>

fun payload_bytes :: "'c kmpjs_engine \<Rightarrow> payload \<Rightarrow> u8 list option" where
  "payload_bytes e P_null = None"
| "payload_bytes e (P_bytes bs) = Some bs"
| "payload_bytes e (P_buf k n) =
     Some (take (nat n) (case bdata (sink_buf k e) of Some d \<Rightarrow> d | None \<Rightarrow> []))"

definition text_bytes :: "string \<Rightarrow> u8 list" where
  "text_bytes s = map (\<lambda>c. of_nat (of_char c)) s"

section \<open>Buffers\<close>

text \<open>\<open>buf_reset\<close> followed by \<open>buf_append\<close>, as every producer of a text does.\<close>

definition sink_append :: "'c js_api \<Rightarrow> kmp_sink \<Rightarrow> u8 list \<Rightarrow> 'c kmpjs_engine \<Rightarrow> ('c kmpjs_engine \<times> int) option" where
  "sink_append api k p e = do {
     (b, rc) \<leftarrow> buf_append (api_realloc api (alloc_clock e)) (sink_buf k e) p;
     Some (set_sink k b (e\<lparr>alloc_clock := alloc_clock e + 1\<rparr>), rc) }"

definition sink_reset :: "kmp_sink \<Rightarrow> 'c kmpjs_engine \<Rightarrow> 'c kmpjs_engine" where
  "sink_reset k e = set_sink k (buf_reset (sink_buf k e)) e"

text \<open>\<open>publish\<close>: the empty string literal when the buffer has no data.\<close>

definition sink_publish :: "kmp_sink \<Rightarrow> 'c kmpjs_engine \<Rightarrow> payload" where
  "sink_publish k e = (if bdata (sink_buf k e) = None then P_bytes [] else P_buf k (sint (blen (sink_buf k e))))"

definition copy_js_string :: "'c js_api \<Rightarrow> JSValue \<Rightarrow> kmp_sink \<Rightarrow> 'c kmpjs_engine \<Rightarrow> ('c kmpjs_engine \<times> int) option" where
  "copy_js_string api str k e =
     (case api_ToCStringLen api str e of
        (e1, None) \<Rightarrow> Some (e1, -1)
      | (e1, Some p) \<Rightarrow> sink_append api k p (sink_reset k e1))"

section \<open>From the engine to the host\<close>

text \<open>\<open>JSON.stringify\<close> of the value that \<open>pval\<close> points to.\<close>

definition json_stringify :: "'c js_api \<Rightarrow> ('c kmpjs_engine \<Rightarrow> JSValue) \<Rightarrow> ('c, JSValue) eff" where
  "json_stringify api pval e0 =
     (let e = PushGCRef JS_UNDEFINED e0;
          (e1, json) = api_GetPropertyStr api (api_GetGlobalObject api (ctx e)) ''JSON'' e;
          e1 = e1\<lparr>gc_stack := (gc_stack e1)[0 := json]\<rparr> in
      if JS_IsException json then (PopGCRef e1, JS_EXCEPTION)
      else let (e2, func) = api_GetPropertyStr api (root 0 e1) ''stringify'' e1 in
        if JS_IsException func then (PopGCRef e2, JS_EXCEPTION)
        else let (e3, full) = api_StackCheck api 3 e2 in
          if full then (PopGCRef e3, JS_EXCEPTION)
          else let c = api_PushArg api (root 0 e3) (api_PushArg api func (api_PushArg api (pval e3) (ctx e3)));
                   (e4, res) = api_Call api 1 (e3\<lparr>ctx := c\<rparr>) in
            (PopGCRef e4, res))"

definition object_kind :: "'c js_api \<Rightarrow> 'c \<Rightarrow> JSValue \<Rightarrow> nat" where
  "object_kind api c v =
     (if api_IsFunction api c v then KMPJS_REF_FUNCTION else 0) OR (if api_IsArray api c v then KMPJS_REF_ARRAY else 0)"

definition new_ref :: "'c js_api \<Rightarrow> JSValue \<Rightarrow> ('c, s64) eff" where
  "new_ref api v e =
     (let t = alloc_clock e;
          (tab, h) = slot_new (api_malloc_ok api t) (api_malloc_ok api (t + 1)) (refs e) v in
      (e\<lparr>refs := tab, alloc_clock := t + 2\<rparr>, h))"

text \<open>The result is the status and the value filled in; on -1 the exception is pending.\<close>

definition value_to_out ::
  "'c js_api \<Rightarrow> JSValue \<Rightarrow> kmp_sink \<Rightarrow> s32 \<Rightarrow> 'c kmpjs_engine \<Rightarrow> ('c kmpjs_engine \<times> int \<times> kmpjs_value) option" where
  "value_to_out api v k flags e =
     (let c = ctx e; out = zero_value in
      if JS_IsUndefined v then Some (e, 0, out\<lparr>vtag := KMPJS_TAG_UNDEFINED\<rparr>)
      else if JS_IsNull v then Some (e, 0, out\<lparr>vtag := KMPJS_TAG_NULL\<rparr>)
      else if JS_IsBool v then
        Some (e, 0, out\<lparr>vtag := KMPJS_TAG_BOOL, vnum := f_of_int (if v = JS_TRUE then 1 else 0)\<rparr>)
      else if api_IsNumber api c v then
        (let out1 = out\<lparr>vtag := KMPJS_TAG_NUMBER\<rparr> in
         case api_ToNumber api v e of
           (e1, None) \<Rightarrow> Some (e1, -1, out1)
         | (e1, Some d) \<Rightarrow> Some (e1, 0, out1\<lparr>vnum := d\<rparr>))
      else if api_IsString api c v then
        (let out1 = out\<lparr>vtag := KMPJS_TAG_STRING\<rparr> in do {
           (e1, rc) \<leftarrow> copy_js_string api v k e;
           if rc \<noteq> 0 then Some (e1, -1, out1) else Some (e1, 0, out1\<lparr>vstr := sink_publish k e1\<rparr>) })
      else if flags AND KMPJS_FLAG_REF_OBJECTS \<noteq> 0 then
        (let (e1, h) = new_ref api v e;
             out1 = out\<lparr>vtag := KMPJS_TAG_REF, vnum := f_of_nat False (object_kind api c v), vref := h\<rparr> in
         if h = 0 then Some (fst (api_Throw api ''OutOfMemory'' [] e1), -1, out1) else Some (e1, 0, out1))
      else if api_IsFunction api c v then Some (e, 0, out\<lparr>vtag := KMPJS_TAG_OBJECT\<rparr>)
      else
        (let (e1, json) = json_stringify api (root 1) (PushGCRef v e); e2 = PopGCRef e1 in
         if JS_IsException json then Some (e2, -1, out)
         else let out1 = out\<lparr>vtag := KMPJS_TAG_OBJECT\<rparr> in
           if JS_IsUndefined json then Some (e2, 0, out1)
           else do {
             (e3, rc) \<leftarrow> copy_js_string api json k e2;
             if rc \<noteq> 0 then Some (e3, -1, out1) else Some (e3, 0, out1\<lparr>vstr := sink_publish k e3\<rparr>) }))"

definition unknown_exception :: string where "unknown_exception = ''unknown exception''"

text \<open>The message of the pending exception, into \<open>out_str\<close>.\<close>

definition exception_message :: "'c js_api \<Rightarrow> 'c kmpjs_engine \<Rightarrow> 'c kmpjs_engine option" where
  "exception_message api e =
     (let (e1, s) = api_ToString api (root 0 e) e in do {
        (e2, rc) \<leftarrow> (if JS_IsException s then Some (e1, -1) else copy_js_string api s Out_str e1);
        if rc \<noteq> 0 then map_option fst (sink_append api Out_str (text_bytes unknown_exception)
                                     (sink_reset Out_str (fst (api_GetException api e2))))
        else Some e2 })"

definition exception_to_out :: "'c js_api \<Rightarrow> 'c kmpjs_engine \<Rightarrow> ('c kmpjs_engine \<times> kmpjs_value) option" where
  "exception_to_out api e0 =
     (let (e1, exc) = api_GetException api (PushGCRef JS_UNDEFINED e0);
          e2 = e1\<lparr>gc_stack := (gc_stack e1)[0 := exc]\<rparr> in do {
        e3 \<leftarrow> exception_message api e2;
        let out = zero_value\<lparr>vtag := KMPJS_TAG_EXCEPTION, vstr := sink_publish Out_str e3\<rparr>;
        if api_IsError api (ctx e3) (root 0 e3) then
          (let (e4, s) = api_GetPropertyStr api (root 0 e3) ''stack'' e3 in
           if JS_IsException s then Some (PopGCRef (fst (api_GetException api e4)), out)
           else if api_IsString api (ctx e4) s then do {
             (e5, rc) \<leftarrow> copy_js_string api s Out_stack e4;
             Some (PopGCRef e5, if rc = 0 then out\<lparr>vstack := sink_publish Out_stack e5\<rparr> else out) }
           else Some (PopGCRef e4, out))
        else Some (PopGCRef e3, out) })"

definition fail_message :: "'c js_api \<Rightarrow> u8 list \<Rightarrow> 'c kmpjs_engine \<Rightarrow> ('c kmpjs_engine \<times> int \<times> kmpjs_value) option" where
  "fail_message api msg e = do {
     (e1, rc) \<leftarrow> sink_append api Out_str msg (sink_reset Out_str e);
     Some (e1, -1, zero_value\<lparr>vtag := KMPJS_TAG_EXCEPTION, vstr := sink_publish Out_str e1\<rparr>) }"

text \<open>\<open>fail_message\<close> with a text of the code.\<close>

definition fail :: "'c js_api \<Rightarrow> string \<Rightarrow> 'c kmpjs_engine \<Rightarrow> ('c kmpjs_engine \<times> int \<times> kmpjs_value) option" where
  "fail api msg e = fail_message api (text_bytes msg) e"

section \<open>From the host to the engine\<close>

text \<open>A copy of the code with a zero byte at its end; the length is that of the code.\<close>

definition parse_terminated ::
  "'c js_api \<Rightarrow> (u8 list \<Rightarrow> nat \<Rightarrow> string \<Rightarrow> ('c, JSValue) eff) \<Rightarrow> u8 list option \<Rightarrow> string \<Rightarrow> ('c, JSValue) eff" where
  "parse_terminated api run code filename e =
     (let (e1, ok) = malloc_tick api e; bytes = (case code of Some bs \<Rightarrow> bs | None \<Rightarrow> []) in
      if \<not> ok then api_Throw api ''OutOfMemory'' [] e1
      else run (bytes @ [0]) (length bytes) filename e1)"

text \<open>The message is a C string: it ends at a zero byte.\<close>

definition throw_message :: "'c js_api \<Rightarrow> u8 list option \<Rightarrow> ('c, JSValue) eff" where
  "throw_message api p e =
     (let (e1, ok) = malloc_tick api e; bytes = (case p of Some bs \<Rightarrow> bs | None \<Rightarrow> []) in
      if \<not> ok then api_Throw api ''OutOfMemory'' [] e1
      else api_Throw api ''Error'' (takeWhile (\<lambda>b. b \<noteq> 0) bytes) e1)"

definition slot_value :: "'c kmpjs_engine \<Rightarrow> nat \<Rightarrow> JSValue" where
  "slot_value e i = gc_val (slots (refs e) ! i)"

definition value_from_host :: "'c js_api \<Rightarrow> kmpjs_value \<Rightarrow> ('c, JSValue) eff" where
  "value_from_host api v e =
     (let tag = vtag v; str = payload_bytes e (vstr v) in
      if tag = KMPJS_TAG_UNDEFINED then (e, JS_UNDEFINED)
      else if tag = KMPJS_TAG_NULL then (e, JS_NULL)
      else if tag = KMPJS_TAG_BOOL then (e, JS_NewBool (if f_eq (vnum v) 0 then 0 else 1))
      else if tag = KMPJS_TAG_NUMBER then
        (let d = vnum v; i = api_cast_int32 api d in
         if f_eq (f_of_int (sint i)) d \<and> \<not> (f_eq d 0 \<and> f_sign d) then api_NewInt32 api i e
         else api_NewFloat64 api d e)
      else if tag = KMPJS_TAG_STRING then
        api_NewStringLen api (case str of Some bs \<Rightarrow> bs | None \<Rightarrow> []) e
      else if tag = KMPJS_TAG_OBJECT then
        (case str of None \<Rightarrow> (e, JS_UNDEFINED)
         | Some bs \<Rightarrow> parse_terminated api (api_ParseJSON api) (Some bs) ''<host>'' e)
      else if tag = KMPJS_TAG_REF then
        (case slot_get (refs e) (vref v) of
           None \<Rightarrow> api_Throw api ''TypeError'' (text_bytes ''invalid or released ref'') e
         | Some i \<Rightarrow> (e, slot_value e i))
      else throw_message api str e)"

section \<open>Evaluation\<close>

definition begin_run :: "('c, bool) eff" where
  "begin_run e = (let (st, outermost) = run_begin (run_state e) in (e\<lparr>run_state := st\<rparr>, outermost))"

definition end_run :: "bool \<Rightarrow> 'c kmpjs_engine \<Rightarrow> 'c kmpjs_engine" where
  "end_run outermost e = e\<lparr>run_state := run_end (run_state e) outermost\<rparr>"

text \<open>The value, or the pending exception, into \<open>out\<close>; shared by the operations that end with it.\<close>

definition result_to_out ::
  "'c js_api \<Rightarrow> JSValue \<Rightarrow> s32 \<Rightarrow> 'c kmpjs_engine \<Rightarrow> ('c kmpjs_engine \<times> int \<times> kmpjs_value) option" where
  "result_to_out api v flags e = do {
     (e1, rc, out) \<leftarrow> (if JS_IsException v then Some (e, -1, zero_value) else value_to_out api v Out_str flags e);
     if rc \<noteq> 0 then do { (e2, out2) \<leftarrow> exception_to_out api e1; Some (e2, -1, out2) }
     else Some (e1, 0, out) }"

definition finish ::
  "'c js_api \<Rightarrow> bool \<Rightarrow> JSValue \<Rightarrow> s32 \<Rightarrow> 'c kmpjs_engine \<Rightarrow> ('c kmpjs_engine \<times> int \<times> kmpjs_value) option" where
  "finish api outermost v flags e = do {
     (e1, rc, out) \<leftarrow> result_to_out api v flags e;
     Some (end_run outermost e1, rc, out) }"

definition kmpjs_eval ::
  "'c js_api \<Rightarrow> u8 list option \<Rightarrow> string \<Rightarrow> s32 \<Rightarrow> 'c kmpjs_engine \<Rightarrow> ('c kmpjs_engine \<times> kmpjs_value) option" where
  "kmpjs_eval api code filename flags e =
     (let (e1, outermost) = begin_run e;
          (e2, r) = parse_terminated api (api_Eval api) code filename e1 in do {
        (e3, rc, out) \<leftarrow> finish api outermost r flags e2;
        Some (e3, out) })"

section \<open>Host functions\<close>

definition host_params :: "s32 \<Rightarrow> s32 \<Rightarrow> s32" where
  "host_params fn_id flags = push_bit 1 fn_id OR (flags AND KMPJS_FLAG_REF_OBJECTS)"

definition kmpjs_define_function ::
  "'c js_api \<Rightarrow> string \<Rightarrow> s32 \<Rightarrow> s32 \<Rightarrow> 'c kmpjs_engine \<Rightarrow> ('c kmpjs_engine \<times> int \<times> kmpjs_value) option" where
  "kmpjs_define_function api name fn_id flags e =
     (let (e1, params) = api_NewInt32 api (host_params fn_id flags) (PushGCRef JS_UNDEFINED e);
          (e2, f) = api_NewCFunctionParams api params e1;
          e3 = e2\<lparr>gc_stack := (gc_stack e2)[0 := f]\<rparr> in
      if JS_IsException f then do {
        (e4, out) \<leftarrow> exception_to_out api (PopGCRef e3); Some (e4, -1, out) }
      else let (e4, r) = api_SetPropertyStr api (api_GetGlobalObject api (ctx e3)) name (root 0 e3) e3;
               e5 = PopGCRef e4 in
        if JS_IsException r then do { (e6, out) \<leftarrow> exception_to_out api e5; Some (e6, -1, out) }
        else Some (e5, 0, zero_value))"

text \<open>
  The conversion of the arguments of a host call, stopping at the first failure. \<open>argv\<close> reads an
  argument off the VM stack, where the collector may have updated it.
\<close>

fun convert_args ::
  "'c js_api \<Rightarrow> (nat \<Rightarrow> 'c \<Rightarrow> JSValue) \<Rightarrow> nat \<Rightarrow> s32 \<Rightarrow> nat list \<Rightarrow> 'c kmpjs_engine \<Rightarrow>
   ('c kmpjs_engine \<times> kmpjs_value list \<times> bool) option" where
  "convert_args api argv base flags [] e = Some (e, [], True)"
| "convert_args api argv base flags (i # is) e = do {
     (e1, rc, out) \<leftarrow> value_to_out api (argv i (ctx e)) (Arg (base + i)) flags e;
     if rc \<noteq> 0 then Some (e1, [], False)
     else do {
       (e2, outs, ok) \<leftarrow> convert_args api argv base flags is e1;
       Some (e2, out # outs, ok) } }"

fun release_args :: "kmpjs_value list \<Rightarrow> 'c kmpjs_engine \<Rightarrow> 'c kmpjs_engine option" where
  "release_args [] e = Some e"
| "release_args (a # as) e =
     (if vtag a = KMPJS_TAG_REF
      then Option.bind (kmpjs_ref_release (refs e) (vref a)) (\<lambda>t. release_args as (e\<lparr>refs := t\<rparr>))
      else release_args as e)"

text \<open>The result of the host function, thrown or converted.\<close>

definition host_result :: "'c js_api \<Rightarrow> s32 \<Rightarrow> kmpjs_value \<Rightarrow> ('c, JSValue) eff" where
  "host_result api rc result e =
     (if rc \<noteq> 0 then throw_message api (payload_bytes e (vstr result)) e else value_from_host api result e)"

text \<open>\<open>ok\<close> is whether every argument was converted.\<close>

definition call_host ::
  "'c js_api \<Rightarrow> (s32 \<Rightarrow> kmpjs_value list \<Rightarrow> ('c, s32 \<times> kmpjs_value) eff) \<Rightarrow> s32 \<Rightarrow> kmpjs_value list \<Rightarrow> bool \<Rightarrow>
   ('c, JSValue) eff" where
  "call_host api host fn_id args ok e =
     (if ok then (let (e', rc, result) = host fn_id args e in host_result api rc result e') else (e, JS_EXCEPTION))"

definition js_kmp_host ::
  "'c js_api \<Rightarrow> nat \<Rightarrow> (nat \<Rightarrow> 'c \<Rightarrow> JSValue) \<Rightarrow> JSValue \<Rightarrow> 'c kmpjs_engine \<Rightarrow> ('c kmpjs_engine \<times> JSValue) option" where
  "js_kmp_host api argc argv params e =
     (let packed = JS_VALUE_GET_INT params; fn_id = signed_drop_bit 1 packed;
          flags = packed AND KMPJS_FLAG_REF_OBJECTS in
      case api_host api of
        None \<Rightarrow> Some (api_Throw api ''InternalError'' (text_bytes ''no host function handler'') e)
      | Some host \<Rightarrow>
          let (e1, ok1) = malloc_tick api e; (e2, ok2) = malloc_tick api e1 in
          if argc > 0 \<and> (\<not> ok1 \<or> \<not> ok2) then Some (api_Throw api ''OutOfMemory'' [] e2)
          else let base = length (arg_bufs e2);
                   e3 = e2\<lparr>arg_bufs := arg_bufs e2 @ replicate argc empty_buf\<rparr> in do {
            (e4, args, ok) \<leftarrow> convert_args api argv base flags [0..<argc] e3;
            let (e5, ret) = call_host api host fn_id args ok e4;
            e6 \<leftarrow> release_args args e5;
            Some (e6\<lparr>arg_bufs := take base (arg_bufs e6)\<rparr>, ret) })"

section \<open>Ref operations\<close>

definition invalid_ref :: string where "invalid_ref = ''invalid or released ref''"

definition kmpjs_ref_get ::
  "'c js_api \<Rightarrow> s64 \<Rightarrow> string \<Rightarrow> s32 \<Rightarrow> 'c kmpjs_engine \<Rightarrow> ('c kmpjs_engine \<times> int \<times> kmpjs_value) option" where
  "kmpjs_ref_get api ref name flags e =
     (case slot_get (refs e) ref of
        None \<Rightarrow> fail api invalid_ref e
      | Some i \<Rightarrow>
          let (e1, outermost) = begin_run e;
              (e2, v) = api_GetPropertyStr api (slot_value e1 i) name e1 in
          finish api outermost v flags e2)"

definition kmpjs_ref_get_index ::
  "'c js_api \<Rightarrow> s64 \<Rightarrow> s32 \<Rightarrow> s32 \<Rightarrow> 'c kmpjs_engine \<Rightarrow> ('c kmpjs_engine \<times> int \<times> kmpjs_value) option" where
  "kmpjs_ref_get_index api ref index flags e =
     (case slot_get (refs e) ref of
        None \<Rightarrow> fail api invalid_ref e
      | Some i \<Rightarrow>
          if index <s 0 then fail api ''negative index'' e
          else let (e1, outermost) = begin_run e;
                   (e2, v) = api_GetPropertyUint32 api (slot_value e1 i) index e1 in
            finish api outermost v flags e2)"

definition kmpjs_ref_set ::
  "'c js_api \<Rightarrow> s64 \<Rightarrow> string \<Rightarrow> kmpjs_value \<Rightarrow> 'c kmpjs_engine \<Rightarrow> ('c kmpjs_engine \<times> int \<times> kmpjs_value) option" where
  "kmpjs_ref_set api ref name val e =
     (case slot_get (refs e) ref of
        None \<Rightarrow> fail api invalid_ref e
      | Some i \<Rightarrow>
          let (e1, outermost) = begin_run e;
              (e2, v) = value_from_host api val (PushGCRef JS_UNDEFINED e1);
              e3 = e2\<lparr>gc_stack := (gc_stack e2)[0 := v]\<rparr> in
          if JS_IsException v then do {
            (e4, out) \<leftarrow> exception_to_out api (PopGCRef e3); Some (end_run outermost e4, -1, out) }
          else let (e4, r) = api_SetPropertyStr api (slot_value e3 i) name (root 0 e3) e3; e5 = PopGCRef e4 in
            if JS_IsException r then do {
              (e6, out) \<leftarrow> exception_to_out api e5; Some (end_run outermost e6, -1, out) }
            else Some (end_run outermost e5, 0, zero_value))"

text \<open>
  The arguments of a call, each converted and rooted; the count is the number of roots pushed, on a
  failure too. The boolean is false on an exception.
\<close>

fun push_values :: "'c js_api \<Rightarrow> kmpjs_value list \<Rightarrow> 'c kmpjs_engine \<Rightarrow> 'c kmpjs_engine \<times> nat \<times> bool" where
  "push_values api [] e = (e, 0, True)"
| "push_values api (a # as) e =
     (let (e1, v) = value_from_host api a (PushGCRef JS_UNDEFINED e);
          e2 = e1\<lparr>gc_stack := (gc_stack e1)[0 := v]\<rparr> in
      if JS_IsException v then (e2, 1, False)
      else let (e3, n, ok) = push_values api as e2 in (e3, n + 1, ok))"

definition pop_values :: "nat \<Rightarrow> 'c kmpjs_engine \<Rightarrow> 'c kmpjs_engine" where
  "pop_values n e = (PopGCRef ^^ n) e"

text \<open>The call with the arguments in the newest roots, the last argument pushed first.\<close>

definition call_with_roots ::
  "'c js_api \<Rightarrow> nat \<Rightarrow> nat option \<Rightarrow> nat \<Rightarrow> ('c, JSValue) eff" where
  "call_with_roots api f this argc e =
     (let c1 = foldl (\<lambda>c i. api_PushArg api (root i e) c) (ctx e) [0..<argc];
          c2 = api_PushArg api (slot_value e f) c1;
          c3 = api_PushArg api (case this of Some t \<Rightarrow> slot_value e t | None \<Rightarrow> JS_UNDEFINED) c2 in
      api_Call api argc (e\<lparr>ctx := c3\<rparr>))"

definition kmpjs_ref_call ::
  "'c js_api \<Rightarrow> s64 \<Rightarrow> s64 \<Rightarrow> kmpjs_value list \<Rightarrow> s32 \<Rightarrow> 'c kmpjs_engine \<Rightarrow>
   ('c kmpjs_engine \<times> int \<times> kmpjs_value) option" where
  "kmpjs_ref_call api ref this_ref args flags e =
     (case slot_get (refs e) ref of
        None \<Rightarrow> fail api invalid_ref e
      | Some f \<Rightarrow>
          if \<not> api_IsFunction api (ctx e) (slot_value e f) then fail api ''ref is not a function'' e
          else if this_ref \<noteq> 0 \<and> slot_get (refs e) this_ref = None then fail api ''invalid or released this ref'' e
          else
            let this = (if this_ref \<noteq> 0 then slot_get (refs e) this_ref else None); argc = length args;
                (e1, outermost) = begin_run e; (e2, ok) = malloc_tick api e1 in
            if argc > 0 \<and> \<not> ok then do {
              (e3, rc, out) \<leftarrow> fail api ''out of memory'' e2; Some (end_run outermost e3, rc, out) }
            else
              let (e3, n, converted) = push_values api args e2 in do {
                (e4, rc, out) \<leftarrow>
                  (if \<not> converted then map_option (\<lambda>(e', out). (e', -1, out)) (exception_to_out api e3)
                   else let (e', full) = api_StackCheck api (of_nat argc + 2) e3 in
                     if full then map_option (\<lambda>(e'', out). (e'', -1, out)) (exception_to_out api e')
                     else let (e'', r) = call_with_roots api f this argc e' in result_to_out api r flags e'');
                Some (end_run outermost (pop_values n e4), rc, out) })"

definition kmpjs_ref_to_json ::
  "'c js_api \<Rightarrow> s64 \<Rightarrow> 'c kmpjs_engine \<Rightarrow> ('c kmpjs_engine \<times> int \<times> kmpjs_value) option" where
  "kmpjs_ref_to_json api ref e =
     (case slot_get (refs e) ref of
        None \<Rightarrow> fail api invalid_ref e
      | Some i \<Rightarrow>
          let out = zero_value\<lparr>vtag := KMPJS_TAG_OBJECT\<rparr> in
          if api_IsFunction api (ctx e) (slot_value e i) then Some (e, 0, out)
          else
            let (e1, outermost) = begin_run e;
                (e3, json) = json_stringify api (\<lambda>e'. slot_value e' i) e1 in do {
              (e4, rc, out1) \<leftarrow>
                (if JS_IsException json then Some (e3, -1 :: int, out)
                 else if JS_IsUndefined json then Some (e3, 0, out)
                 else do {
                   (e', rc) \<leftarrow> copy_js_string api json Out_str e3;
                   if rc \<noteq> 0 then Some (e', -1, out) else Some (e', 0, out\<lparr>vstr := sink_publish Out_str e'\<rparr>) });
              if rc \<noteq> 0 then do { (e5, out2) \<leftarrow> exception_to_out api e4; Some (end_run outermost e5, -1, out2) }
              else Some (end_run outermost e4, 0, out1) })"

definition kmpjs_run_program ::
  "'c js_api \<Rightarrow> s64 \<Rightarrow> s32 \<Rightarrow> 'c kmpjs_engine \<Rightarrow> ('c kmpjs_engine \<times> int \<times> kmpjs_value) option" where
  "kmpjs_run_program api ref flags e =
     (case slot_get (refs e) ref of
        None \<Rightarrow> fail api ''invalid or released program ref'' e
      | Some i \<Rightarrow>
          let (e1, outermost) = begin_run e; (e2, v) = api_Run api (slot_value e1 i) e1 in
          finish api outermost v flags e2)"

section \<open>Bytecode files\<close>

record kmpjs_bc_header =
  magic :: "u8 list"
  header_len :: u32
  word_size :: u16
  hflags :: u16
  upstream :: "u8 list"

definition encode_header :: "kmpjs_bc_header \<Rightarrow> u8 list" where
  "encode_header h = magic h @ put_u32 (replicate 4 0) 0 (header_len h) @ put_u16 (replicate 2 0) 0 (word_size h) @
     put_u16 (replicate 2 0) 0 (hflags h) @ upstream h"

definition decode_header :: "u8 list \<Rightarrow> kmpjs_bc_header" where
  "decode_header buf = \<lparr>magic = take 4 buf, header_len = get_u32 buf 4, word_size = ucast (get_u16 buf 8),
     hflags = ucast (get_u16 buf 10), upstream = take 40 (drop 12 buf)\<rparr>"

definition bc_magic :: "u8 list" where "bc_magic = text_bytes ''MQKB''"

definition out_has :: "u8 list option \<Rightarrow> u8 list \<Rightarrow> bool" where
  "out_has str needle =
     (case str of
        None \<Rightarrow> False
      | Some s \<Rightarrow> length needle \<le> length s \<and>
          list_ex (\<lambda>i. take (length needle) (drop i s) = needle) [0..<length s - length needle + 1])"

definition kmpjs_word_size :: s32 where "kmpjs_word_size = of_nat (JSW * 8)"

text \<open>\<open>commit\<close> is \<open>KMPJS_UPSTREAM_COMMIT\<close> of the build and \<open>body_min\<close> the size of \<open>JSBytecodeHeader\<close>.\<close>

definition check_bytecode :: "'c js_api \<Rightarrow> u8 list \<Rightarrow> nat \<Rightarrow> u8 list \<Rightarrow> u8 list option" where
  "check_bytecode api commit body_min buf =
     (let h = decode_header buf; body = drop 52 buf in
      if length buf < 52 \<or> take 4 buf \<noteq> bc_magic then
        Some (text_bytes ''not MQuickJS bytecode produced by this SDK'')
      else if header_len h \<noteq> KMPJS_BYTECODE_HEADER_SIZE then Some (text_bytes ''unsupported bytecode header'')
      else if word_size h \<noteq> of_nat (JSW * 8) then
        Some (text_bytes ''bytecode built for a '' @ u32toa (ucast (word_size h)) @
              text_bytes ''-bit engine, this engine is '' @ u32toa (of_nat (JSW * 8)) @ text_bytes ''-bit'')
      else if upstream h \<noteq> commit then
        Some (text_bytes ''bytecode built for engine '' @ takeWhile (\<lambda>b. b \<noteq> 0) (take 12 (upstream h)) @
              text_bytes '', this SDK embeds engine '' @ take 12 commit)
      else if length body < body_min \<or> \<not> api_IsBytecode api body then Some (text_bytes ''bytecode body is corrupt'')
      else None)"

definition kmpjs_load_bytecode ::
  "'c js_api \<Rightarrow> u8 list \<Rightarrow> nat \<Rightarrow> u8 list \<Rightarrow> 'c kmpjs_engine \<Rightarrow> ('c kmpjs_engine \<times> int \<times> kmpjs_value) option" where
  "kmpjs_load_bytecode api commit body_min buf e =
     (case check_bytecode api commit body_min buf of
        Some msg \<Rightarrow> fail_message api msg e
      | None \<Rightarrow>
          let t = alloc_clock e;
              (tab, rc) = slot_reserve (api_malloc_ok api t) (api_malloc_ok api (t + 1)) (refs e);
              e1 = e\<lparr>refs := tab, alloc_clock := t + 2\<rparr> in
          if rc \<noteq> 0 then fail api ''out of memory'' e1
          else let (e2, ok) = malloc_tick api e1 in
            if \<not> ok then fail api ''out of memory'' e2
            else (case api_RelocateBytecode api (drop 52 buf) e2 of
                (e3, None) \<Rightarrow> fail api ''could not relocate bytecode'' e3
              | (e3, Some block) \<Rightarrow>
                  let (e4, v) = api_LoadBytecode api block e3 in
                  if JS_IsException v then do {
                    (e5, out) \<leftarrow> exception_to_out api e4;
                    let msg = payload_bytes e5 (vstr out);
                    if out_has msg (text_bytes ''no atom must be defined in RAM'') then
                      fail api ''bytecode must be loaded before any script is evaluated or host function registered'' e5
                    else if out_has msg (text_bytes ''too many rom atom tables'') then
                      fail api ''this engine already holds its bytecode program; one program per engine'' e5
                    else Some (e5, -1, out) }
                  else let (e5, h) = new_ref api v (e4\<lparr>blocks := block # blocks e4\<rparr>) in
                    Some (e5, 0, zero_value\<lparr>vtag := KMPJS_TAG_REF, vref := h\<rparr>)))"

section \<open>Compilation\<close>

text \<open>
  The operations on the separate context of a compilation. \<open>cc_print\<close> is the text of the pending
  exception, \<open>cc_prepare\<close> the header and the body for a word size.
\<close>

record 'k compile_api =
  cc_malloc_ok :: "nat \<Rightarrow> bool"
  cc_new :: "'k option"
  cc_parse :: "u8 list \<Rightarrow> nat \<Rightarrow> string \<Rightarrow> bool \<Rightarrow> 'k \<Rightarrow> 'k \<times> JSValue"
  cc_throw_oom :: "'k \<Rightarrow> 'k \<times> JSValue"
  cc_print :: "'k \<Rightarrow> u8 list"
  cc_prepare32 :: "'k \<Rightarrow> JSValue \<Rightarrow> (u8 list \<times> u8 list) option"
  cc_prepare64 :: "'k \<Rightarrow> JSValue \<Rightarrow> u8 list \<times> u8 list"

definition KMPJS_COMPILE_STRIP_COLUMNS :: s32 where "KMPJS_COMPILE_STRIP_COLUMNS = 1"

definition owned_message :: "'k compile_api \<Rightarrow> nat \<Rightarrow> u8 list \<Rightarrow> kmpjs_value" where
  "owned_message cc t msg =
     zero_value\<lparr>vtag := KMPJS_TAG_EXCEPTION, vstr := (if cc_malloc_ok cc t then P_bytes msg else P_null)\<rparr>"

text \<open>The first line of the printed exception is the message, the rest the stack.\<close>

definition owned_exception :: "'k compile_api \<Rightarrow> 'k \<Rightarrow> kmpjs_value" where
  "owned_exception cc c =
     (let t = takeWhile (\<lambda>b. b \<noteq> 0) (cc_print cc c); msg = takeWhile (\<lambda>b. b \<noteq> 10) t;
          rest = drop (length msg + 1) t; out = owned_message cc 3 msg in
      if rest = [] then out
      else out\<lparr>vstack := (if cc_malloc_ok cc 4 then P_bytes rest else P_null)\<rparr>)"

definition file_header :: "u8 list \<Rightarrow> s32 \<Rightarrow> u8 list" where
  "file_header commit wsize =
     encode_header \<lparr>magic = bc_magic, header_len = KMPJS_BYTECODE_HEADER_SIZE, word_size = ucast wsize,
       hflags = 0, upstream = take 40 commit\<rparr>"

text \<open>The status and the value.\<close>

definition kmpjs_compile ::
  "'k compile_api \<Rightarrow> u8 list \<Rightarrow> u8 list option \<Rightarrow> string \<Rightarrow> s32 \<Rightarrow> s32 \<Rightarrow> int \<times> kmpjs_value" where
  "kmpjs_compile cc commit code filename wsize flags =
     (if wsize \<noteq> 32 \<and> wsize \<noteq> 64 then (-1, owned_message cc 0 (text_bytes ''word size must be 32 or 64''))
      else if of_nat (JSW * 8) <s wsize then
        (-1, owned_message cc 0 (text_bytes ''a 32-bit engine cannot produce 64-bit bytecode''))
      else if \<not> cc_malloc_ok cc 0 then (-1, owned_message cc 1 (text_bytes ''out of memory''))
      else case cc_new cc of
        None \<Rightarrow> (-1, owned_message cc 1 (text_bytes ''could not create compile context''))
      | Some c0 \<Rightarrow>
          let bytes = (case code of Some bs \<Rightarrow> bs | None \<Rightarrow> []);
              (c1, val) = (if cc_malloc_ok cc 2
                then cc_parse cc (bytes @ [0]) (length bytes) filename (flags AND KMPJS_COMPILE_STRIP_COLUMNS \<noteq> 0) c0
                else cc_throw_oom cc c0) in
          if JS_IsException val then (-1, owned_exception cc c1)
          else case (if wsize = 32 then cc_prepare32 cc c1 val else Some (cc_prepare64 cc c1 val)) of
              None \<Rightarrow> (-1, owned_message cc 5 (text_bytes ''could not convert the bytecode to 32 bits''))
            | Some (hdr, data) \<Rightarrow>
                if \<not> cc_malloc_ok cc 6 then (-1, owned_message cc 7 (text_bytes ''out of memory''))
                else (0, zero_value\<lparr>vtag := KMPJS_TAG_STRING, vstr := P_bytes (file_header commit wsize @ hdr @ data)\<rparr>))"

section \<open>Printing, diagnostics and creation\<close>

text \<open>What the engine prints goes to \<open>log_line\<close>; a failed append is ignored.\<close>

definition kmp_write_func :: "'c js_api \<Rightarrow> u8 list \<Rightarrow> 'c kmpjs_engine \<Rightarrow> 'c kmpjs_engine option" where
  "kmp_write_func api bs e = map_option fst (sink_append api Log_line bs e)"

text \<open>The boolean is false when an argument could not be converted.\<close>

fun print_args ::
  "'c js_api \<Rightarrow> (nat \<Rightarrow> 'c \<Rightarrow> JSValue) \<Rightarrow> nat list \<Rightarrow> 'c kmpjs_engine \<Rightarrow> ('c kmpjs_engine \<times> bool) option" where
  "print_args api argv [] e = Some (e, True)"
| "print_args api argv (i # is) e = do {
     e1 \<leftarrow> (if i \<noteq> 0 then kmp_write_func api [0x20] e else Some e);
     (e2, ok) \<leftarrow>
       (if api_IsString api (ctx e1) (argv i (ctx e1)) then
          (case api_ToCStringLen api (argv i (ctx e1)) e1 of
             (e', None) \<Rightarrow> Some (e', False)
           | (e', Some p) \<Rightarrow> map_option (\<lambda>e''. (e'', True)) (kmp_write_func api p e'))
        else Some (fst (api_PrintValueF api (argv i (ctx e1)) e1), True));
     if ok then print_args api argv is e2 else Some (e2, False) }"

definition js_print ::
  "'c js_api \<Rightarrow> nat \<Rightarrow> (nat \<Rightarrow> 'c \<Rightarrow> JSValue) \<Rightarrow> 'c kmpjs_engine \<Rightarrow> ('c kmpjs_engine \<times> JSValue) option" where
  "js_print api argc argv e = do {
     (e1, ok) \<leftarrow> print_args api argv [0..<argc] (sink_reset Log_line e);
     if \<not> ok then Some (e1, JS_EXCEPTION)
     else Some (case api_log api of
          None \<Rightarrow> (e1, JS_UNDEFINED)
        | Some put \<Rightarrow> (fst (put (case payload_bytes e1 (sink_publish Log_line e1) of Some bs \<Rightarrow> bs | None \<Rightarrow> []) e1),
                       JS_UNDEFINED)) }"

definition kmpjs_dump_memory :: "'c js_api \<Rightarrow> 'c kmpjs_engine \<Rightarrow> ('c kmpjs_engine \<times> kmpjs_value) option" where
  "kmpjs_dump_memory api e =
     (let (e1, _) = api_DumpMemory api (sink_reset Log_line e);
          text = (case payload_bytes e1 (sink_publish Log_line e1) of Some bs \<Rightarrow> bs | None \<Rightarrow> []) in do {
        (e2, rc) \<leftarrow> sink_append api Out_str text (sink_reset Out_str e1);
        Some (e2, zero_value\<lparr>vtag := KMPJS_TAG_STRING, vstr := sink_publish Out_str e2\<rparr>) })"

text \<open>\<open>new_context\<close> is \<open>JS_NewContext\<close> in the memory given; the result is the null pointer on a failure.\<close>

definition kmpjs_create :: "'c js_api \<Rightarrow> int \<Rightarrow> (int \<Rightarrow> 'c option) \<Rightarrow> 'c kmpjs_engine option" where
  "kmpjs_create api mem_bytes new_context =
     (if mem_bytes < KMP_MIN_MEM \<or> \<not> api_malloc_ok api 0 \<or> \<not> api_malloc_ok api 1 then None
      else map_option (\<lambda>c. \<lparr>ctx = c, blocks = [], run_state = KMP_IDLE, out_str = empty_buf, out_stack = empty_buf,
             log_line = empty_buf, refs = empty_table, gc_stack = [], arg_bufs = [], alloc_clock = 2\<rparr>)
        (new_context mem_bytes))"

definition kmpjs_destroy :: "'c kmpjs_engine option \<Rightarrow> unit option" where
  "kmpjs_destroy eo = (case eo of None \<Rightarrow> Some () | Some e \<Rightarrow> map_option (\<lambda>t. ()) (destroy_refs (refs e)))"

end
