(* ===== verification/Shim_Reports.thy ===== *)
theory Shim_Reports imports Shim begin

text \<open>
  What the operations of the shim report: a status with a value or an exception, and, for a handle that
  does not resolve, a failure that leaves the engine as it was.
\<close>

unbundle bit_operations_syntax

section \<open>What an operation reports\<close>

text \<open>The status is 0 with a value, or -1 with an exception.\<close>

definition reported :: "'c kmpjs_engine \<times> int \<times> kmpjs_value \<Rightarrow> bool" where
  "reported r = (case r of (e, rc, out) \<Rightarrow>
     rc = 0 \<and> vtag out \<noteq> KMPJS_TAG_EXCEPTION \<or> rc = -1 \<and> vtag out = KMPJS_TAG_EXCEPTION)"

lemma fail_reported: "fail_message api msg e = Some r \<Longrightarrow> reported r"
  by (auto simp: fail_message_def reported_def bind_eq_Some_conv)

lemma exception_reported: "exception_to_out api e = Some (e', out) \<Longrightarrow> vtag out = KMPJS_TAG_EXCEPTION"
  by (auto simp: exception_to_out_def Let_def bind_eq_Some_conv split: if_splits prod.splits)

lemma value_reported:
  "value_to_out api v k flags e = Some (e', rc, out) \<Longrightarrow> (rc = 0 \<or> rc = -1) \<and> vtag out \<noteq> KMPJS_TAG_EXCEPTION"
  by (auto simp: value_to_out_def Let_def zero_value_def tag_defs bind_eq_Some_conv
      split: if_splits prod.splits option.splits)

lemma result_reported: "result_to_out api v flags e = Some r \<Longrightarrow> reported r"
  by (auto simp: result_to_out_def reported_def bind_eq_Some_conv
      split: if_splits dest: value_reported exception_reported)

lemma finish_reported: "finish api outermost v flags e = Some r \<Longrightarrow> reported r"
  using result_reported by (fastforce simp: finish_def bind_eq_Some_conv reported_def)

lemmas reports = fail_reported exception_reported value_reported result_reported finish_reported

lemma exception_rc_reported:
  "map_option (\<lambda>(e', out). (f e', -1, out)) (exception_to_out api e) = Some r \<Longrightarrow> reported r"
  by (auto simp: reported_def dest: exception_reported)

lemma zero_reported: "reported (e, 0, zero_value)" "reported (e, 0, zero_value\<lparr>vtag := KMPJS_TAG_OBJECT, vstr := p\<rparr>)"
  "reported (e, 0, zero_value\<lparr>vtag := KMPJS_TAG_REF, vref := h\<rparr>)"
  "reported (e, 0, zero_value\<lparr>vtag := KMPJS_TAG_OBJECT\<rparr>)"
  by (simp_all add: reported_def zero_value_def tag_defs)

lemma ref_get_reported: "kmpjs_ref_get api ref name flags e = Some r \<Longrightarrow> reported r"
  by (auto simp: kmpjs_ref_get_def fail_def Let_def split: option.splits prod.splits dest: reports)

lemma ref_get_index_reported: "kmpjs_ref_get_index api ref index flags e = Some r \<Longrightarrow> reported r"
  by (auto simp: kmpjs_ref_get_index_def fail_def Let_def split: option.splits prod.splits if_splits dest: reports)

lemma run_program_reported: "kmpjs_run_program api ref flags e = Some r \<Longrightarrow> reported r"
  by (auto simp: kmpjs_run_program_def fail_def Let_def split: option.splits prod.splits dest: reports)

lemma ref_set_reported: "kmpjs_ref_set api ref name val e = Some r \<Longrightarrow> reported r"
  by (auto simp: kmpjs_ref_set_def fail_def Let_def bind_eq_Some_conv zero_reported
      split: option.splits prod.splits if_splits dest: reports) (auto simp: reported_def dest: exception_reported)

lemma ref_to_json_reported: "kmpjs_ref_to_json api ref e = Some r \<Longrightarrow> reported r"
  by (auto simp: kmpjs_ref_to_json_def fail_def Let_def bind_eq_Some_conv zero_reported
      split: option.splits prod.splits if_splits dest: reports) (auto simp: reported_def dest: exception_reported)

lemma define_function_reported: "kmpjs_define_function api name fn_id flags e = Some r \<Longrightarrow> reported r"
  by (auto simp: kmpjs_define_function_def Let_def bind_eq_Some_conv zero_reported
      split: prod.splits if_splits) (auto simp: reported_def dest: exception_reported)

lemma ref_call_reported: "kmpjs_ref_call api ref this_ref args flags e = Some r \<Longrightarrow> reported r"
  by (auto simp: kmpjs_ref_call_def fail_def Let_def bind_eq_Some_conv
      split: option.splits prod.splits if_splits dest: reports)
    (auto simp: reported_def dest: exception_reported fail_reported [unfolded reported_def]
      result_reported [unfolded reported_def])

lemma load_bytecode_reported: "kmpjs_load_bytecode api commit m buf e = Some r \<Longrightarrow> reported r"
  by (auto simp: kmpjs_load_bytecode_def fail_def Let_def bind_eq_Some_conv zero_reported
      split: option.splits prod.splits if_splits dest: reports) (auto simp: reported_def dest: exception_reported)

lemma begin_end_other [simp]:
  "refs (fst (begin_run e)) = refs e" "refs (end_run b e) = refs e" "ctx (end_run b e) = ctx e"
  by (simp_all add: begin_run_def end_run_def Let_def split: prod.splits)

lemmas op_reports = ref_get_reported ref_get_index_reported ref_set_reported ref_call_reported
  ref_to_json_reported run_program_reported define_function_reported load_bytecode_reported

section \<open>Texts that fit\<close>

text \<open>
  The buffers of the engine are well formed. Everything the operations call must leave them so, and a
  string is at most \<open>2 ^ 30\<close> bytes long, the most a buffer takes.
\<close>

definition bufs_ok :: "'c kmpjs_engine \<Rightarrow> bool" where
  "bufs_ok e \<longleftrightarrow> buf_ok (out_str e) \<and> buf_ok (out_stack e)"

definition texts_fit :: "'c js_api \<Rightarrow> bool" where
  "texts_fit api \<longleftrightarrow>
     (\<forall>e. bufs_ok e \<longrightarrow>
        (\<forall>v. bufs_ok (fst (api_ToNumber api v e))) \<and> (\<forall>v. bufs_ok (fst (api_ToString api v e))) \<and>
        (\<forall>v. bufs_ok (fst (api_ToCStringLen api v e)) \<and>
           (case snd (api_ToCStringLen api v e) of None \<Rightarrow> True | Some p \<Rightarrow> length p \<le> 2 ^ 30)) \<and>
        bufs_ok (fst (api_GetException api e)) \<and> (\<forall>k m. bufs_ok (fst (api_Throw api k m e))) \<and>
        (\<forall>v s. bufs_ok (fst (api_GetPropertyStr api v s e))) \<and> (\<forall>v i. bufs_ok (fst (api_GetPropertyUint32 api v i e))) \<and>
        (\<forall>v s w. bufs_ok (fst (api_SetPropertyStr api v s w e))) \<and> (\<forall>n. bufs_ok (fst (api_StackCheck api n e))) \<and>
        (\<forall>n. bufs_ok (fst (api_Call api n e))) \<and> (\<forall>s n f. bufs_ok (fst (api_ParseJSON api s n f e))) \<and>
        (\<forall>v. bufs_ok (fst (api_Run api v e))) \<and> (\<forall>i. bufs_ok (fst (api_NewInt32 api i e))) \<and>
        (\<forall>d. bufs_ok (fst (api_NewFloat64 api d e))) \<and> (\<forall>s. bufs_ok (fst (api_NewStringLen api s e))) \<and>
        (\<forall>v. bufs_ok (fst (api_NewCFunctionParams api v e))) \<and>
        (\<forall>s n f. bufs_ok (fst (api_Eval api s n f e))) \<and>
        (\<forall>bs. bufs_ok (fst (api_RelocateBytecode api bs e))) \<and> (\<forall>bs. bufs_ok (fst (api_LoadBytecode api bs e))))"

lemma bufs_ok_update [simp]:
  "bufs_ok (e\<lparr>ctx := c\<rparr>) = bufs_ok e" "bufs_ok (e\<lparr>refs := t\<rparr>) = bufs_ok e" "bufs_ok (e\<lparr>gc_stack := vs\<rparr>) = bufs_ok e"
  "bufs_ok (e\<lparr>alloc_clock := n\<rparr>) = bufs_ok e" "bufs_ok (e\<lparr>run_state := r\<rparr>) = bufs_ok e"
  "bufs_ok (e\<lparr>blocks := bs\<rparr>) = bufs_ok e"
  "bufs_ok (PushGCRef v e) = bufs_ok e" "bufs_ok (PopGCRef e) = bufs_ok e" "bufs_ok (end_run b e) = bufs_ok e"
  "bufs_ok (fst (begin_run e)) = bufs_ok e" "bufs_ok (fst (malloc_tick api e)) = bufs_ok e"
  by (simp_all add: bufs_ok_def PushGCRef_def PopGCRef_def end_run_def begin_run_def malloc_tick_def Let_def split: prod.splits)

lemma begin_run_ok: "begin_run e = (e', b) \<Longrightarrow> bufs_ok e' = bufs_ok e"
  using bufs_ok_update(10) [of e] by simp

lemma malloc_tick_ok: "malloc_tick api e = (e', b) \<Longrightarrow> bufs_ok e' = bufs_ok e"
  using bufs_ok_update(11) [of api e] by simp

lemma texts_fit_dest:
  assumes "texts_fit api" "bufs_ok e"
  shows "api_ToNumber api v e = (e', d) \<Longrightarrow> bufs_ok e'" "api_ToString api v e = (e', w) \<Longrightarrow> bufs_ok e'"
    "api_ToCStringLen api v e = (e', p) \<Longrightarrow> bufs_ok e'" "api_ToCStringLen api v e = (e', Some bs) \<Longrightarrow> length bs \<le> 2 ^ 30"
    "api_GetException api e = (e', w) \<Longrightarrow> bufs_ok e'" "api_Throw api k m e = (e', w) \<Longrightarrow> bufs_ok e'"
    "api_GetPropertyStr api v s e = (e', w) \<Longrightarrow> bufs_ok e'" "api_GetPropertyUint32 api v i e = (e', w) \<Longrightarrow> bufs_ok e'"
    "api_SetPropertyStr api v s x e = (e', w) \<Longrightarrow> bufs_ok e'" "api_StackCheck api n e = (e', b) \<Longrightarrow> bufs_ok e'"
    "api_Call api l e = (e', w) \<Longrightarrow> bufs_ok e'" "api_ParseJSON api t j f e = (e', w) \<Longrightarrow> bufs_ok e'"
    "api_Run api v e = (e', w) \<Longrightarrow> bufs_ok e'" "api_NewInt32 api q e = (e', w) \<Longrightarrow> bufs_ok e'"
    "api_NewFloat64 api y e = (e', w) \<Longrightarrow> bufs_ok e'" "api_NewStringLen api t e = (e', w) \<Longrightarrow> bufs_ok e'"
    "api_NewCFunctionParams api v e = (e', w) \<Longrightarrow> bufs_ok e'" "api_RelocateBytecode api t e = (e', z) \<Longrightarrow> bufs_ok e'"
    "api_LoadBytecode api t e = (e', w) \<Longrightarrow> bufs_ok e'" "api_Eval api t j f e = (e', w) \<Longrightarrow> bufs_ok e'"
proof -
  note a = assms(1) [unfolded texts_fit_def, rule_format, OF assms(2)]
  show "api_ToNumber api v e = (e', d) \<Longrightarrow> bufs_ok e'" "api_ToString api v e = (e', w) \<Longrightarrow> bufs_ok e'"
    "api_ToCStringLen api v e = (e', p) \<Longrightarrow> bufs_ok e'"
    "api_GetException api e = (e', w) \<Longrightarrow> bufs_ok e'" "api_Throw api k m e = (e', w) \<Longrightarrow> bufs_ok e'"
    "api_GetPropertyStr api v s e = (e', w) \<Longrightarrow> bufs_ok e'" "api_GetPropertyUint32 api v i e = (e', w) \<Longrightarrow> bufs_ok e'"
    "api_SetPropertyStr api v s x e = (e', w) \<Longrightarrow> bufs_ok e'" "api_StackCheck api n e = (e', b) \<Longrightarrow> bufs_ok e'"
    "api_Call api l e = (e', w) \<Longrightarrow> bufs_ok e'" "api_ParseJSON api t j f e = (e', w) \<Longrightarrow> bufs_ok e'"
    "api_Run api v e = (e', w) \<Longrightarrow> bufs_ok e'" "api_NewInt32 api q e = (e', w) \<Longrightarrow> bufs_ok e'"
    "api_NewFloat64 api y e = (e', w) \<Longrightarrow> bufs_ok e'" "api_NewStringLen api t e = (e', w) \<Longrightarrow> bufs_ok e'"
    "api_NewCFunctionParams api v e = (e', w) \<Longrightarrow> bufs_ok e'" "api_RelocateBytecode api t e = (e', z) \<Longrightarrow> bufs_ok e'"
    "api_LoadBytecode api t e = (e', w) \<Longrightarrow> bufs_ok e'" "api_Eval api t j f e = (e', w) \<Longrightarrow> bufs_ok e'"
    using a by (metis fst_conv)+
  assume "api_ToCStringLen api v e = (e', Some bs)"
  then show "length bs \<le> 2 ^ 30" using a by (metis option.simps(5) snd_conv)
qed

text \<open>Appending to a buffer that was reset succeeds, or fails to allocate.\<close>

lemma buf_reset_ok: "buf_ok b \<Longrightarrow> buf_ok (buf_reset b)" "contents (buf_reset b) = []"
  by (auto simp: buf_ok_def buf_reset_def contents_def publish_def split: option.splits)

definition is_out :: "kmp_sink \<Rightarrow> bool" where "is_out k \<longleftrightarrow> k = Out_str \<or> k = Out_stack"

lemma sink_fits:
  assumes "bufs_ok e" "is_out k" "length p \<le> 2 ^ 30"
  shows "\<exists>b rc. sink_append api k p (sink_reset k e) = Some (set_sink k b (e\<lparr>alloc_clock := alloc_clock e + 1\<rparr>), rc) \<and>
    buf_ok b \<and> (rc = 0 \<and> contents b = p \<or> rc = -1 \<and> contents b = [] \<and> api_realloc api (alloc_clock e) = None)"
proof -
  have b: "buf_ok (buf_reset (sink_buf k e))" "contents (buf_reset (sink_buf k e)) = []"
    using assms(1,2) buf_reset_ok by (auto simp: bufs_ok_def is_out_def)
  have k: "sink_buf k (sink_reset k e) = buf_reset (sink_buf k e)" "alloc_clock (sink_reset k e) = alloc_clock e"
    "set_sink k b (sink_reset k e\<lparr>alloc_clock := n\<rparr>) = set_sink k b (e\<lparr>alloc_clock := n\<rparr>)" for b n
    using assms(2) by (auto simp: sink_reset_def is_out_def)
  from buf_append_fits [OF b(1), of p "api_realloc api (alloc_clock e)"] b(2) assms(3) obtain b' rc where
    "buf_append (api_realloc api (alloc_clock e)) (buf_reset (sink_buf k e)) p = Some (b', rc)" "buf_ok b'"
    "rc = 0 \<and> contents b' = p \<or> rc = -1 \<and> b' = buf_reset (sink_buf k e) \<and> api_realloc api (alloc_clock e) = None"
    by auto
  then show ?thesis using b(2) by (auto simp: sink_append_def k)
qed

lemma set_sink_ok: "bufs_ok e \<Longrightarrow> is_out k \<Longrightarrow> buf_ok b \<Longrightarrow> bufs_ok (set_sink k b e)"
  by (auto simp: is_out_def bufs_ok_def)

lemma sink_total:
  assumes "bufs_ok e" "is_out k" "length p \<le> 2 ^ 30"
  shows "\<exists>e' rc. sink_append api k p (sink_reset k e) = Some (e', rc) \<and> bufs_ok e'"
proof -
  from sink_fits [OF assms, of api] obtain b rc where
    "sink_append api k p (sink_reset k e) = Some (set_sink k b (e\<lparr>alloc_clock := alloc_clock e + 1\<rparr>), rc)" "buf_ok b" by blast
  moreover have "bufs_ok (set_sink k b (e\<lparr>alloc_clock := alloc_clock e + 1\<rparr>))"
    using assms(1,2) calculation(2) by (intro set_sink_ok) simp_all
  ultimately show ?thesis by blast
qed

lemma copy_total:
  assumes api: "texts_fit api" and e: "bufs_ok e" and k: "is_out k"
  shows "\<exists>e' rc. copy_js_string api s k e = Some (e', rc) \<and> bufs_ok e'"
proof -
  note d = texts_fit_dest [OF api e]
  obtain e1 p where 1: "api_ToCStringLen api s e = (e1, p)" by (metis surj_pair)
  show ?thesis
  proof (cases p)
    case None
    then show ?thesis using 1 d(3) [OF 1] by (simp add: copy_js_string_def)
  next
    case (Some bs)
    then show ?thesis using 1 sink_total [OF d(3) [OF 1] k, of bs api] d(4) by (simp add: copy_js_string_def)
  qed
qed

lemma json_stringify_ok:
  assumes api: "texts_fit api" and e: "bufs_ok e" and j: "json_stringify api rd e = (e', v)"
  shows "bufs_ok e'"
proof -
  obtain e1 json where 1: "api_GetPropertyStr api (api_GetGlobalObject api (ctx (PushGCRef JS_UNDEFINED e))) ''JSON''
      (PushGCRef JS_UNDEFINED e) = (e1, json)" by (metis surj_pair)
  define f1 where "f1 = e1\<lparr>gc_stack := (gc_stack e1)[0 := json]\<rparr>"
  have b1: "bufs_ok f1" using texts_fit_dest(7) [OF api _ 1] e by (simp add: f1_def)
  obtain e2 func where 2: "api_GetPropertyStr api (root 0 f1) ''stringify'' f1 = (e2, func)" by (metis surj_pair)
  have b2: "bufs_ok e2" by (rule texts_fit_dest(7) [OF api b1 2])
  obtain e3 full where 3: "api_StackCheck api 3 e2 = (e3, full)" by (metis surj_pair)
  have b3: "bufs_ok e3" by (rule texts_fit_dest(10) [OF api b2 3])
  have b4: "api_Call api n (e3\<lparr>ctx := c\<rparr>) = (e4, r) \<Longrightarrow> bufs_ok e4" for n c e4 r
    using texts_fit_dest(11) [OF api, of "e3\<lparr>ctx := c\<rparr>"] b3 by simp
  show ?thesis
    using j 1 2 3 b1 b2 b3 by (auto simp: json_stringify_def Let_def f1_def split: if_splits prod.splits dest: b4)
qed

lemma new_ref_ok: "bufs_ok e \<Longrightarrow> new_ref api v e = (e', h) \<Longrightarrow> bufs_ok e'"
  by (auto simp: new_ref_def Let_def split: prod.splits)

lemma value_total:
  assumes api: "texts_fit api" and e: "bufs_ok e"
  shows "\<exists>e' rc out. value_to_out api v Out_str flags e = Some (e', rc, out) \<and> bufs_ok e'"
proof -
  note d = texts_fit_dest [OF api e]
  have o: "is_out Out_str" by (simp add: is_out_def)
  have t: "bufs_ok e1 \<Longrightarrow> bufs_ok (fst (api_Throw api m bs e1))" for e1 m bs
    using texts_fit_dest(6) [OF api, of e1] by (metis surjective_pairing)
  obtain e1 json where j: "json_stringify api (root 1) (PushGCRef v e) = (e1, json)" by (metis surj_pair)
  have b1: "bufs_ok (PopGCRef e1)" using json_stringify_ok [OF api _ j] e by simp
  obtain e2 h where n: "new_ref api v e = (e2, h)" by (metis surj_pair)
  have b2: "bufs_ok e2" by (rule new_ref_ok [OF e n])
  obtain e3 rc3 where c3: "copy_js_string api v Out_str e = Some (e3, rc3)" "bufs_ok e3" using copy_total [OF api e o] by blast
  obtain e4 rc4 where c4: "copy_js_string api json Out_str (PopGCRef e1) = Some (e4, rc4)" "bufs_ok e4"
    using copy_total [OF api b1 o] by blast
  obtain e5 num where m: "api_ToNumber api v e = (e5, num)" by (metis surj_pair)
  have b5: "bufs_ok e5" by (rule d(1) [OF m])
  show ?thesis
    unfolding value_to_out_def Let_def j n m prod.case c3(1) c4(1)
    using e b1 b2 b5 c3(2) c4(2) t by (simp split: option.splits)
qed

lemma exception_message_total:
  assumes api: "texts_fit api" and e: "bufs_ok e"
  shows "\<exists>e'. exception_message api e = Some e' \<and> bufs_ok e'"
proof -
  have o: "is_out Out_str" by (simp add: is_out_def)
  obtain e1 s where 1: "api_ToString api (root 0 e) e = (e1, s)" by (metis surj_pair)
  have b1: "bufs_ok e1" by (rule texts_fit_dest(2) [OF api e 1])
  obtain f2 rc2 where c: "copy_js_string api s Out_str e1 = Some (f2, rc2)" "bufs_ok f2" using copy_total [OF api b1 o] by blast
  obtain e2 rc where 2: "(if JS_IsException s then Some (e1, -1) else copy_js_string api s Out_str e1) = Some (e2, rc)" "bufs_ok e2"
    using c b1 by (cases "JS_IsException s") auto
  have "bufs_ok (fst (api_GetException api e2))" using texts_fit_dest(5) [OF api 2(2)] by (metis surjective_pairing)
  from sink_total [OF this o, of "text_bytes unknown_exception" api] show ?thesis
    unfolding exception_message_def 1 Let_def prod.case using 2
    by (auto simp: text_bytes_def unknown_exception_def)
qed

lemma exception_total:
  assumes api: "texts_fit api" and e: "bufs_ok e"
  shows "\<exists>e' out. exception_to_out api e = Some (e', out) \<and> bufs_ok e' \<and> vtag out = KMPJS_TAG_EXCEPTION"
proof -
  obtain e1 exc where 1: "api_GetException api (PushGCRef JS_UNDEFINED e) = (e1, exc)" by (metis surj_pair)
  define e2 where "e2 = e1\<lparr>gc_stack := (gc_stack e1)[0 := exc]\<rparr>"
  have "bufs_ok e2" using texts_fit_dest(5) [OF api _ 1] e by (simp add: e2_def)
  then obtain e3 where 3: "exception_message api e2 = Some e3" "bufs_ok e3" using exception_message_total [OF api] by blast
  obtain e4 s where 4: "api_GetPropertyStr api (root 0 e3) ''stack'' e3 = (e4, s)" by (metis surj_pair)
  have b4: "bufs_ok e4" by (rule texts_fit_dest(7) [OF api 3(2) 4])
  obtain e5 rc where 5: "copy_js_string api s Out_stack e4 = Some (e5, rc)" "bufs_ok e5"
    using copy_total [OF api b4, of Out_stack s] by (auto simp: is_out_def)
  have "bufs_ok (fst (api_GetException api e4))" using texts_fit_dest(5) [OF api b4] by (metis surjective_pairing)
  then have "\<exists>e' out. exception_to_out api e = Some (e', out) \<and> bufs_ok e'"
    unfolding exception_to_out_def 1 Let_def prod.case e2_def [symmetric] 3(1) Option.bind.bind_lunit 4
    using 3 5 b4 by simp
  then show ?thesis using exception_reported by blast
qed

text \<open>An operation that returns, with a report.\<close>

definition returns :: "('c kmpjs_engine \<times> int \<times> kmpjs_value) option \<Rightarrow> bool" where
  "returns x \<longleftrightarrow> (\<exists>r. x = Some r \<and> reported r)"

lemma returns_simps [simp]: "returns (Some r) = reported r"
  by (simp add: returns_def)

lemma result_total:
  assumes api: "texts_fit api" and e: "bufs_ok e"
  shows "\<exists>e' rc out. result_to_out api v flags e = Some (e', rc, out) \<and> reported (e', rc, out)"
proof -
  obtain f1 rc1 out1 where v: "value_to_out api v Out_str flags e = Some (f1, rc1, out1)" "bufs_ok f1"
    using value_total [OF api e] by blast
  obtain e1 rc out where 1: "(if JS_IsException v then Some (e, -1, zero_value) else value_to_out api v Out_str flags e) = Some (e1, rc, out)"
    "bufs_ok e1" using v e by (cases "JS_IsException v") auto
  obtain e2 out2 where 2: "exception_to_out api e1 = Some (e2, out2)" using exception_total [OF api 1(2)] by blast
  then have "\<exists>e' rc out. result_to_out api v flags e = Some (e', rc, out)"
    unfolding result_to_out_def 1(1) by simp
  then show ?thesis using result_reported by blast
qed

lemma finish_total: "texts_fit api \<Longrightarrow> bufs_ok e \<Longrightarrow> returns (finish api outermost v flags e)"
  using result_total [of api e v flags] by (auto simp: finish_def reported_def)

lemma fail_total:
  assumes "bufs_ok e" "length msg \<le> 2 ^ 30"
  shows "\<exists>b out. fail_message api msg e = Some (e\<lparr>alloc_clock := alloc_clock e + 1, out_str := b\<rparr>, -1, out) \<and>
    buf_ok b \<and> vtag out = KMPJS_TAG_EXCEPTION \<and>
    (payload_bytes (e\<lparr>alloc_clock := alloc_clock e + 1, out_str := b\<rparr>) (vstr out) = Some msg \<or>
     payload_bytes (e\<lparr>alloc_clock := alloc_clock e + 1, out_str := b\<rparr>) (vstr out) = Some [] \<and>
       api_realloc api (alloc_clock e) = None)"
proof -
  from sink_fits [OF assms(1) _ assms(2), of Out_str api] obtain b rc where
    b: "sink_append api Out_str msg (sink_reset Out_str e) = Some (e\<lparr>alloc_clock := alloc_clock e + 1, out_str := b\<rparr>, rc)"
    "buf_ok b" "rc = 0 \<and> contents b = msg \<or> rc = -1 \<and> contents b = [] \<and> api_realloc api (alloc_clock e) = None"
    by (auto simp: is_out_def)
  have "payload_bytes (e\<lparr>alloc_clock := alloc_clock e + 1, out_str := b\<rparr>)
      (sink_publish Out_str (e\<lparr>alloc_clock := alloc_clock e + 1, out_str := b\<rparr>)) = Some (contents b)"
    by (auto simp: sink_publish_def contents_def publish_def split: option.splits)
  then show ?thesis using b by (auto simp: fail_message_def)
qed

lemma fail_returns: "bufs_ok e \<Longrightarrow> length msg \<le> 2 ^ 30 \<Longrightarrow> returns (fail_message api msg e)"
  using fail_total [of e msg api] by (auto simp: reported_def)

section \<open>Every operation returns\<close>

lemma exception_returns:
  assumes "texts_fit api" "bufs_ok e"
  shows "returns (do { (e', out) \<leftarrow> exception_to_out api e; Some (f e', -1, out) })"
proof -
  obtain e' out where x: "exception_to_out api e = Some (e', out)" "vtag out = KMPJS_TAG_EXCEPTION"
    using exception_total [OF assms] by blast
  show ?thesis by (simp add: x reported_def)
qed

lemma begin_run_fits: "bufs_ok e \<Longrightarrow> begin_run e = (e', b) \<Longrightarrow> bufs_ok e'"
  by (simp add: begin_run_ok)

lemma text_short [simp]: "length (text_bytes s) = length s"
  by (simp add: text_bytes_def)

lemma ref_get_returns: "texts_fit api \<Longrightarrow> bufs_ok e \<Longrightarrow> returns (kmpjs_ref_get api ref name flags e)"
  by (auto simp: kmpjs_ref_get_def fail_def Let_def invalid_ref_def fail_returns split: option.splits prod.splits
      intro!: finish_total dest: begin_run_fits texts_fit_dest(7))

lemma ref_get_index_returns: "texts_fit api \<Longrightarrow> bufs_ok e \<Longrightarrow> returns (kmpjs_ref_get_index api ref index flags e)"
  by (auto simp: kmpjs_ref_get_index_def fail_def Let_def invalid_ref_def fail_returns split: option.splits prod.splits
      intro!: finish_total dest: begin_run_fits texts_fit_dest(8))

lemma run_program_returns: "texts_fit api \<Longrightarrow> bufs_ok e \<Longrightarrow> returns (kmpjs_run_program api ref flags e)"
  by (auto simp: kmpjs_run_program_def fail_def Let_def fail_returns split: option.splits prod.splits
      intro!: finish_total dest: begin_run_fits texts_fit_dest(13))

lemma eval_returns:
  assumes api: "texts_fit api" and e: "bufs_ok e"
  shows "kmpjs_eval api code filename flags e \<noteq> None"
proof -
  obtain e1 b where 1: "begin_run e = (e1, b)" by (metis surj_pair)
  obtain e2 ok where 2: "malloc_tick api e1 = (e2, ok)" by (metis surj_pair)
  have b2: "bufs_ok e2" using begin_run_fits [OF e 1] malloc_tick_ok [OF 2] by simp
  have p: "parse_terminated api (api_Eval api) c f e1 = (e', x) \<Longrightarrow> bufs_ok e'" for c f e' x
    using 2 by (auto simp: parse_terminated_def Let_def split: if_splits dest: texts_fit_dest(6,20) [OF api b2])
  obtain e3 r where 3: "parse_terminated api (api_Eval api) code filename e1 = (e3, r)" by (metis surj_pair)
  show ?thesis
    unfolding kmpjs_eval_def Let_def 1 prod.case 3
    using finish_total [OF api p [OF 3], of b r flags] by (auto simp: returns_def)
qed

lemma value_from_host_fits:
  assumes api: "texts_fit api" and e: "bufs_ok e" and v: "value_from_host api val e = (e', r)"
  shows "bufs_ok e'"
proof -
  note d = texts_fit_dest [OF api]
  have t: "bufs_ok e1 \<Longrightarrow> malloc_tick api e1 = (e2, ok) \<Longrightarrow> bufs_ok e2" for e1 e2 ok by (simp add: malloc_tick_ok)
  have p: "bufs_ok e1 \<Longrightarrow> parse_terminated api (api_ParseJSON api) code f e1 = (e2, x) \<Longrightarrow> bufs_ok e2" for code f e1 e2 x
    by (auto simp: parse_terminated_def Let_def split: prod.splits if_splits dest: t d(6) [rotated] d(12) [rotated])
  have m: "bufs_ok e1 \<Longrightarrow> throw_message api q e1 = (e2, x) \<Longrightarrow> bufs_ok e2" for q e1 e2 x
    by (auto simp: throw_message_def Let_def split: prod.splits if_splits dest: t d(6) [rotated])
  show ?thesis
    using v e by (auto simp: value_from_host_def Let_def split: if_splits option.splits
        dest: p [OF e] m [OF e] d(6,14,15,16) [OF e])
qed

lemma ref_set_returns:
  assumes api: "texts_fit api" and e: "bufs_ok e"
  shows "returns (kmpjs_ref_set api ref name val e)"
proof (cases "slot_get (refs e) ref")
  case None
  then show ?thesis using e by (simp add: kmpjs_ref_set_def fail_def invalid_ref_def fail_returns)
next
  case (Some i)
  obtain e1 b where 1: "begin_run e = (e1, b)" by (metis surj_pair)
  obtain e2 v where 2: "value_from_host api val (PushGCRef JS_UNDEFINED e1) = (e2, v)" by (metis surj_pair)
  have b2: "bufs_ok e2" using value_from_host_fits [OF api _ 2] begin_run_fits [OF e 1] by simp
  define e3 where "e3 = e2\<lparr>gc_stack := (gc_stack e2)[0 := v]\<rparr>"
  obtain e4 r where 4: "api_SetPropertyStr api (slot_value e3 i) name (root 0 e3) e3 = (e4, r)" by (metis surj_pair)
  have b4: "bufs_ok e4" using texts_fit_dest(9) [OF api _ 4] b2 by (simp add: e3_def)
  show ?thesis
    unfolding kmpjs_ref_set_def Some option.case 1 Let_def prod.case 2 e3_def [symmetric] 4
    using b2 b4 by (auto simp: zero_reported e3_def intro!: exception_returns [OF api])
qed

lemma ref_to_json_returns:
  assumes api: "texts_fit api" and e: "bufs_ok e"
  shows "returns (kmpjs_ref_to_json api ref e)"
proof (cases "slot_get (refs e) ref")
  case None
  then show ?thesis using e by (simp add: kmpjs_ref_to_json_def fail_def invalid_ref_def fail_returns)
next
  case (Some i)
  obtain e1 b where 1: "begin_run e = (e1, b)" by (metis surj_pair)
  obtain e3 json where 3: "json_stringify api (\<lambda>e'. slot_value e' i) e1 = (e3, json)" by (metis surj_pair)
  have b3: "bufs_ok e3" by (rule json_stringify_ok [OF api begin_run_fits [OF e 1] 3])
  obtain e4 rc where 4: "copy_js_string api json Out_str e3 = Some (e4, rc)" "bufs_ok e4"
    using copy_total [OF api b3, of Out_str json] by (auto simp: is_out_def)
  have x: "bufs_ok e' \<Longrightarrow> returns (do { (e5, out2) \<leftarrow> exception_to_out api e'; Some (end_run b e5, -1, out2) })" for e'
    by (rule exception_returns [OF api])
  show ?thesis
    unfolding kmpjs_ref_to_json_def Some option.case Let_def 1 prod.case 3 4(1)
    using x [OF b3] x [OF 4(2)] by (simp add: zero_reported)
qed

lemma define_function_returns:
  assumes api: "texts_fit api" and e: "bufs_ok e"
  shows "returns (kmpjs_define_function api name fn_id flags e)"
proof -
  obtain e1 params where 1: "api_NewInt32 api (host_params fn_id flags) (PushGCRef JS_UNDEFINED e) = (e1, params)" by (metis surj_pair)
  have b1: "bufs_ok e1" using texts_fit_dest(14) [OF api _ 1] e by simp
  obtain e2 f where 2: "api_NewCFunctionParams api params e1 = (e2, f)" by (metis surj_pair)
  have b2: "bufs_ok e2" by (rule texts_fit_dest(17) [OF api b1 2])
  define e3 where "e3 = e2\<lparr>gc_stack := (gc_stack e2)[0 := f]\<rparr>"
  obtain e4 r where 4: "api_SetPropertyStr api (api_GetGlobalObject api (ctx e3)) name (root 0 e3) e3 = (e4, r)" by (metis surj_pair)
  have b4: "bufs_ok e4" using texts_fit_dest(9) [OF api _ 4] b2 by (simp add: e3_def)
  show ?thesis
    unfolding kmpjs_define_function_def Let_def 1 prod.case 2 e3_def [symmetric] 4
    using b2 b4 exception_returns [OF api, of "PopGCRef e3" id] exception_returns [OF api, of "PopGCRef e4" id]
    by (simp add: zero_reported e3_def)
qed

lemma push_values_fits:
  assumes api: "texts_fit api"
  shows "bufs_ok e \<Longrightarrow> push_values api as e = (e', n, ok) \<Longrightarrow> bufs_ok e'"
proof (induction "as" arbitrary: e n ok)
  case (Cons a "as")
  obtain e1 v where 1: "value_from_host api a (PushGCRef JS_UNDEFINED e) = (e1, v)" by (metis surj_pair)
  have b1: "bufs_ok e1" using value_from_host_fits [OF api _ 1] Cons.prems(1) by simp
  show ?case using Cons.prems(2) b1 1 Cons.IH [of "e1\<lparr>gc_stack := (gc_stack e1)[0 := v]\<rparr>"]
    by (auto simp: Let_def split: if_splits prod.splits)
qed simp

lemma pop_values_ok [simp]: "bufs_ok (pop_values n e) = bufs_ok e"
  by (induction n) (simp_all add: pop_values_def)

lemma call_with_roots_ok: "texts_fit api \<Longrightarrow> bufs_ok e \<Longrightarrow> call_with_roots api f this argc e = (e', r) \<Longrightarrow> bufs_ok e'"
  by (auto simp: call_with_roots_def Let_def dest: texts_fit_dest(11) [rotated 2])

lemma ref_call_returns:
  assumes api: "texts_fit api" and e: "bufs_ok e"
  shows "returns (kmpjs_ref_call api ref this_ref args flags e)"
proof -
  have f: "length s \<le> 2 ^ 30 \<Longrightarrow> returns (fail api s e)" for s using e by (simp add: fail_def fail_returns)
  obtain e1 b where 1: "begin_run e = (e1, b)" by (metis surj_pair)
  obtain e2 ok where 2: "malloc_tick api e1 = (e2, ok)" by (metis surj_pair)
  have b2: "bufs_ok e2" using begin_run_fits [OF e 1] malloc_tick_ok [OF 2] by simp
  obtain e3 n conv where 3: "push_values api args e2 = (e3, n, conv)" by (metis prod.exhaust)
  have b3: "bufs_ok e3" by (rule push_values_fits [OF api b2 3])
  obtain e4 full where 4: "api_StackCheck api (of_nat (length args) + 2) e3 = (e4, full)" by (metis surj_pair)
  have b4: "bufs_ok e4" by (rule texts_fit_dest(10) [OF api b3 4])
  have oom: "returns (do { (e3, rc, out) \<leftarrow> fail api ''out of memory'' e2; Some (end_run b e3, rc, out) })"
    using fail_total [OF b2, of "text_bytes ''out of memory''" api] by (auto simp: fail_def reported_def)
  have tail: "returns (do { (e4, rc, out) \<leftarrow> x; Some (g e4, rc, out) })" if "returns x" for x and g :: "'a kmpjs_engine \<Rightarrow> 'a kmpjs_engine"
    using that by (auto simp: returns_def reported_def)
  have ex: "bufs_ok e5 \<Longrightarrow> returns (map_option (\<lambda>(e', out). (e', -1, out)) (exception_to_out api e5))" for e5
    using exception_total [OF api] by (fastforce simp: reported_def)
  have res: "bufs_ok e5 \<Longrightarrow> returns (result_to_out api r flags e5)" for e5 r
    using result_total [OF api] by (fastforce simp: returns_def)
  have body: "returns
      (if \<not> conv then map_option (\<lambda>(e', out). (e', -1, out)) (exception_to_out api e3)
       else if full then map_option (\<lambda>(e'', out). (e'', -1, out)) (exception_to_out api e4)
       else let (e'', r) = call_with_roots api f' this (length args) e4 in result_to_out api r flags e'')" for f' this
    using ex [OF b3] ex [OF b4] res call_with_roots_ok [OF api b4] by (auto split: prod.splits)
  show ?thesis
    unfolding kmpjs_ref_call_def Let_def 1 prod.case 2 3 4
    using f oom tail [OF body] by (auto simp: invalid_ref_def Let_def split: option.splits)
qed

lemma u32toa_fits: "unat n < 10 ^ Suc k \<Longrightarrow> length (u32toa n) \<le> Suc k"
proof (induction k arbitrary: n)
  case 0
  then have "n div 10 = 0" by (simp add: unat_eq_zero [symmetric] unat_div del: unat_eq_zero)
  then show ?case by (subst u32toa.simps) simp
next
  case (Suc k)
  have "unat (n div 10) < 10 ^ Suc k" using Suc.prems by (simp add: unat_div)
  then show ?case using Suc.IH [of "n div 10"] by (subst u32toa.simps) simp
qed

lemma u32toa_length: "length (u32toa n) \<le> 10"
proof -
  have "unat n < 2 ^ 32" using unsigned_less [of n] by simp
  then show ?thesis using u32toa_fits [of n 9] by simp
qed

lemma check_bytecode_short:
  assumes "check_bytecode api commit body_min buf = Some msg"
  shows "length msg \<le> 2 ^ 30"
proof -
  have t: "length (takeWhile (\<lambda>b. b \<noteq> 0) (take 12 xs)) \<le> 12" for xs :: "u8 list"
    using le_trans [OF length_takeWhile_le [of "\<lambda>b. b \<noteq> 0" "take 12 xs"]] by simp
  have u: "length (u32toa n) \<le> 10" for n :: u32 by (rule u32toa_length)
  show ?thesis
    using assms t [of "upstream (decode_header buf)"] u [of "ucast (word_size (decode_header buf))"] u [of "of_nat (JSW * 8)"]
    by (auto simp: check_bytecode_def Let_def bc_magic_def split: if_splits)
qed

lemma load_bytecode_returns:
  assumes api: "texts_fit api" and e: "bufs_ok e"
  shows "returns (kmpjs_load_bytecode api commit body_min buf e)"
proof (cases "check_bytecode api commit body_min buf")
  case (Some msg)
  then show ?thesis using fail_returns [OF e check_bytecode_short [OF Some]] by (simp add: kmpjs_load_bytecode_def)
next
  case None
  have f: "bufs_ok e' \<Longrightarrow> length s \<le> 2 ^ 30 \<Longrightarrow> returns (fail api s e')" for s e'
    by (simp add: fail_def fail_returns)
  obtain tab rc where 1: "slot_reserve (api_malloc_ok api (alloc_clock e)) (api_malloc_ok api (alloc_clock e + 1)) (refs e) = (tab, rc)"
    by (metis surj_pair)
  define e1 where "e1 = e\<lparr>refs := tab, alloc_clock := alloc_clock e + 2\<rparr>"
  have b1: "bufs_ok e1" using e by (simp add: e1_def bufs_ok_def)
  obtain e2 ok where 2: "malloc_tick api e1 = (e2, ok)" by (metis surj_pair)
  have b2: "bufs_ok e2" using b1 malloc_tick_ok [OF 2] by simp
  obtain e3 r where 3: "api_RelocateBytecode api (drop 52 buf) e2 = (e3, r)" by (metis surj_pair)
  have b3: "bufs_ok e3" by (rule texts_fit_dest(18) [OF api b2 3])
  show ?thesis
  proof (cases r)
    case N: None
    show ?thesis
      unfolding kmpjs_load_bytecode_def None option.case Let_def 1 prod.case e1_def [symmetric] 2 3 N
      using f [OF b1] f [OF b2] f [OF b3] by simp
  next
    case S: (Some block)
    obtain e4 v where 4: "api_LoadBytecode api block e3 = (e4, v)" by (metis surj_pair)
    have b4: "bufs_ok e4" by (rule texts_fit_dest(19) [OF api b3 4])
    obtain e5 out where 5: "exception_to_out api e4 = Some (e5, out)" "bufs_ok e5" "vtag out = KMPJS_TAG_EXCEPTION"
      using exception_total [OF api b4] by blast
    obtain e6 h where 6: "new_ref api v (e4\<lparr>blocks := block # blocks e4\<rparr>) = (e6, h)" by (metis surj_pair)
    show ?thesis
      unfolding kmpjs_load_bytecode_def None option.case Let_def 1 prod.case e1_def [symmetric] 2 3 S 4 5(1) 6
      using f [OF b1] f [OF b2] f [OF 5(2)] 5(3) by (simp add: zero_reported reported_def tag_defs)
  qed
qed

section \<open>A handle that does not resolve\<close>

text \<open>
  The failure of an operation: status -1, an exception with exactly this message (an empty one when the
  buffer of the message cannot grow), and nothing of the engine changed but that buffer.
\<close>

definition rejects :: "'c js_api \<Rightarrow> 'c kmpjs_engine \<Rightarrow> string \<Rightarrow> ('c kmpjs_engine \<times> int \<times> kmpjs_value) option \<Rightarrow> bool" where
  "rejects api e msg x \<longleftrightarrow>
     (\<exists>b out. x = Some (e\<lparr>alloc_clock := alloc_clock e + 1, out_str := b\<rparr>, -1, out) \<and> buf_ok b \<and>
        vtag out = KMPJS_TAG_EXCEPTION \<and>
        (payload_bytes (e\<lparr>alloc_clock := alloc_clock e + 1, out_str := b\<rparr>) (vstr out) = Some (text_bytes msg) \<or>
         payload_bytes (e\<lparr>alloc_clock := alloc_clock e + 1, out_str := b\<rparr>) (vstr out) = Some [] \<and>
           api_realloc api (alloc_clock e) = None))"

lemma fail_rejects: "bufs_ok e \<Longrightarrow> length msg \<le> 2 ^ 30 \<Longrightarrow> rejects api e msg (fail api msg e)"
  unfolding rejects_def fail_def by (rule fail_total) simp_all

text \<open>A witness: an engine with little script, in which allocation always succeeds.\<close>

definition quiet_api :: "'c js_api" where
  "quiet_api = \<lparr>api_IsNumber = \<lambda>_ v. v = 9, api_IsString = \<lambda>_ _. False, api_IsFunction = \<lambda>_ _. False,
     api_IsArray = \<lambda>_ _. False, api_IsError = \<lambda>_ _. False, api_GetGlobalObject = \<lambda>_. JS_NULL,
     api_PushArg = \<lambda>_ c. c, api_ToNumber = \<lambda>v e. (e, None), api_ToString = \<lambda>v e. (e, v),
     api_ToCStringLen = \<lambda>_ e. (e, Some []), api_GetException = \<lambda>e. (e, JS_NULL),
     api_Throw = \<lambda>_ _ e. (e, JS_EXCEPTION), api_GetPropertyStr = \<lambda>_ _ e. (e, JS_UNDEFINED),
     api_GetPropertyUint32 = \<lambda>_ _ e. (e, JS_UNDEFINED), api_SetPropertyStr = \<lambda>_ _ _ e. (e, JS_UNDEFINED),
     api_StackCheck = \<lambda>_ e. (e, False), api_Call = \<lambda>_ e. (e, JS_UNDEFINED), api_Eval = \<lambda>_ _ _ e. (e, JS_UNDEFINED),
     api_ParseJSON = \<lambda>_ _ _ e. (e, JS_UNDEFINED), api_Run = \<lambda>_ e. (e, JS_UNDEFINED),
     api_NewInt32 = \<lambda>i e. (e, 9), api_NewFloat64 = \<lambda>d e. (e, 9),
     api_NewStringLen = \<lambda>_ e. (e, JS_NULL), api_NewCFunctionParams = \<lambda>v e. (e, v),
     api_IsBytecode = \<lambda>bs. bs \<noteq> [], api_RelocateBytecode = \<lambda>bs e. (e, Some bs), api_LoadBytecode = \<lambda>_ e. (e, JS_NULL),
     api_DumpMemory = \<lambda>e. (e, ()), api_PrintValueF = \<lambda>_ e. (e, ()), api_log = None,
     api_host = None, api_cast_int32 = \<lambda>d. of_int (f_trunc d),
     api_malloc_ok = \<lambda>_. True, api_realloc = \<lambda>_. Some (\<lambda>_. 0)\<rparr>"

definition quiet_engine :: "unit kmpjs_engine" where
  "quiet_engine = \<lparr>ctx = (), blocks = [], run_state = KMP_IDLE, out_str = empty_buf, out_stack = empty_buf,
     log_line = empty_buf, refs = empty_table, gc_stack = [], arg_bufs = [], alloc_clock = 0\<rparr>"

section \<open>Every operation reports\<close>

text \<open>
  C14: With engine operations that keep the text buffers well formed and give texts of at most \<open>2 ^ 30\<close>
  bytes, every operation of the shim returns (no write outside a buffer, no use of a missing slot), and
  all but the evaluation, which has no status, report 0 with a value that is not an exception, or -1 with an exception. An operation on a handle
  that does not resolve (never given out, or released) reports -1 with exactly the message
  \<open>invalid or released ref\<close> (for a program \<open>invalid or released program ref\<close>; no text when its buffer
  cannot grow) and leaves the engine as it was, but for the buffer of the message; so does a call
  whose receiver does not resolve.
\<close>

theorem operations_report:
  assumes "texts_fit api" and "bufs_ok e"
  shows "kmpjs_eval api code filename flags e \<noteq> None \<and> list_all returns
     [kmpjs_ref_get api ref name flags e, kmpjs_ref_get_index api ref index flags e,
      kmpjs_ref_set api ref name val e, kmpjs_ref_call api ref this_ref args flags e,
      kmpjs_ref_to_json api ref e, kmpjs_run_program api ref flags e,
      kmpjs_define_function api name fn_id flags e, kmpjs_load_bytecode api commit body_min buf e] \<and>
   (if slot_get (refs e) ref = None then
      list_all (rejects api e ''invalid or released ref'')
        [kmpjs_ref_get api ref name flags e, kmpjs_ref_get_index api ref index flags e,
         kmpjs_ref_set api ref name val e, kmpjs_ref_call api ref this_ref args flags e, kmpjs_ref_to_json api ref e] \<and>
      rejects api e ''invalid or released program ref'' (kmpjs_run_program api ref flags e)
    else if \<not> api_IsFunction api (ctx e) (slot_value e (the (slot_get (refs e) ref))) then
      rejects api e ''ref is not a function'' (kmpjs_ref_call api ref this_ref args flags e)
    else if this_ref \<noteq> 0 \<and> slot_get (refs e) this_ref = None then
      rejects api e ''invalid or released this ref'' (kmpjs_ref_call api ref this_ref args flags e)
    else True)"
proof (intro conjI)
  show "kmpjs_eval api code filename flags e \<noteq> None" by (rule eval_returns [OF assms])
  show "list_all returns
     [kmpjs_ref_get api ref name flags e, kmpjs_ref_get_index api ref index flags e,
      kmpjs_ref_set api ref name val e, kmpjs_ref_call api ref this_ref args flags e,
      kmpjs_ref_to_json api ref e, kmpjs_run_program api ref flags e,
      kmpjs_define_function api name fn_id flags e, kmpjs_load_bytecode api commit body_min buf e]"
    by (simp add: eval_returns ref_get_returns ref_get_index_returns ref_set_returns ref_call_returns ref_to_json_returns
        run_program_returns define_function_returns load_bytecode_returns assms)
qed (auto simp: kmpjs_ref_get_def kmpjs_ref_get_index_def kmpjs_ref_set_def kmpjs_ref_call_def kmpjs_ref_to_json_def
      kmpjs_run_program_def invalid_ref_def fail_rejects [OF assms(2)])

lemma operations_report_witness:
  "texts_fit quiet_api \<and> bufs_ok quiet_engine \<and>
   rejects quiet_api quiet_engine ''invalid or released program ref'' (kmpjs_run_program quiet_api 5 0 quiet_engine) \<and>
   returns (kmpjs_load_bytecode quiet_api (replicate 40 0x61) 0 (replicate 60 0) quiet_engine)"
proof -
  have a: "texts_fit quiet_api" by (simp add: texts_fit_def quiet_api_def)
  have b: "bufs_ok quiet_engine"
    by (simp add: bufs_ok_def quiet_engine_def buf_ok_def empty_buf_def)
  have "slot_get (refs quiet_engine) 5 = None" by code_simp
  then show ?thesis using a b operations_report [OF a b, where ref = 5] by simp
qed

end
