(* ===== verification/Shim_Numbers.thy ===== *)
theory Shim_Numbers imports Shim_Reports JsAlloc begin

text \<open>
  Scalars that cross between the host and the engine keep their meaning: the conversions of the shim over
  the engine's own numbers (\<open>JsAlloc\<close>).
\<close>

unbundle bit_operations_syntax

section \<open>Numbers from the host and back\<close>

lemma f_frac_lt: "f_frac d < 2 ^ 52"
  by (simp add: f_frac_def)

lemma f_mag_less:
  assumes "f_exp a < f_exp b" shows "f_mag a < f_mag b"
proof -
  have b: "f_mag b = (2 ^ 52 + f_frac b) * 2 ^ (f_exp b - 1)" using assms by (simp add: f_mag_def)
  show ?thesis
  proof (cases "f_exp a = 0")
    case True
    have "f_mag a < 2 ^ 52" using f_frac_lt [of a] True unfolding f_mag_def by simp
    also have "\<dots> \<le> f_mag b" unfolding b by (rule order_trans [OF _ mult_le_mono2 [of 1]]) simp_all
    finally show ?thesis .
  next
    case False
    have "f_mag a < 2 ^ 53 * 2 ^ (f_exp a - 1)"
      using f_frac_lt [of a] False unfolding f_mag_def if_not_P [OF False] by (intro mult_less_mono1) simp_all
    also have "\<dots> = 2 ^ 52 * 2 ^ f_exp a" using False by (cases "f_exp a") simp_all
    also have "\<dots> \<le> 2 ^ 52 * 2 ^ (f_exp b - 1)" using assms by (intro mult_le_mono2 power_increasing) simp_all
    also have "\<dots> \<le> f_mag b" unfolding b by (intro mult_le_mono1) simp
    finally show ?thesis .
  qed
qed

lemma f_mag_inj:
  assumes "f_mag a = f_mag b" shows "f_exp a = f_exp b" "f_frac a = f_frac b"
proof -
  show e: "f_exp a = f_exp b"
    using f_mag_less [of a b] f_mag_less [of b a] assms by (metis less_irrefl linorder_neqE_nat)
  show "f_frac a = f_frac b"
  proof (cases "f_exp b = 0")
    case True
    then show ?thesis using assms e by (simp add: f_mag_def)
  next
    case False
    then have "(2 ^ 52 + f_frac a) * 2 ^ (f_exp b - 1) = (2 ^ 52 + f_frac b) * (2 :: nat) ^ (f_exp b - 1)"
      using assms e unfolding f_mag_def by (simp only: if_False)
    then show ?thesis by (simp only: mult_cancel2) simp
  qed
qed

text \<open>Equal doubles have the same bits, zeros apart.\<close>

lemma f_eq_bits:
  assumes "f_eq a b" "f_mag b = 0 \<Longrightarrow> f_sign a = f_sign b"
  shows "a = b"
proof -
  have v: "f_val a = f_val b" using assms(1) by (simp add: f_eq_def)
  have m: "f_mag a = f_mag b" using v by (simp add: f_val_def split: if_splits)
  have "f_sign a = f_sign b" using v m assms(2) by (cases "f_mag b = 0") (auto simp: f_val_def split: if_splits)
  then show ?thesis using f_mag_inj [OF m] by (intro f_eqI)
qed

lemma f_sign_of_int: "\<bar>i\<bar> < 2 ^ 53 \<Longrightarrow> f_sign (f_of_int i) \<longleftrightarrow> i < 0"
proof -
  assume i: "\<bar>i\<bar> < 2 ^ 53"
  then have n: "nat \<bar>i\<bar> < 2 ^ 53" by simp
  show ?thesis
  proof (cases "i = 0")
    case True
    then show ?thesis by (simp add: f_of_int_def f_of_nat_zero)
  next
    case False
    then show ?thesis using f_of_nat_fields(1) [of "nat \<bar>i\<bar>" "i < 0"] n by (simp add: f_of_int_def)
  qed
qed

lemma int_path_exact:
  assumes "f_eq (f_of_int i) d" "\<bar>i\<bar> < 2 ^ 53" "\<not> (f_eq d 0 \<and> f_sign d)"
  shows "f_of_int i = d"
proof (rule f_eq_bits [OF assms(1)])
  assume z: "f_mag d = 0"
  have "f_val d = i * 2 ^ 1074" using assms(1) f_val_of_int(1) [OF assms(2)] by (simp only: f_eq_def)
  moreover have "f_val d = 0" using z by (simp add: f_val_def)
  ultimately have "i * 2 ^ 1074 = 0" by metis
  then have i: "i = 0" by (simp only: mult_eq_0_iff) simp
  have "f_nan d = False" using assms(1) by (simp add: f_eq_def)
  then have "f_eq d 0" using z f_val_of_int [of 0] by (simp add: f_eq_def f_of_int_zero f_val_def)
  then have "\<not> f_sign d" using assms(3) by blast
  then show "f_sign (f_of_int i) = f_sign d" using f_sign_of_int [of i] assms(2) i by simp
qed

section \<open>The engine's numbers behind the shim\<close>

text \<open>
  The number operations of the engine interface, as the engine has them; the rest of the interface stays
  a parameter.
\<close>

definition number_api :: "js_env \<Rightarrow> (JSContext \<Rightarrow> JSValue \<Rightarrow> JSContext \<times> JSValue) \<Rightarrow>
    (JSContext \<Rightarrow> JSValue \<Rightarrow> JSContext \<times> float64 option) \<Rightarrow> JSContext js_api \<Rightarrow> JSContext js_api" where
  "number_api env prim atod api = api\<lparr>
     api_IsNumber := JS_IsNumber,
     api_ToNumber := (\<lambda>v e. case JS_ToNumber prim atod (ctx e) v of
        None \<Rightarrow> (e, None) | Some (c, d) \<Rightarrow> (e\<lparr>ctx := c\<rparr>, d)),
     api_NewInt32 := (\<lambda>i e. case JS_NewInt32 env (ctx e) i of (c, v) \<Rightarrow> (e\<lparr>ctx := c\<rparr>, v)),
     api_NewFloat64 := (\<lambda>d e. case JS_NewFloat64 env (ctx e) d of (c, v) \<Rightarrow> (e\<lparr>ctx := c\<rparr>, v))\<rparr>"

text \<open>
  The heap a number is put into: tiled, below the stack, at addresses that fit in a word, and with the
  block of the negative zero that \<open>JS_NewContext\<close> made.
\<close>

definition numbers_ok :: "JSContext \<Rightarrow> bool" where
  "numbers_ok c \<longleftrightarrow> heap_ok c \<and> stack_bottom c < 2 ^ 63 \<and> unat (min_free_size c) < 2 ^ 31 \<and>
     JS_IsPtr (minus_zero c) \<and> block_of c (minus_zero c) = Some (MB_float64 0x8000000000000000)"

text \<open>A value that is a number and reads as \<open>d\<close>.\<close>

definition holds_number :: "JSContext \<Rightarrow> JSValue \<Rightarrow> float64 \<Rightarrow> bool" where
  "holds_number c v d \<longleftrightarrow> \<not> JS_IsUndefined v \<and> \<not> JS_IsNull v \<and> \<not> JS_IsBool v \<and> JS_IsNumber c v \<and>
     (\<forall>prim atod. JS_ToNumber prim atod c v = Some (c, Some d))"

lemma special_low: "unat v mod 4 \<noteq> 3 \<Longrightarrow> \<not> JS_IsUndefined v \<and> \<not> JS_IsNull v \<and> \<not> JS_IsBool v"
proof -
  assume v: "unat v mod 4 \<noteq> 3"
  have c: "unat JS_UNDEFINED mod 4 = 3" "unat JS_NULL mod 4 = 3" by code_simp+
  have "JS_VALUE_GET_SPECIAL_TAG v = JS_TAG_BOOL \<Longrightarrow> unat v mod 4 = 3"
  proof -
    assume "JS_VALUE_GET_SPECIAL_TAG v = JS_TAG_BOOL"
    then have "v AND mask 5 = JS_TAG_BOOL" by (simp add: JS_VALUE_GET_SPECIAL_TAG_def mask_eq_exp_minus_1)
    then have "unat v mod 32 = unat JS_TAG_BOOL" using and_mask_unat [of v 5 JS_TAG_BOOL] by simp
    then have "unat v mod 32 mod 4 = unat JS_TAG_BOOL mod 4" by (rule arg_cong)
    moreover have "unat JS_TAG_BOOL mod 4 = 3" by code_simp
    ultimately show ?thesis by (simp add: mod_mod_cancel)
  qed
  with v c show ?thesis by (auto simp: JS_IsUndefined_def JS_IsNull_def JS_IsBool_def)
qed

lemma low_bits: "n mod 8 = (k :: nat) \<Longrightarrow> n mod 4 = k mod 4 \<and> n mod 2 = k mod 2" for n :: nat
  by (auto simp: mod_mod_cancel)

lemma holds_int:
  assumes "JS_SHORTINT_MIN \<le> sint i" "sint i \<le> JS_SHORTINT_MAX"
  shows "holds_number c (JS_NewShortInt i) (f_of_int (sint i))"
proof -
  note v = short_int_value [OF assms]
  have "unat (JS_NewShortInt i) mod 2 = 0" using v by (simp add: JS_IsInt_iff)
  then have "unat (JS_NewShortInt i) mod 4 \<noteq> 3" by presburger
  then show ?thesis
    using v special_low by (simp add: holds_number_def JS_IsNumber_def JS_IsIntOrShortFloat_def JS_ToNumber.simps)
qed

lemma holds_short_float:
  assumes "f_le (f_make False 896 0) (f_abs d)" "f_le (f_abs d) (f_make False 1151 0)"
  shows "holds_number c (js_to_short_float d) d"
proof -
  note v = short_float_roundtrip [OF assms]
  have m: "unat (js_to_short_float d) mod 8 = 5" using v by (simp add: JS_IsShortFloat_iff)
  note l = low_bits [OF m]
  have "\<not> JS_IsInt (js_to_short_float d)" using l by (simp add: JS_IsInt_iff)
  then show ?thesis
    using v l special_low [of "js_to_short_float d"]
    by (simp add: holds_number_def JS_IsNumber_def JS_IsIntOrShortFloat_def JS_ToNumber.simps)
qed

lemma holds_block:
  assumes "JS_IsPtr v" "block_of c v = Some (MB_float64 d)"
  shows "holds_number c v d"
proof -
  have m: "unat v mod 8 = 1" using assms(1) by (simp add: JS_IsPtr_iff)
  note l = low_bits [OF m]
  have "\<not> JS_IsInt v" "\<not> JS_IsShortFloat v" using l m by (simp_all add: JS_IsInt_iff JS_IsShortFloat_iff)
  then show ?thesis
    using assms l special_low [of v]
    by (simp add: holds_number_def JS_IsNumber_def JS_IsIntOrShortFloat_def JS_ToNumber.simps)
qed

lemma ptr_val_block:
  assumes "8 dvd p" "p < 2 ^ 63"
  shows "JS_IsPtr (ptr_val p)" "val_ptr (ptr_val p) = p"
proof -
  have u: "unat (of_nat p :: u64) = p" using assms(2) by (intro unat_of_nat_64) simp
  have "unat (of_nat p + 1 :: u64) = p + 1" using unat_of_nat_64 [of "p + 1"] assms(2) by (simp add: add.commute)
  then show "JS_IsPtr (ptr_val p)"
    using assms(1) by (simp add: JS_IsPtr_iff ptr_val_def JS_VALUE_FROM_PTR_def) presburger
  show "val_ptr (ptr_val p) = p" by (simp add: val_ptr_def ptr_val_def JS_VALUE_FROM_PTR_def JS_VALUE_TO_PTR_def u)
qed

lemma alloc_float64_holds:
  assumes "numbers_ok c" "gc_ok env" "js_alloc_float64 env c d = (c', v)" "\<not> JS_IsException v"
  shows "holds_number c' v d"
proof -
  obtain p where m: "js_malloc env c 16 (MB_float64 d) = (c', Some p)" and v: "v = ptr_val p"
    using assms(3,4) by (auto simp: js_alloc_float64_def JS_IsException_def split: prod.splits option.splits)
  have s: "get_mblock_size (MB_float64 d) = round_up_jsw (unat (16 :: u32))" by (simp add: round_up_jsw_def JSW_def)
  have b: "unat (16 :: u32) + unat (min_free_size c) + 8 < 2 ^ 32" using assms(1) by (simp add: numbers_ok_def)
  have ok: "heap_ok c" using assms(1) by (simp add: numbers_ok_def)
  have r: "8 dvd p" "heap c' p = Some (MB_float64 d)" "heap_free c' = p + 16"
      "int (heap_free c') + int (unat (min_free_size c)) \<le> stack_bottom c"
    using malloc_success [OF ok assms(2) m b s] by (simp_all add: round_up_jsw_def JSW_def)
  have "stack_bottom c < 2 ^ 63" "int (heap_free c') = int p + 16" using r(3) assms(1) by (simp_all add: numbers_ok_def)
  then have "int p < 2 ^ 63" using r(4) by linarith
  then have p: "p < 2 ^ 63" by simp
  show ?thesis unfolding v
    by (rule holds_block) (use ptr_val_block [OF r(1) p] r(2) in \<open>simp_all add: block_of_def\<close>)
qed

lemma new_float64_holds:
  assumes "numbers_ok c" "gc_ok env" "new_float64 env c d = (c', v)" "\<not> JS_IsException v"
  shows "holds_number c' v d"
proof -
  let ?short = "f_le (f_make False 896 0) (f_abs d) \<and> f_le (f_abs d) (f_make False 1151 0)"
  show ?thesis
  proof (cases "d = 0x8000000000000000")
    case True
    have "(c', v) = (c, minus_zero c)" using assms(3) unfolding new_float64_def if_P [OF True] by (rule sym)
    then show ?thesis using assms(1) True by (simp add: numbers_ok_def holds_block)
  next
    case nz: False
    note n = assms(3) [unfolded new_float64_def if_not_P [OF nz]]
    show ?thesis
    proof (cases ?short)
      case True
      have "(c', v) = (c, js_to_short_float d)" using n unfolding if_P [OF True] by (rule sym)
      then show ?thesis using holds_short_float [of d c] True by simp
    next
      case False
      then show ?thesis using alloc_float64_holds [OF assms(1,2) _ assms(4)] n unfolding if_not_P [OF False] by blast
    qed
  qed
qed

lemma NewFloat64_holds:
  assumes "numbers_ok c" "gc_ok env" "JS_NewFloat64 env c d = (c', v)" "\<not> JS_IsException v"
  shows "holds_number c' v d"
proof (cases "float_short_int d")
  case None
  then show ?thesis using assms new_float64_holds by (simp add: JS_NewFloat64_def)
next
  case (Some i)
  then have "JS_SHORTINT_MIN \<le> sint i \<and> sint i \<le> JS_SHORTINT_MAX \<and> d = f_of_int (sint i)"
    using float_short_int_spec [of d, unfolded short_int_of_def Some] by blast
  then show ?thesis using Some assms(3) holds_int by (auto simp: JS_NewFloat64_def)
qed

lemma NewInt32_holds:
  assumes "numbers_ok c" "gc_ok env" "JS_NewInt32 env c i = (c', v)" "\<not> JS_IsException v"
  shows "holds_number c' v (f_of_int (sint i))"
proof -
  have s: "sint (scast i :: s64) = sint i" by (rule sint_up_scast) (simp add: is_up)
  have u: "ucast (scast i :: s64) = i" by (rule u32_eqI) (simp_all add: bit_simps)
  show ?thesis
    using assms new_float64_holds [OF assms(1,2)] holds_int [of i]
    by (auto simp: JS_NewInt32_def JS_NewInt64_def int64_is_short_int_def s u split: if_splits)
qed

section \<open>The round trip\<close>

lemma holds_out:
  assumes "holds_number (ctx e1) v d" "value_to_out (number_api env prim atod api) v k flags e1 = Some (e2, rc, out)"
  shows "rc = 0 \<and> vtag out = KMPJS_TAG_NUMBER \<and> vnum out = d"
  using assms by (auto simp: holds_number_def value_to_out_def number_api_def Let_def)

lemma special_values:
  "JS_IsUndefined JS_UNDEFINED" "\<not> JS_IsUndefined JS_NULL" "JS_IsNull JS_NULL"
  "\<not> JS_IsUndefined (JS_NewBool 0)" "\<not> JS_IsNull (JS_NewBool 0)" "JS_IsBool (JS_NewBool 0)" "JS_NewBool 0 \<noteq> JS_TRUE"
  "\<not> JS_IsUndefined JS_TRUE" "\<not> JS_IsNull JS_TRUE" "JS_IsBool JS_TRUE" "JS_NewBool 1 = JS_TRUE"
  by code_simp+

lemma number_roundtrip:
  assumes ok: "numbers_ok (ctx e)" "gc_ok env" and v: "value_from_host (number_api env prim atod api) val e = (e1, v)"
    "\<not> JS_IsException v" and out: "value_to_out (number_api env prim atod api) v k flags e1 = Some (e2, rc, out)"
    and tag: "vtag val = KMPJS_TAG_NUMBER"
  shows "rc = 0 \<and> vtag out = KMPJS_TAG_NUMBER \<and> vnum out = vnum val"
proof -
  define i where "i = api_cast_int32 (number_api env prim atod api) (vnum val)"
  have i53: "\<bar>sint i\<bar> < 2 ^ 53" using sint_greater_eq [of i] sint_less [of i] by (simp add: abs_less_iff)
  have "holds_number (ctx e1) v (vnum val)"
  proof (cases "f_eq (f_of_int (sint i)) (vnum val) \<and> \<not> (f_eq (vnum val) 0 \<and> f_sign (vnum val))")
    case True
    then have "api_NewInt32 (number_api env prim atod api) i e = (e1, v)"
      using v(1) tag by (simp add: value_from_host_def Let_def tag_defs i_def)
    then have "JS_NewInt32 env (ctx e) i = (ctx e1, v)" by (auto simp: number_api_def split: prod.splits)
    from NewInt32_holds [OF ok this v(2)] int_path_exact [OF _ i53, of "vnum val"] True show ?thesis by simp
  next
    case False
    then have "api_NewFloat64 (number_api env prim atod api) (vnum val) e = (e1, v)"
      using v(1) tag by (auto simp: value_from_host_def Let_def tag_defs i_def split: if_splits)
    then have "JS_NewFloat64 env (ctx e) (vnum val) = (ctx e1, v)" by (auto simp: number_api_def split: prod.splits)
    from NewFloat64_holds [OF ok this v(2)] show ?thesis .
  qed
  from holds_out [OF this out] show ?thesis .
qed

text \<open>
  C15: A scalar (undefined, null, a boolean or a number) survives the way from the host into the engine's
  own values and back: undefined and null as such, a boolean as 0 or 1 by its truth, and a number with
  exactly its bits - zeros with their sign, NaN, infinities and integers beyond 32 bits included, as a short
  integer, a short float or a block of the heap - whatever the C cast to \<open>int32_t\<close> yields out of its range.
  (Allocating the block may collect garbage, and may fail with an exception.)
\<close>

theorem host_value_roundtrip:
  assumes "numbers_ok (ctx e)" "gc_ok env"
    "value_from_host (number_api env prim atod api) val e = (e1, v)" "\<not> JS_IsException v"
    "value_to_out (number_api env prim atod api) v k flags e1 = Some (e2, rc, out)"
    "vtag val \<in> {KMPJS_TAG_UNDEFINED, KMPJS_TAG_NULL, KMPJS_TAG_BOOL, KMPJS_TAG_NUMBER}"
  shows "rc = 0 \<and> vtag out = vtag val \<and>
    (vtag val = KMPJS_TAG_BOOL \<longrightarrow> vnum out = (if f_eq (vnum val) 0 then 0 else f_of_int 1)) \<and>
    (vtag val = KMPJS_TAG_NUMBER \<longrightarrow> vnum out = vnum val)"
proof (cases "vtag val = KMPJS_TAG_NUMBER")
  case True
  then show ?thesis using number_roundtrip [OF assms(1-5)] by (simp add: tag_defs)
next
  case False
  then show ?thesis using assms(3,5,6)
    by (auto simp: value_from_host_def value_to_out_def Let_def tag_defs special_values f_of_int_zero
        split: if_splits)
qed

text \<open>A context after the negative zero was made, and a NaN that goes through the heap.\<close>

definition number_ctx :: JSContext where
  "number_ctx = blank_ctx\<lparr>heap := [64 \<mapsto> MB_float64 0x8000000000000000], heap_free := 80, minus_zero := ptr_val 64\<rparr>"

definition number_engine :: "JSContext kmpjs_engine" where
  "number_engine = \<lparr>ctx = number_ctx, blocks = [], run_state = KMP_IDLE, out_str = empty_buf, out_stack = empty_buf,
     log_line = empty_buf, refs = empty_table, gc_stack = [], arg_bufs = [], alloc_clock = 0\<rparr>"

definition plain_api :: "JSContext js_api" where
  "plain_api = number_api idle_env (\<lambda>c v. (c, JS_UNDEFINED)) (\<lambda>c v. (c, Some f_NAN)) quiet_api"

lemma number_ctx_ok: "numbers_ok number_ctx"
proof -
  have "layout (heap number_ctx) (heap_base number_ctx) [MB_float64 0x8000000000000000] (heap_free number_ctx)"
    by (simp add: number_ctx_def blank_ctx_def)
  moreover have "8 dvd heap_base number_ctx" by (simp add: number_ctx_def blank_ctx_def)
  ultimately have "heap_ok number_ctx" unfolding heap_ok_def by blast
  moreover have "JS_IsPtr (ptr_val 64)" "val_ptr (ptr_val 64) = 64" by (simp_all add: ptr_val_block)
  ultimately show ?thesis by (simp add: numbers_ok_def block_of_def number_ctx_def blank_ctx_def)
qed

lemma nan_paths:
  "\<not> f_eq (f_of_int i) 0x7ff8000000000001" "float_short_int 0x7ff8000000000001 = None"
  "\<not> f_le (f_make False 896 0) (f_abs 0x7ff8000000000001)"
proof -
  have f: "f_exp 0x7ff8000000000001 = 2047" "f_frac 0x7ff8000000000001 = 2 ^ 51 + 1"
    by (simp_all add: f_exp_def f_frac_def)
  have nan: "f_nan 0x7ff8000000000001" "f_nan (f_abs 0x7ff8000000000001)"
    unfolding f_nan_def f_abs_def f using f_make_fields [of 2047 "2 ^ 51 + 1" False] by simp_all
  show "\<not> f_eq (f_of_int i) 0x7ff8000000000001" unfolding f_eq_def using nan(1) by blast
  show "\<not> f_le (f_make False 896 0) (f_abs 0x7ff8000000000001)" unfolding f_le_def using nan(2) by blast
  have "\<not> f_le (f_of_int JS_SHORTINT_MIN) 0x7ff8000000000001" using nan(1) unfolding f_le_def by blast
  then show "float_short_int 0x7ff8000000000001 = None" unfolding float_short_int_def by (simp only: simp_thms if_False)
qed

theorem host_value_roundtrip_witness:
  "\<exists>e1 e2 out. value_from_host plain_api (zero_value\<lparr>vtag := KMPJS_TAG_NUMBER, vnum := 0x7ff8000000000001\<rparr>) number_engine =
       (e1, ptr_val 80) \<and>
     value_to_out plain_api (ptr_val 80) Out_str 0 e1 = Some (e2, 0, out) \<and> vnum out = 0x7ff8000000000001"
proof -
  let ?d = "0x7ff8000000000001 :: float64" and ?val = "zero_value\<lparr>vtag := KMPJS_TAG_NUMBER, vnum := 0x7ff8000000000001\<rparr>"
  note n = nan_paths
  have "JS_NewFloat64 idle_env number_ctx ?d = js_alloc_float64 idle_env number_ctx ?d"
    unfolding JS_NewFloat64_def n(2) option.case new_float64_def by (simp add: n(3))
  moreover have "js_malloc idle_env number_ctx 16 (MB_float64 ?d) =
      (number_ctx\<lparr>heap := (heap number_ctx)(80 \<mapsto> MB_float64 ?d), heap_free := 96\<rparr>, Some 80)"
    by (simp add: js_malloc_def check_free_mem_def free_mem_short_def number_ctx_def blank_ctx_def JSW_def)
  ultimately obtain c where c: "JS_NewFloat64 idle_env number_ctx ?d = (c, ptr_val 80)"
    by (simp add: js_alloc_float64_def)
  then obtain e1 where v: "value_from_host plain_api ?val number_engine = (e1, ptr_val 80)"
    using n(1) by (simp add: value_from_host_def Let_def tag_defs plain_api_def number_api_def number_engine_def)
  have x: "\<not> JS_IsException (ptr_val 80)" by code_simp
  have h: "numbers_ok (ctx number_engine)" using number_ctx_ok by (simp add: number_engine_def)
  have v': "value_from_host (number_api idle_env (\<lambda>c v. (c, JS_UNDEFINED)) (\<lambda>c v. (c, Some f_NAN)) quiet_api) ?val
      number_engine = (e1, ptr_val 80)" using v by (simp add: plain_api_def)
  have "holds_number (ctx e1) (ptr_val 80) ?d"
    using NewFloat64_holds [OF number_ctx_ok blank_ok(2) c x] v n(1) c
    by (auto simp: value_from_host_def Let_def tag_defs plain_api_def number_api_def number_engine_def)
  then obtain e2 rc out where o: "value_to_out plain_api (ptr_val 80) Out_str 0 e1 = Some (e2, rc, out)"
    by (simp add: holds_number_def value_to_out_def plain_api_def number_api_def Let_def)
  from host_value_roundtrip [OF h blank_ok(2) v' x o [unfolded plain_api_def]] show ?thesis using v o by simp
qed

end
