(* ===== verification/Shim_Refs.thy ===== *)
theory Shim_Refs imports Shim begin

text \<open>
  The references across a host call, as double entry bookkeeping. Whatever the shim calls - the engine,
  script it runs, the host function - may take, retain and drop references; what it holds is a function
  \<open>hold\<close> of its own state, and it is required to book every change there (\<open>api_honest\<close>). The difference
  of the table and \<open>hold\<close> is then what the shim itself holds, and a host call leaves it as it was.
\<close>

unbundle bit_operations_syntax

section \<open>The references of a host call\<close>

text \<open>The number of outstanding releases of every handle.\<close>

definition counts :: "ref_table \<Rightarrow> s64 \<Rightarrow> nat option" where
  "counts t h = map_option snd (refs_of t h)"

text \<open>A collection may move the values of the slots; everything else of the table stays.\<close>

definition same_refs :: "ref_table \<Rightarrow> ref_table \<Rightarrow> bool" where
  "same_refs t t' \<longleftrightarrow>
     map (\<lambda>s. (refcount s, next_free s, gen s)) (slots t') = map (\<lambda>s. (refcount s, next_free s, gen s)) (slots t) \<and>
     slot_cap t' = slot_cap t \<and> free_head t' = free_head t \<and> last_gc_ref t' = last_gc_ref t"

lemma same_refs_refl: "same_refs t t"
  by (simp add: same_refs_def)

lemma same_refs_trans: "same_refs a b \<Longrightarrow> same_refs b c \<Longrightarrow> same_refs a c"
  by (simp add: same_refs_def)

lemma same_refs_slots:
  assumes "same_refs t t'"
  shows "length (slots t') = length (slots t)"
    "i < length (slots t) \<Longrightarrow> refcount (slots t' ! i) = refcount (slots t ! i) \<and>
       next_free (slots t' ! i) = next_free (slots t ! i) \<and> gen (slots t' ! i) = gen (slots t ! i)"
proof -
  have m: "map (\<lambda>s. (refcount s, next_free s, gen s)) (slots t') = map (\<lambda>s. (refcount s, next_free s, gen s)) (slots t)"
    using assms by (simp add: same_refs_def)
  show l: "length (slots t') = length (slots t)" using arg_cong [OF m, of length] by (simp only: length_map)
  show "i < length (slots t) \<Longrightarrow> refcount (slots t' ! i) = refcount (slots t ! i) \<and>
       next_free (slots t' ! i) = next_free (slots t ! i) \<and> gen (slots t' ! i) = gen (slots t ! i)"
  proof -
    assume i: "i < length (slots t)"
    have "map (\<lambda>s. (refcount s, next_free s, gen s)) (slots t') ! i = map (\<lambda>s. (refcount s, next_free s, gen s)) (slots t) ! i"
      by (simp only: m)
    then show ?thesis using i l by (simp only: nth_map) simp
  qed
qed

lemma free_path_same:
  "length ss' = length ss \<Longrightarrow> (\<And>i. i < length ss \<Longrightarrow> next_free (ss' ! i) = next_free (ss ! i)) \<Longrightarrow>
   free_path ss' h is = free_path ss h is"
  by (induction "is" arbitrary: h) auto

lemma free_list_cong:
  assumes "length ss' = length ss" "\<And>i. i < length ss \<Longrightarrow> next_free (ss' ! i) = next_free (ss ! i)"
  shows "free_path ss h (free_list n ss h) \<Longrightarrow> free_list n ss' h = free_list n ss h"
proof (induction n arbitrary: h)
  case (Suc n)
  then show ?case using assms by (auto split: if_splits)
qed simp

lemma same_refs_get:
  assumes "same_refs t t'" shows "slot_get t' h = slot_get t h"
proof (cases "0 \<le> slot_index h \<and> slot_index h < int (length (slots t))")
  case True
  then have "nat (slot_index h) < length (slots t)" by linarith
  then show ?thesis using same_refs_slots [OF assms] by (simp add: slot_get_def Let_def slot_count_def)
next
  case False
  then show ?thesis using same_refs_slots [OF assms] by (auto simp: slot_get_def Let_def slot_count_def)
qed

lemma same_refs_issued:
  assumes "same_refs t t'" shows "issued t' h = issued t h"
proof (cases "0 \<le> slot_index h \<and> slot_index h < int (length (slots t))")
  case True
  then have "nat (slot_index h) < length (slots t)" by linarith
  then show ?thesis using same_refs_slots [OF assms] by (simp add: issued_def Let_def slot_count_def)
next
  case False
  then show ?thesis using same_refs_slots [OF assms] by (auto simp: issued_def Let_def slot_count_def)
qed

lemma same_refs_counts:
  assumes "same_refs t t'" shows "counts t' h = counts t h"
proof (cases "slot_get t h")
  case None
  then show ?thesis by (simp add: counts_def refs_of_def same_refs_get [OF assms])
next
  case (Some i)
  then have "i < length (slots t)" by (auto simp: slot_get_def slot_count_def Let_def split: if_splits)
  then show ?thesis using Some same_refs_slots [OF assms] by (simp add: counts_def refs_of_def same_refs_get [OF assms])
qed

lemma same_refs_inv:
  assumes s: "same_refs t t'" and inv: "store_inv k t"
  shows "store_inv k t'"
proof -
  note sl = same_refs_slots [OF s]
  have f: "free_head t' = free_head t" "last_gc_ref t' = last_gc_ref t" "slot_cap t' = slot_cap t"
    using s by (simp_all add: same_refs_def)
  let ?fl = "free_list (length (slots t)) (slots t) (free_head t)"
  have p: "free_path (slots t) (free_head t) ?fl"
    using inv by (simp add: store_inv_def table_inv_def Let_def)
  have "free_list (length (slots t')) (slots t') (free_head t') = ?fl"
    unfolding f sl(1) by (rule free_list_cong) (use sl p in simp_all)
  moreover have "free_path (slots t') (free_head t) ?fl"
    using p free_path_same [of "slots t'" "slots t" "free_head t" ?fl] sl by simp
  moreover have "filter (\<lambda>i. P (refcount (slots t' ! i))) [0..<length (slots t)] =
      filter (\<lambda>i. P (refcount (slots t ! i))) [0..<length (slots t)]" for P
    by (rule filter_cong) (use sl in auto)
  note flt = this
  have fl: "filter (\<lambda>i. live (slots t' ! i)) [0..<length (slots t)] = filter (\<lambda>i. live (slots t ! i)) [0..<length (slots t)]"
    by (rule filter_cong) (use sl in auto)
  have "\<forall>s \<in> set (slots t'). \<exists>r \<in> set (slots t). refcount s = refcount r \<and> gen s = gen r"
    using sl by (metis in_set_conv_nth nth_mem)
  note fp = calculation
  have z: "\<forall>s \<in> set (slots t'). 0 \<le>s refcount s"
  proof
    fix s assume "s \<in> set (slots t')"
    then obtain r where "r \<in> set (slots t)" "refcount s = refcount r"
      using \<open>\<forall>s \<in> set (slots t'). \<exists>r \<in> set (slots t). refcount s = refcount r \<and> gen s = gen r\<close> by blast
    then show "0 \<le>s refcount s" using inv by (simp add: store_inv_def table_inv_def)
  qed
  have ti: "table_inv t'"
    using inv fp flt [of "\<lambda>r. r = 0"] fl z
    unfolding store_inv_def table_inv_def Let_def f slot_count_def sl(1) by simp
  have "budget k t'"
    unfolding budget_def
  proof (intro conjI ballI)
    show "k < 2 ^ 31" using inv by (simp add: store_inv_def budget_def)
    fix s assume "s \<in> set (slots t')"
    then obtain r where r: "r \<in> set (slots t)" "refcount s = refcount r" "gen s = gen r"
      using \<open>\<forall>s \<in> set (slots t'). \<exists>r \<in> set (slots t). refcount s = refcount r \<and> gen s = gen r\<close> by blast
    then show "unat (gen s) + k < 2 ^ 31" "unat (refcount s) + k < 2 ^ 31"
      using inv by (simp_all add: store_inv_def budget_def)
  qed
  then show ?thesis using ti by (simp add: store_inv_def)
qed

definition kept :: "'c kmpjs_engine \<Rightarrow> 'c kmpjs_engine \<Rightarrow> bool" where
  "kept e e' \<longleftrightarrow> same_refs (refs e) (refs e') \<and> length (gc_stack e') = length (gc_stack e) \<and>
     length (arg_bufs e') = length (arg_bufs e)"

lemma kept_refl [simp]: "kept e e"
  by (simp add: kept_def same_refs_refl)

lemma kept_trans: "kept a b \<Longrightarrow> kept b c \<Longrightarrow> kept a c"
  using same_refs_trans by (auto simp: kept_def)

lemma kept_update:
  "kept e (e'\<lparr>ctx := c\<rparr>) = kept e e'" "kept e (e'\<lparr>alloc_clock := n\<rparr>) = kept e e'"
  "kept e (e'\<lparr>out_str := b\<rparr>) = kept e e'" "kept e (e'\<lparr>out_stack := b\<rparr>) = kept e e'"
  "kept e (e'\<lparr>log_line := b\<rparr>) = kept e e'" "kept e (e'\<lparr>arg_bufs := (arg_bufs e')[i := b]\<rparr>) = kept e e'"
  "kept e (e'\<lparr>gc_stack := (gc_stack e')[j := v]\<rparr>) = kept e e'"
  by (simp_all add: kept_def)

lemma store_inv_less: "store_inv (Suc k) t \<Longrightarrow> store_inv k t"
  by (auto simp: store_inv_def budget_def)

definition tracked :: "nat \<Rightarrow> 'c kmpjs_engine \<Rightarrow> 'c kmpjs_engine \<Rightarrow> bool" where
  "tracked k e e' \<longleftrightarrow> store_inv k (refs e') \<and> (\<forall>g. issued (refs e) g \<longrightarrow> issued (refs e') g) \<and>
     length (gc_stack e') = length (gc_stack e) \<and> length (arg_bufs e') = length (arg_bufs e)"

lemma new_ref_counts:
  assumes inv: "store_inv (Suc k) (refs e)" and new: "new_ref api v e = (e', h)"
  shows "tracked k e e'"
    "counts (refs e') = (if h = 0 then counts (refs e) else (counts (refs e))(h \<mapsto> 1))"
    "h \<noteq> 0 \<Longrightarrow> \<not> issued (refs e) h \<and> issued (refs e') h"
proof -
  obtain t where t: "slot_new (api_malloc_ok api (alloc_clock e)) (api_malloc_ok api (alloc_clock e + 1)) (refs e) v = (t, h)"
    "refs e' = t" "gc_stack e' = gc_stack e" "arg_bufs e' = arg_bufs e"
    using new by (auto simp: new_ref_def Let_def split: prod.splits)
  note s = slot_new_store [OF inv t(1)]
  show "tracked k e e'" using s t by (simp add: tracked_def)
  show "counts (refs e') = (if h = 0 then counts (refs e) else (counts (refs e))(h \<mapsto> 1))"
    using s t(2) by (auto simp: counts_def)
  show "h \<noteq> 0 \<Longrightarrow> \<not> issued (refs e) h \<and> issued (refs e') h" using s t(2) by simp
qed

definition handed_ref :: "kmpjs_value \<Rightarrow> bool" where
  "handed_ref out \<longleftrightarrow> vtag out = KMPJS_TAG_REF"

definition handed :: "kmpjs_value list \<Rightarrow> s64 list" where
  "handed args = map vref (filter handed_ref args)"

lemma counts_issued: "store_inv k t \<Longrightarrow> counts t h = Some n \<Longrightarrow> issued t h"
  by (auto simp: counts_def store_inv_def dest: issued_of_live)


section \<open>The books of the callers\<close>

text \<open>The number of releases that are outstanding for a handle, 0 when it does not resolve.\<close>

definition outstanding :: "ref_table \<Rightarrow> s64 \<Rightarrow> int" where
  "outstanding t h = (case counts t h of None \<Rightarrow> 0 | Some n \<Rightarrow> int n)"

definition balance :: "('c \<Rightarrow> s64 \<Rightarrow> nat) \<Rightarrow> 'c kmpjs_engine \<Rightarrow> s64 \<Rightarrow> int" where
  "balance hold e h = outstanding (refs e) h - int (hold (ctx e) h)"

text \<open>
  A callout of at most \<open>c\<close> operations on the table: it books what it takes and drops, and leaves the
  heights of the stack of local roots and of the argument buffers as they were.
\<close>

definition honest :: "('c \<Rightarrow> s64 \<Rightarrow> nat) \<Rightarrow> nat \<Rightarrow> 'c kmpjs_engine \<Rightarrow> 'c kmpjs_engine \<Rightarrow> bool" where
  "honest hold c e e' \<longleftrightarrow> length (gc_stack e') = length (gc_stack e) \<and> length (arg_bufs e') = length (arg_bufs e) \<and>
     (\<forall>k. store_inv (c + k) (refs e) \<longrightarrow> store_inv k (refs e') \<and> balance hold e' = balance hold e)"

definition api_honest :: "('c \<Rightarrow> s64 \<Rightarrow> nat) \<Rightarrow> nat \<Rightarrow> 'c js_api \<Rightarrow> bool" where
  "api_honest hold c api \<longleftrightarrow>
     (\<forall>e v. honest hold c e (fst (api_ToNumber api v e))) \<and> (\<forall>e v. honest hold c e (fst (api_ToCStringLen api v e))) \<and>
     (\<forall>e v s. honest hold c e (fst (api_GetPropertyStr api v s e))) \<and>
     (\<forall>e n. honest hold c e (fst (api_StackCheck api n e))) \<and>
     (\<forall>e n. honest hold c e (fst (api_Call api n e))) \<and> (\<forall>e k m. honest hold c e (fst (api_Throw api k m e))) \<and>
     (\<forall>e i. honest hold c e (fst (api_NewInt32 api i e))) \<and> (\<forall>e d. honest hold c e (fst (api_NewFloat64 api d e))) \<and>
     (\<forall>e s. honest hold c e (fst (api_NewStringLen api s e))) \<and>
     (\<forall>e s n f. honest hold c e (fst (api_ParseJSON api s n f e))) \<and>
     (\<forall>v x. hold (api_PushArg api v x) = hold x) \<and>
     (case api_host api of None \<Rightarrow> True | Some host \<Rightarrow> \<forall>e i args. honest hold c e (fst (host i args e)))"

lemma honest_refl [simp]: "honest hold 0 e e"
  by (simp add: honest_def)

lemma honest_trans: "honest hold a e e1 \<Longrightarrow> honest hold b e1 e2 \<Longrightarrow> honest hold (a + b) e e2"
  unfolding honest_def by (metis add.assoc)

lemma store_inv_weaken: "store_inv (n + k) t \<Longrightarrow> store_inv k t"
  by (induction n) (auto dest: store_inv_less)

lemma honest_le:
  assumes "honest hold a e e'" "a \<le> b" shows "honest hold b e e'"
proof -
  have "store_inv (a + k) t" if "store_inv (b + k) t" for k t
    using store_inv_weaken [of "b - a" "a + k" t] that assms(2) by (simp add: add.assoc [symmetric])
  then show ?thesis using assms(1) unfolding honest_def by blast
qed

lemma balance_update [simp]:
  "balance hold (e\<lparr>alloc_clock := n\<rparr>) = balance hold e"
  "balance hold (e\<lparr>out_str := b\<rparr>) = balance hold e" "balance hold (e\<lparr>out_stack := b\<rparr>) = balance hold e"
  "balance hold (e\<lparr>log_line := b\<rparr>) = balance hold e" "balance hold (e\<lparr>arg_bufs := bs\<rparr>) = balance hold e"
  "balance hold (e\<lparr>gc_stack := vs\<rparr>) = balance hold e"
  "balance hold (PushGCRef v e) = balance hold e" "balance hold (PopGCRef e) = balance hold e"
  by (simp_all add: balance_def fun_eq_iff PushGCRef_def PopGCRef_def)

lemma refs_push_pop [simp]: "refs (PushGCRef v e) = refs e" "refs (PopGCRef e) = refs e"
  by (simp_all add: PushGCRef_def PopGCRef_def)

lemma honest_update:
  "honest hold c e (e'\<lparr>alloc_clock := n\<rparr>) = honest hold c e e'"
  "honest hold c e (e'\<lparr>out_str := b\<rparr>) = honest hold c e e'" "honest hold c e (e'\<lparr>out_stack := b\<rparr>) = honest hold c e e'"
  "honest hold c e (e'\<lparr>log_line := b\<rparr>) = honest hold c e e'"
  "honest hold c e (e'\<lparr>arg_bufs := (arg_bufs e')[i := b]\<rparr>) = honest hold c e e'"
  "honest hold c e (e'\<lparr>gc_stack := (gc_stack e')[j := v]\<rparr>) = honest hold c e e'"
  by (simp_all add: honest_def)

lemma honest_sink: "honest hold c e (set_sink k b e') = honest hold c e e'"
  by (cases k) (simp_all add: honest_update)

lemma honest_push_pop: "honest hold c (PushGCRef v e) e' \<Longrightarrow> honest hold c e (PopGCRef e')"
  by (auto simp: honest_def PushGCRef_def PopGCRef_def balance_def)

lemma api_honest_dest:
  assumes "api_honest hold c api"
  shows "api_ToNumber api v e = (e', d) \<Longrightarrow> honest hold c e e'" "api_ToCStringLen api v e = (e', p) \<Longrightarrow> honest hold c e e'"
    "api_GetPropertyStr api v s e = (e', r) \<Longrightarrow> honest hold c e e'" "api_StackCheck api n e = (e', b) \<Longrightarrow> honest hold c e e'"
    "api_Call api m e = (e', r) \<Longrightarrow> honest hold c e e'" "api_Throw api t msg e = (e', r) \<Longrightarrow> honest hold c e e'"
    "api_NewInt32 api i e = (e', r) \<Longrightarrow> honest hold c e e'" "api_NewFloat64 api x e = (e', r) \<Longrightarrow> honest hold c e e'"
    "api_NewStringLen api bs e = (e', r) \<Longrightarrow> honest hold c e e'" "api_ParseJSON api bs len f e = (e', r) \<Longrightarrow> honest hold c e e'"
    "api_host api = Some host \<Longrightarrow> host fid args e = (e', res) \<Longrightarrow> honest hold c e e'"
    "hold (api_PushArg api v y) = hold y"
proof -
  show "api_ToNumber api v e = (e', d) \<Longrightarrow> honest hold c e e'" "api_ToCStringLen api v e = (e', p) \<Longrightarrow> honest hold c e e'"
    "api_GetPropertyStr api v s e = (e', r) \<Longrightarrow> honest hold c e e'" "api_StackCheck api n e = (e', b) \<Longrightarrow> honest hold c e e'"
    "api_Call api m e = (e', r) \<Longrightarrow> honest hold c e e'" "api_Throw api t msg e = (e', r) \<Longrightarrow> honest hold c e e'"
    "api_NewInt32 api i e = (e', r) \<Longrightarrow> honest hold c e e'" "api_NewFloat64 api x e = (e', r) \<Longrightarrow> honest hold c e e'"
    "api_NewStringLen api bs e = (e', r) \<Longrightarrow> honest hold c e e'" "api_ParseJSON api bs len f e = (e', r) \<Longrightarrow> honest hold c e e'"
    "hold (api_PushArg api v y) = hold y"
    using assms unfolding api_honest_def by (metis fst_conv)+
  assume h: "api_host api = Some host" "host fid args e = (e', res)"
  then have "\<forall>e i args. honest hold c e (fst (host i args e))" using assms by (simp add: api_honest_def)
  then show "honest hold c e e'" using h(2) by (metis fst_conv)
qed

section \<open>Conversions\<close>

lemma json_stringify_honest:
  assumes api: "api_honest hold c api" and j: "json_stringify api rd e = (e', v)"
  shows "honest hold (4 * c) e e'"
proof -
  note d = api_honest_dest [OF api]
  obtain e1 json where 1: "api_GetPropertyStr api (api_GetGlobalObject api (ctx (PushGCRef JS_UNDEFINED e))) ''JSON''
      (PushGCRef JS_UNDEFINED e) = (e1, json)" by (metis surj_pair)
  define f1 where "f1 = e1\<lparr>gc_stack := (gc_stack e1)[0 := json]\<rparr>"
  have h1: "honest hold c (PushGCRef JS_UNDEFINED e) f1" using d(3) [OF 1] by (simp add: f1_def honest_update)
  show ?thesis
  proof (cases "JS_IsException json")
    case True
    then have "e' = PopGCRef f1" using j 1 by (simp add: json_stringify_def Let_def f1_def)
    then show ?thesis using honest_le [OF honest_push_pop [OF h1]] by simp
  next
    case json: False
    obtain e2 func where 2: "api_GetPropertyStr api (root 0 f1) ''stringify'' f1 = (e2, func)" by (metis surj_pair)
    have h2: "honest hold (c + c) (PushGCRef JS_UNDEFINED e) e2" by (rule honest_trans [OF h1 d(3) [OF 2]])
    show ?thesis
    proof (cases "JS_IsException func")
      case True
      then have "e' = PopGCRef e2" using j 1 2 json by (simp add: json_stringify_def Let_def f1_def)
      then show ?thesis using honest_le [OF honest_push_pop [OF h2]] by simp
    next
      case func: False
      obtain e3 full where 3: "api_StackCheck api 3 e2 = (e3, full)" by (metis surj_pair)
      have h3: "honest hold (c + c + c) (PushGCRef JS_UNDEFINED e) e3" by (rule honest_trans [OF h2 d(4) [OF 3]])
      show ?thesis
      proof (cases full)
        case True
        then have "e' = PopGCRef e3" using j 1 2 3 json func by (simp add: json_stringify_def Let_def f1_def)
        then show ?thesis using honest_le [OF honest_push_pop [OF h3]] by simp
      next
        case False
        define x where "x = api_PushArg api (root 0 e3) (api_PushArg api func (api_PushArg api (rd e3) (ctx e3)))"
        obtain e4 res where 4: "api_Call api 1 (e3\<lparr>ctx := x\<rparr>) = (e4, res)" by (metis surj_pair)
        have "balance hold (e3\<lparr>ctx := x\<rparr>) = balance hold e3" by (simp add: balance_def fun_eq_iff x_def d(12))
        then have "honest hold (c + c + c) (PushGCRef JS_UNDEFINED e) (e3\<lparr>ctx := x\<rparr>)" using h3 by (simp add: honest_def)
        then have h4: "honest hold (c + c + c + c) (PushGCRef JS_UNDEFINED e) e4" by (rule honest_trans [OF _ d(5) [OF 4]])
        have "e' = PopGCRef e4" using j 1 2 3 4 json func False by (simp add: json_stringify_def Let_def f1_def x_def)
        then show ?thesis using honest_le [OF honest_push_pop [OF h4]] by simp
      qed
    qed
  qed
qed

lemma copy_js_string_honest:
  assumes api: "api_honest hold c api" and c: "copy_js_string api s k e = Some (e', rc)"
  shows "honest hold c e e'"
  using c api_honest_dest(2) [OF api]
  by (auto simp: copy_js_string_def sink_append_def sink_reset_def bind_eq_Some_conv honest_sink honest_update
      split: prod.splits option.splits)

lemma value_to_out_honest:
  assumes api: "api_honest hold c api" and v: "value_to_out api v k flags e = Some (e', rc, out)"
  shows "honest hold (5 * c) e e' \<and> (rc = 0 \<longrightarrow> \<not> handed_ref out) \<or>
    (\<exists>e1 h. new_ref api v e = (e1, h) \<and>
      (h \<noteq> 0 \<and> e' = e1 \<and> rc = 0 \<and> handed_ref out \<and> vref out = h \<or> h = 0 \<and> rc = -1 \<and> honest hold c e1 e'))"
proof -
  note d = api_honest_dest [OF api]
  have up: "honest hold c e1 e2 \<Longrightarrow> honest hold (5 * c) e1 e2" "honest hold (5 * c) e1 e1" for e1 e2
    using honest_le [of hold c e1 e2 "5 * c"] honest_le [OF honest_refl, of "5 * c"] by simp_all
  have j: "json_stringify api (root 1) (PushGCRef v e) = (e2, r) \<Longrightarrow> honest hold (4 * c) e (PopGCRef e2)" for e2 r
    by (rule honest_push_pop) (rule json_stringify_honest [OF api])
  have j5: "json_stringify api (root 1) (PushGCRef v e) = (e2, r) \<Longrightarrow> honest hold (5 * c) e (PopGCRef e2)" for e2 r
    using honest_le [OF j] by simp
  have jc: "json_stringify api (root 1) (PushGCRef v e) = (e2, r) \<Longrightarrow>
      copy_js_string api r k (PopGCRef e2) = Some (e3, rc') \<Longrightarrow> honest hold (5 * c) e e3" for e2 r e3 rc'
    using honest_trans [OF j copy_js_string_honest [OF api]] by (simp add: add.commute)
  have t: "honest hold c e1 (fst (api_Throw api m bs e1))" for e1 m bs using api by (simp add: api_honest_def)
  show ?thesis
    using v unfolding value_to_out_def Let_def handed_ref_def zero_value_def tag_defs
    by (auto split: if_splits prod.splits option.splits simp: bind_eq_Some_conv t up simp del: One_nat_def
        dest: d(1) j5 jc copy_js_string_honest [OF api] intro: up)
qed

lemma new_ref_balance:
  assumes inv: "store_inv (Suc k) (refs e)" and new: "new_ref api v e = (e', h)"
  shows "store_inv k (refs e') \<and> length (gc_stack e') = length (gc_stack e) \<and> length (arg_bufs e') = length (arg_bufs e) \<and>
    balance hold e' = (\<lambda>g. balance hold e g + (if h \<noteq> 0 \<and> g = h then 1 else 0))"
proof -
  note n = new_ref_counts [OF inv new]
  have c: "ctx e' = ctx e" using new by (auto simp: new_ref_def Let_def split: prod.splits)
  have "counts (refs e) h = None" if "h \<noteq> 0"
    using n(3) [OF that] counts_issued [OF inv, of h] by (cases "counts (refs e) h") auto
  then have "outstanding (refs e') g = outstanding (refs e) g + (if h \<noteq> 0 \<and> g = h then 1 else 0)" for g
    using n(2) by (auto simp: outstanding_def)
  then show ?thesis using n(1) c by (simp add: tracked_def balance_def fun_eq_iff)
qed

lemma value_to_out_balance:
  assumes api: "api_honest hold c api" and inv: "store_inv (5 * c + 1 + k) (refs e)"
    and v: "value_to_out api v s flags e = Some (e', rc, out)"
  shows "store_inv k (refs e') \<and> length (gc_stack e') = length (gc_stack e) \<and> length (arg_bufs e') = length (arg_bufs e) \<and>
    balance hold e' = (\<lambda>g. balance hold e g + (if rc = 0 \<and> handed_ref out \<and> g = vref out then 1 else 0))"
  using value_to_out_honest [OF api v]
proof (elim disjE exE conjE)
  assume h: "honest hold (5 * c) e e'" "rc = 0 \<longrightarrow> \<not> handed_ref out"
  have "store_inv (1 + k) (refs e') \<and> balance hold e' = balance hold e"
  proof -
    have "store_inv (5 * c + (1 + k)) (refs e)" using inv by (simp only: add.assoc)
    then show ?thesis using h(1) unfolding honest_def by blast
  qed
  moreover have "(\<lambda>g. balance hold e g + (if rc = 0 \<and> handed_ref out \<and> g = vref out then 1 else 0)) = balance hold e"
    using h(2) by (auto simp: fun_eq_iff)
  ultimately show ?thesis using h(1) store_inv_weaken [of 1 k] by (simp add: honest_def)
next
  fix e1 h assume n: "new_ref api v e = (e1, h)" "h \<noteq> 0" "e' = e1" "rc = 0" "handed_ref out" "vref out = h"
  have "store_inv (Suc k) (refs e)" using store_inv_weaken [of "5 * c" "Suc k"] inv by (simp add: add.assoc)
  from new_ref_balance [OF this n(1), of hold] show ?thesis using n by simp
next
  fix e1 h assume n: "new_ref api v e = (e1, h)" "h = 0" "rc = -1" "honest hold c e1 e'"
  have "store_inv (Suc (c + k)) (refs e)"
    using store_inv_weaken [of "4 * c" "Suc (c + k)"] inv by (simp add: algebra_simps)
  from new_ref_balance [OF this n(1), of hold] have b: "store_inv (c + k) (refs e1)" "balance hold e1 = balance hold e"
    "length (gc_stack e1) = length (gc_stack e)" "length (arg_bufs e1) = length (arg_bufs e)"
    using n(2) by (simp_all add: fun_eq_iff)
  then show ?thesis using n(3,4) by (simp add: honest_def)
qed

section \<open>The arguments of a host call\<close>

lemma convert_args_balance:
  assumes api: "api_honest hold c api"
  shows "store_inv (length is * (5 * c + 1) + k) (refs e) \<Longrightarrow>
    convert_args api argv base flags is e = Some (e', outs, ok) \<Longrightarrow>
    store_inv k (refs e') \<and> length (gc_stack e') = length (gc_stack e) \<and> length (arg_bufs e') = length (arg_bufs e) \<and>
    length outs \<le> length is \<and> balance hold e' = (\<lambda>g. balance hold e g + int (count_list (handed outs) g))"
proof (induction "is" arbitrary: e outs)
  case Nil
  then show ?case by (simp add: handed_def)
next
  case (Cons i "is")
  obtain e1 rc out where v: "value_to_out api (argv i (ctx e)) (Arg (base + i)) flags e = Some (e1, rc, out)"
    using Cons.prems(2) by (auto simp: bind_eq_Some_conv)
  have inv: "store_inv (5 * c + 1 + (length is * (5 * c + 1) + k)) (refs e)"
    using Cons.prems(1) by (simp add: algebra_simps)
  note b = value_to_out_balance [OF api inv v]
  show ?case
  proof (cases "rc = 0")
    case False
    then have "e' = e1" "outs = []" using Cons.prems(2) v by auto
    then show ?thesis using b False store_inv_weaken by (auto simp: handed_def)
  next
    case True
    then obtain outs' where r: "convert_args api argv base flags is e1 = Some (e', outs', ok)" "outs = out # outs'"
      using Cons.prems(2) v by (auto simp: bind_eq_Some_conv)
    have "store_inv (length is * (5 * c + 1) + k) (refs e1)" using b by simp
    note ih = Cons.IH [OF this r(1)]
    show ?thesis using ih b True by (auto simp: r(2) handed_def fun_eq_iff)
  qed
qed

lemma release_outstanding:
  assumes "counts t' = map_option snd \<circ> spec_release (refs_of t) h" "0 < outstanding t h"
  shows "outstanding t' g = outstanding t g - (if g = h then 1 else 0)"
  using assms by (auto simp: outstanding_def counts_def spec_release_def split: option.splits)

lemma release_args_balance:
  "store_inv (length as + k) (refs e) \<Longrightarrow> (\<And>h. int (count_list (handed as) h) \<le> outstanding (refs e) h) \<Longrightarrow>
   \<exists>e'. release_args as e = Some e' \<and> store_inv k (refs e') \<and> gc_stack e' = gc_stack e \<and> arg_bufs e' = arg_bufs e \<and>
     balance hold e' = (\<lambda>g. balance hold e g - int (count_list (handed as) g))"
proof (induction "as" arbitrary: e)
  case Nil
  then show ?case by (simp add: handed_def)
next
  case (Cons a "as")
  have inv: "store_inv (Suc (length as + k)) (refs e)" using Cons.prems(1) by simp
  show ?case
  proof (cases "handed_ref a")
    case False
    then have "handed (a # as) = handed as" by (simp add: handed_def)
    then show ?thesis using Cons.IH [of e] Cons.prems store_inv_less [OF inv] False by (simp add: handed_ref_def)
  next
    case True
    then have h: "handed (a # as) = vref a # handed as" by (simp add: handed_def)
    obtain t where t: "kmpjs_ref_release (refs e) (vref a) = Some t" "store_inv (length as + k) t"
      "refs_of t = spec_release (refs_of (refs e)) (vref a)" using release_store [OF inv] by blast
    have "int (count_list (handed (a # as)) (vref a)) \<le> outstanding (refs e) (vref a)" by (rule Cons.prems(2))
    then have pos: "0 < outstanding (refs e) (vref a)" by (simp add: h)
    have "counts t = map_option snd \<circ> spec_release (refs_of (refs e)) (vref a)" by (simp add: counts_def t(3) fun_eq_iff)
    note o = release_outstanding [OF this pos]
    have "\<exists>e'. release_args as (e\<lparr>refs := t\<rparr>) = Some e' \<and> store_inv k (refs e') \<and>
        gc_stack e' = gc_stack (e\<lparr>refs := t\<rparr>) \<and> arg_bufs e' = arg_bufs (e\<lparr>refs := t\<rparr>) \<and>
        balance hold e' = (\<lambda>g. balance hold (e\<lparr>refs := t\<rparr>) g - int (count_list (handed as) g))"
    proof (rule Cons.IH)
      show "store_inv (length as + k) (refs (e\<lparr>refs := t\<rparr>))" using t(2) by simp
      show "int (count_list (handed as) g) \<le> outstanding (refs (e\<lparr>refs := t\<rparr>)) g" for g
        using Cons.prems(2) [of g] o [of g] by (simp add: h split: if_splits)
    qed
    moreover have "balance hold (e\<lparr>refs := t\<rparr>) g = balance hold e g - (if g = vref a then 1 else 0)" for g
      using o [of g] by (simp add: balance_def)
    ultimately show ?thesis using t(1) True by (auto simp: handed_ref_def h fun_eq_iff)
  qed
qed

lemma malloc_tick_honest: "malloc_tick api e = (e', ok) \<Longrightarrow> honest hold 0 e e'"
  by (auto simp: malloc_tick_def honest_update)

lemma throw_message_honest: "api_honest hold c api \<Longrightarrow> throw_message api p e = (e', v) \<Longrightarrow> honest hold c e e'"
proof -
  assume api: "api_honest hold c api" and v: "throw_message api p e = (e', v)"
  obtain e1 ok where m: "malloc_tick api e = (e1, ok)" by (metis surj_pair)
  have "honest hold c e1 e'" using v m by (auto simp: throw_message_def Let_def split: if_splits dest: api_honest_dest(6) [OF api])
  from honest_trans [OF malloc_tick_honest [OF m] this] show ?thesis by simp
qed

lemma value_from_host_honest:
  assumes api: "api_honest hold c api" and v: "value_from_host api val e = (e', r)"
  shows "honest hold c e e'"
proof -
  have p: "parse_terminated api (api_ParseJSON api) code f e = (e2, x) \<Longrightarrow> honest hold c e e2" for code f e2 x
  proof -
    assume p: "parse_terminated api (api_ParseJSON api) code f e = (e2, x)"
    obtain e1 ok where m: "malloc_tick api e = (e1, ok)" by (metis surj_pair)
    have "honest hold c e1 e2"
      using p m by (auto simp: parse_terminated_def Let_def split: if_splits dest: api_honest_dest(6,10) [OF api])
    from honest_trans [OF malloc_tick_honest [OF m] this] show ?thesis by simp
  qed
  have z: "honest hold c e0 e0" for e0 using honest_le [OF honest_refl] by simp
  show ?thesis
    using v by (auto simp: value_from_host_def Let_def z split: if_splits option.splits
        dest: p throw_message_honest [OF api] api_honest_dest(1-11) [OF api])
qed

lemma call_host_honest:
  assumes api: "api_honest hold c api" and h: "api_host api = Some host" and v: "call_host api host fid args ok e = (e', r)"
  shows "honest hold (2 * c) e e'"
proof (cases ok)
  case True
  obtain e1 rc res where 1: "host fid args e = (e1, rc, res)" by (metis prod.exhaust)
  have "honest hold c e1 e'"
    using v 1 True throw_message_honest [OF api] value_from_host_honest [OF api]
    by (auto simp: call_host_def host_result_def split: if_splits)
  from honest_trans [OF api_honest_dest(11) [OF api h 1] this] show ?thesis by (simp add: mult_2)
next
  case False
  then show ?thesis using v honest_le [OF honest_refl] by (simp add: call_host_def)
qed

section \<open>A host call\<close>

text \<open>The operations on the table a host call makes at most, with callouts of at most \<open>c\<close> each.\<close>

definition host_call_cost :: "nat \<Rightarrow> nat \<Rightarrow> nat" where
  "host_call_cost c argc = argc * (5 * c + 1) + 2 * c + argc"

lemma host_call_balance:
  assumes api: "api_honest hold c api" and inv: "store_inv (host_call_cost c argc + k) (refs e)"
    and held: "\<And>h. 0 \<le> balance hold e h"
    and call: "js_kmp_host api argc argv params e = Some (e', ret)"
  shows "balance hold e' = balance hold e \<and> store_inv k (refs e') \<and>
    length (gc_stack e') = length (gc_stack e) \<and> length (arg_bufs e') = length (arg_bufs e)"
proof -
  have quiet: "?thesis" if "honest hold (2 * c) e e'"
  proof -
    have "store_inv (2 * c + k) (refs e)"
      using store_inv_weaken [of "argc * (5 * c + 1) + argc" "2 * c + k"] inv by (simp add: host_call_cost_def algebra_simps)
    then show ?thesis using that by (simp add: honest_def)
  qed
  have up: "honest hold c e1 e2 \<Longrightarrow> honest hold (2 * c) e1 e2" for e1 e2 using honest_le [of hold c e1 e2 "2 * c"] by simp
  show ?thesis
  proof (cases "api_host api")
    case None
    then show ?thesis using call quiet up api_honest_dest(6) [OF api] by (auto simp: js_kmp_host_def Let_def)
  next
    case (Some host)
    define fid where "fid = signed_drop_bit 1 (JS_VALUE_GET_INT params)"
    define flags where "flags = JS_VALUE_GET_INT params AND KMPJS_FLAG_REF_OBJECTS"
    obtain e1 ok1 e2 ok2 where m: "malloc_tick api e = (e1, ok1)" "malloc_tick api e1 = (e2, ok2)"
      by (metis surj_pair)
    have k2: "honest hold 0 e e2"
      using honest_trans [OF malloc_tick_honest malloc_tick_honest] m by (metis add.right_neutral)
    show ?thesis
    proof (cases "argc > 0 \<and> (\<not> ok1 \<or> \<not> ok2)")
      case True
      then have "api_Throw api ''OutOfMemory'' [] e2 = (e', ret)"
        using call Some m by (simp add: js_kmp_host_def Let_def)
      then show ?thesis using quiet up honest_trans [OF k2] api_honest_dest(6) [OF api] by (metis add_0)
    next
      case False
      define e3 where "e3 = e2\<lparr>arg_bufs := arg_bufs e2 @ replicate argc empty_buf\<rparr>"
      have "do { (e4, args, ok) \<leftarrow> convert_args api argv (length (arg_bufs e2)) flags [0..<argc] e3;
          let (e5, ret) = call_host api host fid args ok e4;
          e6 \<leftarrow> release_args args e5;
          Some (e6\<lparr>arg_bufs := take (length (arg_bufs e2)) (arg_bufs e6)\<rparr>, ret) } = Some (e', ret)"
        using call unfolding js_kmp_host_def Let_def fid_def flags_def e3_def Some
        by (simp only: option.case m prod.case False if_False)
      then obtain e4 args ok e5 e6 where c: "convert_args api argv (length (arg_bufs e2)) flags [0..<argc] e3 = Some (e4, args, ok)"
        and e5: "call_host api host fid args ok e4 = (e5, ret)" and rel: "release_args args e5 = Some e6"
        and e': "e' = e6\<lparr>arg_bufs := take (length (arg_bufs e2)) (arg_bufs e6)\<rparr>"
        by (cases "convert_args api argv (length (arg_bufs e2)) flags [0..<argc] e3")
          (auto simp: bind_eq_Some_conv split: prod.split_asm)
      have "store_inv (0 + (host_call_cost c argc + k)) (refs e)" using inv by simp
      then have e2: "store_inv (host_call_cost c argc + k) (refs e2)" "balance hold e2 = balance hold e"
        "length (gc_stack e2) = length (gc_stack e)" "length (arg_bufs e2) = length (arg_bufs e)"
        using k2 unfolding honest_def by blast+
      have "store_inv (length [0..<argc] * (5 * c + 1) + (2 * c + (argc + k))) (refs e3)"
        using e2(1) by (simp add: e3_def host_call_cost_def add.assoc)
      note cv = convert_args_balance [OF api this c]
      note h5 = call_host_honest [OF api Some e5]
      have e5: "store_inv (argc + k) (refs e5)" "balance hold e5 = balance hold e4"
        "length (gc_stack e5) = length (gc_stack e4)" "length (arg_bufs e5) = length (arg_bufs e4)"
        using cv h5 unfolding honest_def by blast+
      have la: "length args \<le> argc" using cv by simp
      have i5: "store_inv (length args + k) (refs e5)"
        using e5(1) la store_inv_weaken [of "argc - length args" "length args + k"] by simp
      have "int (count_list (handed args) h) \<le> outstanding (refs e5) h" for h
      proof -
        have "balance hold e5 h = balance hold e h + int (count_list (handed args) h)"
          using e5(2) cv e2(2) by (simp add: e3_def)
        then show ?thesis using held [of h] by (simp add: balance_def)
      qed
      from release_args_balance [OF i5 this, of hold] rel have e6: "store_inv k (refs e6)" "gc_stack e6 = gc_stack e5"
        "arg_bufs e6 = arg_bufs e5" "balance hold e6 = (\<lambda>g. balance hold e5 g - int (count_list (handed args) g))"
        by auto
      have "balance hold e6 = balance hold e" using e6(4) e5(2) cv e2(2) by (simp add: e3_def fun_eq_iff)
      moreover have "length (gc_stack e6) = length (gc_stack e)" "length (arg_bufs e6) = length (arg_bufs e2) + argc"
        using e6(2,3) e5(3,4) cv e2(3) by (simp_all add: e3_def)
      ultimately show ?thesis using e6(1) e2(4) by (simp add: e')
    qed
  qed
qed

text \<open>
  An engine without script, whose host function does nothing; its context is the one number it boxes,
  behind the pointer 9.
\<close>

definition idle_api :: "float64 js_api" where
  "idle_api = \<lparr>api_IsNumber = \<lambda>_ v. v = 9, api_IsString = \<lambda>_ _. False, api_IsFunction = \<lambda>_ _. False,
     api_IsArray = \<lambda>_ _. False, api_IsError = \<lambda>_ _. False, api_GetGlobalObject = \<lambda>_. JS_NULL,
     api_PushArg = \<lambda>_ c. c, api_ToNumber = \<lambda>v e. (e, Some (ctx e)), api_ToString = \<lambda>v e. (e, v),
     api_ToCStringLen = \<lambda>_ e. (e, Some []), api_GetException = \<lambda>e. (e, JS_NULL),
     api_Throw = \<lambda>_ _ e. (e, JS_EXCEPTION), api_GetPropertyStr = \<lambda>_ _ e. (e, JS_UNDEFINED),
     api_GetPropertyUint32 = \<lambda>_ _ e. (e, JS_UNDEFINED), api_SetPropertyStr = \<lambda>_ _ _ e. (e, JS_UNDEFINED),
     api_StackCheck = \<lambda>_ e. (e, False), api_Call = \<lambda>_ e. (e, JS_UNDEFINED), api_Eval = \<lambda>_ _ _ e. (e, JS_UNDEFINED),
     api_ParseJSON = \<lambda>_ _ _ e. (e, JS_UNDEFINED), api_Run = \<lambda>_ e. (e, JS_UNDEFINED),
     api_NewInt32 = \<lambda>i e. (e\<lparr>ctx := f_of_int (sint i)\<rparr>, 9), api_NewFloat64 = \<lambda>d e. (e\<lparr>ctx := d\<rparr>, 9),
     api_NewStringLen = \<lambda>_ e. (e, JS_NULL), api_NewCFunctionParams = \<lambda>v e. (e, v),
     api_IsBytecode = \<lambda>bs. bs \<noteq> [], api_RelocateBytecode = \<lambda>bs e. (e, Some bs), api_LoadBytecode = \<lambda>_ e. (e, JS_NULL),
     api_DumpMemory = \<lambda>e. (e, ()), api_PrintValueF = \<lambda>_ e. (e, ()), api_log = None,
     api_host = Some (\<lambda>_ _ e. (e, 0, zero_value)), api_cast_int32 = \<lambda>d. of_int (f_trunc d),
     api_malloc_ok = \<lambda>_. True, api_realloc = \<lambda>_. Some (\<lambda>_. 0)\<rparr>"

definition idle_engine :: "float64 kmpjs_engine" where
  "idle_engine = \<lparr>ctx = 0, blocks = [], run_state = KMP_IDLE, out_str = empty_buf, out_stack = empty_buf,
     log_line = empty_buf, refs = empty_table, gc_stack = [], arg_bufs = [], alloc_clock = 0\<rparr>"


text \<open>
  The same engine with a host function that keeps its first argument; its context is the list of the
  handles the host holds.
\<close>

definition keeping_host :: "s32 \<Rightarrow> kmpjs_value list \<Rightarrow> (s64 list, s32 \<times> kmpjs_value) eff" where
  "keeping_host i args e =
     (case args of
        [] \<Rightarrow> (e, 0, zero_value)
      | a # _ \<Rightarrow>
          (if slot_get (refs e) (vref a) = None then e
           else e\<lparr>refs := kmpjs_ref_retain (refs e) (vref a), ctx := vref a # ctx e\<rparr>, 0, zero_value))"

definition keeping_api :: "s64 list js_api" where
  "keeping_api = \<lparr>api_IsNumber = \<lambda>_ _. False, api_IsString = \<lambda>_ _. False, api_IsFunction = \<lambda>_ _. False,
     api_IsArray = \<lambda>_ _. False, api_IsError = \<lambda>_ _. False, api_GetGlobalObject = \<lambda>_. JS_NULL,
     api_PushArg = \<lambda>_ c. c, api_ToNumber = \<lambda>v e. (e, None), api_ToString = \<lambda>v e. (e, v),
     api_ToCStringLen = \<lambda>_ e. (e, Some []), api_GetException = \<lambda>e. (e, JS_NULL),
     api_Throw = \<lambda>_ _ e. (e, JS_EXCEPTION), api_GetPropertyStr = \<lambda>_ _ e. (e, JS_UNDEFINED),
     api_GetPropertyUint32 = \<lambda>_ _ e. (e, JS_UNDEFINED), api_SetPropertyStr = \<lambda>_ _ _ e. (e, JS_UNDEFINED),
     api_StackCheck = \<lambda>_ e. (e, False), api_Call = \<lambda>_ e. (e, JS_UNDEFINED), api_Eval = \<lambda>_ _ _ e. (e, JS_UNDEFINED),
     api_ParseJSON = \<lambda>_ _ _ e. (e, JS_UNDEFINED), api_Run = \<lambda>_ e. (e, JS_UNDEFINED),
     api_NewInt32 = \<lambda>i e. (e, JS_NewShortInt i), api_NewFloat64 = \<lambda>d e. (e, JS_UNDEFINED),
     api_NewStringLen = \<lambda>_ e. (e, JS_NULL), api_NewCFunctionParams = \<lambda>v e. (e, v),
     api_IsBytecode = \<lambda>bs. bs \<noteq> [], api_RelocateBytecode = \<lambda>bs e. (e, Some bs), api_LoadBytecode = \<lambda>_ e. (e, JS_NULL),
     api_DumpMemory = \<lambda>e. (e, ()), api_PrintValueF = \<lambda>_ e. (e, ()), api_log = None,
     api_host = Some keeping_host, api_cast_int32 = \<lambda>d. of_int (f_trunc d),
     api_malloc_ok = \<lambda>_. True, api_realloc = \<lambda>_. Some (\<lambda>_. 0)\<rparr>"

definition keeping_engine :: "s64 list kmpjs_engine" where
  "keeping_engine = \<lparr>ctx = [], blocks = [], run_state = KMP_IDLE, out_str = empty_buf, out_stack = empty_buf,
     log_line = empty_buf, refs = empty_table, gc_stack = [], arg_bufs = [], alloc_clock = 0\<rparr>"

lemma retain_outstanding:
  "store_inv (Suc k) t \<Longrightarrow> slot_get t h \<noteq> None \<Longrightarrow>
   outstanding (kmpjs_ref_retain t h) g = outstanding t g + (if g = h then 1 else 0)"
  using retain_store [of k t h] refs_of_None_get [of t h]
  by (auto simp: outstanding_def counts_def spec_retain_def)

lemma keeping_host_honest: "honest count_list 1 e (fst (keeping_host i args e))"
proof (cases args)
  case Nil
  then show ?thesis using honest_le [OF honest_refl] by (simp add: keeping_host_def)
next
  case (Cons a "as")
  show ?thesis
  proof (cases "slot_get (refs e) (vref a) = None")
    case True
    then show ?thesis using honest_le [OF honest_refl] by (simp add: keeping_host_def Cons)
  next
    case False
    then show ?thesis
      using retain_store [of _ "refs e" "vref a"] retain_outstanding [of _ "refs e" "vref a"]
      by (auto simp: keeping_host_def Cons honest_def balance_def fun_eq_iff)
  qed
qed

lemma keeping_honest: "api_honest count_list 1 keeping_api"
  using keeping_host_honest honest_le [OF honest_refl, of 1] by (auto simp: api_honest_def keeping_api_def)

text \<open>
  C2: References handed to a host function are transient unless the host retains them. Let whatever the
  call runs - accessors, \<open>toJSON\<close>, the host function, calls of the shim from there - take, retain and
  drop references, as long as it books them in \<open>hold\<close>, and let the table have what is booked when the
  call starts. Then a host call, whether or not its arguments convert, the host fails or its result is
  thrown, adds and drops nothing of its own: for every handle the count less what is booked is what it
  was. Its argument buffers and local roots are gone and the table is consistent.
\<close>

theorem host_call_references:
  assumes "api_honest hold c api" "store_inv (host_call_cost c argc + k) (refs e)"
    "\<forall>h. int (hold (ctx e) h) \<le> outstanding (refs e) h"
    "js_kmp_host api argc argv params e = Some (e', ret)"
  shows "(\<forall>h. outstanding (refs e') h - int (hold (ctx e') h) = outstanding (refs e) h - int (hold (ctx e) h)) \<and>
    store_inv k (refs e') \<and> length (gc_stack e') = length (gc_stack e) \<and> length (arg_bufs e') = length (arg_bufs e)"
proof -
  have "0 \<le> balance hold e h" for h using assms(3) by (simp add: balance_def)
  from host_call_balance [OF assms(1,2) this assms(4)] show ?thesis by (simp add: balance_def fun_eq_iff)
qed

text \<open>The host keeps its argument: afterwards one release of the handle is outstanding.\<close>

theorem host_call_references_witness:
  "\<exists>e'. js_kmp_host keeping_api 1 (\<lambda>_ _. 17) (JS_NewShortInt 1) keeping_engine = Some (e', JS_UNDEFINED) \<and>
     ctx e' = [1] \<and> outstanding (refs e') 1 = 1"
proof -
  obtain t where n: "slot_new True True empty_table 17 = (t, 0x1)"
    by (simp add: slot_new_def slot_extend_def slot_use_def empty_table_def slot_count_def Let_def JS_AddGCRef_def
      zero_slot_def slot_handle_def INT32_MAX_def)
  have "store_inv (Suc (Suc (Suc 0))) empty_table" by (rule store_inv_empty) simp
  note s = slot_new_store [OF this n]
  have i: "store_inv (Suc (Suc 0)) t" using s by simp
  have "refs_of t 1 \<noteq> None" using s by simp
  then obtain i where g: "slot_get t 1 = Some i" by (auto simp: refs_of_None_get)
  have "store_inv (Suc 0) (kmpjs_ref_retain t 1)" using retain_store [OF i, of 1] by simp
  then obtain t' where r: "kmpjs_ref_release (kmpjs_ref_retain t 1) 1 = Some t'" using release_store by blast
  have v: "\<not> JS_IsUndefined 17" "\<not> JS_IsNull 17" "\<not> JS_IsBool 17" "JS_VALUE_GET_INT (JS_NewShortInt 1) = 1"
    by code_simp+
  have "\<exists>e'. js_kmp_host keeping_api 1 (\<lambda>_ _. 17) (JS_NewShortInt 1) keeping_engine = Some (e', JS_UNDEFINED) \<and> ctx e' = [1]"
    using g r by (simp add: js_kmp_host_def v Let_def malloc_tick_def value_to_out_def new_ref_def n call_host_def host_result_def
      value_from_host_def zero_value_def tag_defs keeping_api_def keeping_engine_def keeping_host_def KMPJS_FLAG_REF_OBJECTS_def)
  then obtain e' where e: "js_kmp_host keeping_api 1 (\<lambda>_ _. 17) (JS_NewShortInt 1) keeping_engine = Some (e', JS_UNDEFINED)"
    "ctx e' = [1]" by blast
  have i: "store_inv (host_call_cost 1 1 + 0) (refs keeping_engine)"
    by (simp add: keeping_engine_def host_call_cost_def) (rule store_inv_empty, simp)
  have z: "outstanding empty_table h = 0" for h
    by (auto simp: outstanding_def counts_def refs_of_def empty_table_def slot_get_def slot_count_def Let_def)
  have "\<forall>h. int (count_list (ctx keeping_engine) h) \<le> outstanding (refs keeping_engine) h"
    by (simp add: keeping_engine_def z)
  from host_call_references [OF keeping_honest i this e(1)] have "outstanding (refs e') 1 - int (count_list (ctx e') 1) = 0"
    by (simp add: keeping_engine_def z)
  then show ?thesis using e by simp
qed

end
