(* ===== verification/Shim_Files.thy ===== *)
theory Shim_Files imports Shim_Refs begin

text \<open>
  A compiled file carries the header that the loader checks, and a loaded program is one new reference.
\<close>

unbundle bit_operations_syntax

section \<open>Bytecode files\<close>

lemma list_3_17: "length xs = 4 \<Longrightarrow> \<exists>a b c d. xs = [a, b, c, d]"
  by (auto simp: length_Suc_conv eval_nat_numeral)

lemma u16_bytes: "ucast (ucast (ucast w :: u8) OR push_bit 8 (ucast (ucast (drop_bit 8 w) :: u8)) :: u32) = w" for w :: u16
  by (rule bit_word_eqI) (auto simp: bit_simps not_le dest: bit_imp_le_length)

lemma u32_bytes: "ucast (ucast w :: u8) OR push_bit 8 (ucast (ucast (drop_bit 8 w) :: u8)) OR
    push_bit 16 (ucast (ucast (drop_bit 16 w) :: u8)) OR push_bit 24 (ucast (ucast (drop_bit 24 w) :: u8)) = w" for w :: u32
proof (rule bit_word_eqI)
  fix n :: nat assume "n < LENGTH(32)"
  then consider "n < 8" | "8 \<le> n" "n < 16" | "16 \<le> n" "n < 24" | "24 \<le> n" "n < 32" by fastforce
  then show "bit (ucast (ucast w :: u8) OR push_bit 8 (ucast (ucast (drop_bit 8 w) :: u8)) OR
    push_bit 16 (ucast (ucast (drop_bit 16 w) :: u8)) OR push_bit 24 (ucast (ucast (drop_bit 24 w) :: u8)) :: u32) n = bit w n"
    by cases (simp_all add: bit_simps, auto)
qed

lemma decode_encode_header:
  assumes "length (magic h) = 4" "length (upstream h) = 40"
  shows "decode_header (encode_header h @ body) = h" "length (encode_header h) = 52"
    "take 4 (encode_header h @ body) = magic h" "drop 52 (encode_header h @ body) = body"
proof -
  obtain a b c d where m: "magic h = [a, b, c, d]" using list_3_17 [OF assms(1)] by blast
  show l: "length (encode_header h) = 52" using assms by (simp add: encode_header_def put_u32_def put_u16_def)
  show "take 4 (encode_header h @ body) = magic h" by (simp add: encode_header_def m)
  show "drop 52 (encode_header h @ body) = body" using l by simp
  have "header_len (decode_header (encode_header h @ body)) = header_len h"
    using u32_bytes [of "header_len h"]
    by (simp add: decode_header_def encode_header_def m get_u32_def put_u32_def put_u16_def eval_nat_numeral)
  moreover have "word_size (decode_header (encode_header h @ body)) = word_size h"
      "hflags (decode_header (encode_header h @ body)) = hflags h"
    using u16_bytes [of "word_size h"] u16_bytes [of "hflags h"]
    by (simp_all add: decode_header_def encode_header_def m get_u16_def put_u32_def put_u16_def eval_nat_numeral)
  moreover have "upstream (decode_header (encode_header h @ body)) = upstream h"
    using assms(2) by (simp add: decode_header_def encode_header_def m put_u32_def put_u16_def eval_nat_numeral)
  moreover have "magic (decode_header (encode_header h @ body)) = magic h" by (simp add: decode_header_def encode_header_def m)
  ultimately show "decode_header (encode_header h @ body) = h" by (intro kmpjs_bc_header.equality) simp_all
qed

text \<open>What the checks say of a file that \<open>kmpjs_compile\<close> wrote.\<close>

lemma check_compiled:
  assumes c: "length commit = 40"
  shows "check_bytecode api commit' m (file_header commit w @ body) =
    (if ucast w \<noteq> (64 :: u16) then
       Some (text_bytes ''bytecode built for a '' @ u32toa (ucast (ucast w :: u16)) @
             text_bytes ''-bit engine, this engine is 64-bit'')
     else if commit' \<noteq> commit then
       Some (text_bytes ''bytecode built for engine '' @ takeWhile (\<lambda>b. b \<noteq> 0) (take 12 commit) @
             text_bytes '', this SDK embeds engine '' @ take 12 commit')
     else if length body < m \<or> \<not> api_IsBytecode api body then Some (text_bytes ''bytecode body is corrupt'')
     else None)"
proof -
  define h where "h = \<lparr>magic = bc_magic, header_len = KMPJS_BYTECODE_HEADER_SIZE, word_size = ucast w,
       hflags = 0, upstream = take 40 commit\<rparr>"
  have l: "length (magic h) = 4" "length (upstream h) = 40" using c by (simp_all add: h_def bc_magic_def text_bytes_def)
  have d: "decode_header (encode_header h @ body) = h" "length (encode_header h) = 52"
    "take 4 (encode_header h @ body) = magic h" "drop 52 (encode_header h @ body) = body"
    using decode_encode_header l by blast+
  have t: "text_bytes ''-bit engine, this engine is '' @ u32toa (of_nat (JSW * 8)) @ text_bytes ''-bit'' =
      text_bytes ''-bit engine, this engine is 64-bit''" by code_simp
  have e: "file_header commit w = encode_header h" by (simp only: file_header_def h_def)
  have hw: "word_size h = ucast w" "header_len h = KMPJS_BYTECODE_HEADER_SIZE" "upstream h = commit" "magic h = bc_magic"
    using c by (simp_all add: h_def)
  have len: "\<not> length (encode_header h @ body) < 52" using d(2) by simp
  have w: "(of_nat (JSW * 8) :: u16) = 64" by (simp add: JSW_def)
  show ?thesis unfolding check_bytecode_def Let_def e d hw t w using len c by auto
qed

text \<open>
  C16: A file that \<open>kmpjs_compile\<close> wrote carries the header that \<open>kmpjs_load_bytecode\<close> expects: on
  an engine of the same build and word size only the check of the body remains; another word size or
  engine commit is rejected, with the message that says so.
\<close>

theorem compiled_file_checks:
  assumes "kmpjs_compile cc commit code filename wsize flags = (0, out)" "length commit = 40"
  shows "\<exists>body. vstr out = P_bytes (file_header commit wsize @ body) \<and>
    check_bytecode api commit' m (file_header commit wsize @ body) =
      (if wsize \<noteq> kmpjs_word_size then
         Some (text_bytes ''bytecode built for a 32-bit engine, this engine is 64-bit'')
       else if commit' \<noteq> commit then
         Some (text_bytes ''bytecode built for engine '' @ takeWhile (\<lambda>b. b \<noteq> 0) (take 12 commit) @
               text_bytes '', this SDK embeds engine '' @ take 12 commit')
       else if length body < m \<or> \<not> api_IsBytecode api body then Some (text_bytes ''bytecode body is corrupt'')
       else None)"
proof -
  have w: "wsize = 32 \<or> wsize = 64" using assms(1) by (auto simp: kmpjs_compile_def split: if_splits)
  obtain body where b: "vstr out = P_bytes (file_header commit wsize @ body)"
    using assms(1) by (auto simp: kmpjs_compile_def Let_def split: if_splits option.splits prod.splits)
  have k: "kmpjs_word_size = 64" by (simp add: kmpjs_word_size_def JSW_def)
  have t: "text_bytes ''bytecode built for a '' @ u32toa (ucast (ucast (32 :: s32) :: u16)) @
      text_bytes ''-bit engine, this engine is 64-bit'' =
      text_bytes ''bytecode built for a 32-bit engine, this engine is 64-bit''" by code_simp
  have "ucast (32 :: s32) \<noteq> (64 :: u16)" "ucast (64 :: s32) = (64 :: u16)" by simp_all
  then show ?thesis
    using w b check_compiled [OF assms(2), where api = api and commit' = commit' and m = m and w = wsize and body = body] t unfolding k by (elim disjE) simp_all
qed

definition idle_compiler :: "unit compile_api" where
  "idle_compiler = \<lparr>cc_malloc_ok = \<lambda>_. True, cc_new = Some (), cc_parse = \<lambda>_ _ _ _ c. (c, JS_NULL),
     cc_throw_oom = \<lambda>c. (c, JS_EXCEPTION), cc_print = \<lambda>_. [], cc_prepare32 = \<lambda>_ _. Some ([1], [2]),
     cc_prepare64 = \<lambda>_ _. ([1], [2, 3])\<rparr>"

theorem compiled_file_checks_witness:
  "\<exists>body. vstr (snd (kmpjs_compile idle_compiler (replicate 40 97) None [] 64 0)) =
      P_bytes (file_header (replicate 40 97) 64 @ body) \<and>
    check_bytecode idle_api (replicate 40 98) 1 (file_header (replicate 40 97) 64 @ body) \<noteq> None"
proof -
  have n: "\<not> JS_IsException JS_NULL" by code_simp
  have w: "\<not> of_nat JSW * 8 <s (64 :: s32)" by (simp add: JSW_def)
  obtain out where "kmpjs_compile idle_compiler (replicate 40 97) None [] 64 0 = (0, out)"
    by (simp add: kmpjs_compile_def idle_compiler_def n w Let_def)
  from compiled_file_checks [OF this, of idle_api "replicate 40 98" 1] this show ?thesis
    by (auto simp: kmpjs_word_size_def JSW_def)
qed

section \<open>Loading a program\<close>

lemma load_success:
  assumes inv: "store_inv (Suc k) (refs e)"
    and rel: "\<forall>e bs. kept e (fst (api_RelocateBytecode api bs e))" and ld: "\<forall>e bs. kept e (fst (api_LoadBytecode api bs e))"
    and load: "kmpjs_load_bytecode api commit m buf e = Some (e', 0, out)"
  shows "vtag out = KMPJS_TAG_REF \<and> vref out \<noteq> 0 \<and> counts (refs e) (vref out) = None \<and>
    counts (refs e') = (counts (refs e))(vref out \<mapsto> 1) \<and> store_inv k (refs e') \<and>
    check_bytecode api commit m buf = None"
proof -
  have chk: "check_bytecode api commit m buf = None"
    using load by (auto simp: kmpjs_load_bytecode_def fail_message_def bind_eq_Some_conv split: option.splits)
  let ?t = "alloc_clock e"
  obtain tab rc where res: "slot_reserve (api_malloc_ok api ?t) (api_malloc_ok api (?t + 1)) (refs e) = (tab, rc)"
    by (metis surj_pair)
  have rc: "rc = 0"
    using load chk res by (auto simp: kmpjs_load_bytecode_def Let_def fail_def fail_message_def bind_eq_Some_conv
        split: if_splits)
  note rs = slot_reserve_store [OF inv res]
  obtain e2 ok where tick: "malloc_tick api (e\<lparr>refs := tab, alloc_clock := ?t + 2\<rparr>) = (e2, ok)" by (metis surj_pair)
  have ok: ok
    using load chk res rc tick by (auto simp: kmpjs_load_bytecode_def fail_def fail_message_def bind_eq_Some_conv split: if_splits)
  have r2: "refs e2 = tab" using tick by (auto simp: malloc_tick_def)
  obtain e3 blk where reloc: "api_RelocateBytecode api (drop 52 buf) e2 = (e3, blk)" by (metis surj_pair)
  obtain block where blk: "blk = Some block"
    using load chk res rc tick ok reloc
    by (cases blk) (auto simp: kmpjs_load_bytecode_def fail_def fail_message_def bind_eq_Some_conv)
  obtain e4 v where ldv: "api_LoadBytecode api block e3 = (e4, v)" by (metis surj_pair)
  have k23: "kept e2 e3" using spec [OF spec [OF rel, of e2], of "drop 52 buf"] reloc by simp
  have k34: "kept e3 e4" using spec [OF spec [OF ld, of e3], of block] ldv by simp
  have same: "same_refs tab (refs e4)" using kept_trans [OF k23 k34] r2 by (simp add: kept_def)
  have nexc: "\<not> JS_IsException v"
  proof
    assume "JS_IsException v"
    then show False
      using load chk res rc tick ok reloc blk ldv
      by (auto simp: kmpjs_load_bytecode_def fail_def fail_message_def Let_def bind_eq_Some_conv split: if_splits)
  qed
  obtain e5 h where new: "new_ref api v (e4\<lparr>blocks := block # blocks e4\<rparr>) = (e5, h)" by (metis surj_pair)
  have eq: "e' = e5" "out = zero_value\<lparr>vtag := KMPJS_TAG_REF, vref := h\<rparr>"
    using load chk res rc tick ok reloc blk ldv nexc new by (auto simp: kmpjs_load_bytecode_def Let_def)
  have inv4: "store_inv (Suc k) (refs (e4\<lparr>blocks := block # blocks e4\<rparr>))"
    using same_refs_inv [OF same] rs by simp
  note nr = new_ref_counts [OF inv4 new]
  have fh: "free_head (refs e4) \<noteq> -1" using same rs rc by (simp add: same_refs_def)
  obtain t where t: "slot_new (api_malloc_ok api (alloc_clock e4)) (api_malloc_ok api (alloc_clock e4 + 1)) (refs e4) v = (t, h)"
    using new by (auto simp: new_ref_def Let_def split: prod.splits)
  have h: "h \<noteq> 0" using slot_new_reserved [OF _ fh t] inv4 by (simp add: store_inv_def)
  have cnt: "counts (refs e4) = counts (refs e)"
    using same_refs_counts [OF same] rs by (simp add: counts_def fun_eq_iff)
  have "counts (refs e4) h = None"
    using nr(3) h counts_issued [OF inv4, of h] by (cases "counts (refs e4) h") auto
  then show ?thesis using nr h cnt chk eq by (simp add: tracked_def)
qed

text \<open>
  C13: When \<open>kmpjs_load_bytecode\<close> succeeds, it answers a reference that was not outstanding and that
  one release gives back - the slot reserved before the engine was asked to load is still there, so
  the answer is never the null handle - and every other reference is as before, although loading may
  collect garbage; and the file passed every check. (The engine's loader is required to keep the
  references.)
\<close>

theorem load_bytecode_reference:
  assumes "store_inv (Suc k) (refs e)"
    "\<forall>e bs. kept e (fst (api_RelocateBytecode api bs e))" "\<forall>e bs. kept e (fst (api_LoadBytecode api bs e))"
    "kmpjs_load_bytecode api commit m buf e = Some (e', 0, out)"
  shows "vtag out = KMPJS_TAG_REF \<and> vref out \<noteq> 0 \<and> counts (refs e) (vref out) = None \<and>
    counts (refs e') = (counts (refs e))(vref out \<mapsto> 1) \<and> store_inv k (refs e') \<and>
    check_bytecode api commit m buf = None"
  by (rule load_success [OF assms])

theorem load_bytecode_reference_witness:
  "\<exists>e' out. kmpjs_load_bytecode idle_api (replicate 40 97) 1 (file_header (replicate 40 97) 64 @ [1]) idle_engine =
     Some (e', 0, out) \<and> vref out \<noteq> 0 \<and> counts (refs e') = [vref out \<mapsto> 1]"
proof -
  have c: "check_bytecode idle_api (replicate 40 97) 1 (file_header (replicate 40 97) 64 @ [1]) = None"
    by (simp add: check_compiled idle_api_def)
  have n: "\<not> JS_IsException JS_NULL" by code_simp
  have "\<exists>e' out. kmpjs_load_bytecode idle_api (replicate 40 97) 1 (file_header (replicate 40 97) 64 @ [1]) idle_engine =
     Some (e', 0, out)"
    unfolding kmpjs_load_bytecode_def c
    by (simp add: idle_api_def idle_engine_def slot_reserve_def slot_extend_def empty_table_def slot_count_def
      INT32_MAX_def malloc_tick_def n Let_def new_ref_def split: prod.splits)
  then obtain e' out where l: "kmpjs_load_bytecode idle_api (replicate 40 97) 1 (file_header (replicate 40 97) 64 @ [1])
      idle_engine = Some (e', 0, out)" by blast
  have i: "store_inv (Suc 0) (refs idle_engine)" by (simp add: idle_engine_def) (rule store_inv_empty, simp)
  have k: "\<forall>e bs. kept e (fst (api_RelocateBytecode idle_api bs e))" "\<forall>e bs. kept e (fst (api_LoadBytecode idle_api bs e))"
    by (simp_all add: idle_api_def)
  have z: "counts (refs idle_engine) = Map.empty"
    by (auto simp: counts_def fun_eq_iff idle_engine_def refs_of_def empty_table_def slot_get_def slot_count_def Let_def)
  show ?thesis using load_bytecode_reference [OF i k l] l unfolding z by blast
qed

end
