(* ===== verification/JsSort.thy ===== *)
theory JsSort imports JsWtf8 "HOL-Library.Multiset" "HOL-Library.Monad_Syntax" begin

text \<open>
  Sorting (\<open>native/mquickjs/mquickjs.c\<close>): the heap sort \<open>rqsort_idx\<close>, which sees the data only through a
  comparison and an exchange of two indices, and \<open>Array.prototype.sort\<close> over it. Comparison and
  exchange work on a state, since a comparison may run script and collect garbage; \<open>None\<close> is a memory
  error.
\<close>

unbundle bit_operations_syntax

section \<open>Heap sort by indices\<close>

type_synonym 's cmp_fun = "nat \<Rightarrow> nat \<Rightarrow> 's \<Rightarrow> ('s \<times> int) option"
type_synonym 's swap_fun = "nat \<Rightarrow> nat \<Rightarrow> 's \<Rightarrow> 's option"

text \<open>The inner loop: the entry \<open>r\<close> goes down among the first \<open>n\<close>.\<close>

function sift_down :: "'s cmp_fun \<Rightarrow> 's swap_fun \<Rightarrow> nat \<Rightarrow> nat \<Rightarrow> 's \<Rightarrow> 's option" where
  "sift_down cmp swap n r s =
     (let c = r * 2 + 1 in
      if c < n then do {
        (s1, x) \<leftarrow> (if c < n - 1 then cmp c (c + 1) s else Some (s, 1));
        let c' = (if x \<le> 0 then c + 1 else c);
        (s2, y) \<leftarrow> cmp r c' s1;
        if y > 0 then Some s2
        else do { s3 \<leftarrow> swap r c' s2; sift_down cmp swap n c' s3 } }
      else Some s)"
  by pat_completeness auto
termination by (relation "measure (\<lambda>(cmp, swap, n, r, s). n - r)") (auto simp: Let_def split: if_splits)

declare sift_down.simps [simp del]

fun build_heap :: "'s cmp_fun \<Rightarrow> 's swap_fun \<Rightarrow> nat \<Rightarrow> nat \<Rightarrow> 's \<Rightarrow> 's option" where
  "build_heap cmp swap n 0 s = Some s"
| "build_heap cmp swap n (Suc i) s = do { s1 \<leftarrow> sift_down cmp swap n i s; build_heap cmp swap n i s1 }"

fun take_maxima :: "'s cmp_fun \<Rightarrow> 's swap_fun \<Rightarrow> nat \<Rightarrow> 's \<Rightarrow> 's option" where
  "take_maxima cmp swap 0 s = Some s"
| "take_maxima cmp swap (Suc i) s = do {
     s1 \<leftarrow> swap 0 (Suc i) s;
     s2 \<leftarrow> sift_down cmp swap (Suc i) 0 s1;
     take_maxima cmp swap i s2 }"

definition rqsort_idx :: "nat \<Rightarrow> 's cmp_fun \<Rightarrow> 's swap_fun \<Rightarrow> 's \<Rightarrow> 's option" where
  "rqsort_idx nmemb cmp swap s =
     (if nmemb > 1 then do {
        s1 \<leftarrow> build_heap cmp swap nmemb (nmemb div 2) s;
        take_maxima cmp swap (nmemb - 1) s1 }
      else Some s)"

definition exchange :: "'a list \<Rightarrow> nat \<Rightarrow> nat \<Rightarrow> 'a list" where
  "exchange xs i j = xs[i := xs ! j, j := xs ! i]"

lemma exchange_simps [simp]:
  "length (exchange xs i j) = length xs"
  "i < length xs \<Longrightarrow> j < length xs \<Longrightarrow> mset (exchange xs i j) = mset xs"
  by (simp_all add: exchange_def mset_swap)

lemma nth_exchange:
  "i < length xs \<Longrightarrow> j < length xs \<Longrightarrow> k < length xs \<Longrightarrow>
   exchange xs i j ! k = (if k = i then xs ! j else if k = j then xs ! i else xs ! k)"
  by (auto simp: exchange_def nth_list_update)

text \<open>
  What the sort relies on: the data are a list that the comparison leaves alone and the exchange
  exchanges. \<open>good\<close> is an invariant of the state under which both succeed.
\<close>

locale index_ops =
  fixes cmp :: "'s cmp_fun" and swap :: "'s swap_fun" and data :: "'s \<Rightarrow> 'a list" and good :: "'s \<Rightarrow> bool"
  assumes cmp_ok: "\<And>i j s. good s \<Longrightarrow> i < length (data s) \<Longrightarrow> j < length (data s) \<Longrightarrow>
      \<exists>s' x. cmp i j s = Some (s', x) \<and> good s' \<and> data s' = data s"
    and swap_ok: "\<And>i j s. good s \<Longrightarrow> i < length (data s) \<Longrightarrow> j < length (data s) \<Longrightarrow>
      \<exists>s'. swap i j s = Some s' \<and> good s' \<and> data s' = exchange (data s) i j"

text \<open>... and, to sort, that the comparison is one of the entries by a total preorder.\<close>

locale ordered_ops = index_ops +
  fixes le :: "'a \<Rightarrow> 'a \<Rightarrow> bool" and A :: "'a set"
  assumes carrier: "\<And>s. good s \<Longrightarrow> set (data s) \<subseteq> A"
    and le_total: "\<And>x y. x \<in> A \<Longrightarrow> y \<in> A \<Longrightarrow> le x y \<or> le y x"
    and le_trans: "\<And>x y z. x \<in> A \<Longrightarrow> y \<in> A \<Longrightarrow> z \<in> A \<Longrightarrow> le x y \<Longrightarrow> le y z \<Longrightarrow> le x z"
    and cmp_le: "\<And>i j s s' x. good s \<Longrightarrow> i < length (data s) \<Longrightarrow> j < length (data s) \<Longrightarrow>
      cmp i j s = Some (s', x) \<Longrightarrow> x \<le> 0 \<longleftrightarrow> le (data s ! i) (data s ! j)"

context index_ops
begin

text \<open>One round of the inner loop: the child \<open>c\<close> that was chosen, and the comparison with it.\<close>

lemma sift_round:
  assumes "good s" "n \<le> length (data s)" "2 * r + 1 < n"
  obtains c s1 s2 y where "c = 2 * r + 1 \<or> c = 2 * r + 2" "c < n"
    "2 * r + 2 < n \<longrightarrow> (\<exists>x. cmp (2 * r + 1) (2 * r + 2) s = Some (s1, x) \<and> (c = 2 * r + 2 \<longleftrightarrow> x \<le> 0))"
    "good s1" "data s1 = data s" "cmp r c s1 = Some (s2, y)" "good s2" "data s2 = data s"
    "sift_down cmp swap n r s = (if y > 0 then Some s2 else do { s3 \<leftarrow> swap r c s2; sift_down cmp swap n c s3 })"
proof -
  let ?c = "r * 2 + 1"
  have cn: "?c < n" using assms(3) by simp
  obtain s1 x where 1: "(if ?c < n - 1 then cmp ?c (?c + 1) s else Some (s, 1)) = Some (s1, x)"
    "good s1" "data s1 = data s" "x \<le> 0 \<longrightarrow> ?c + 1 < n"
  proof (cases "?c < n - 1")
    case True
    then have "?c + 1 < length (data s)" "?c < length (data s)" using assms by linarith+
    moreover have "?c + 1 < n" using True by linarith
    ultimately show ?thesis using cmp_ok [OF assms(1), of ?c "?c + 1"] True that by auto
  qed (use assms that in auto)
  define c where "c = (if x \<le> 0 then ?c + 1 else ?c)"
  have c: "c < n" "r < length (data s)" "c < length (data s)" using 1(4) assms by (auto simp: c_def)
  obtain s2 y where 2: "cmp r c s1 = Some (s2, y)" "good s2" "data s2 = data s"
    using cmp_ok [OF 1(2), of r c] 1(3) c by auto
  show ?thesis
  proof (rule that [of c s1 s2 y])
    show "sift_down cmp swap n r s = (if y > 0 then Some s2 else do { s3 \<leftarrow> swap r c s2; sift_down cmp swap n c s3 })"
      unfolding sift_down.simps [of cmp swap n r] Let_def 1(1) using 2(1) cn
      by (simp only: if_True bind.bind_lunit prod.case c_def [symmetric])
    show "2 * r + 2 < n \<longrightarrow> (\<exists>x. cmp (2 * r + 1) (2 * r + 2) s = Some (s1, x) \<and> (c = 2 * r + 2 \<longleftrightarrow> x \<le> 0))"
    proof
      assume "2 * r + 2 < n"
      then have "?c < n - 1" by simp
      then show "\<exists>x. cmp (2 * r + 1) (2 * r + 2) s = Some (s1, x) \<and> (c = 2 * r + 2 \<longleftrightarrow> x \<le> 0)"
        using 1(1) by (auto simp: c_def mult.commute)
    qed
  qed (use 1 2 c in \<open>auto simp: c_def\<close>)
qed

lemma swap_sel:
  assumes "good s" "i < length (data s)" "j < length (data s)"
  obtains s' where "swap i j s = Some s'" "good s'" "data s' = exchange (data s) i j"
  using swap_ok [OF assms] by blast

text \<open>Whatever the comparison answers, the sort ends with a permutation, and only the entries of its range move.\<close>

lemma sift_down_permutes:
  "good s \<Longrightarrow> n \<le> length (data s) \<Longrightarrow> \<exists>s'. sift_down cmp swap n r s = Some s' \<and> good s' \<and>
     mset (data s') = mset (data s) \<and> drop n (data s') = drop n (data s)"
proof (induction "n - r" arbitrary: r s rule: less_induct)
  case less
  show ?case
  proof (cases "2 * r + 1 < n")
    case False
    then show ?thesis using less.prems by (subst sift_down.simps) (simp add: Let_def mult.commute)
  next
    case True
    from less.prems True show ?thesis
    proof (rule sift_round)
      fix c s1 s2 y
      assume c: "c = 2 * r + 1 \<or> c = 2 * r + 2" "c < n" and g: "good s2" "data s2 = data s"
        and eq: "sift_down cmp swap n r s = (if y > 0 then Some s2 else do { s3 \<leftarrow> swap r c s2; sift_down cmp swap n c s3 })"
      show ?thesis
      proof (cases "y > 0")
        case False
        have len: "r < length (data s2)" "c < length (data s2)" using c g less.prems by auto
        then obtain s3 where 3: "swap r c s2 = Some s3" "good s3" "data s3 = exchange (data s2) r c"
          using swap_sel [OF g(1)] by metis
        have rc: "n - c < n - r" using c by auto
        have "drop n (data s3) = drop n (data s)" using c by (auto simp: 3 g exchange_def)
        moreover have "mset (data s3) = mset (data s)" using len by (simp add: 3(3) g(2))
        moreover obtain s' where "sift_down cmp swap n c s3 = Some s'" "good s'" "mset (data s') = mset (data s3)"
            "drop n (data s') = drop n (data s3)"
          using less.hyps [OF _ 3(2), of c] 3(3) rc less.prems(2) g(2) by auto
        ultimately show ?thesis using 3 False by (simp add: eq)
      qed (use eq g in simp)
    qed
  qed
qed

lemma mset_length: "mset xs = mset ys \<Longrightarrow> length xs = length ys"
  by (metis size_mset)

lemma build_heap_permutes:
  "good s \<Longrightarrow> n \<le> length (data s) \<Longrightarrow> \<exists>s'. build_heap cmp swap n i s = Some s' \<and> good s' \<and>
     mset (data s') = mset (data s) \<and> drop n (data s') = drop n (data s)"
proof (induction i arbitrary: s)
  case (Suc i)
  obtain s1 where 1: "sift_down cmp swap n i s = Some s1" "good s1" "mset (data s1) = mset (data s)"
    "drop n (data s1) = drop n (data s)" using sift_down_permutes [OF Suc.prems] by blast
  then show ?case using Suc.IH [OF 1(2)] Suc.prems mset_length [OF 1(3)] by auto
qed simp

lemma take_maxima_permutes:
  "good s \<Longrightarrow> i < length (data s) \<Longrightarrow> \<exists>s'. take_maxima cmp swap i s = Some s' \<and> good s' \<and>
     mset (data s') = mset (data s) \<and> drop (Suc i) (data s') = drop (Suc i) (data s)"
proof (induction i arbitrary: s)
  case (Suc i)
  have z: "0 < length (data s)" using Suc.prems(2) by linarith
  obtain s1 where 1: "swap 0 (Suc i) s = Some s1" "good s1" "data s1 = exchange (data s) 0 (Suc i)"
    using swap_sel [OF Suc.prems(1) z Suc.prems(2)] by metis
  obtain s2 where 2: "sift_down cmp swap (Suc i) 0 s1 = Some s2" "good s2" "mset (data s2) = mset (data s1)"
    "drop (Suc i) (data s2) = drop (Suc i) (data s1)"
    using sift_down_permutes [OF 1(2), of "Suc i" 0] 1(3) Suc.prems by auto
  have m: "mset (data s2) = mset (data s)" using 2(3) exchange_simps(2) [OF z Suc.prems(2)] by (simp add: 1(3))
  obtain s3 where 3: "take_maxima cmp swap i s2 = Some s3" "good s3" "mset (data s3) = mset (data s2)"
    "drop (Suc i) (data s3) = drop (Suc i) (data s2)"
    using Suc.IH [OF 2(2)] mset_length [OF m] Suc.prems by auto
  have "drop (Suc (Suc i)) (data s3) = drop 1 (drop (Suc i) (data s3))" by simp
  also have "\<dots> = drop (Suc (Suc i)) (data s1)" unfolding 3(4) 2(4) by simp
  also have "\<dots> = drop (Suc (Suc i)) (data s)" by (simp add: 1(3) exchange_def)
  finally show ?case using 1 2 3 m by simp
qed simp

lemma rqsort_idx_permutes:
  assumes "good s" "n \<le> length (data s)"
  shows "\<exists>s'. rqsort_idx n cmp swap s = Some s' \<and> good s' \<and> mset (data s') = mset (data s) \<and>
    drop n (data s') = drop n (data s)"
proof (cases "n > 1")
  case True
  obtain s1 where 1: "build_heap cmp swap n (n div 2) s = Some s1" "good s1" "mset (data s1) = mset (data s)"
    "drop n (data s1) = drop n (data s)" using build_heap_permutes [OF assms] by blast
  then show ?thesis
    using take_maxima_permutes [OF 1(2), of "n - 1"] mset_length [OF 1(3)] assms True
    by (auto simp: rqsort_idx_def)
qed (use assms in \<open>simp add: rqsort_idx_def\<close>)

end

context ordered_ops
begin

text \<open>The entries from \<open>k\<close> on are not below their children, except at \<open>r\<close>, whose children are not above its parent.\<close>

definition heap_but :: "'a list \<Rightarrow> nat \<Rightarrow> nat \<Rightarrow> nat \<Rightarrow> bool" where
  "heap_but xs n k r \<longleftrightarrow>
     (\<forall>i c. k \<le> i \<and> i \<noteq> r \<and> (c = 2 * i + 1 \<or> c = 2 * i + 2) \<and> c < n \<longrightarrow> le (xs ! c) (xs ! i)) \<and>
     (\<forall>p c. k \<le> p \<and> (r = 2 * p + 1 \<or> r = 2 * p + 2) \<and> (c = 2 * r + 1 \<or> c = 2 * r + 2) \<and> c < n \<longrightarrow> le (xs ! c) (xs ! p))"

definition heap_from :: "'a list \<Rightarrow> nat \<Rightarrow> nat \<Rightarrow> bool" where
  "heap_from xs n k \<longleftrightarrow>
     (\<forall>i c. k \<le> i \<and> (c = 2 * i + 1 \<or> c = 2 * i + 2) \<and> c < n \<longrightarrow> le (xs ! c) (xs ! i))"

lemma in_carrier: "good s \<Longrightarrow> i < length (data s) \<Longrightarrow> data s ! i \<in> A"
  using carrier nth_mem by blast

lemma sift_down_heap:
  "good s \<Longrightarrow> n \<le> length (data s) \<Longrightarrow> k \<le> r \<Longrightarrow> heap_but (data s) n k r \<Longrightarrow>
   sift_down cmp swap n r s = Some s' \<Longrightarrow> heap_from (data s') n k"
proof (induction "n - r" arbitrary: r s rule: less_induct)
  case less
  show ?case
  proof (cases "2 * r + 1 < n")
    case False
    then have "s' = s" using less.prems(5) by (subst (asm) sift_down.simps) (simp add: Let_def mult.commute)
    then show ?thesis using less.prems(4) False by (auto simp: heap_but_def heap_from_def)
  next
    case True
    from less.prems(1,2) True show ?thesis
    proof (rule sift_round)
      fix c s1 s2 y
      assume c: "c = 2 * r + 1 \<or> c = 2 * r + 2" "c < n" and g: "good s2" "data s2 = data s"
        and ch: "2 * r + 2 < n \<longrightarrow> (\<exists>x. cmp (2 * r + 1) (2 * r + 2) s = Some (s1, x) \<and> (c = 2 * r + 2 \<longleftrightarrow> x \<le> 0))"
        and g1: "good s1" "data s1 = data s" and y: "cmp r c s1 = Some (s2, y)"
        and eq: "sift_down cmp swap n r s = (if y > 0 then Some s2 else do { s3 \<leftarrow> swap r c s2; sift_down cmp swap n c s3 })"
      let ?xs = "data s"
      have len: "r < length ?xs" "c < length ?xs" using c less.prems by auto
      have A: "i < n \<Longrightarrow> ?xs ! i \<in> A" for i using in_carrier [OF less.prems(1)] less.prems(2) by simp
      have yle: "y \<le> 0 \<longleftrightarrow> le (?xs ! r) (?xs ! c)" using cmp_le [OF g1(1) _ _ y] g1 len by simp
      have big: "le (?xs ! d) (?xs ! c)" if d: "d = 2 * r + 1 \<or> d = 2 * r + 2" "d < n" for d
      proof (cases "d = c")
        case True
        then show ?thesis using le_total [of "?xs ! c" "?xs ! c"] A c by auto
      next
        case False
        then have two: "2 * r + 2 < n" using c d by auto
        then obtain x where x: "cmp (2 * r + 1) (2 * r + 2) s = Some (s1, x)" "c = 2 * r + 2 \<longleftrightarrow> x \<le> 0"
          using ch by blast
        have "x \<le> 0 \<longleftrightarrow> le (?xs ! (2 * r + 1)) (?xs ! (2 * r + 2))"
          using cmp_le [OF less.prems(1) _ _ x(1)] two less.prems(2) by simp
        then show ?thesis using x(2) d c False le_total [of "?xs ! (2 * r + 1)" "?xs ! (2 * r + 2)"] A two by auto
      qed
      show ?thesis
      proof (cases "y > 0")
        case True
        then have le: "le (?xs ! c) (?xs ! r)" using yle le_total [of "?xs ! c" "?xs ! r"] A c by auto
        have "s' = s2" using eq True less.prems(5) by simp
        moreover have "le (?xs ! d) (?xs ! r)" if "d = 2 * r + 1 \<or> d = 2 * r + 2" "d < n" for d
          using le_trans [OF _ _ _ big [OF that] le] A that c by auto
        ultimately show ?thesis using less.prems(4) g(2) unfolding heap_from_def heap_but_def by metis
      next
        case False
        obtain s3 where 3: "swap r c s2 = Some s3" "good s3" "data s3 = exchange ?xs r c"
          using swap_sel [OF g(1)] len g(2) by metis
        have at: "i < n \<Longrightarrow> data s3 ! i = (if i = r then ?xs ! c else if i = c then ?xs ! r else ?xs ! i)" for i
          using nth_exchange [OF len, of i] less.prems(2) by (simp add: 3)
        note hb = less.prems(4) [unfolded heap_but_def]
        have "heap_but (data s3) n k c"
          unfolding heap_but_def
        proof (intro conjI allI impI; elim conjE)
          fix i d assume i: "k \<le> i" "i \<noteq> c" and d: "d = 2 * i + 1 \<or> d = 2 * i + 2" "d < n"
          then have "i < n" by auto
          show "le (data s3 ! d) (data s3 ! i)"
          proof (cases "i = r")
            case True
            then have "d \<noteq> r" using d by auto
            then show ?thesis using True at d \<open>i < n\<close> big [of d] yle False c by auto
          next
            case ir: False
            have "d \<noteq> c" using d c ir by auto
            show ?thesis
            proof (cases "d = r")
              case True
              then have "le (?xs ! c) (?xs ! i)" using hb d i c by metis
              then show ?thesis using True at d \<open>i < n\<close> ir i by simp
            next
              case False
              then show ?thesis using at d \<open>i < n\<close> \<open>d \<noteq> c\<close> ir i hb by simp
            qed
          qed
        next
          fix p d assume p: "k \<le> p" "c = 2 * p + 1 \<or> c = 2 * p + 2" and d: "d = 2 * c + 1 \<or> d = 2 * c + 2" "d < n"
          then have "p = r" "r < c" using c by auto
          moreover have "le (?xs ! d) (?xs ! c)" using hb d \<open>r < c\<close> less.prems(3) by (metis le_trans less_imp_le not_less_iff_gr_or_eq order.trans)
          moreover have "d \<noteq> c" "d \<noteq> r" using d \<open>r < c\<close> by auto
          ultimately show "le (data s3 ! d) (data s3 ! p)" using at d c by simp
        qed
        moreover have "sift_down cmp swap n c s3 = Some s'" using less.prems(5) eq False 3 by simp
        moreover have "n - c < n - r" "k \<le> c" using c less.prems(3) by auto
        ultimately show ?thesis using less.hyps [of c s3] 3(2,3) less.prems(2) by simp
      qed
    qed
  qed
qed

lemma build_heap_heap:
  "good s \<Longrightarrow> n \<le> length (data s) \<Longrightarrow> heap_from (data s) n i \<Longrightarrow> build_heap cmp swap n i s = Some s' \<Longrightarrow>
   heap_from (data s') n 0"
proof (induction i arbitrary: s)
  case (Suc i)
  obtain s1 where 1: "sift_down cmp swap n i s = Some s1" "good s1" "mset (data s1) = mset (data s)"
    using sift_down_permutes [OF Suc.prems(1,2)] by blast
  have "heap_but (data s) n i i" using Suc.prems(3) by (auto simp: heap_but_def heap_from_def Suc_le_eq)
  then have "heap_from (data s1) n i" using sift_down_heap [OF Suc.prems(1,2) order.refl _ 1(1)] by blast
  then show ?case using Suc.IH [OF 1(2)] Suc.prems(2,4) 1 mset_length [OF 1(3)] by simp
qed simp

text \<open>The root of a heap is its maximum.\<close>

lemma heap_max:
  assumes "good s" "n \<le> length (data s)" "heap_from (data s) n 0"
  shows "j < n \<Longrightarrow> le (data s ! j) (data s ! 0)"
proof (induction j rule: less_induct)
  case (less j)
  have A: "i < n \<Longrightarrow> data s ! i \<in> A" for i using in_carrier [OF assms(1)] assms(2) by simp
  show ?case
  proof (cases "j = 0")
    case True
    then show ?thesis using le_total A less.prems by blast
  next
    case False
    define p where "p = (j - 1) div 2"
    have p: "p < j" "j = 2 * p + 1 \<or> j = 2 * p + 2" using False by (auto simp: p_def)
    then have "le (data s ! j) (data s ! p)" using assms(3) less.prems by (auto simp: heap_from_def)
    moreover have "le (data s ! p) (data s ! 0)" "p < n" "0 < n" using less.IH [of p] p(1) less.prems by auto
    ultimately show ?thesis using le_trans A less.prems by blast
  qed
qed

text \<open>After the heap of the first \<open>n\<close> entries follow sorted entries that are not below them.\<close>

definition sorted_tail :: "'a list \<Rightarrow> nat \<Rightarrow> nat \<Rightarrow> bool" where
  "sorted_tail xs n m \<longleftrightarrow> (\<forall>i j. n \<le> j \<and> j < m \<and> i \<le> j \<longrightarrow> le (xs ! i) (xs ! j))"

lemma set_take_mset: "mset xs = mset ys \<Longrightarrow> drop n xs = drop n ys \<Longrightarrow> set (take n xs) = set (take n ys)"
  by (metis add_right_cancel append_take_drop_id mset_append mset_eq_setD)

lemma sorted_tail_cong:
  assumes t: "sorted_tail xs n m" and m: "mset ys = mset xs" "drop n ys = drop n xs" and le: "n \<le> length xs" "m \<le> length xs"
  shows "sorted_tail ys n m"
  unfolding sorted_tail_def
proof (intro allI impI; elim conjE)
  fix i j assume ij: "n \<le> j" "j < m" "i \<le> j"
  have l: "length ys = length xs" by (rule mset_length [OF m(1)])
  have up: "ys ! k = xs ! k" if "n \<le> k" "k < m" for k
    using arg_cong [OF m(2), of "\<lambda>l. l ! (k - n)"] that le l by simp
  show "le (ys ! i) (ys ! j)"
  proof (cases "i < n")
    case True
    have "ys ! i \<in> set (take n ys)" using True le l by (auto simp: in_set_conv_nth intro!: exI [of _ i])
    then have "ys ! i \<in> set (take n xs)" using set_take_mset [OF m] by simp
    then obtain i' where "i' < n" "xs ! i' = ys ! i" by (auto simp: in_set_conv_nth)
    then show ?thesis using t ij up [of j] unfolding sorted_tail_def by (metis le_trans less_imp_le_nat order.strict_trans2)
  next
    case False
    then show ?thesis using t ij up unfolding sorted_tail_def by (metis leI order.strict_trans1)
  qed
qed

lemma take_maxima_sorts:
  "good s \<Longrightarrow> i < length (data s) \<Longrightarrow> heap_from (data s) (Suc i) 0 \<Longrightarrow> sorted_tail (data s) (Suc i) m \<Longrightarrow>
   m \<le> length (data s) \<Longrightarrow> i < m \<Longrightarrow> take_maxima cmp swap i s = Some s' \<Longrightarrow> sorted_tail (data s') 0 m"
proof (induction i arbitrary: s)
  case 0
  have "le (data s ! 0) (data s ! 0)" using in_carrier [OF 0(1,2)] le_total by blast
  then show ?case using 0 by (auto simp: sorted_tail_def) (metis One_nat_def Suc_leI le_zero_eq not_gr_zero)
next
  case (Suc i)
  have z: "0 < length (data s)" using Suc.prems(2) by linarith
  obtain s1 where 1: "swap 0 (Suc i) s = Some s1" "good s1" "data s1 = exchange (data s) 0 (Suc i)"
    using swap_sel [OF Suc.prems(1) z Suc.prems(2)] by metis
  have l1: "length (data s1) = length (data s)" by (simp add: 1)
  have at: "k < length (data s) \<Longrightarrow>
      data s1 ! k = (if k = 0 then data s ! Suc i else if k = Suc i then data s ! 0 else data s ! k)" for k
    using nth_exchange [OF z Suc.prems(2)] by (simp add: 1)
  have max: "j < Suc (Suc i) \<Longrightarrow> le (data s ! j) (data s ! 0)" for j
    using heap_max [OF Suc.prems(1) _ Suc.prems(3)] Suc.prems(2) by simp
  have st: "sorted_tail (data s1) (Suc i) m"
    unfolding sorted_tail_def
  proof (intro allI impI; elim conjE)
    fix a b assume ab: "Suc i \<le> b" "b < m" "a \<le> b"
    then have lb: "b < length (data s)" "a < length (data s)" using Suc.prems(5) by auto
    show "le (data s1 ! a) (data s1 ! b)"
    proof (cases "b = Suc i")
      case True
      then show ?thesis using at [OF lb(1)] at [OF lb(2)] ab max by (auto simp: le_less_Suc_eq)
    next
      case False
      then have "Suc (Suc i) \<le> b" using ab by simp
      then show ?thesis using at [OF lb(1)] at [OF lb(2)] ab Suc.prems(4)
        unfolding sorted_tail_def by (metis le_zero_eq nat.distinct(1) not_less_eq_eq order.trans zero_le)
    qed
  qed
  obtain s2 where 2: "sift_down cmp swap (Suc i) 0 s1 = Some s2" "good s2" "mset (data s2) = mset (data s1)"
    "drop (Suc i) (data s2) = drop (Suc i) (data s1)"
    using sift_down_permutes [OF 1(2), of "Suc i" 0] l1 Suc.prems by auto
  have "heap_but (data s1) (Suc i) 0 0"
    using Suc.prems(3) at Suc.prems(2) by (auto simp: heap_but_def heap_from_def)
  then have "heap_from (data s2) (Suc i) 0" using sift_down_heap [OF 1(2) _ _ _ 2(1)] l1 Suc.prems(2) by simp
  moreover have "sorted_tail (data s2) (Suc i) m"
    by (rule sorted_tail_cong [OF st 2(3,4)]) (use l1 Suc.prems in simp_all)
  ultimately show ?case using Suc.IH [OF 2(2)] mset_length [OF 2(3)] l1 Suc.prems(2,5-7) 1(1) 2(1) by simp
qed

lemma rqsort_idx_sorts:
  assumes "good s" "n \<le> length (data s)" "rqsort_idx n cmp swap s = Some s'"
  shows "sorted_wrt le (take n (data s'))"
proof -
  obtain s'' where p: "rqsort_idx n cmp swap s = Some s''" "good s''" "mset (data s'') = mset (data s)"
    using rqsort_idx_permutes [OF assms(1,2)] by blast
  have l': "length (data s') = length (data s)" using p assms(3) mset_length by auto
  have "sorted_tail (data s') 0 n" if n: "n > 1"
  proof -
    obtain s1 where 1: "build_heap cmp swap n (n div 2) s = Some s1" "good s1" "mset (data s1) = mset (data s)"
      using build_heap_permutes [OF assms(1,2)] by blast
    have l: "length (data s1) = length (data s)" by (rule mset_length [OF 1(3)])
    have "heap_from (data s) n (n div 2)" by (auto simp: heap_from_def)
    then have "heap_from (data s1) n 0" using build_heap_heap [OF assms(1,2) _ 1(1)] by blast
    moreover have "sorted_tail (data s1) n n" by (auto simp: sorted_tail_def)
    moreover have "take_maxima cmp swap (n - 1) s1 = Some s'" using assms(3) n 1(1) by (simp add: rqsort_idx_def)
    ultimately show ?thesis using take_maxima_sorts [OF 1(2), of "n - 1" n s'] n assms(2) l by simp
  qed
  then show ?thesis
    using l' assms(2) by (cases "n > 1") (auto simp: sorted_wrt_iff_nth_less sorted_tail_def)
qed

end

section \<open>Array.prototype.sort\<close>

text \<open>
  The engine functions that the sort calls: they may run script, so they map the whole context.
  \<open>se_Call\<close> pushes the values in the order of the list and calls with two arguments.
\<close>

record sort_env =
  se_js :: js_env
  se_ThrowTypeError :: "string \<Rightarrow> JSContext \<Rightarrow> JSContext"
  se_StackCheck :: "nat \<Rightarrow> JSContext \<Rightarrow> JSContext \<times> bool"
  se_Call :: "JSValue list \<Rightarrow> JSContext \<Rightarrow> JSContext \<times> JSValue"
  se_ToNumber :: "JSValue \<Rightarrow> JSContext \<Rightarrow> JSContext \<times> float64 option"
  se_ToString :: "JSValue \<Rightarrow> JSContext \<Rightarrow> JSContext \<times> JSValue"

text \<open>
  \<open>so_parr\<close> is the place of the rooted table, counted from the oldest root; \<open>so_pfunc\<close> reads the
  comparison function from its place on the stack.
\<close>

record JSArraySortContext =
  so_ctx :: JSContext
  so_exception :: bool
  so_parr :: nat
  so_pfunc :: "(JSContext \<Rightarrow> JSValue) option"

definition sort_tab :: "JSArraySortContext \<Rightarrow> JSValue list option" where
  "sort_tab s =
     (let roots = rev (top_gc_ref (so_ctx s)) in
      if so_parr s < length roots then value_array_of (so_ctx s) (roots ! so_parr s) else None)"

definition tab_at :: "JSArraySortContext \<Rightarrow> nat \<Rightarrow> JSValue option" where
  "tab_at s i = (case sort_tab s of None \<Rightarrow> None | Some arr \<Rightarrow> if i < length arr then Some (arr ! i) else None)"

datatype cmp_result = Cmp_is int | Cmp_return int | Cmp_exception

definition sort_user_cmp ::
  "sort_env \<Rightarrow> (JSContext \<Rightarrow> JSValue) \<Rightarrow> nat \<Rightarrow> nat \<Rightarrow> JSArraySortContext \<Rightarrow> (JSArraySortContext \<times> cmp_result) option" where
  "sort_user_cmp env pfunc i1 i2 s = do {
     v1 \<leftarrow> tab_at s (2 * i1); v2 \<leftarrow> tab_at s (2 * i2);
     if v1 = v2 then Some (s, Cmp_is 0)
     else let (ctx1, full) = se_StackCheck env 4 (so_ctx s); s1 = s\<lparr>so_ctx := ctx1\<rparr> in
       if full then Some (s1, Cmp_exception)
       else do {
         w1 \<leftarrow> tab_at s1 (2 * i1); w2 \<leftarrow> tab_at s1 (2 * i2);
         let (ctx2, res) = se_Call env [w2, w1, pfunc ctx1, JS_UNDEFINED] ctx1;
         let s2 = s1\<lparr>so_ctx := ctx2\<rparr>;
         if JS_IsException res then Some (s2, Cmp_return (sint (ucast JS_EXCEPTION :: s32)))
         else if JS_IsInt res then
           let val = sint (JS_VALUE_GET_INT res) in
           Some (s2, Cmp_is (of_bool (val > 0) - of_bool (val < 0)))
         else case se_ToNumber env res ctx2 of
             (ctx3, None) \<Rightarrow> Some (s2\<lparr>so_ctx := ctx3\<rparr>, Cmp_exception)
           | (ctx3, Some val) \<Rightarrow>
               Some (s2\<lparr>so_ctx := ctx3\<rparr>,
                 Cmp_is (of_bool (f_le 0 val \<and> \<not> f_eq val 0) - of_bool (f_le val 0 \<and> \<not> f_eq val 0))) } }"

definition sort_string_cmp ::
  "sort_env \<Rightarrow> nat \<Rightarrow> nat \<Rightarrow> JSArraySortContext \<Rightarrow> (JSArraySortContext \<times> cmp_result) option" where
  "sort_string_cmp env i1 i2 s = do {
     v1 \<leftarrow> tab_at s (2 * i1);
     let (ctx1, str1) = (if JS_IsString (so_ctx s) v1 then (so_ctx s, v1) else se_ToString env v1 (so_ctx s));
     let s1 = s\<lparr>so_ctx := ctx1\<rparr>;
     if \<not> JS_IsString (so_ctx s) v1 \<and> JS_IsException str1 then Some (s1, Cmp_exception)
     else do {
       v2 \<leftarrow> tab_at s1 (2 * i2);
       let (ctx2, str1', str2) =
         (if JS_IsString ctx1 v2 then (ctx1, str1, v2)
          else let (c, w) = se_ToString env v2 (JS_PushGCRef ctx1 str1); (c', r) = JS_PopGCRef c in (c', r, w));
       let s2 = s1\<lparr>so_ctx := ctx2\<rparr>;
       if \<not> JS_IsString ctx1 v2 \<and> JS_IsException str2 then Some (s2, Cmp_exception)
       else do { cmp \<leftarrow> js_string_compare ctx2 str1' str2; Some (s2, Cmp_is cmp) } } }"

text \<open>Equal entries are told apart by their old position, so that the sort is stable.\<close>

definition sort_positions :: "nat \<Rightarrow> nat \<Rightarrow> JSArraySortContext \<Rightarrow> (JSArraySortContext \<times> int) option" where
  "sort_positions i1 i2 s = do {
     p1 \<leftarrow> tab_at s (2 * i1 + 1); p2 \<leftarrow> tab_at s (2 * i2 + 1);
     let j1 = sint (JS_VALUE_GET_INT p1);
     let j2 = sint (JS_VALUE_GET_INT p2);
     Some (s, of_bool (j1 > j2) - of_bool (j1 < j2)) }"

definition js_array_sort_cmp :: "sort_env \<Rightarrow> nat \<Rightarrow> nat \<Rightarrow> JSArraySortContext \<Rightarrow> (JSArraySortContext \<times> int) option" where
  "js_array_sort_cmp env i1 i2 s =
     (if so_exception s then Some (s, 0)
      else do {
        (s1, r) \<leftarrow> (case so_pfunc s of Some pf \<Rightarrow> sort_user_cmp env pf i1 i2 s | None \<Rightarrow> sort_string_cmp env i1 i2 s);
        case r of
          Cmp_exception \<Rightarrow> Some (s1\<lparr>so_exception := True\<rparr>, 0)
        | Cmp_return x \<Rightarrow> Some (s1, x)
        | Cmp_is cmp \<Rightarrow> if cmp \<noteq> 0 then Some (s1, cmp) else sort_positions i1 i2 s1 })"

definition js_array_sort_swap :: "nat \<Rightarrow> nat \<Rightarrow> JSArraySortContext \<Rightarrow> JSArraySortContext option" where
  "js_array_sort_swap i1 i2 s = do {
     arr \<leftarrow> sort_tab s;
     if 2 * i1 + 1 < length arr \<and> 2 * i2 + 1 < length arr then
       let ctx = so_ctx s; p = val_ptr (rev (top_gc_ref ctx) ! so_parr s);
           arr' = exchange (exchange arr (2 * i1) (2 * i2)) (2 * i1 + 1) (2 * i2 + 1) in
       Some (s\<lparr>so_ctx := ctx\<lparr>heap := (heap ctx)(p \<mapsto> MB_value_array arr')\<rparr>\<rparr>)
     else None }"

text \<open>The entries that are not undefined, each followed by its position.\<close>

fun sort_pairs :: "JSValue list \<Rightarrow> nat \<Rightarrow> JSValue list" where
  "sort_pairs [] i = []"
| "sort_pairs (v # vs) i =
     (if JS_IsUndefined v then sort_pairs vs (i + 1) else v # JS_NewShortInt (of_nat i) # sort_pairs vs (i + 1))"

definition js_get_array :: "sort_env \<Rightarrow> JSContext \<Rightarrow> JSValue \<Rightarrow> JSContext \<times> JSObject option" where
  "js_get_array env ctx obj =
     (case js_get_object_class ctx obj JS_CLASS_ARRAY of
        None \<Rightarrow> (se_ThrowTypeError env ''not an array'' ctx, None)
      | Some p \<Rightarrow> (ctx, Some p))"

text \<open>The table of an array object and its length.\<close>

definition array_data :: "JSContext \<Rightarrow> JSValue \<Rightarrow> (JSValue \<times> JSValue list \<times> nat) option" where
  "array_data ctx this =
     (case the_object ctx this of
        Some p \<Rightarrow> (case obj_u p of
            U_array tab len \<Rightarrow>
              (case (if len = 0 \<and> tab = JS_NULL then Some [] else value_array_of ctx tab) of
                 Some arr \<Rightarrow> if unat len \<le> length arr then Some (tab, arr, unat len) else None
               | None \<Rightarrow> None)
          | _ \<Rightarrow> None)
      | None \<Rightarrow> None)"

text \<open>\<open>this\<close> and the comparison function are read from their places on the stack.\<close>

definition js_array_sort ::
  "sort_env \<Rightarrow> (JSContext \<Rightarrow> JSValue) \<Rightarrow> (JSContext \<Rightarrow> JSValue) \<Rightarrow> JSContext \<Rightarrow> (JSContext \<times> JSValue) option" where
  "js_array_sort env this func ctx =
     (if \<not> JS_IsUndefined (func ctx) \<and> \<not> JS_IsFunction ctx (func ctx) then
        Some (se_ThrowTypeError env ''not a function'' ctx, JS_EXCEPTION)
      else let pfunc = (if JS_IsUndefined (func ctx) then None else Some func) in
        case js_get_array env ctx (this ctx) of
          (ctx1, None) \<Rightarrow> Some (ctx1, JS_EXCEPTION)
        | (ctx1, Some _) \<Rightarrow> do {
            (_, _, len) \<leftarrow> array_data ctx1 (this ctx1);
            case js_alloc_value_array (se_js env) ctx1 0 (len * 2) of
              (ctx2, None) \<Rightarrow> Some (ctx2, JS_EXCEPTION)
            | (ctx2, Some tab) \<Rightarrow> do {
                (_, arr, _) \<leftarrow> array_data ctx2 (this ctx2);
                let pairs = sort_pairs (take len arr) 0;
                let n = length pairs div 2;
                let ctx3 = ctx2\<lparr>heap := (heap ctx2)(tab \<mapsto> MB_value_array (pairs @ replicate (len * 2 - length pairs) JS_UNDEFINED))\<rparr>;
                let s = \<lparr>so_ctx = JS_PushGCRef ctx3 (ptr_val tab), so_exception = False,
                         so_parr = length (top_gc_ref ctx3), so_pfunc = pfunc\<rparr>;
                s1 \<leftarrow> rqsort_idx n (js_array_sort_cmp env) js_array_sort_swap s;
                let (ctx4, tab_val) = JS_PopGCRef (so_ctx s1);
                if so_exception s1 then Some (js_free ctx4 (val_ptr tab_val), JS_EXCEPTION)
                else do {
                  (arr_val, arr', len') \<leftarrow> array_data ctx4 (this ctx4);
                  sorted \<leftarrow> value_array_of ctx4 tab_val;
                  let m = min len len';
                  if m = 0 then Some (js_free ctx4 (val_ptr tab_val), this ctx4)
                  else if 2 * m \<le> length sorted + 1 then
                    let ctx5 = ctx4\<lparr>heap := (heap ctx4)(val_ptr arr_val \<mapsto>
                            MB_value_array (map (\<lambda>i. sorted ! (2 * i)) [0..<m] @ drop m arr'))\<rparr>;
                        ctx6 = js_free ctx5 (val_ptr tab_val) in
                    Some (ctx6, this ctx6)
                  else None } } })"

section \<open>Sorting strings\<close>

text \<open>The table of the given entries: each value with its position.\<close>

definition flat :: "JSValue list \<Rightarrow> nat list \<Rightarrow> JSValue list" where
  "flat arr is = concat (map (\<lambda>i. [arr ! i, JS_NewShortInt (of_nat i)]) is)"

lemma length_flat [simp]: "length (flat arr is) = 2 * length is"
  by (induction "is") (simp_all add: flat_def)

lemma nth_flat:
  "k < length is \<Longrightarrow> flat arr is ! (2 * k) = arr ! (is ! k)"
  "k < length is \<Longrightarrow> flat arr is ! (2 * k + 1) = JS_NewShortInt (of_nat (is ! k))"
proof (induction "is" arbitrary: k)
  case (Cons i "is")
  { case 1 then show ?case using Cons(1) [of "k - 1"] by (cases k) (simp_all add: flat_def) }
  { case 2 then show ?case using Cons(2) [of "k - 1"] by (cases k) (simp_all add: flat_def) }
qed simp_all

lemma exchange_flat:
  assumes "i < length is" "j < length is"
  shows "exchange (exchange (flat arr is @ r) (2 * i) (2 * j)) (2 * i + 1) (2 * j + 1) = flat arr (exchange is i j) @ r"
proof (rule nth_equalityI)
  let ?x = "flat arr is @ r" and ?n = "length is"
  show "length (exchange (exchange ?x (2 * i) (2 * j)) (2 * i + 1) (2 * j + 1)) = length (flat arr (exchange is i j) @ r)"
    by simp
  fix k assume "k < length (exchange (exchange ?x (2 * i) (2 * j)) (2 * i + 1) (2 * j + 1))"
  then have k: "k < length ?x" by simp
  have l: "2 * i < length ?x" "2 * j < length ?x" "2 * i + 1 < length ?x" "2 * j + 1 < length ?x" using assms by auto
  have x: "exchange (exchange ?x (2 * i) (2 * j)) (2 * i + 1) (2 * j + 1) ! k =
      (if k = 2 * i + 1 then ?x ! (2 * j + 1) else if k = 2 * j + 1 then ?x ! (2 * i + 1)
       else if k = 2 * i then ?x ! (2 * j) else if k = 2 * j then ?x ! (2 * i) else ?x ! k)"
    using l k by (simp add: nth_exchange) presburger
  show "exchange (exchange ?x (2 * i) (2 * j)) (2 * i + 1) (2 * j + 1) ! k = (flat arr (exchange is i j) @ r) ! k"
  proof (cases "k < 2 * ?n")
    case False
    then show ?thesis using assms unfolding x by (simp add: nth_append)
  next
    case True
    define q where "q = k div 2"
    have q: "q < ?n" using True by (simp add: q_def)
    have "k = 2 * q \<or> k = 2 * q + 1" unfolding q_def by linarith
    then show ?thesis
    proof
      assume kq: "k = 2 * q"
      then show ?thesis unfolding x using q assms nth_flat(1) [of _ "is" arr] nth_flat(1) [of q "exchange is i j" arr]
        by (simp add: nth_append nth_exchange)
    next
      assume kq: "k = 2 * q + 1"
      then show ?thesis unfolding x using q assms nth_flat(2) [of _ "is" arr] nth_flat(2) [of q "exchange is i j" arr]
        by (simp add: nth_append nth_exchange)
    qed
  qed
qed

lemma sort_pairs_flat:
  assumes "i + length vs \<le> length arr" "vs = take (length vs) (drop i arr)"
  shows "sort_pairs vs i = flat arr (filter (\<lambda>k. \<not> JS_IsUndefined (arr ! k)) [i..<i + length vs])"
  using assms
proof (induction vs arbitrary: i)
  case (Cons v vs)
  have v: "v = arr ! i" using arg_cong [OF Cons.prems(2), of hd] Cons.prems(1) by (simp add: hd_drop_conv_nth)
  have "vs = take (length vs) (drop (Suc i) arr)"
    using arg_cong [OF Cons.prems(2), of tl] by (simp add: tl_take drop_Suc tl_drop)
  then have "sort_pairs vs (Suc i) = flat arr (filter (\<lambda>k. \<not> JS_IsUndefined (arr ! k)) [Suc i..<Suc i + length vs])"
    using Cons.IH [of "Suc i"] Cons.prems(1) by simp
  moreover have "[i..<i + length (v # vs)] = i # [Suc i..<Suc i + length vs]" by (subst upt_conv_Cons) simp_all
  ultimately show ?case by (simp add: v flat_def)
qed (simp add: flat_def)

text \<open>The array that is sorted: strings with the texts of their positions, or undefined.\<close>

definition string_array :: "JSContext \<Rightarrow> JSValue list \<Rightarrow> (nat \<Rightarrow> u32 list) \<Rightarrow> nat \<Rightarrow> bool" where
  "string_array ctx arr texts len \<longleftrightarrow> len \<le> length arr \<and> len < 2 ^ 30 \<and>
     (\<forall>i < len. \<not> JS_IsUndefined (arr ! i) \<longrightarrow> JS_IsString ctx (arr ! i) \<and> has_text ctx (arr ! i) (texts i))"

text \<open>The order: by the text, and for the same text by the position.\<close>

definition before :: "(nat \<Rightarrow> u32 list) \<Rightarrow> nat \<Rightarrow> nat \<Rightarrow> bool" where
  "before texts i j \<longleftrightarrow> lex_compare (texts i) (texts j) < 0 \<or> lex_compare (texts i) (texts j) = 0 \<and> i \<le> j"

lemma before_total: "before texts i j \<or> before texts j i"
proof -
  have "lex_compare (texts i) (texts j) = - lex_compare (texts j) (texts i)" by (rule lex_compare_order(2))
  then show ?thesis unfolding before_def by linarith
qed

lemma before_trans: "before texts i j \<Longrightarrow> before texts j k \<Longrightarrow> before texts i k"
  using lex_compare_order(1) [of "texts i" "texts j"] lex_compare_order(1) [of "texts j" "texts k"]
    lex_compare_order(3) [of "texts i" "texts j" "texts k"]
  by (auto simp: before_def)

lemma string_ptr_unchanged:
  "heap ctx p = None \<Longrightarrow> get_string_ptr ctx v = Some s \<Longrightarrow> get_string_ptr (ctx\<lparr>heap := (heap ctx)(p := b), top_gc_ref := g, heap_free := f\<rparr>) v = Some s"
  by (auto simp: get_string_ptr_def block_of_def split: if_splits)

lemma is_string_unchanged:
  "heap ctx p = None \<Longrightarrow> JS_IsString ctx v \<Longrightarrow> JS_IsString (ctx\<lparr>heap := (heap ctx)(p := b), top_gc_ref := g, heap_free := f\<rparr>) v"
  by (auto simp: JS_IsString_def block_of_def split: if_splits)

text \<open>The state of the sort when the entries of the table are in the order of the positions \<open>is\<close>.\<close>

definition sorting :: "JSContext \<Rightarrow> nat \<Rightarrow> nat \<Rightarrow> JSValue list \<Rightarrow> JSValue list \<Rightarrow> nat list \<Rightarrow> JSArraySortContext" where
  "sorting ctx p f arr rest is =
     \<lparr>so_ctx = ctx\<lparr>heap := (heap ctx)(p \<mapsto> MB_value_array (flat arr is @ rest)), top_gc_ref := ptr_val p # top_gc_ref ctx,
                   heap_free := f\<rparr>,
      so_exception = False, so_parr = length (top_gc_ref ctx), so_pfunc = None\<rparr>"

lemma val_ptr_ptr_val: "p < 2 ^ 64 \<Longrightarrow> val_ptr (ptr_val p) = p"
  by (simp add: val_ptr_def ptr_val_def JS_VALUE_TO_PTR_def JS_VALUE_FROM_PTR_def unat_of_nat)

lemma sorting_tab:
  "p < 2 ^ 64 \<Longrightarrow> sort_tab (sorting ctx p f arr rest is) = Some (flat arr is @ rest)"
  by (simp add: sort_tab_def sorting_def nth_append value_array_of_def block_of_def val_ptr_ptr_val)

lemma sorting_tab_at:
  assumes "p < 2 ^ 64" "k < length is"
  shows "tab_at (sorting ctx p f arr rest is) (2 * k) = Some (arr ! (is ! k))"
    "tab_at (sorting ctx p f arr rest is) (2 * k + 1) = Some (JS_NewShortInt (of_nat (is ! k)))"
  using assms nth_flat [of k "is" arr] by (simp_all add: tab_at_def sorting_tab nth_append)

lemma position_value:
  assumes "i < 2 ^ 30" shows "sint (JS_VALUE_GET_INT (JS_NewShortInt (of_nat i))) = int i"
proof -
  have "sint (of_nat i :: s32) = int i"
    using assms by (simp add: sint_uint uint_nat unat_of_nat signed_take_bit_int_eq_self)
  then show ?thesis using short_int_value [of "of_nat i"] assms by (simp add: JS_SHORTINT_MIN_def JS_SHORTINT_MAX_def)
qed

lemma sorting_positions:
  assumes "p < 2 ^ 64" "i < length is" "j < length is" "\<forall>k \<in> set is. k < 2 ^ 30"
  shows "sort_positions i j (sorting ctx p f arr rest is) =
    Some (sorting ctx p f arr rest is, of_bool (is ! j < is ! i) - of_bool (is ! i < is ! j))"
proof -
  have "sint (JS_VALUE_GET_INT (JS_NewShortInt (of_nat (is ! k)))) = int (is ! k)" if "k < length is" for k
    by (rule position_value) (use assms(4) that in simp)
  then show ?thesis using assms(2,3) sorting_tab_at [OF assms(1)] by (simp add: sort_positions_def)
qed

definition defined_positions :: "JSValue list \<Rightarrow> nat \<Rightarrow> nat set" where
  "defined_positions arr len = {i. i < len \<and> \<not> JS_IsUndefined (arr ! i)}"

lemma sorting_string_cmp:
  assumes p: "heap ctx p = None" "p < 2 ^ 64" and sa: "string_array ctx arr texts len"
    and ij: "i < length is" "j < length is" and d: "set is \<subseteq> defined_positions arr len"
  shows "sort_string_cmp env i j (sorting ctx p f arr rest is) =
    Some (sorting ctx p f arr rest is, Cmp_is (lex_compare (texts (is ! i)) (texts (is ! j))))"
proof -
  let ?s = "sorting ctx p f arr rest is"
  have str: "JS_IsString (so_ctx ?s) (arr ! (is ! k)) \<and> has_text (so_ctx ?s) (arr ! (is ! k)) (texts (is ! k))"
    if "k < length is" for k
  proof -
    have "is ! k \<in> defined_positions arr len" using d that by auto
    then have "JS_IsString ctx (arr ! (is ! k)) \<and> has_text ctx (arr ! (is ! k)) (texts (is ! k))"
      using sa by (auto simp: string_array_def defined_positions_def)
    then show ?thesis
      unfolding has_text_def sorting_def JSArraySortContext.select_convs
      using is_string_unchanged [OF p(1)] string_ptr_unchanged [OF p(1)] by blast
  qed
  have "js_string_compare (so_ctx ?s) (arr ! (is ! i)) (arr ! (is ! j)) = Some (lex_compare (texts (is ! i)) (texts (is ! j)))"
    using js_string_compare_lex str ij by blast
  moreover have "?s\<lparr>so_ctx := so_ctx ?s\<rparr> = ?s" by simp
  ultimately show ?thesis
    using str [OF ij(1)] str [OF ij(2)] sorting_tab_at(1) [OF p(2)] ij
    by (simp add: sort_string_cmp_def)
qed

lemma sorting_cmp:
  assumes p: "heap ctx p = None" "p < 2 ^ 64" and sa: "string_array ctx arr texts len"
    and ij: "i < length is" "j < length is" and d: "set is \<subseteq> defined_positions arr len"
  shows "\<exists>x. js_array_sort_cmp env i j (sorting ctx p f arr rest is) = Some (sorting ctx p f arr rest is, x) \<and>
    (x \<le> 0 \<longleftrightarrow> before texts (is ! i) (is ! j))"
proof -
  let ?s = "sorting ctx p f arr rest is"
  have "\<forall>k \<in> set is. k < 2 ^ 30" using d sa by (auto simp: string_array_def defined_positions_def)
  note pos = sorting_positions [OF p(2) ij this, where ctx = ctx and f = f and arr = arr and rest = rest]
  have "\<not> so_exception ?s" "so_pfunc ?s = None" by (simp_all add: sorting_def)
  then have "js_array_sort_cmp env i j ?s =
      (if lex_compare (texts (is ! i)) (texts (is ! j)) \<noteq> 0 then Some (?s, lex_compare (texts (is ! i)) (texts (is ! j)))
       else Some (?s, of_bool (is ! j < is ! i) - of_bool (is ! i < is ! j)))"
    by (simp add: js_array_sort_cmp_def sorting_string_cmp [OF assms] pos)
  then show ?thesis by (auto simp: before_def)
qed

lemma sorting_swap:
  assumes p: "p < 2 ^ 64" and ij: "i < length is" "j < length is"
  shows "js_array_sort_swap i j (sorting ctx p f arr rest is) = Some (sorting ctx p f arr rest (exchange is i j))"
proof -
  have "2 * i + 1 < length (flat arr is @ rest)" "2 * j + 1 < length (flat arr is @ rest)" using ij by auto
  moreover have "val_ptr (rev (top_gc_ref (so_ctx (sorting ctx p f arr rest is))) ! so_parr (sorting ctx p f arr rest is)) = p"
    by (simp add: sorting_def nth_append val_ptr_ptr_val [OF p])
  ultimately show ?thesis
    using exchange_flat [OF ij, of arr rest]
    unfolding js_array_sort_swap_def sorting_tab [OF p] bind.bind_lunit Let_def
    by (simp add: sorting_def)
qed

text \<open>The positions in the table, and the states of a sort of strings.\<close>

definition table_positions :: "nat \<Rightarrow> JSArraySortContext \<Rightarrow> nat list" where
  "table_positions n s = map (\<lambda>k. case tab_at s (2 * k + 1) of Some v \<Rightarrow> nat (sint (JS_VALUE_GET_INT v)) | None \<Rightarrow> 0) [0..<n]"

definition string_sort ::
  "JSContext \<Rightarrow> nat \<Rightarrow> nat \<Rightarrow> JSValue list \<Rightarrow> (nat \<Rightarrow> u32 list) \<Rightarrow> nat \<Rightarrow> JSValue list \<Rightarrow> nat \<Rightarrow> JSArraySortContext \<Rightarrow> bool" where
  "string_sort ctx p f arr texts len rest n s \<longleftrightarrow> heap ctx p = None \<and> p < 2 ^ 64 \<and> string_array ctx arr texts len \<and>
     (\<exists>is. s = sorting ctx p f arr rest is \<and> length is = n \<and> set is \<subseteq> defined_positions arr len)"

lemma table_positions_sorting:
  assumes p: "p < 2 ^ 64" and s: "\<forall>k \<in> set is. k < 2 ^ 30" and n: "length is = n"
  shows "table_positions n (sorting ctx p f arr rest is) = is"
proof (rule nth_equalityI)
  show "length (table_positions n (sorting ctx p f arr rest is)) = length is" by (simp add: table_positions_def n)
  fix k assume "k < length (table_positions n (sorting ctx p f arr rest is))"
  then have k: "k < length is" by (simp add: table_positions_def n)
  then have "sint (JS_VALUE_GET_INT (JS_NewShortInt (of_nat (is ! k)))) = int (is ! k)"
    using s by (intro position_value) simp
  then show "table_positions n (sorting ctx p f arr rest is) ! k = is ! k"
    using k n sorting_tab_at(2) [OF p k] by (simp add: table_positions_def)
qed

lemma string_sort_is:
  assumes "string_sort ctx p f arr texts len rest n s"
  obtains "is" where "s = sorting ctx p f arr rest is" "length is = n" "set is \<subseteq> defined_positions arr len"
    "table_positions n s = is" "heap ctx p = None" "p < 2 ^ 64" "string_array ctx arr texts len"
proof -
  obtain "is" where i: "s = sorting ctx p f arr rest is" "length is = n" "set is \<subseteq> defined_positions arr len"
    "heap ctx p = None" "p < 2 ^ 64" "string_array ctx arr texts len" using assms by (auto simp: string_sort_def)
  then have "\<forall>k \<in> set is. k < 2 ^ 30" by (auto simp: string_array_def defined_positions_def)
  then show ?thesis using that [OF i(1-3)] table_positions_sorting i by simp
qed

lemma exchange_set: "i < length xs \<Longrightarrow> j < length xs \<Longrightarrow> set (exchange xs i j) = set xs"
  by (rule mset_eq_setD) simp

interpretation sort_strings: ordered_ops "js_array_sort_cmp env" js_array_sort_swap "table_positions n"
  "string_sort ctx p f arr texts len rest n" "before texts" UNIV
  for env n ctx p f arr texts len rest
proof
  fix i j s assume g: "string_sort ctx p f arr texts len rest n s"
    and ij: "i < length (table_positions n s)" "j < length (table_positions n s)"
  from g show "\<exists>s' x. js_array_sort_cmp env i j s = Some (s', x) \<and> string_sort ctx p f arr texts len rest n s' \<and>
      table_positions n s' = table_positions n s"
  proof (rule string_sort_is)
    fix "is" assume s: "s = sorting ctx p f arr rest is" "set is \<subseteq> defined_positions arr len" "table_positions n s = is"
      "heap ctx p = None" "p < 2 ^ 64" "string_array ctx arr texts len"
    then show ?thesis using sorting_cmp [OF s(4-6) _ _ s(2), of i j env f rest] ij g by auto
  qed
next
  fix i j s assume g: "string_sort ctx p f arr texts len rest n s"
    and ij: "i < length (table_positions n s)" "j < length (table_positions n s)"
  from g show "\<exists>s'. js_array_sort_swap i j s = Some s' \<and> string_sort ctx p f arr texts len rest n s' \<and>
      table_positions n s' = exchange (table_positions n s) i j"
  proof (rule string_sort_is)
    fix "is" assume s: "s = sorting ctx p f arr rest is" "length is = n" "set is \<subseteq> defined_positions arr len"
      "table_positions n s = is" "heap ctx p = None" "p < 2 ^ 64" "string_array ctx arr texts len"
    let ?e = "exchange is i j"
    have l: "i < length is" "j < length is" using ij s(4) by simp_all
    have e: "set ?e \<subseteq> defined_positions arr len" "length ?e = n" using s(2,3) exchange_set [OF l] by simp_all
    then have "\<forall>k \<in> set ?e. k < 2 ^ 30" using s(7) by (auto simp: string_array_def defined_positions_def)
    then have "table_positions n (sorting ctx p f arr rest ?e) = ?e" using table_positions_sorting s(6) e(2) by blast
    then show ?thesis using sorting_swap [OF s(6) l] e s by (auto simp: string_sort_def)
  qed
next
  fix i j s s' x assume g: "string_sort ctx p f arr texts len rest n s"
    and ij: "i < length (table_positions n s)" "j < length (table_positions n s)" "js_array_sort_cmp env i j s = Some (s', x)"
  from g show "x \<le> 0 \<longleftrightarrow> before texts (table_positions n s ! i) (table_positions n s ! j)"
  proof (rule string_sort_is)
    fix "is" assume s: "s = sorting ctx p f arr rest is" "set is \<subseteq> defined_positions arr len" "table_positions n s = is"
      "heap ctx p = None" "p < 2 ^ 64" "string_array ctx arr texts len"
    then show ?thesis using sorting_cmp [OF s(4-6) _ _ s(2), of i j env f rest] ij by auto
  qed
qed (use before_total before_trans in auto)

lemma array_data_after:
  assumes "the_object ctx this = Some ob" "obj_u ob = U_array tabv al" "value_array_of ctx tabv = Some arr"
    "unat al \<le> length arr" "heap ctx p = None" "tabv \<noteq> JS_NULL"
  shows "array_data (ctx\<lparr>heap := (heap ctx)(p := b), heap_free := f\<rparr>) this = Some (tabv, arr, unat al)"
    "array_data (ctx\<lparr>heap := (heap ctx)(p := b), top_gc_ref := g, heap_free := f\<rparr>) this = Some (tabv, arr, unat al)"
    "val_ptr tabv \<noteq> p"
proof -
  have ne: "val_ptr this \<noteq> p" "val_ptr tabv \<noteq> p"
    using assms by (auto simp: the_object_def value_array_of_def block_of_def split: option.splits)
  then show "val_ptr tabv \<noteq> p" by simp
  show "array_data (ctx\<lparr>heap := (heap ctx)(p := b), heap_free := f\<rparr>) this = Some (tabv, arr, unat al)"
    "array_data (ctx\<lparr>heap := (heap ctx)(p := b), top_gc_ref := g, heap_free := f\<rparr>) this = Some (tabv, arr, unat al)"
    using assms ne
    by (auto simp: array_data_def the_object_def value_array_of_def block_of_def split: option.splits mblock.splits)
qed

lemma js_free_other: "q \<noteq> p \<Longrightarrow> heap (js_free ctx p) q = heap ctx q"
  by (auto simp: js_free_def split: option.splits)

lemma flat_evens:
  assumes "length is = n" "n \<le> len"
  shows "map (\<lambda>i. (flat arr is @ replicate (len * 2 - 2 * n) JS_UNDEFINED) ! (2 * i)) [0..<len] =
    map (\<lambda>i. arr ! i) is @ replicate (len - n) JS_UNDEFINED"
proof (rule nth_equalityI)
  fix i assume "i < length (map (\<lambda>i. (flat arr is @ replicate (len * 2 - 2 * n) JS_UNDEFINED) ! (2 * i)) [0..<len])"
  then have i: "i < len" by simp
  then show "map (\<lambda>i. (flat arr is @ replicate (len * 2 - 2 * n) JS_UNDEFINED) ! (2 * i)) [0..<len] ! i =
      (map (\<lambda>i. arr ! i) is @ replicate (len - n) JS_UNDEFINED) ! i"
    using assms nth_flat(1) [of i "is" arr] by (cases "i < n") (simp_all add: nth_append)
qed (use assms in simp)

lemma js_array_sort_strings:
  assumes ar: "js_get_object_class ctx this JS_CLASS_ARRAY = Some ob" "obj_u ob = U_array tabv al"
      "value_array_of ctx tabv = Some arr" "unat al = len" "string_array ctx arr texts len"
      "tabv \<noteq> JS_NULL"
    and alloc: "js_alloc_value_array (se_js env) ctx 0 (len * 2) =
        (ctx\<lparr>heap := (heap ctx)(p \<mapsto> b), heap_free := f\<rparr>, Some p)" "heap ctx p = None" "p < 2 ^ 64"
  shows "\<exists>ctx' is. js_array_sort env (\<lambda>_. this) (\<lambda>_. JS_UNDEFINED) ctx = Some (ctx', this) \<and>
    value_array_of ctx' tabv = Some (map (\<lambda>i. arr ! i) is @ replicate (len - length is) JS_UNDEFINED @ drop len arr) \<and>
    distinct is \<and> set is = defined_positions arr len \<and> sorted_wrt (before texts) is"
proof -
  have ob: "the_object ctx this = Some ob" using ar(1) by (auto simp: js_get_object_class_def split: if_splits option.splits)
  have le: "len \<le> length arr" using ar(5) by (simp add: string_array_def)
  have ad: "array_data ctx this = Some (tabv, arr, len)"
    using ob ar le by (simp add: array_data_def)
  note after = array_data_after [OF ob ar(2,3) _ alloc(2) ar(6), unfolded ar(4), OF le]
  define is0 where "is0 = filter (\<lambda>k. \<not> JS_IsUndefined (arr ! k)) [0..<len]"
  define n where "n = length is0"
  define rest where "rest = replicate (len * 2 - 2 * n) JS_UNDEFINED"
  have n: "n \<le> len" by (simp add: n_def is0_def) (metis diff_zero length_filter_le length_upt)
  have pairs: "sort_pairs (take len arr) 0 = flat arr is0"
  proof -
    have l: "length (take len arr) = len" using le by simp
    show ?thesis using sort_pairs_flat [of 0 "take len arr" arr, unfolded l] le by (simp add: is0_def)
  qed
  let ?s = "sorting ctx p f arr rest"
  have dp: "set is0 = defined_positions arr len" by (auto simp: is0_def defined_positions_def)
  have good: "string_sort ctx p f arr texts len rest n (?s is0)"
    using alloc ar(5) dp by (auto simp: string_sort_def n_def)
  have "table_positions n (?s is0) = is0"
    using table_positions_sorting [OF alloc(3), of is0 n] dp ar(5)
    by (auto simp: n_def string_array_def defined_positions_def)
  then obtain s1 where s1: "rqsort_idx n (js_array_sort_cmp env) js_array_sort_swap (?s is0) = Some s1"
    "string_sort ctx p f arr texts len rest n s1" "mset (table_positions n s1) = mset is0"
    using sort_strings.rqsort_idx_permutes [OF good, of n env] by (auto simp: n_def)
  have srt: "sorted_wrt (before texts) (take n (table_positions n s1))"
    by (rule sort_strings.rqsort_idx_sorts [OF good _ s1(1)]) (simp add: table_positions_def)
  from s1(2) show ?thesis
  proof (rule string_sort_is)
    fix "is" assume i: "s1 = ?s is" "length is = n" "table_positions n s1 = is"
    have m: "mset is = mset is0" using s1(3) i(3) by simp
    have di: "distinct is" using m by (metis distinct_filter distinct_upt is0_def mset_eq_imp_distinct_iff)
    have si: "set is = defined_positions arr len" using dp mset_eq_setD [OF m] by simp
    have ev: "flat arr is0 @ replicate (len * 2 - length (flat arr is0)) JS_UNDEFINED = flat arr is0 @ rest"
      by (simp add: rest_def n_def)
    let ?ctx4 = "ctx\<lparr>heap := (heap ctx)(p \<mapsto> MB_value_array (flat arr is @ rest)), heap_free := f\<rparr>"
    have pop: "JS_PopGCRef (so_ctx s1) = (?ctx4, ptr_val p)"
      by (simp add: i(1) sorting_def JS_PopGCRef_def)
    define ctx2 where "ctx2 = ctx\<lparr>heap := (heap ctx)(p \<mapsto> b), heap_free := f\<rparr>"
    have st: "\<lparr>so_ctx = JS_PushGCRef (ctx2\<lparr>heap := (heap ctx2)(p \<mapsto> MB_value_array (flat arr is0 @ replicate (len * 2 - 2 * n) JS_UNDEFINED))\<rparr>) (ptr_val p),
        so_exception = False, so_parr = length (top_gc_ref ctx2), so_pfunc = None\<rparr> = ?s is0"
      by (simp add: sorting_def JS_PushGCRef_def ctx2_def rest_def)
    have vt: "value_array_of ?ctx4 (ptr_val p) = Some (flat arr is @ rest)"
      by (simp add: value_array_of_def block_of_def val_ptr_ptr_val [OF alloc(3)])
    have xc: "\<not> so_exception s1" by (simp add: i(1) sorting_def)
    have und: "JS_IsUndefined JS_UNDEFINED" by (simp add: JS_IsUndefined_def)
    have ga: "js_get_array env ctx this = (ctx, Some ob)" by (simp add: js_get_array_def ar(1))
    let ?out = "map (\<lambda>i. (flat arr is @ rest) ! (2 * i)) [0..<len] @ drop len arr"
    define ctx6 where "ctx6 = (if len = 0 then js_free ?ctx4 p else
        js_free (?ctx4\<lparr>heap := (heap ?ctx4)(val_ptr tabv \<mapsto> MB_value_array ?out)\<rparr>) p)"
    define ctx4 where "ctx4 = ?ctx4"
    have c6: "len = 0 \<Longrightarrow> js_free ctx4 p = ctx6"
        "len \<noteq> 0 \<Longrightarrow> js_free (ctx4\<lparr>heap := (heap ctx4)(val_ptr tabv \<mapsto> MB_value_array ?out)\<rparr>) p = ctx6"
      by (simp_all add: ctx6_def ctx4_def)
    have ad2: "array_data ctx2 this = Some (tabv, arr, len)" "array_data ctx4 this = Some (tabv, arr, len)"
      unfolding ctx2_def ctx4_def by (rule after(1))+
    note alloc' = alloc(1) [folded ctx2_def]
    note pop' = pop [folded ctx4_def] and vt' = vt [folded ctx4_def]
    have b: "2 * len \<le> length (flat arr is @ rest) + 1" using n by (simp add: i(2) rest_def)
    have res: "js_array_sort env (\<lambda>_. this) (\<lambda>_. JS_UNDEFINED) ctx = Some (ctx6, this)"
      using s1(1) b
      by (simp add: js_array_sort_def und ga ad alloc' ad2 pairs n_def [symmetric] st xc pop' vt'
          val_ptr_ptr_val [OF alloc(3)] c6)
    have fl: "map (\<lambda>i. (flat arr is @ rest) ! (2 * i)) [0..<len] = map (\<lambda>i. arr ! i) is @ replicate (len - n) JS_UNDEFINED"
      unfolding rest_def by (rule flat_evens [OF i(2) n])
    have nil: "len = 0 \<Longrightarrow> is = []" using i(2) n by simp
    have "value_array_of ctx6 tabv = Some (map (\<lambda>i. arr ! i) is @ replicate (len - n) JS_UNDEFINED @ drop len arr)"
      using after(3) ar(3) nil n
      by (auto simp: ctx6_def value_array_of_def block_of_def js_free_other fl)
    then show ?thesis using res di si srt i(2,3) by auto
  qed
qed

section \<open>Any comparison function\<close>

text \<open>
  What the engine must keep while it runs the comparison function: the rooted table stays a table of
  the same length with the same positions. Its values may move: \<open>ident\<close> says which value of the program a
  word stands for in a context, and that stays. (For an engine that does not move, it is the word; for
  strings that move, their text.) Writing a table of values does not change what the words stand for.
\<close>

definition root_tab :: "nat \<Rightarrow> JSContext \<Rightarrow> JSValue list option" where
  "root_tab k ctx = sort_tab \<lparr>so_ctx = ctx, so_exception = False, so_parr = k, so_pfunc = None\<rparr>"

definition tab_kept :: "nat \<Rightarrow> (JSContext \<Rightarrow> JSValue \<Rightarrow> 'i) \<Rightarrow> JSContext \<Rightarrow> JSContext \<Rightarrow> bool" where
  "tab_kept k ident ctx ctx' \<longleftrightarrow> (\<forall>arr. root_tab k ctx = Some arr \<longrightarrow>
     (\<exists>arr'. root_tab k ctx' = Some arr' \<and> length arr' = length arr \<and>
        (\<forall>i < length arr. if odd i then arr' ! i = arr ! i else ident ctx' (arr' ! i) = ident ctx (arr ! i))))"

definition sort_env_keeps :: "nat \<Rightarrow> (JSContext \<Rightarrow> JSValue \<Rightarrow> 'i) \<Rightarrow> sort_env \<Rightarrow> bool" where
  "sort_env_keeps k ident env \<longleftrightarrow>
     (\<forall>ctx n. tab_kept k ident ctx (fst (se_StackCheck env n ctx))) \<and>
     (\<forall>ctx vs. tab_kept k ident ctx (fst (se_Call env vs ctx))) \<and>
     (\<forall>ctx v. tab_kept k ident ctx (fst (se_ToNumber env v ctx)))"

definition ident_stable :: "(JSContext \<Rightarrow> JSValue \<Rightarrow> 'i) \<Rightarrow> bool" where
  "ident_stable ident \<longleftrightarrow> (\<forall>ctx p old new. heap ctx p = Some (MB_value_array old) \<longrightarrow>
     ident (ctx\<lparr>heap := (heap ctx)(p \<mapsto> MB_value_array new)\<rparr>) = ident ctx)"

lemma sort_tab_root: "sort_tab s = root_tab (so_parr s) (so_ctx s)"
  by (simp add: sort_tab_def root_tab_def)

text \<open>The entries of the table: what the value stands for, and its position.\<close>

definition table_entries :: "(JSContext \<Rightarrow> JSValue \<Rightarrow> 'i) \<Rightarrow> nat \<Rightarrow> JSArraySortContext \<Rightarrow> ('i \<times> JSValue) list" where
  "table_entries ident n s = (case sort_tab s of
     None \<Rightarrow> []
   | Some arr \<Rightarrow> map (\<lambda>i. (ident (so_ctx s) (arr ! (2 * i)), arr ! (2 * i + 1))) [0..<n])"

definition user_sort :: "sort_env \<Rightarrow> nat \<Rightarrow> (JSContext \<Rightarrow> JSValue \<Rightarrow> 'i) \<Rightarrow> nat \<Rightarrow> JSArraySortContext \<Rightarrow> bool" where
  "user_sort env k ident n s \<longleftrightarrow> sort_env_keeps k ident env \<and> ident_stable ident \<and> so_parr s = k \<and> so_pfunc s \<noteq> None \<and>
     (\<exists>arr. sort_tab s = Some arr \<and> 2 * n \<le> length arr)"

text \<open>A step of the comparison: the state is one of a sort still, with the same entries.\<close>

definition user_step :: "sort_env \<Rightarrow> nat \<Rightarrow> (JSContext \<Rightarrow> JSValue \<Rightarrow> 'i) \<Rightarrow> nat \<Rightarrow> JSArraySortContext \<Rightarrow> JSArraySortContext \<Rightarrow> bool" where
  "user_step env k ident n s s' \<longleftrightarrow> user_sort env k ident n s' \<and> table_entries ident n s' = table_entries ident n s"

lemma user_step_kept:
  assumes "user_sort env k ident n s" "tab_kept k ident (so_ctx s) ctx'"
  shows "user_step env k ident n s (s\<lparr>so_ctx := ctx'\<rparr>)"
proof -
  obtain arr where a: "sort_tab s = Some arr" "2 * n \<le> length arr" "so_parr s = k" using assms(1) by (auto simp: user_sort_def)
  then obtain arr' where r: "root_tab k ctx' = Some arr'" "length arr' = length arr"
    "\<forall>i < length arr. if odd i then arr' ! i = arr ! i else ident ctx' (arr' ! i) = ident (so_ctx s) (arr ! i)"
    using assms(2) unfolding tab_kept_def sort_tab_root by blast
  have "arr' ! (2 * i + 1) = arr ! (2 * i + 1) \<and> ident ctx' (arr' ! (2 * i)) = ident (so_ctx s) (arr ! (2 * i))"
    if "i < n" for i
    using spec [OF r(3), of "2 * i"] spec [OF r(3), of "2 * i + 1"] a(2) that by simp
  moreover have "sort_tab (s\<lparr>so_ctx := ctx'\<rparr>) = root_tab k ctx'" using a(3) by (simp add: sort_tab_root)
  ultimately show ?thesis using assms(1) a r(1,2) by (simp add: user_step_def user_sort_def table_entries_def)
qed

lemma user_step_trans: "user_step env k ident n s s1 \<Longrightarrow> user_step env k ident n s1 s2 \<Longrightarrow> user_step env k ident n s s2"
  by (simp add: user_step_def)

lemma user_tab_at:
  assumes "user_sort env k ident n s" "i < 2 * n"
  obtains v where "tab_at s i = Some v"
  using assms by (auto simp: user_sort_def tab_at_def)

lemma user_cmp_steps:
  assumes g: "user_sort env k ident n s" and ij: "i < n" "j < n"
  obtains s' r where "sort_user_cmp env pf i j s = Some (s', r)" "user_step env k ident n s s'"
proof -
  have keep: "tab_kept k ident ctx (fst (se_StackCheck env m ctx))" "tab_kept k ident ctx (fst (se_Call env vs ctx))"
      "tab_kept k ident ctx (fst (se_ToNumber env v ctx))" for ctx m vs v
    using g by (auto simp: user_sort_def sort_env_keeps_def)
  have b: "2 * i < 2 * n" "2 * j < 2 * n" using ij by simp_all
  obtain v1 v2 where v: "tab_at s (2 * i) = Some v1" "tab_at s (2 * j) = Some v2"
    using user_tab_at [OF g b(1)] user_tab_at [OF g b(2)] by metis
  have refl: "user_step env k ident n s s" using g by (simp add: user_step_def)
  obtain ctx1 full where c1: "se_StackCheck env 4 (so_ctx s) = (ctx1, full)" by (metis surj_pair)
  have s1: "user_step env k ident n s (s\<lparr>so_ctx := ctx1\<rparr>)" (is "user_step _ _ _ _ _ ?s1")
    using user_step_kept [OF g] keep(1) [of "so_ctx s" 4] c1 by simp
  then have g1: "user_sort env k ident n ?s1" by (simp add: user_step_def)
  obtain w1 w2 where w: "tab_at ?s1 (2 * i) = Some w1" "tab_at ?s1 (2 * j) = Some w2"
    using user_tab_at [OF g1 b(1)] user_tab_at [OF g1 b(2)] by metis
  obtain ctx2 res where c2: "se_Call env [w2, w1, pf ctx1, JS_UNDEFINED] ctx1 = (ctx2, res)" by (metis surj_pair)
  have s2: "user_step env k ident n ?s1 (?s1\<lparr>so_ctx := ctx2\<rparr>)" (is "user_step _ _ _ _ _ ?s2")
    using user_step_kept [OF g1] keep(2) [of ctx1 "[w2, w1, pf ctx1, JS_UNDEFINED]"] c2 by simp
  obtain ctx3 d where c3: "se_ToNumber env res ctx2 = (ctx3, d)" by (metis surj_pair)
  have s3: "user_step env k ident n ?s2 (?s2\<lparr>so_ctx := ctx3\<rparr>)"
    using user_step_kept [of env k ident n ?s2] keep(3) [of ctx2 res] c3 s2 by (simp add: user_step_def)
  note st = refl s1 user_step_trans [OF s1 s2] user_step_trans [OF user_step_trans [OF s1 s2] s3]
  show ?thesis
    using v w c1 c2 c3 st that
    by (cases "v1 = v2"; cases full; cases "JS_IsException res"; cases "JS_IsInt res"; cases d)
      (auto simp: sort_user_cmp_def Let_def)
qed

lemma user_cmp:
  assumes g: "user_sort env k ident n s" and ij: "i < n" "j < n"
  shows "\<exists>s' x. js_array_sort_cmp env i j s = Some (s', x) \<and> user_sort env k ident n s' \<and> table_entries ident n s' = table_entries ident n s"
proof (cases "so_exception s")
  case True
  then show ?thesis using g by (simp add: js_array_sort_cmp_def)
next
  case False
  obtain pf where pf: "so_pfunc s = Some pf" using g by (auto simp: user_sort_def)
  from g ij show ?thesis
  proof (rule user_cmp_steps)
    fix s1 r assume c: "sort_user_cmp env pf i j s = Some (s1, r)" "user_step env k ident n s s1"
    then have g1: "user_sort env k ident n s1" "table_entries ident n s1 = table_entries ident n s" by (simp_all add: user_step_def)
    have "sort_tab (s1\<lparr>so_exception := True\<rparr>) = sort_tab s1" by (simp add: sort_tab_root)
    then have e: "user_sort env k ident n (s1\<lparr>so_exception := True\<rparr>)" "table_entries ident n (s1\<lparr>so_exception := True\<rparr>) = table_entries ident n s"
      using g1 by (auto simp: user_sort_def table_entries_def)
    have b: "2 * i + 1 < 2 * n" "2 * j + 1 < 2 * n" using ij by simp_all
    obtain p1 p2 where "tab_at s1 (2 * i + 1) = Some p1" "tab_at s1 (2 * j + 1) = Some p2"
      using user_tab_at [OF g1(1) b(1)] user_tab_at [OF g1(1) b(2)] by metis
    then show ?thesis using c(1) g1 e False pf
      by (cases r) (simp_all add: js_array_sort_cmp_def sort_positions_def Let_def)
  qed
qed

lemma user_swap:
  assumes g: "user_sort env k ident n s" and ij: "i < n" "j < n"
  shows "\<exists>s'. js_array_sort_swap i j s = Some s' \<and> user_sort env k ident n s' \<and> table_entries ident n s' = exchange (table_entries ident n s) i j"
proof -
  obtain arr where a: "sort_tab s = Some arr" "2 * n \<le> length arr" using g by (auto simp: user_sort_def)
  let ?arr = "exchange (exchange arr (2 * i) (2 * j)) (2 * i + 1) (2 * j + 1)"
  let ?p = "val_ptr (rev (top_gc_ref (so_ctx s)) ! so_parr s)"
  let ?s = "s\<lparr>so_ctx := (so_ctx s)\<lparr>heap := (heap (so_ctx s))(?p \<mapsto> MB_value_array ?arr)\<rparr>\<rparr>"
  have b: "2 * i + 1 < length arr" "2 * j + 1 < length arr" "2 * i < length arr" "2 * j < length arr" using a ij by auto
  have sw: "js_array_sort_swap i j s = Some ?s" using a b by (simp add: js_array_sort_swap_def Let_def)
  have t: "sort_tab ?s = Some ?arr"
    using a(1) by (auto simp: sort_tab_def value_array_of_def block_of_def Let_def split: if_splits)
  have at: "?arr ! (2 * q + 1) = (if q = i then arr ! (2 * j + 1) else if q = j then arr ! (2 * i + 1) else arr ! (2 * q + 1))"
    "?arr ! (2 * q) = (if q = i then arr ! (2 * j) else if q = j then arr ! (2 * i) else arr ! (2 * q))"
    if "q < n" for q
  proof -
    have "2 * q + 1 < length arr" "2 * q < length arr" using that a(2) by simp_all
    moreover have "2 * q \<noteq> 2 * i + 1" "2 * q \<noteq> 2 * j + 1" by presburger+
    ultimately show "?arr ! (2 * q + 1) = (if q = i then arr ! (2 * j + 1) else if q = j then arr ! (2 * i + 1) else arr ! (2 * q + 1))"
      "?arr ! (2 * q) = (if q = i then arr ! (2 * j) else if q = j then arr ! (2 * i) else arr ! (2 * q))"
      using b by (simp_all add: nth_exchange)
  qed
  have id: "ident (so_ctx ?s) = ident (so_ctx s)"
    using g a(1) by (auto simp: user_sort_def ident_stable_def sort_tab_def value_array_of_def block_of_def Let_def
        split: if_splits option.splits mblock.splits)
  have te: "table_entries ident n ?s = map (\<lambda>q. (ident (so_ctx s) (?arr ! (2 * q)), ?arr ! (2 * q + 1))) [0..<n]"
    unfolding table_entries_def t option.case id by (rule refl)
  have ts: "table_entries ident n s = map (\<lambda>q. (ident (so_ctx s) (arr ! (2 * q)), arr ! (2 * q + 1))) [0..<n]"
    unfolding table_entries_def a(1) option.case by (rule refl)
  have "table_entries ident n ?s = exchange (table_entries ident n s) i j"
    unfolding te ts
  proof (rule nth_equalityI)
    let ?l = "map (\<lambda>q. (ident (so_ctx s) (arr ! (2 * q)), arr ! (2 * q + 1))) [0..<n]"
    fix q assume "q < length (map (\<lambda>q. (ident (so_ctx s) (?arr ! (2 * q)), ?arr ! (2 * q + 1))) [0..<n])"
    then have q: "q < n" by simp
    have "exchange ?l i j ! q = (if q = i then ?l ! j else if q = j then ?l ! i else ?l ! q)"
      by (rule nth_exchange) (use ij q in simp_all)
    then show "map (\<lambda>q. (ident (so_ctx s) (?arr ! (2 * q)), ?arr ! (2 * q + 1))) [0..<n] ! q = exchange ?l i j ! q"
      using q ij by (simp only: nth_map length_upt nth_upt diff_zero add_0 at [OF q] split: if_split) simp
  qed simp
  then show ?thesis using sw t a(2) g by (auto simp: user_sort_def)
qed

interpretation sort_user: index_ops "js_array_sort_cmp env" js_array_sort_swap "table_entries ident n" "user_sort env k ident n"
  for env k ident n
proof
  have l: "user_sort env k ident n s \<Longrightarrow> length (table_entries ident n s) = n" for s by (auto simp: table_entries_def user_sort_def)
  show "\<And>i j s. user_sort env k ident n s \<Longrightarrow> i < length (table_entries ident n s) \<Longrightarrow> j < length (table_entries ident n s) \<Longrightarrow>
      \<exists>s' x. js_array_sort_cmp env i j s = Some (s', x) \<and> user_sort env k ident n s' \<and> table_entries ident n s' = table_entries ident n s"
    using user_cmp l by metis
  show "\<And>i j s. user_sort env k ident n s \<Longrightarrow> i < length (table_entries ident n s) \<Longrightarrow> j < length (table_entries ident n s) \<Longrightarrow>
      \<exists>s'. js_array_sort_swap i j s = Some s' \<and> user_sort env k ident n s' \<and> table_entries ident n s' = exchange (table_entries ident n s) i j"
    using user_swap l by metis
qed

text \<open>
  A comparison function that throws does not stop the sort: its exception value is returned as the
  result of the comparison and the flag stays clear.
\<close>

lemma sort_exception_lost:
  assumes "\<not> so_exception s" "so_pfunc s = Some pf" "tab_at s (2 * i) = Some v1" "tab_at s (2 * j) = Some v2" "v1 \<noteq> v2"
    "se_StackCheck env 4 (so_ctx s) = (so_ctx s, False)"
    "se_Call env [v2, v1, pf (so_ctx s), JS_UNDEFINED] (so_ctx s) = (ctx', JS_EXCEPTION)"
  shows "\<exists>x. js_array_sort_cmp env i j s = Some (s\<lparr>so_ctx := ctx'\<rparr>, x) \<and> x \<noteq> 0"
proof -
  have e: "JS_IsException JS_EXCEPTION" "sint (ucast JS_EXCEPTION :: s32) \<noteq> 0" by code_simp+
  have s: "s\<lparr>so_ctx := so_ctx s\<rparr> = s" by simp
  show ?thesis using assms e by (simp add: js_array_sort_cmp_def sort_user_cmp_def s)
qed

text \<open>
  C21: For every comparison function, consistent or not, throwing or not, the sort comes to an end, reads
  and writes only the entries of its table, and ends with a permutation of the pairs of a value and its
  old position: no value is lost or duplicated. The engine must keep the table while it runs the function
  (its values may move: \<open>ident\<close> is what a word stands for, and stays).
\<close>

theorem sort_any_comparator:
  assumes "sort_env_keeps (so_parr s) ident env" "ident_stable ident" "so_pfunc s = Some pf" "sort_tab s = Some arr"
    "2 * n \<le> length arr"
  shows "\<exists>s' arr'. rqsort_idx n (js_array_sort_cmp env) js_array_sort_swap s = Some s' \<and>
    sort_tab s' = Some arr' \<and> 2 * n \<le> length arr' \<and>
    mset (map (\<lambda>i. (ident (so_ctx s') (arr' ! (2 * i)), arr' ! (2 * i + 1))) [0..<n]) =
      mset (map (\<lambda>i. (ident (so_ctx s) (arr ! (2 * i)), arr ! (2 * i + 1))) [0..<n])"
proof -
  have g: "user_sort env (so_parr s) ident n s" using assms by (auto simp: user_sort_def)
  have "n \<le> length (table_entries ident n s)" using assms(4) by (simp add: table_entries_def)
  from sort_user.rqsort_idx_permutes [OF g this] obtain s' where
    s': "rqsort_idx n (js_array_sort_cmp env) js_array_sort_swap s = Some s'" "user_sort env (so_parr s) ident n s'"
    "mset (table_entries ident n s') = mset (table_entries ident n s)" by blast
  then show ?thesis using assms(4) by (auto simp: user_sort_def table_entries_def)
qed

definition stubborn_env :: sort_env where
  "stubborn_env = \<lparr>se_js = idle_env, se_ThrowTypeError = \<lambda>_ c. c, se_StackCheck = \<lambda>_ c. (c, False),
     se_Call = \<lambda>_ c. (c, JS_NewShortInt 1), se_ToNumber = \<lambda>_ c. (c, None), se_ToString = \<lambda>v c. (c, v)\<rparr>"

definition two_entries :: JSArraySortContext where
  "two_entries = \<lparr>so_ctx = blank_ctx\<lparr>heap := [64 \<mapsto> MB_value_array [JS_TRUE, JS_NewShortInt 0, JS_FALSE, JS_NewShortInt 1]],
     top_gc_ref := [ptr_val 64]\<rparr>, so_exception = False, so_parr = 0, so_pfunc = Some (\<lambda>_. JS_NULL)\<rparr>"

theorem sort_any_comparator_witness:
  "\<exists>s' arr'. rqsort_idx 2 (js_array_sort_cmp stubborn_env) js_array_sort_swap two_entries = Some s' \<and>
    sort_tab s' = Some arr' \<and>
    mset (map (\<lambda>i. (arr' ! (2 * i), arr' ! (2 * i + 1))) [0..<2]) = {#(JS_TRUE, JS_NewShortInt 0), (JS_FALSE, JS_NewShortInt 1)#}"
proof -
  have k: "sort_env_keeps (so_parr two_entries) (\<lambda>_ v. v) stubborn_env"
    by (simp add: sort_env_keeps_def tab_kept_def stubborn_env_def)
  have i: "ident_stable (\<lambda>_ v. v)" by (simp add: ident_stable_def)
  have t: "sort_tab two_entries = Some [JS_TRUE, JS_NewShortInt 0, JS_FALSE, JS_NewShortInt 1]"
    by (simp add: sort_tab_def two_entries_def value_array_of_def block_of_def val_ptr_ptr_val)
  have f: "so_pfunc two_entries = Some (\<lambda>_. JS_NULL)" by (simp add: two_entries_def)
  have "[0..<2] = [0, 1 :: nat]" by (simp add: upt_conv_Cons)
  then show ?thesis using sort_any_comparator [OF k i f t, of 2] by auto
qed

text \<open>
  C20: \<open>Array.prototype.sort\<close> without a comparison function, on an array of strings and undefined
  values: the array afterwards holds the same strings, in the order of their texts and, for equal
  texts, in the order they had; then the undefined values; and it answers the array. (The table fits
  into the free memory, and every entry that is not undefined is a string.)
\<close>

theorem array_sort_strings:
  assumes "js_get_object_class ctx this JS_CLASS_ARRAY = Some ob" "obj_u ob = U_array tabv al"
    "value_array_of ctx tabv = Some arr" "unat al = len" "string_array ctx arr texts len" "tabv \<noteq> JS_NULL"
    "js_alloc_value_array (se_js env) ctx 0 (len * 2) = (ctx\<lparr>heap := (heap ctx)(p \<mapsto> b), heap_free := f\<rparr>, Some p)"
    "heap ctx p = None" "p < 2 ^ 64"
  shows "\<exists>ctx' is. js_array_sort env (\<lambda>_. this) (\<lambda>_. JS_UNDEFINED) ctx = Some (ctx', this) \<and>
    value_array_of ctx' tabv = Some (map (\<lambda>i. arr ! i) is @ replicate (len - length is) JS_UNDEFINED @ drop len arr) \<and>
    distinct is \<and> set is = defined_positions arr len \<and> sorted_wrt (before texts) is"
  by (rule js_array_sort_strings [OF assms])

definition letters_ctx :: JSContext where
  "letters_ctx = blank_ctx\<lparr>heap_base := 64, heap_free := 256, stack_bottom := 4096, min_free_size := 0,
     heap := [64 \<mapsto> MB_object \<lparr>class_id = JS_CLASS_ARRAY, extra_size = 2, obj_proto = JS_NULL, obj_props = JS_NULL,
                              obj_u = U_array (ptr_val 128) 3\<rparr>,
              128 \<mapsto> MB_value_array [JS_NewStringChar 0x62, JS_UNDEFINED, JS_NewStringChar 0x61]]\<rparr>"

theorem array_sort_strings_witness:
  "\<exists>ctx' is. js_array_sort stubborn_env (\<lambda>_. ptr_val 64) (\<lambda>_. JS_UNDEFINED) letters_ctx = Some (ctx', ptr_val 64) \<and>
    set is = {0, 2} \<and> sorted_wrt (before (\<lambda>i. if i = 0 then [0x62] else [0x61])) is"
proof -
  let ?arr = "[JS_NewStringChar 0x62, JS_UNDEFINED, JS_NewStringChar 0x61]"
  let ?texts = "\<lambda>i :: nat. if i = 0 then [0x62] else [0x61 :: u32]"
  let ?ob = "\<lparr>class_id = JS_CLASS_ARRAY, extra_size = 2, obj_proto = JS_NULL, obj_props = JS_NULL,
      obj_u = U_array (ptr_val 128) 3\<rparr>"
  have p: "val_ptr (ptr_val 64) = 64" "val_ptr (ptr_val 128) = 128" "JS_IsPtr (ptr_val 64)" "ptr_val 128 \<noteq> JS_NULL"
    by code_simp+
  have c: "js_get_object_class letters_ctx (ptr_val 64) JS_CLASS_ARRAY = Some ?ob"
    by (simp add: js_get_object_class_def the_object_def block_of_def p letters_ctx_def)
  have v: "value_array_of letters_ctx (ptr_val 128) = Some ?arr"
    by (simp add: value_array_of_def block_of_def p letters_ctx_def)
  have t: "\<not> JS_IsPtr (JS_NewStringChar 0x62)" "\<not> JS_IsPtr (JS_NewStringChar 0x61)"
      "JS_VALUE_GET_SPECIAL_TAG (JS_NewStringChar 0x62) = JS_TAG_STRING_CHAR"
      "JS_VALUE_GET_SPECIAL_TAG (JS_NewStringChar 0x61) = JS_TAG_STRING_CHAR"
    by code_simp+
  have i: "JS_IsString letters_ctx (JS_NewStringChar 0x62)" "JS_IsString letters_ctx (JS_NewStringChar 0x61)"
    using t by (simp_all add: JS_IsString_def)
  have u: "\<not> JS_IsUndefined (JS_NewStringChar 0x62)" "\<not> JS_IsUndefined (JS_NewStringChar 0x61)" "JS_IsUndefined JS_UNDEFINED"
    by code_simp+
  have three: "k < 3 \<longleftrightarrow> k = 0 \<or> k = 1 \<or> k = 2" for k :: nat by auto
  have s: "string_array letters_ctx ?arr ?texts 3"
    using i u has_text_char [of "0x62" letters_ctx] has_text_char [of "0x61" letters_ctx]
    by (auto simp: string_array_def three)
  have l: "heap_free letters_ctx = 256" "stack_bottom letters_ctx = 4096" "\<not> free_mem_short letters_ctx 4096 56"
    by (simp_all add: letters_ctx_def free_mem_short_def)
  have a: "js_alloc_value_array (se_js stubborn_env) letters_ctx 0 (3 * 2) = (letters_ctx\<lparr>heap := (heap letters_ctx)
      (256 \<mapsto> MB_value_array (replicate 6 JS_UNDEFINED)), heap_free := 312\<rparr>, Some 256)"
    using l by (simp add: js_alloc_value_array_def JS_VALUE_ARRAY_SIZE_MAX_def js_malloc_def check_free_mem_def JSW_def)
  have d: "defined_positions ?arr 3 = {0, 2}"
    using u by (auto simp: defined_positions_def three)
  have h: "heap letters_ctx 256 = None" by (simp add: letters_ctx_def)
  show ?thesis
    using array_sort_strings [OF c _ v _ s p(4) a h, of 3] d by simp blast
qed

end
