(* ===== verification/Bytecode.thy ===== *)
theory Bytecode imports Cutils begin

text \<open>
  The instruction set of the engine (\<open>native/mquickjs/mquickjs_opcode.h\<close>): the operand formats, and for
  every opcode its length, the values it pops and pushes, and its format. An opcode is its place in
  \<open>opcode_info\<close>.
\<close>

unbundle bit_operations_syntax

section \<open>The table of opcodes\<close>

datatype OPCodeFormat =
    OP_FMT_none | OP_FMT_none_int | OP_FMT_none_loc | OP_FMT_none_arg | OP_FMT_none_var_ref
  | OP_FMT_u8 | OP_FMT_i8 | OP_FMT_loc8 | OP_FMT_const8 | OP_FMT_label8
  | OP_FMT_u16 | OP_FMT_i16 | OP_FMT_label16 | OP_FMT_npop | OP_FMT_npopx
  | OP_FMT_loc | OP_FMT_arg | OP_FMT_var_ref | OP_FMT_u32 | OP_FMT_i32
  | OP_FMT_const16 | OP_FMT_label | OP_FMT_value

record JSOpCode =
  op_size :: nat
  n_pop :: nat
  n_push :: nat
  op_fmt :: OPCodeFormat

definition DEF :: "nat \<Rightarrow> nat \<Rightarrow> nat \<Rightarrow> OPCodeFormat \<Rightarrow> JSOpCode" where
  "DEF sz npop npush f = \<lparr>op_size = sz, n_pop = npop, n_push = npush, op_fmt = f\<rparr>"

definition opcode_info :: "JSOpCode list" where
  "opcode_info = [
     DEF 1 0 0 OP_FMT_none, DEF 5 0 1 OP_FMT_value, DEF 3 0 1 OP_FMT_const16,
     DEF 3 0 1 OP_FMT_const16, DEF 1 0 1 OP_FMT_none, DEF 1 0 1 OP_FMT_none,
     DEF 1 0 1 OP_FMT_none, DEF 1 0 1 OP_FMT_none, DEF 1 0 1 OP_FMT_none,
     DEF 3 0 1 OP_FMT_u16, DEF 1 0 1 OP_FMT_none, DEF 1 0 1 OP_FMT_none,
     DEF 1 0 1 OP_FMT_none, DEF 1 1 0 OP_FMT_none, DEF 1 2 1 OP_FMT_none,
     DEF 1 1 2 OP_FMT_none, DEF 1 2 3 OP_FMT_none, DEF 1 2 4 OP_FMT_none,
     DEF 1 2 3 OP_FMT_none, DEF 1 3 4 OP_FMT_none, DEF 1 3 3 OP_FMT_none,
     DEF 1 4 4 OP_FMT_none, DEF 1 2 2 OP_FMT_none, DEF 1 3 3 OP_FMT_none,
     DEF 3 1 1 OP_FMT_npop, DEF 3 1 1 OP_FMT_npop, DEF 3 2 1 OP_FMT_npop,
     DEF 3 0 1 OP_FMT_npop, DEF 1 1 0 OP_FMT_none, DEF 1 0 0 OP_FMT_none,
     DEF 1 1 0 OP_FMT_none, DEF 1 2 1 OP_FMT_none, DEF 3 1 1 OP_FMT_const16,
     DEF 3 1 2 OP_FMT_const16, DEF 3 2 0 OP_FMT_const16, DEF 1 2 1 OP_FMT_none,
     DEF 1 2 2 OP_FMT_none, DEF 1 3 0 OP_FMT_none, DEF 1 1 1 OP_FMT_none,
     DEF 1 1 2 OP_FMT_none, DEF 3 2 1 OP_FMT_const16, DEF 3 2 1 OP_FMT_const16,
     DEF 3 2 1 OP_FMT_const16, DEF 1 2 1 OP_FMT_none, DEF 3 0 1 OP_FMT_loc,
     DEF 3 1 0 OP_FMT_loc, DEF 3 0 1 OP_FMT_arg, DEF 3 1 0 OP_FMT_arg,
     DEF 3 0 1 OP_FMT_var_ref, DEF 3 1 0 OP_FMT_var_ref, DEF 3 0 1 OP_FMT_var_ref,
     DEF 3 1 0 OP_FMT_var_ref, DEF 5 1 0 OP_FMT_label, DEF 5 1 0 OP_FMT_label,
     DEF 5 0 0 OP_FMT_label, DEF 5 0 1 OP_FMT_label, DEF 5 0 0 OP_FMT_label,
     DEF 1 1 0 OP_FMT_none, DEF 1 1 1 OP_FMT_none, DEF 1 1 1 OP_FMT_none,
     DEF 1 1 3 OP_FMT_none, DEF 1 1 1 OP_FMT_none, DEF 1 1 1 OP_FMT_none,
     DEF 1 1 1 OP_FMT_none, DEF 1 1 1 OP_FMT_none, DEF 1 1 2 OP_FMT_none,
     DEF 1 1 2 OP_FMT_none, DEF 1 1 1 OP_FMT_none, DEF 1 1 1 OP_FMT_none,
     DEF 1 1 1 OP_FMT_none, DEF 1 2 1 OP_FMT_none, DEF 1 2 1 OP_FMT_none,
     DEF 1 2 1 OP_FMT_none, DEF 1 2 1 OP_FMT_none, DEF 1 2 1 OP_FMT_none,
     DEF 1 2 1 OP_FMT_none, DEF 1 2 1 OP_FMT_none, DEF 1 2 1 OP_FMT_none,
     DEF 1 2 1 OP_FMT_none, DEF 1 2 1 OP_FMT_none, DEF 1 2 1 OP_FMT_none,
     DEF 1 2 1 OP_FMT_none, DEF 1 2 1 OP_FMT_none, DEF 1 2 1 OP_FMT_none,
     DEF 1 2 1 OP_FMT_none, DEF 1 2 1 OP_FMT_none, DEF 1 2 1 OP_FMT_none,
     DEF 1 2 1 OP_FMT_none, DEF 1 2 1 OP_FMT_none, DEF 1 2 1 OP_FMT_none,
     DEF 1 2 1 OP_FMT_none, DEF 1 2 1 OP_FMT_none, DEF 1 2 1 OP_FMT_none,
     DEF 1 0 0 OP_FMT_none, DEF 1 0 1 OP_FMT_none_int, DEF 1 0 1 OP_FMT_none_int,
     DEF 1 0 1 OP_FMT_none_int, DEF 1 0 1 OP_FMT_none_int, DEF 1 0 1 OP_FMT_none_int,
     DEF 1 0 1 OP_FMT_none_int, DEF 1 0 1 OP_FMT_none_int, DEF 1 0 1 OP_FMT_none_int,
     DEF 1 0 1 OP_FMT_none_int, DEF 2 0 1 OP_FMT_i8, DEF 3 0 1 OP_FMT_i16,
     DEF 2 0 1 OP_FMT_const8, DEF 2 0 1 OP_FMT_const8, DEF 1 0 1 OP_FMT_none,
     DEF 2 0 1 OP_FMT_loc8, DEF 2 1 0 OP_FMT_loc8, DEF 1 0 1 OP_FMT_none_loc,
     DEF 1 0 1 OP_FMT_none_loc, DEF 1 0 1 OP_FMT_none_loc, DEF 1 0 1 OP_FMT_none_loc,
     DEF 1 1 0 OP_FMT_none_loc, DEF 1 1 0 OP_FMT_none_loc, DEF 1 1 0 OP_FMT_none_loc,
     DEF 1 1 0 OP_FMT_none_loc, DEF 1 0 1 OP_FMT_none_arg, DEF 1 0 1 OP_FMT_none_arg,
     DEF 1 0 1 OP_FMT_none_arg, DEF 1 0 1 OP_FMT_none_arg, DEF 1 1 0 OP_FMT_none_arg,
     DEF 1 1 0 OP_FMT_none_arg, DEF 1 1 0 OP_FMT_none_arg, DEF 1 1 0 OP_FMT_none_arg]"

definition OP_COUNT :: nat where "OP_COUNT = 126"

definition OP_invalid :: u8 where "OP_invalid = 0"
definition OP_push_value :: u8 where "OP_push_value = 1"
definition OP_push_const :: u8 where "OP_push_const = 2"
definition OP_fclosure :: u8 where "OP_fclosure = 3"
definition OP_undefined :: u8 where "OP_undefined = 4"
definition OP_drop :: u8 where "OP_drop = 13"
definition OP_return :: u8 where "OP_return = 28"
definition OP_return_undef :: u8 where "OP_return_undef = 29"
definition OP_throw :: u8 where "OP_throw = 30"
definition OP_get_loc :: u8 where "OP_get_loc = 44"
definition OP_put_loc :: u8 where "OP_put_loc = 45"
definition OP_get_arg :: u8 where "OP_get_arg = 46"
definition OP_put_arg :: u8 where "OP_put_arg = 47"
definition OP_put_var_ref_nocheck :: u8 where "OP_put_var_ref_nocheck = 51"
definition OP_if_false :: u8 where "OP_if_false = 52"
definition OP_if_true :: u8 where "OP_if_true = 53"
definition OP_goto :: u8 where "OP_goto = 54"
definition OP_catch :: u8 where "OP_catch = 55"
definition OP_gosub :: u8 where "OP_gosub = 56"
definition OP_ret :: u8 where "OP_ret = 57"
definition OP_push_0 :: u8 where "OP_push_0 = 95"
definition OP_push_i8 :: u8 where "OP_push_i8 = 103"
definition OP_push_i16 :: u8 where "OP_push_i16 = 104"
definition OP_get_loc8 :: u8 where "OP_get_loc8 = 108"
definition OP_put_loc8 :: u8 where "OP_put_loc8 = 109"
definition OP_get_loc0 :: u8 where "OP_get_loc0 = 110"
definition OP_put_loc0 :: u8 where "OP_put_loc0 = 114"
definition OP_get_arg0 :: u8 where "OP_get_arg0 = 118"
definition OP_put_arg0 :: u8 where "OP_put_arg0 = 122"

section \<open>Facts about the table\<close>

text \<open>The length of an instruction is its opcode and the operands its format has.\<close>

definition fmt_size :: "OPCodeFormat \<Rightarrow> nat" where
  "fmt_size f =
     (if f \<in> {OP_FMT_u8, OP_FMT_i8, OP_FMT_loc8, OP_FMT_const8, OP_FMT_label8} then 1
      else if f \<in> {OP_FMT_u16, OP_FMT_i16, OP_FMT_label16, OP_FMT_npop, OP_FMT_loc, OP_FMT_arg,
                   OP_FMT_var_ref, OP_FMT_const16} then 2
      else if f \<in> {OP_FMT_u32, OP_FMT_i32, OP_FMT_label, OP_FMT_value} then 4 else 0)"

lemma opcode_count: "length opcode_info = OP_COUNT"
  by (simp add: opcode_info_def OP_COUNT_def)

lemma opcode_table:
  "list_all (\<lambda>oi. op_size oi = 1 + fmt_size (op_fmt oi) \<and> n_push oi \<le> 4 \<and> n_pop oi \<le> 4) opcode_info"
  by code_simp

lemma opcode_sizes: "oi \<in> set opcode_info \<Longrightarrow> op_size oi = 1 + fmt_size (op_fmt oi)"
  using opcode_table by (simp add: list_all_iff)

lemma fmt_size_le: "fmt_size f \<le> 4"
  by (simp add: fmt_size_def)

lemma opcode_size_bounds: "op < OP_COUNT \<Longrightarrow> 1 \<le> op_size (opcode_info ! op) \<and> op_size (opcode_info ! op) \<le> 5"
  using opcode_sizes [of "opcode_info ! op"] fmt_size_le [of "op_fmt (opcode_info ! op)"]
  by (simp add: opcode_count [symmetric])

lemma opcode_pushes: "oi \<in> set opcode_info \<Longrightarrow> n_push oi \<le> 4 \<and> n_pop oi \<le> 4"
  using opcode_table by (simp add: list_all_iff)

lemmas opcode_defs = OP_invalid_def OP_push_value_def OP_push_const_def OP_fclosure_def OP_undefined_def
  OP_drop_def OP_return_def OP_return_undef_def OP_throw_def OP_get_loc_def OP_put_loc_def OP_get_arg_def
  OP_put_arg_def OP_put_var_ref_nocheck_def OP_if_false_def OP_if_true_def OP_goto_def OP_catch_def
  OP_gosub_def OP_ret_def OP_push_0_def OP_push_i8_def OP_push_i16_def OP_get_loc8_def OP_put_loc8_def
  OP_get_loc0_def OP_put_loc0_def OP_get_arg0_def OP_put_arg0_def

end
