(* ===== verification/JsStack.thy ===== *)
theory JsStack imports Bytecode JsValue begin

text \<open>
  The stack size of a function (\<open>native/mquickjs/mquickjs.c\<close>, \<open>compute_stack_size\<close>): an exploration of
  the byte code that follows every jump, with the depth of the stack at each instruction. The table
  \<open>explore_tab\<close> holds one byte per instruction, 0 for an instruction not seen and otherwise 1 plus the
  depth modulo 255; the instructions still to visit are on the parser's stack, two words each.

  Pushing on that stack may collect garbage, which moves the byte code and the table. A pointer to
  them is the number of collections that had moved them when it was read, and its use after another
  one is a memory error, \<open>None\<close>. An error the code raises is \<open>Inl\<close>.
\<close>

unbundle bit_operations_syntax

section \<open>The exploration\<close>

datatype push_outcome = Push_room | Push_moved | Push_full

datatype stack_error =
    Buffer_overflow nat
  | Inconsistent_stack nat nat nat
  | Invalid_opcode nat
  | Stack_underflow nat
  | Stack_overflow nat
  | Parse_stack_overflow
  | Out_of_memory

record stack_state =
  explore_tab :: "u8 list"
  parse_stack :: "JSValue list"
  func_stack_size :: u16
  moves :: nat
  pushes :: nat

definition JS_MAX_FUNC_STACK_SIZE :: int where "JS_MAX_FUNC_STACK_SIZE = 65535"

text \<open>The outcome of the space check of each push is a parameter, counted by \<open>pushes\<close>.\<close>

definition js_parse_push_val :: "(nat \<Rightarrow> push_outcome) \<Rightarrow> JSValue \<Rightarrow> stack_state \<Rightarrow> stack_error + stack_state" where
  "js_parse_push_val env v st =
     (let st1 = st\<lparr>parse_stack := v # parse_stack st, pushes := pushes st + 1\<rparr> in
      case env (pushes st) of
        Push_room \<Rightarrow> Inr st1
      | Push_moved \<Rightarrow> Inr (st1\<lparr>moves := moves st + 1\<rparr>)
      | Push_full \<Rightarrow> Inl Parse_stack_overflow)"

definition compute_stack_size_push ::
  "u8 list \<Rightarrow> (nat \<Rightarrow> push_outcome) \<Rightarrow> nat \<Rightarrow> nat \<Rightarrow> u32 \<Rightarrow> int \<Rightarrow> stack_state \<Rightarrow> (stack_error + stack_state) option" where
  "compute_stack_size_push code env arr tab pos stack_len st =
     (if arr \<noteq> moves st then None
      else if unat pos \<ge> length code then Some (Inl (Buffer_overflow (unat pos)))
      else let short_stack_len = 1 + stack_len mod 2 ^ 32 mod 255 in
        if tab \<noteq> moves st then None
        else if explore_tab st ! unat pos \<noteq> 0 then
          if uint (explore_tab st ! unat pos) \<noteq> short_stack_len then
            Some (Inl (Inconsistent_stack (unat (explore_tab st ! unat pos) - 1)
              (nat (short_stack_len - 1)) (unat pos)))
          else Some (Inr st)
        else
          let st1 = st\<lparr>explore_tab := (explore_tab st)[unat pos := word_of_int short_stack_len]\<rparr> in
          case js_parse_push_val env (JS_NewShortInt pos) st1 of
            Inl e \<Rightarrow> Some (Inl e)
          | Inr st2 \<Rightarrow> Some (js_parse_push_val env (JS_NewShortInt (word_of_int stack_len)) st2))"

text \<open>What follows the switch: the push for the next instruction, after a push for the target of a branch.\<close>

definition push_both ::
  "u8 list \<Rightarrow> (nat \<Rightarrow> push_outcome) \<Rightarrow> nat \<Rightarrow> u32 \<Rightarrow> int \<Rightarrow> u32 \<Rightarrow> int \<Rightarrow> stack_state \<Rightarrow> (stack_error + stack_state) option" where
  "push_both code env here pos1 len1 pos stack_len st =
     (case compute_stack_size_push code env here here pos1 len1 st of
        Some (Inr st1) \<Rightarrow> compute_stack_size_push code env here here pos stack_len st1
      | r \<Rightarrow> r)"

text \<open>The operands: a read outside the byte code is a memory error.\<close>

definition read_u16 :: "u8 list \<Rightarrow> nat \<Rightarrow> u32 option" where
  "read_u16 code i = (if i + 2 \<le> length code then Some (get_u16 code i) else None)"

definition read_u32 :: "u8 list \<Rightarrow> nat \<Rightarrow> u32 option" where
  "read_u32 code i = (if i + 4 \<le> length code then Some (get_u32 code i) else None)"

text \<open>
  The checks of the instruction at \<open>pos0\<close>, with the depth of the stack after it. \<open>None\<close> is a read
  outside the byte code or the table of the opcodes.
\<close>

definition check_op :: "u8 list \<Rightarrow> u32 \<Rightarrow> int \<Rightarrow> u16 \<Rightarrow> (stack_error + int) option" where
  "check_op code pos0 stack_len max_len =
     (if unat pos0 \<ge> length code then None
      else let op = code ! unat pos0; pos = pos0 + 1 in
      if op = OP_invalid \<or> unat op \<ge> OP_COUNT then Some (Inl (Invalid_opcode (unat (pos - 1))))
      else if unat op \<ge> length opcode_info then None
      else let oi = opcode_info ! unat op in
      if unat (pos + of_nat (op_size oi) - 1) > length code then Some (Inl (Buffer_overflow (unat (pos - 1))))
      else case (if op_fmt oi = OP_FMT_npop then read_u16 code (unat pos) else Some 0) of
        None \<Rightarrow> None
      | Some operand \<Rightarrow>
          let npop = int (n_pop oi) + uint operand in
          if stack_len < npop then Some (Inl (Stack_underflow (unat (pos - 1))))
          else let len1 = stack_len + (int (n_push oi) - npop) in
          if len1 > uint max_len \<and> len1 > JS_MAX_FUNC_STACK_SIZE then Some (Inl (Stack_overflow (unat (pos - 1))))
          else Some (Inr len1))"

text \<open>The switch: the instructions that may come next. \<open>here\<close> is the value of both pointers.\<close>

definition follow_op ::
  "u8 list \<Rightarrow> (nat \<Rightarrow> push_outcome) \<Rightarrow> nat \<Rightarrow> u8 \<Rightarrow> u32 \<Rightarrow> int \<Rightarrow> stack_state \<Rightarrow> (stack_error + stack_state) option" where
  "follow_op code env here op pos stack_len st =
     (let next = pos + of_nat (op_size (opcode_info ! unat op)) - 1 in
      if op = OP_return \<or> op = OP_return_undef \<or> op = OP_throw \<or> op = OP_ret then Some (Inr st)
      else if op = OP_goto \<or> op = OP_if_true \<or> op = OP_if_false \<or> op = OP_gosub then
        (case read_u32 code (unat pos) of
           None \<Rightarrow> None
         | Some off \<Rightarrow>
             let target = pos + off in
             if op = OP_goto then compute_stack_size_push code env here here target stack_len st
             else if op = OP_gosub then push_both code env here target (stack_len + 1) next stack_len st
             else push_both code env here target stack_len next stack_len st)
      else compute_stack_size_push code env here here next stack_len st)"

text \<open>One round of the loop: the instruction on top of the parser's stack.\<close>

definition raise_size :: "int \<Rightarrow> stack_state \<Rightarrow> stack_state" where
  "raise_size n st = (if n > uint (func_stack_size st) then st\<lparr>func_stack_size := word_of_int n\<rparr> else st)"

definition explore_op :: "u8 list \<Rightarrow> (nat \<Rightarrow> push_outcome) \<Rightarrow> stack_state \<Rightarrow> (stack_error + stack_state) option" where
  "explore_op code env st =
     (case parse_stack st of
        v1 # v2 # rest \<Rightarrow>
          let stack_len = sint (JS_VALUE_GET_INT v1); pos0 = JS_VALUE_GET_INT v2 in
          (case check_op code pos0 stack_len (func_stack_size st) of
              None \<Rightarrow> None
            | Some (Inl e) \<Rightarrow> Some (Inl e)
            | Some (Inr len1) \<Rightarrow>
                follow_op code env (moves st) (code ! unat pos0) (pos0 + 1) len1
                  (raise_size len1 (st\<lparr>parse_stack := rest\<rparr>)))
      | _ \<Rightarrow> None)"

text \<open>Every push marks an instruction, so there are at most as many rounds as instructions.\<close>

definition unseen :: "stack_state \<Rightarrow> nat" where
  "unseen st = length (filter (\<lambda>b. b = 0) (explore_tab st))"

definition rounds_left :: "stack_state \<Rightarrow> nat" where
  "rounds_left st = 3 * unseen st + length (parse_stack st)"

lemma push_val_state:
  "js_parse_push_val env v st = Inr st' \<Longrightarrow>
     explore_tab st' = explore_tab st \<and> parse_stack st' = v # parse_stack st \<and>
     func_stack_size st' = func_stack_size st"
  by (auto simp: js_parse_push_val_def Let_def split: push_outcome.splits)

lemma filter_update:
  "i < length xs \<Longrightarrow> P (xs ! i) \<Longrightarrow> \<not> P y \<Longrightarrow> length (filter P (xs[i := y])) < length (filter P xs)"
  by (induction xs arbitrary: i) (auto split: nat.splits)

lemma uint_short_len: "uint (word_of_int (1 + n mod 2 ^ 32 mod 255) :: u8) = 1 + n mod 2 ^ 32 mod 255"
proof -
  have "1 + n mod 2 ^ 32 mod 255 < 2 ^ 8" using pos_mod_bound [of 255 "n mod 2 ^ 32"] by simp
  then show ?thesis unfolding uint_word_of_int by (intro mod_pos_pos_trivial) simp_all
qed

lemma short_len_nonzero: "(word_of_int (1 + n mod 2 ^ 32 mod 255) :: u8) \<noteq> 0"
proof
  assume z: "(word_of_int (1 + n mod 2 ^ 32 mod 255) :: u8) = 0"
  have "0 \<le> n mod 2 ^ 32 mod 255" by simp
  then show False using uint_short_len [of n] unfolding z by simp
qed

lemma push_rounds:
  assumes "compute_stack_size_push code env a t pos n st = Some (Inr st')"
    "length (explore_tab st) = length code"
  shows "rounds_left st' \<le> rounds_left st \<and> length (explore_tab st') = length code"
proof (cases "explore_tab st ! unat pos \<noteq> 0")
  case True
  then have "st' = st"
    using assms(1) by (auto simp: compute_stack_size_push_def Let_def split: if_splits)
  then show ?thesis using assms(2) by simp
next
  case False
  let ?x = "(explore_tab st)[unat pos := word_of_int (1 + n mod 2 ^ 32 mod 255)]"
  from False assms(1) obtain st2 where st2:
    "js_parse_push_val env (JS_NewShortInt pos) (st\<lparr>explore_tab := ?x\<rparr>) = Inr st2"
    "js_parse_push_val env (JS_NewShortInt (word_of_int n)) st2 = Inr st'" and
    lt: "unat pos < length code"
    unfolding compute_stack_size_push_def Let_def by (auto split: if_splits sum.splits)
  have "length (filter (\<lambda>b. b = 0) ?x) < length (filter (\<lambda>b. b = 0) (explore_tab st))"
    by (rule filter_update) (use False lt assms(2) short_len_nonzero in auto)
  moreover have "explore_tab st' = ?x" "length (parse_stack st') = length (parse_stack st) + 2"
    using push_val_state [OF st2(1)] push_val_state [OF st2(2)] by auto
  ultimately show ?thesis using assms(2) by (simp add: rounds_left_def unseen_def)
qed

lemma push_both_rounds:
  assumes "push_both code env a pos1 n1 pos n st = Some (Inr st')" "length (explore_tab st) = length code"
  shows "rounds_left st' \<le> rounds_left st \<and> length (explore_tab st') = length code"
proof -
  from assms(1) obtain st1 where st1: "compute_stack_size_push code env a a pos1 n1 st = Some (Inr st1)"
    "compute_stack_size_push code env a a pos n st1 = Some (Inr st')"
    by (auto simp: push_both_def split: option.splits sum.splits)
  from push_rounds [OF st1(1) assms(2)] push_rounds [OF st1(2)] show ?thesis by auto
qed

lemma follow_op_rounds:
  assumes "follow_op code env a op pos n st = Some (Inr st')" "length (explore_tab st) = length code"
  shows "rounds_left st' \<le> rounds_left st \<and> length (explore_tab st') = length code"
  using assms(1) push_rounds [OF _ assms(2)] push_both_rounds [OF _ assms(2)] assms(2)
  unfolding follow_op_def Let_def by (auto split: if_splits option.splits)

lemma raise_size_sel [simp]:
  "explore_tab (raise_size n st) = explore_tab st" "parse_stack (raise_size n st) = parse_stack st"
  "moves (raise_size n st) = moves st" "pushes (raise_size n st) = pushes st"
  by (simp_all add: raise_size_def)

lemma explore_op_rounds:
  assumes "explore_op code env st = Some (Inr st')" "length (explore_tab st) = length code"
  shows "rounds_left st' < rounds_left st \<and> length (explore_tab st') = length code"
proof -
  from assms(1) obtain v1 v2 rest p n where vs: "parse_stack st = v1 # v2 # rest" and
    f: "follow_op code env (moves st) (code ! p) (JS_VALUE_GET_INT v2 + 1) n
          (raise_size n (st\<lparr>parse_stack := rest\<rparr>)) = Some (Inr st')"
    by (auto simp: explore_op_def Let_def split: list.splits option.splits sum.splits)
  from follow_op_rounds [OF f] assms(2) show ?thesis
    by (simp add: rounds_left_def unseen_def vs)
qed

text \<open>The table has one entry for each byte of the code; without that the loop is not run.\<close>

function explore_loop :: "u8 list \<Rightarrow> (nat \<Rightarrow> push_outcome) \<Rightarrow> stack_state \<Rightarrow> (stack_error + stack_state) option" where
  "explore_loop code env st =
     (if length (explore_tab st) \<noteq> length code then None
      else if parse_stack st = [] then Some (Inr st)
      else case explore_op code env st of
          Some (Inr st1) \<Rightarrow> explore_loop code env st1
        | r \<Rightarrow> r)"
  by pat_completeness auto
termination
  by (relation "measure (\<lambda>(code, env, st). rounds_left st)") (auto dest: explore_op_rounds)

declare explore_loop.simps [simp del]

text \<open>\<open>room\<close> says whether the table can be allocated. The result is the \<open>stack_size\<close> of the function.\<close>

definition compute_stack_size :: "u8 list \<Rightarrow> bool \<Rightarrow> (nat \<Rightarrow> push_outcome) \<Rightarrow> (stack_error + u16) option" where
  "compute_stack_size code room env =
     (if \<not> room then Some (Inl Out_of_memory)
      else let st = \<lparr>explore_tab = replicate (length code) 0, parse_stack = [], func_stack_size = 0,
                     moves = 0, pushes = 0\<rparr> in
        case compute_stack_size_push code env 0 0 0 0 st of
          Some (Inr st1) \<Rightarrow>
            (case explore_loop code env st1 of
               Some (Inr st2) \<Rightarrow> Some (Inr (func_stack_size st2))
             | Some (Inl e) \<Rightarrow> Some (Inl e)
             | None \<Rightarrow> None)
        | Some (Inl e) \<Rightarrow> Some (Inl e)
        | None \<Rightarrow> None)"

section \<open>What the stack size bounds\<close>

text \<open>
  The steps of \<open>JS_Call\<close> within one function, on the place of the instruction and the number of values
  on the stack: the next instruction (after a call of a \<open>finally\<close> block, its return), the target of a
  jump, and the entry of a \<open>finally\<close> block with the return address pushed.
\<close>

definition pops_at :: "u8 list \<Rightarrow> nat \<Rightarrow> nat" where
  "pops_at code p = n_pop (opcode_info ! unat (code ! p)) +
     (if op_fmt (opcode_info ! unat (code ! p)) = OP_FMT_npop then unat (get_u16 code (p + 1)) else 0)"

definition after_at :: "u8 list \<Rightarrow> nat \<Rightarrow> nat \<Rightarrow> nat" where
  "after_at code p d = d - pops_at code p + n_push (opcode_info ! unat (code ! p))"

definition next_at :: "u8 list \<Rightarrow> nat \<Rightarrow> nat" where
  "next_at code p = p + op_size (opcode_info ! unat (code ! p))"

definition is_target :: "u8 list \<Rightarrow> nat \<Rightarrow> nat \<Rightarrow> bool" where
  "is_target code p q \<longleftrightarrow> int q = int p + 1 + get_i32 code (p + 1)"

inductive frame_step :: "u8 list \<Rightarrow> nat \<times> nat \<Rightarrow> nat \<times> nat \<Rightarrow> bool" for code where
  fall: "code ! p \<notin> {OP_return, OP_return_undef, OP_throw, OP_ret, OP_goto} \<Longrightarrow>
    frame_step code (p, d) (next_at code p, after_at code p d)"
| jump: "code ! p \<in> {OP_goto, OP_if_true, OP_if_false} \<Longrightarrow> is_target code p q \<Longrightarrow>
    frame_step code (p, d) (q, after_at code p d)"
| gosub: "code ! p = OP_gosub \<Longrightarrow> is_target code p q \<Longrightarrow>
    frame_step code (p, d) (q, after_at code p d + 1)"

inductive_cases frame_stepE: "frame_step code (p, d) (q, e)"

text \<open>An instruction that is inside the code and can run on a stack of \<open>d\<close> values.\<close>

definition runs_at :: "u8 list \<Rightarrow> nat \<Rightarrow> nat \<Rightarrow> nat \<Rightarrow> bool" where
  "runs_at code n p d \<longleftrightarrow> p < length code \<and> code ! p \<noteq> OP_invalid \<and> unat (code ! p) < OP_COUNT \<and>
     next_at code p \<le> length code \<and> pops_at code p \<le> d \<and> after_at code p d \<le> n"

text \<open>A jump that does not leave the code at its start.\<close>

definition lands_at :: "u8 list \<Rightarrow> nat \<Rightarrow> bool" where
  "lands_at code p \<longleftrightarrow> (code ! p \<in> {OP_goto, OP_if_true, OP_if_false, OP_gosub} \<longrightarrow>
     0 \<le> int p + 1 + get_i32 code (p + 1))"

definition marked :: "u8 list \<Rightarrow> nat \<Rightarrow> nat \<Rightarrow> bool" where
  "marked tab p d \<longleftrightarrow> p < length tab \<and> uint (tab ! p) = 1 + int d mod 255"

definition done_at :: "u8 list \<Rightarrow> u8 list \<Rightarrow> nat \<Rightarrow> nat \<Rightarrow> nat \<Rightarrow> bool" where
  "done_at code tab n p d \<longleftrightarrow> runs_at code n p d \<and> lands_at code p \<and> (\<forall>q e. frame_step code (p, d) (q, e) \<longrightarrow> marked tab q e)"

definition enc :: "nat \<times> nat \<Rightarrow> JSValue list" where
  "enc e = [JS_NewShortInt (word_of_int (int (snd e))), JS_NewShortInt (of_nat (fst e))]"

text \<open>
  The invariant, with the instructions still to visit, and the depth at which each was first seen; \<open>X\<close>
  are the instructions being visited.
\<close>

definition explore_inv :: "u8 list \<Rightarrow> stack_state \<Rightarrow> (nat \<times> nat) list \<Rightarrow> (nat \<Rightarrow> nat) \<Rightarrow> nat set \<Rightarrow> bool" where
  "explore_inv code st wl D X \<longleftrightarrow>
     length (explore_tab st) = length code \<and> parse_stack st = concat (map enc wl) \<and>
     (\<forall>(p, d) \<in> set wl. explore_tab st ! p \<noteq> 0 \<and> p < length code \<and> D p = d) \<and>
     (\<forall>p < length code. explore_tab st ! p \<noteq> 0 \<longrightarrow>
        marked (explore_tab st) p (D p) \<and> D p \<le> unat (func_stack_size st) + 1 \<and>
        (p \<in> X \<or> p \<in> fst ` set wl \<or> done_at code (explore_tab st) (unat (func_stack_size st)) p (D p)))"

lemma marked_nonzero: "marked tab p d \<Longrightarrow> tab ! p \<noteq> 0"
proof
  assume m: "marked tab p d" and z: "tab ! p = 0"
  have "0 \<le> int d mod 255" by simp
  with m z show False by (simp add: marked_def)
qed

lemma u16_bound: "unat (n :: u16) < 65536"
  using unsigned_less [of n, where 'a = nat] by simp

lemma push_inv:
  assumes push: "compute_stack_size_push code env a t pos (int d) st = Some (Inr st')"
    and inv: "explore_inv code st wl D X" and d: "d \<le> unat (func_stack_size st) + 1" and len: "length code < 2 ^ 29"
  shows "\<exists>wl' D'. explore_inv code st' wl' D' X \<and> marked (explore_tab st') (unat pos) d \<and>
    (\<forall>p e. marked (explore_tab st) p e \<longrightarrow> marked (explore_tab st') p e) \<and>
    func_stack_size st' = func_stack_size st \<and>
    (\<forall>p < length code. explore_tab st ! p \<noteq> 0 \<longrightarrow> D' p = D p)"
proof -
  have d': "d < 2 ^ 17" using d u16_bound [of "func_stack_size st"] by simp
  then have dm: "int d mod 2 ^ 32 = int d" by simp
  have lt: "unat pos < length code"
    using push by (auto simp: compute_stack_size_push_def Let_def split: if_splits)
  have ltab: "length (explore_tab st) = length code" using inv by (simp add: explore_inv_def)
  show ?thesis
  proof (cases "explore_tab st ! unat pos \<noteq> 0")
    case True
    then have "st' = st \<and> uint (explore_tab st ! unat pos) = 1 + int d mod 2 ^ 32 mod 255"
      using push by (auto simp: compute_stack_size_push_def Let_def split: if_splits)
    then have st': "st' = st" and u: "uint (explore_tab st ! unat pos) = 1 + int d mod 255"
      unfolding dm by auto
    then have "marked (explore_tab st') (unat pos) d"
      using lt ltab by (simp add: marked_def)
    then show ?thesis using inv st' by blast
  next
    case False
    let ?x = "(explore_tab st)[unat pos := word_of_int (1 + int d mod 2 ^ 32 mod 255)]"
    from False push obtain st2 where st2:
      "js_parse_push_val env (JS_NewShortInt pos) (st\<lparr>explore_tab := ?x\<rparr>) = Inr st2"
      "js_parse_push_val env (JS_NewShortInt (word_of_int (int d))) st2 = Inr st'"
      unfolding compute_stack_size_push_def Let_def by (auto split: if_splits sum.splits)
    have tab: "explore_tab st' = ?x" and fs: "func_stack_size st' = func_stack_size st" and
      ps: "parse_stack st' = enc (unat pos, d) @ parse_stack st"
      using push_val_state [OF st2(1)] push_val_state [OF st2(2)] by (auto simp: enc_def)
    have mk: "marked (explore_tab st') (unat pos) d"
      using lt ltab uint_short_len [of "int d"] dm unfolding tab by (simp add: marked_def)
    have mono: "marked (explore_tab st') p e" if m: "marked (explore_tab st) p e" for p e
    proof -
      have "p \<noteq> unat pos" using marked_nonzero [OF m] False by auto
      then show ?thesis using m unfolding tab by (simp add: marked_def)
    qed
    have other: "explore_tab st' ! p = explore_tab st ! p" if "p \<noteq> unat pos" for p
      using that unfolding tab by simp
    have dn: "done_at code (explore_tab st') n p e" if "done_at code (explore_tab st) n p e" for n p e
      using that mono by (auto simp: done_at_def)
    have "explore_inv code st' ((unat pos, d) # wl) (D(unat pos := d)) X"
      unfolding explore_inv_def fs
    proof (intro conjI allI impI)
      show "length (explore_tab st') = length code" using tab ltab by simp
      show "parse_stack st' = concat (map enc ((unat pos, d) # wl))" using ps inv by (simp add: explore_inv_def)
      show "\<forall>(p, e)\<in>set ((unat pos, d) # wl). explore_tab st' ! p \<noteq> 0 \<and> p < length code \<and>
          (D(unat pos := d)) p = e"
      proof (clarify)
        fix p e assume "(p, e) \<in> set ((unat pos, d) # wl)"
        then consider (new) "p = unat pos" "e = d" | (old) "(p, e) \<in> set wl" by auto
        then show "explore_tab st' ! p \<noteq> 0 \<and> p < length code \<and> (D(unat pos := d)) p = e"
        proof cases
          case new
          then show ?thesis using marked_nonzero [OF mk] lt by simp
        next
          case old
          then have o: "explore_tab st ! p \<noteq> 0" "p < length code" "D p = e"
            using inv by (auto simp: explore_inv_def)
          then have "p \<noteq> unat pos" using False by auto
          then show ?thesis using o other by simp
        qed
      qed
    next
      fix p assume p: "p < length code" "explore_tab st' ! p \<noteq> 0"
      show "marked (explore_tab st') p ((D(unat pos := d)) p)"
        using p mk mono other inv by (cases "p = unat pos") (auto simp: explore_inv_def)
      show "(D(unat pos := d)) p \<le> unat (func_stack_size st) + 1"
        using p d other inv by (cases "p = unat pos") (auto simp: explore_inv_def)
      show "p \<in> X \<or> p \<in> fst ` set ((unat pos, d) # wl) \<or>
          done_at code (explore_tab st') (unat (func_stack_size st)) p ((D(unat pos := d)) p)"
        using p other inv dn by (cases "p = unat pos") (auto simp: explore_inv_def)
    qed
    moreover have "\<forall>p < length code. explore_tab st ! p \<noteq> 0 \<longrightarrow> (D(unat pos := d)) p = D p"
      using False by auto
    ultimately show ?thesis using mk mono fs by blast
  qed
qed

text \<open>The switch marks every instruction a step can reach.\<close>

lemma unat_of_nat_u32: "n < 2 ^ 32 \<Longrightarrow> unat (of_nat n :: u32) = n"
  by (simp add: unat_of_nat)

lemma unat_next_u32: "p + 1 < 2 ^ 32 \<Longrightarrow> unat (of_nat p + 1 :: u32) = p + 1"
proof -
  assume p: "p + 1 < 2 ^ 32"
  have "(of_nat p + 1 :: u32) = of_nat (p + 1)" by simp
  also have "unat \<dots> = p + 1" by (rule unat_of_nat_u32 [OF p])
  finally show ?thesis .
qed

lemma gosub_other: "OP_gosub \<noteq> OP_goto" "OP_gosub \<noteq> OP_if_true" "OP_gosub \<noteq> OP_if_false"
  "OP_gosub \<noteq> OP_return" "OP_gosub \<noteq> OP_return_undef" "OP_gosub \<noteq> OP_throw" "OP_gosub \<noteq> OP_ret"
  by (simp_all add: opcode_defs)

lemma label_size: "op \<in> {OP_goto, OP_if_true, OP_if_false, OP_gosub} \<Longrightarrow> op_size (opcode_info ! unat op) = 5"
proof -
  have "list_all (\<lambda>op. op_size (opcode_info ! unat op) = 5) [OP_goto, OP_if_true, OP_if_false, OP_gosub]" by code_simp
  then show "op \<in> {OP_goto, OP_if_true, OP_if_false, OP_gosub} \<Longrightarrow> ?thesis" by auto
qed

lemma npop_size:
  assumes "unat op < OP_COUNT" "op_fmt (opcode_info ! unat op) = OP_FMT_npop"
  shows "op_size (opcode_info ! unat op) = 3"
proof -
  have "list_all (\<lambda>i. op_fmt (opcode_info ! i) = OP_FMT_npop \<longrightarrow> op_size (opcode_info ! i) = 3) [0..<OP_COUNT]" by code_simp
  then show ?thesis using assms by (simp add: list_all_iff)
qed

lemma opcode_rows_all: "length opcode_info = OP_COUNT"
  by code_simp

text \<open>The operands of an instruction inside the code are inside it, so the switch reads them.\<close>

lemma follow_op_reads:
  assumes "next_at code p \<le> length code" "unat pos = p + 1"
  shows "follow_op code env here (code ! p) pos stack_len st =
     (let op = code ! p; next = pos + of_nat (op_size (opcode_info ! unat op)) - 1; target = pos + get_u32 code (p + 1) in
      if op = OP_return \<or> op = OP_return_undef \<or> op = OP_throw \<or> op = OP_ret then Some (Inr st)
      else if op = OP_goto then compute_stack_size_push code env here here target stack_len st
      else if op = OP_if_true \<or> op = OP_if_false then push_both code env here target stack_len next stack_len st
      else if op = OP_gosub then push_both code env here target (stack_len + 1) next stack_len st
      else compute_stack_size_push code env here here next stack_len st)"
proof -
  have "read_u32 code (p + 1) = Some (get_u32 code (p + 1))" if "code ! p \<in> {OP_goto, OP_if_true, OP_if_false, OP_gosub}"
    using assms(1) label_size [OF that] by (simp add: read_u32_def next_at_def)
  then show ?thesis
    unfolding follow_op_def Let_def assms(2) by (cases "code ! p = OP_gosub") (auto simp: gosub_other)
qed

lemma follow_op_inv:
  assumes f: "follow_op code env a (code ! p) (of_nat p + 1) (int (after_at code p d)) st = Some (Inr st')"
    and inv: "explore_inv code st wl D X" and le: "after_at code p d \<le> unat (func_stack_size st)"
    and len: "length code < 2 ^ 29" and p: "p < length code" "next_at code p \<le> length code"
  shows "\<exists>wl' D'. explore_inv code st' wl' D' X \<and> func_stack_size st' = func_stack_size st \<and>
    (\<forall>q e. frame_step code (p, d) (q, e) \<longrightarrow> marked (explore_tab st') q e) \<and> lands_at code p \<and>
    (\<forall>q < length code. explore_tab st ! q \<noteq> 0 \<longrightarrow> D' q = D q) \<and>
    (\<forall>q e. marked (explore_tab st) q e \<longrightarrow> marked (explore_tab st') q e)"
proof -
  let ?d = "after_at code p d" and ?op = "code ! p"
  have pos: "(of_nat p + 1 :: u32) = of_nat (p + 1)" by simp
  have upos: "unat (of_nat p + 1 :: u32) = p + 1" unfolding pos using p len by (intro unat_of_nat_u32) simp
  define tgt where "tgt = (of_nat p + 1 + get_u32 code (p + 1) :: u32)"
  define nxt where "nxt = (of_nat p + 1 + of_nat (op_size (opcode_info ! unat ?op)) - 1 :: u32)"
  have tg: "q = unat tgt" if "is_target code p q" for q
  proof -
    have "int q = int p + 1 + sint (get_u32 code (p + 1))" using that by (simp add: is_target_def get_i32_def)
    moreover have "sint (get_u32 code (p + 1)) < 2 ^ 31"
      using sint_range_size [of "get_u32 code (p + 1)"] by (simp add: word_size)
    ultimately have "q < 2 ^ 32" and "(word_of_int (int q) :: u32) = tgt"
      using p len by (simp_all add: tgt_def)
    then show ?thesis using unat_of_nat_u32 [of q] by simp
  qed
  have tl: "0 \<le> int p + 1 + get_i32 code (p + 1)" if "marked tab (unat tgt) d1" "length tab = length code" for tab d1
  proof (rule ccontr)
    define x where "x = int p + 1 + sint (get_u32 code (p + 1))"
    assume "\<not> 0 \<le> int p + 1 + get_i32 code (p + 1)"
    then have x: "x < 0" by (simp add: x_def get_i32_def)
    have "- (2 ^ 31) \<le> sint (get_u32 code (p + 1))"
      using sint_range_size [of "get_u32 code (p + 1)"] by (simp add: word_size)
    then have "- (2 ^ 31) \<le> x" by (simp add: x_def)
    with x have "(x + 2 ^ 32) mod 2 ^ 32 = x + 2 ^ 32" by (intro mod_pos_pos_trivial) simp_all
    then have "x mod 2 ^ 32 = x + 2 ^ 32" by simp
    moreover have "tgt = word_of_int x" by (simp add: tgt_def x_def)
    then have "uint tgt = x mod 2 ^ 32" by (simp add: uint_word_of_int)
    ultimately have "2 ^ 31 \<le> uint tgt" using \<open>- (2 ^ 31) \<le> x\<close> by simp
    from nat_mono [OF this] have "2 ^ 31 \<le> unat tgt" by simp
    then show False using that len unfolding marked_def by simp
  qed
  have nx: "unat nxt = next_at code p"
  proof -
    have "nxt = of_nat (next_at code p)" by (simp add: nxt_def next_at_def)
    then show ?thesis using p len by (simp add: unat_of_nat_u32)
  qed
  have ex: "\<exists>wl' D'. explore_inv code st2 wl' D' X \<and> func_stack_size st2 = func_stack_size st \<and>
      marked (explore_tab st2) (unat p1) d1 \<and> marked (explore_tab st2) (unat p2) d2 \<and>
      (\<forall>q < length code. explore_tab st ! q \<noteq> 0 \<longrightarrow> D' q = D q) \<and>
      (\<forall>q e. marked (explore_tab st) q e \<longrightarrow> marked (explore_tab st2) q e)"
    if b: "push_both code env a p1 (int d1) p2 (int d2) st = Some (Inr st2)"
      "d1 \<le> unat (func_stack_size st) + 1" "d2 \<le> unat (func_stack_size st) + 1" for p1 d1 p2 d2 st2
  proof -
    from b(1) obtain st1 where s1: "compute_stack_size_push code env a a p1 (int d1) st = Some (Inr st1)"
      "compute_stack_size_push code env a a p2 (int d2) st1 = Some (Inr st2)"
      by (auto simp: push_both_def split: option.splits sum.splits)
    from push_inv [OF s1(1) inv b(2) len] obtain wl1 D1 where i1: "explore_inv code st1 wl1 D1 X"
      "marked (explore_tab st1) (unat p1) d1" "func_stack_size st1 = func_stack_size st"
      "\<forall>p e. marked (explore_tab st) p e \<longrightarrow> marked (explore_tab st1) p e"
      "\<forall>q < length code. explore_tab st ! q \<noteq> 0 \<longrightarrow> D1 q = D q" by blast
    have b3: "d2 \<le> unat (func_stack_size st1) + 1" using b(3) i1(3) by simp
    from push_inv [OF s1(2) i1(1) b3 len] obtain wl2 D2 where i2: "explore_inv code st2 wl2 D2 X"
      "marked (explore_tab st2) (unat p2) d2" "func_stack_size st2 = func_stack_size st1"
      "\<forall>p e. marked (explore_tab st1) p e \<longrightarrow> marked (explore_tab st2) p e"
      "\<forall>q < length code. explore_tab st1 ! q \<noteq> 0 \<longrightarrow> D2 q = D1 q" by blast
    have "explore_tab st1 ! q \<noteq> 0" if "q < length code" "explore_tab st ! q \<noteq> 0" for q
      using that inv i1(4) marked_nonzero by (meson explore_inv_def)
    then have "\<forall>q < length code. explore_tab st ! q \<noteq> 0 \<longrightarrow> D2 q = D q" using i1(5) i2(5) by simp
    moreover have "marked (explore_tab st2) (unat p1) d1" using i1(2) i2(4) by blast
    moreover have "\<forall>q e. marked (explore_tab st) q e \<longrightarrow> marked (explore_tab st2) q e"
      using i1(4) i2(4) by blast
    ultimately show ?thesis using i1(3) i2(1-3) by (intro exI [of _ wl2] exI [of _ D2]) simp
  qed
  have ex1: "\<exists>wl' D'. explore_inv code st2 wl' D' X \<and> func_stack_size st2 = func_stack_size st \<and>
      marked (explore_tab st2) (unat p1) ?d \<and>
      (\<forall>q < length code. explore_tab st ! q \<noteq> 0 \<longrightarrow> D' q = D q) \<and>
      (\<forall>q e. marked (explore_tab st) q e \<longrightarrow> marked (explore_tab st2) q e)"
    if b: "compute_stack_size_push code env a a p1 (int ?d) st = Some (Inr st2)" for p1 st2
  proof -
    from le have "?d \<le> unat (func_stack_size st) + 1" by simp
    from push_inv [OF b inv this len] show ?thesis by blast
  qed
  have le1: "?d \<le> unat (func_stack_size st) + 1" "?d + 1 \<le> unat (func_stack_size st) + 1" using le by simp_all
  note F = f [unfolded follow_op_reads [OF p(2) upos] Let_def upos, folded tgt_def nxt_def]
  show ?thesis
  proof (cases "?op = OP_return \<or> ?op = OP_return_undef \<or> ?op = OP_throw \<or> ?op = OP_ret")
    case True
    then have "st' = st" using F by simp
    moreover have "\<not> frame_step code (p, d) (q, e)" for q e
      using True by (auto elim!: frame_stepE simp: opcode_defs)
    moreover have "lands_at code p" using True by (auto simp: lands_at_def opcode_defs)
    ultimately show ?thesis using inv by blast
  next
    case False
    note F1 = F [unfolded if_not_P [OF False]]
    consider (goto) "?op = OP_goto" | (cond) "?op = OP_if_true \<or> ?op = OP_if_false" | (sub) "?op = OP_gosub"
      | (plain) "?op \<notin> {OP_goto, OP_if_true, OP_if_false, OP_gosub}" by auto
    then show ?thesis
    proof cases
      case goto
      then have "compute_stack_size_push code env a a tgt (int ?d) st = Some (Inr st')" using F1 by simp
      from ex1 [OF this] obtain wl' D' where i: "explore_inv code st' wl' D' X"
        "func_stack_size st' = func_stack_size st" "marked (explore_tab st') (unat tgt) ?d"
        "\<forall>q < length code. explore_tab st ! q \<noteq> 0 \<longrightarrow> D' q = D q"
        "\<forall>q e. marked (explore_tab st) q e \<longrightarrow> marked (explore_tab st') q e" by blast
      have "marked (explore_tab st') q e" if "frame_step code (p, d) (q, e)" for q e
        using that by (rule frame_stepE) (use goto i(3) tg in \<open>auto simp: opcode_defs\<close>)
      moreover have "lands_at code p" using tl [OF i(3)] i(1) by (simp add: lands_at_def explore_inv_def)
      ultimately show ?thesis using i(1,2,4,5) by blast
    next
      case cond
      then have "push_both code env a tgt (int ?d) nxt (int ?d) st = Some (Inr st')"
        using F1 by (auto simp: opcode_defs)
      from ex [OF this le1(1) le1(1)] obtain wl' D' where i: "explore_inv code st' wl' D' X"
        "func_stack_size st' = func_stack_size st" "marked (explore_tab st') (unat tgt) ?d"
        "marked (explore_tab st') (unat nxt) ?d"
        "\<forall>q < length code. explore_tab st ! q \<noteq> 0 \<longrightarrow> D' q = D q"
        "\<forall>q e. marked (explore_tab st) q e \<longrightarrow> marked (explore_tab st') q e" by blast
      have "marked (explore_tab st') q e" if "frame_step code (p, d) (q, e)" for q e
        using that by (rule frame_stepE) (use cond i(3,4) tg nx in \<open>auto simp: opcode_defs\<close>)
      moreover have "lands_at code p" using tl [OF i(3)] i(1) by (simp add: lands_at_def explore_inv_def)
      ultimately show ?thesis using i(1,2,5,6) by blast
    next
      case sub
      then have "push_both code env a tgt (int (?d + 1)) nxt (int ?d) st = Some (Inr st')"
        using F1 sub gosub_other by (simp add: add.commute)
      from ex [OF this le1(2) le1(1)] obtain wl' D' where i: "explore_inv code st' wl' D' X"
        "func_stack_size st' = func_stack_size st" "marked (explore_tab st') (unat tgt) (?d + 1)"
        "marked (explore_tab st') (unat nxt) ?d"
        "\<forall>q < length code. explore_tab st ! q \<noteq> 0 \<longrightarrow> D' q = D q"
        "\<forall>q e. marked (explore_tab st) q e \<longrightarrow> marked (explore_tab st') q e" by blast
      have "marked (explore_tab st') q e" if "frame_step code (p, d) (q, e)" for q e
        using that by (rule frame_stepE) (use sub i(3,4) tg nx in \<open>auto simp: opcode_defs\<close>)
      moreover have "lands_at code p" using tl [OF i(3)] i(1) by (simp add: lands_at_def explore_inv_def)
      ultimately show ?thesis using i(1,2,5,6) by blast
    next
      case plain
      then have "compute_stack_size_push code env a a nxt (int ?d) st = Some (Inr st')" using F1 by simp
      from ex1 [OF this] obtain wl' D' where i: "explore_inv code st' wl' D' X"
        "func_stack_size st' = func_stack_size st" "marked (explore_tab st') (unat nxt) ?d"
        "\<forall>q < length code. explore_tab st ! q \<noteq> 0 \<longrightarrow> D' q = D q"
        "\<forall>q e. marked (explore_tab st) q e \<longrightarrow> marked (explore_tab st') q e" by blast
      have "marked (explore_tab st') q e" if "frame_step code (p, d) (q, e)" for q e
        using that by (rule frame_stepE) (use plain i(3) nx in auto)
      moreover have "lands_at code p" using plain by (auto simp: lands_at_def)
      ultimately show ?thesis using i(1,2,4,5) by blast
    qed
  qed
qed

lemma check_op_ok:
  assumes "check_op code (of_nat p) (int d) m = Some (Inr n)" "p < length code" "length code < 2 ^ 29" "d < 2 ^ 17"
  shows "n = int (after_at code p d) \<and> runs_at code (max (unat m) (after_at code p d)) p d \<and>
    after_at code p d \<le> max (unat m) 65535"
proof -
  have up: "unat (of_nat p :: u32) = p" using assms(2,3) by (intro unat_of_nat_u32) simp
  have upos: "unat (of_nat p + 1 :: u32) = p + 1" by (rule unat_next_u32) (use assms(2,3) in simp)
  let ?op = "code ! p"
  let ?oi = "opcode_info ! unat ?op"
  have op: "?op \<noteq> OP_invalid" "unat ?op < OP_COUNT"
    using assms(1) by (auto simp: check_op_def up Let_def split: if_splits)
  define x where "x = (if op_fmt ?oi = OP_FMT_npop then read_u16 code (p + 1) else Some 0)"
  have "(of_nat p + 1 + of_nat (op_size ?oi) - 1 :: u32) = of_nat (next_at code p)"
    by (simp add: next_at_def)
  moreover have "next_at code p < 2 ^ 32"
    using opcode_size_bounds [OF op(2)] assms(2,3) by (simp add: next_at_def)
  ultimately have nx: "unat (of_nat p + 1 + of_nat (op_size ?oi) - 1 :: u32) = next_at code p"
    by (simp only: unat_of_nat_u32)
  obtain y where y: "x = Some y"
    using assms(1) op unfolding check_op_def up Let_def upos nx x_def [symmetric] by (auto split: if_splits option.splits)
  have pops: "int (n_pop ?oi) + uint y = int (pops_at code p)"
    using y by (auto simp: pops_at_def x_def read_u16_def split: if_splits)
  have ck: "next_at code p \<le> length code" "\<not> int d < int (pops_at code p)"
    "n = int d + (int (n_push ?oi) - int (pops_at code p))"
    "\<not> (n > uint m \<and> n > JS_MAX_FUNC_STACK_SIZE)"
    using assms(1) op unfolding check_op_def up Let_def upos nx x_def [symmetric] y option.case pops by (auto split: if_splits)
  then have n: "n = int (after_at code p d)" by (simp add: after_at_def)
  have "after_at code p d \<le> max (unat m) 65535"
    using ck(4) unfolding n uint_nat of_nat_less_iff JS_MAX_FUNC_STACK_SIZE_def by auto
  then show ?thesis using n ck op assms(2) by (simp add: runs_at_def)
qed

lemma runs_at_mono: "runs_at code n p d \<Longrightarrow> n \<le> m \<Longrightarrow> runs_at code m p d"
  by (simp add: runs_at_def)

lemma raise_size_val:
  "n \<le> max (unat (func_stack_size st)) 65535 \<Longrightarrow>
   unat (func_stack_size (raise_size (int n) st)) = max (unat (func_stack_size st)) n"
proof -
  assume n: "n \<le> max (unat (func_stack_size st)) 65535"
  then have "n < 2 ^ 16" using u16_bound [of "func_stack_size st"] by simp
  then have "unat (word_of_int (int n) :: u16) = n" by (simp add: unat_of_nat)
  moreover have "int n > uint (func_stack_size st) \<longleftrightarrow> n > unat (func_stack_size st)"
    unfolding uint_nat by (rule of_nat_less_iff)
  ultimately show ?thesis by (simp add: raise_size_def max_def)
qed

lemma enc_value:
  "p < 2 ^ 29 \<Longrightarrow> JS_VALUE_GET_INT (JS_NewShortInt (of_nat p)) = of_nat p"
proof -
  assume p: "p < 2 ^ 29"
  have "sint (of_nat p :: s32) = int p" by (rule sint_of_nat_small) (use p in simp)
  then show ?thesis
    using short_int_value [of "of_nat p"] p by (simp add: JS_SHORTINT_MIN_def JS_SHORTINT_MAX_def)
qed

lemma explore_op_inv:
  assumes e: "explore_op code env st = Some (Inr st')" and inv: "explore_inv code st wl D {}"
    and len: "length code < 2 ^ 29"
  shows "\<exists>wl' D'. explore_inv code st' wl' D' {} \<and> unat (func_stack_size st) \<le> unat (func_stack_size st') \<and>
    (\<forall>q < length code. explore_tab st ! q \<noteq> 0 \<longrightarrow> explore_tab st' ! q \<noteq> 0 \<and> D' q = D q)"
proof -
  from e obtain v1 v2 rest where vs: "parse_stack st = v1 # v2 # rest"
    by (auto simp: explore_op_def split: list.splits)
  with inv obtain p d wl0 where wl: "wl = (p, d) # wl0" and v: "v1 # v2 # rest = enc (p, d) @ concat (map enc wl0)"
    by (cases wl) (auto simp: explore_inv_def)
  then have v12: "v1 = JS_NewShortInt (of_nat d)" "v2 = JS_NewShortInt (of_nat p)" "rest = concat (map enc wl0)"
    by (simp_all add: enc_def)
  have p: "p < length code" "explore_tab st ! p \<noteq> 0" "D p = d" using inv by (simp_all add: explore_inv_def wl)
  then have dle: "d \<le> unat (func_stack_size st) + 1" using inv by (auto simp: explore_inv_def)
  then have d17: "d < 2 ^ 17" using u16_bound [of "func_stack_size st"] by simp
  have g2: "JS_VALUE_GET_INT v2 = of_nat p" unfolding v12 by (rule enc_value) (use p len in simp)
  have "JS_VALUE_GET_INT v1 = of_nat d" unfolding v12 by (rule enc_value) (use d17 in simp)
  then have g1: "sint (JS_VALUE_GET_INT v1) = int d"
    using sint_of_nat_small [of d] d17 by simp
  have up: "unat (of_nat p :: u32) = p" using p len by (intro unat_of_nat_u32) simp
  from e obtain n where ck: "check_op code (of_nat p) (int d) (func_stack_size st) = Some (Inr n)" and
    f: "follow_op code env (moves st) (code ! p) (of_nat p + 1) n
          (raise_size n (st\<lparr>parse_stack := rest\<rparr>)) = Some (Inr st')"
    unfolding explore_op_def vs list.case Let_def g1 g2 up by (auto split: option.splits sum.splits)
  from check_op_ok [OF ck p(1) len d17] have n: "n = int (after_at code p d)" and
    ra: "runs_at code (max (unat (func_stack_size st)) (after_at code p d)) p d" and
    mx: "after_at code p d \<le> max (unat (func_stack_size st)) 65535" by auto
  define st1 where "st1 = raise_size n (st\<lparr>parse_stack := rest\<rparr>)"
  have fs: "unat (func_stack_size st1) = max (unat (func_stack_size st)) (after_at code p d)"
    unfolding st1_def n using raise_size_val [of _ "st\<lparr>parse_stack := rest\<rparr>"] mx by simp
  have tab1: "explore_tab st1 = explore_tab st" "parse_stack st1 = rest" by (simp_all add: st1_def)
  have inv1: "explore_inv code st1 wl0 D {p}"
    unfolding explore_inv_def tab1
  proof (intro conjI allI impI)
    fix q assume q: "q < length code" "explore_tab st ! q \<noteq> 0"
    show "marked (explore_tab st) q (D q)" using inv q by (simp add: explore_inv_def)
    show "D q \<le> unat (func_stack_size st1) + 1" using inv q fs by (force simp: explore_inv_def)
    show "q \<in> {p} \<or> q \<in> fst ` set wl0 \<or> done_at code (explore_tab st) (unat (func_stack_size st1)) q (D q)"
      using inv q fs by (auto simp: explore_inv_def wl done_at_def intro: runs_at_mono)
  qed (use inv v12 in \<open>auto simp: explore_inv_def wl\<close>)
  have le: "after_at code p d \<le> unat (func_stack_size st1)" using fs by simp
  have nxt: "next_at code p \<le> length code" using ra by (simp add: runs_at_def)
  from follow_op_inv [OF f [folded st1_def, unfolded n] inv1 le len p(1) nxt] obtain wl' D' where
    i: "explore_inv code st' wl' D' {p}" "func_stack_size st' = func_stack_size st1"
    "\<forall>q e. frame_step code (p, d) (q, e) \<longrightarrow> marked (explore_tab st') q e" "lands_at code p"
    "\<forall>q < length code. explore_tab st1 ! q \<noteq> 0 \<longrightarrow> D' q = D q"
    "\<forall>q e. marked (explore_tab st1) q e \<longrightarrow> marked (explore_tab st') q e" by blast
  have "D' p = d" using i(5) p by (simp add: tab1)
  then have "done_at code (explore_tab st') (unat (func_stack_size st')) p (D' p)"
    using ra i(2-4) fs by (simp add: done_at_def)
  then have "explore_inv code st' wl' D' {}" using i(1) by (auto simp: explore_inv_def)
  moreover have "explore_tab st' ! q \<noteq> 0" if "q < length code" "explore_tab st ! q \<noteq> 0" for q
    using that inv i(6) marked_nonzero unfolding explore_inv_def tab1 by metis
  ultimately show ?thesis using i(2,5) fs by (intro exI [of _ wl'] exI [of _ D']) (simp add: tab1)
qed

lemma explore_loop_inv:
  assumes "explore_loop code env st = Some (Inr st')" "explore_inv code st wl D {}" "length code < 2 ^ 29"
  shows "\<exists>D'. explore_inv code st' [] D' {} \<and>
    (\<forall>q < length code. explore_tab st ! q \<noteq> 0 \<longrightarrow> explore_tab st' ! q \<noteq> 0 \<and> D' q = D q)"
  using assms
proof (induction code env st arbitrary: wl D rule: explore_loop.induct)
  case (1 code env st)
  have len: "length (explore_tab st) = length code" using "1.prems"(2) by (simp add: explore_inv_def)
  show ?case
  proof (cases "parse_stack st = []")
    case True
    then have "st' = st" using "1.prems"(1) len by (simp add: explore_loop.simps)
    moreover have "wl = []" using "1.prems"(2) True by (cases wl) (simp_all add: explore_inv_def enc_def)
    ultimately show ?thesis using "1.prems"(2) by blast
  next
    case False
    with "1.prems"(1) len obtain st1 where st1: "explore_op code env st = Some (Inr st1)"
      "explore_loop code env st1 = Some (Inr st')"
      by (subst (asm) explore_loop.simps) (auto split: option.splits sum.splits)
    from explore_op_inv [OF st1(1) "1.prems"(2,3)] obtain wl1 D1 where i: "explore_inv code st1 wl1 D1 {}"
      "\<forall>q < length code. explore_tab st ! q \<noteq> 0 \<longrightarrow> explore_tab st1 ! q \<noteq> 0 \<and> D1 q = D q" by blast
    have n: "\<not> length (explore_tab st) \<noteq> length code" using len by simp
    from "1.IH" [OF n False st1(1) refl st1(2) i(1) "1.prems"(3)] i(2) show ?thesis by metis
  qed
qed

text \<open>The depth of every instruction the analysis has seen is the one at which it can run.\<close>

lemma compute_stack_size_table:
  assumes "compute_stack_size code room env = Some (Inr n)" "length code < 2 ^ 29"
  obtains tab D where "length tab = length code" "marked tab 0 0" "D 0 = 0"
    "\<And>p. p < length code \<Longrightarrow> tab ! p \<noteq> 0 \<Longrightarrow>
       marked tab p (D p) \<and> D p \<le> unat n + 1 \<and> done_at code tab (unat n) p (D p)"
proof -
  define st where "st = \<lparr>explore_tab = replicate (length code) 0, parse_stack = [], func_stack_size = 0,
                     moves = 0, pushes = 0\<rparr>"
  from assms(1) obtain st1 st2 where
    p: "compute_stack_size_push code env 0 0 0 (int 0) st = Some (Inr st1)" and
    l: "explore_loop code env st1 = Some (Inr st2)" and n: "n = func_stack_size st2"
    unfolding compute_stack_size_def Let_def st_def
    by (auto split: if_splits option.splits sum.splits)
  have inv: "explore_inv code st [] (\<lambda>_. 0) {}" by (auto simp: explore_inv_def st_def)
  from push_inv [OF p inv _ assms(2)] obtain wl1 D1 where
    i1: "explore_inv code st1 wl1 D1 {}" "marked (explore_tab st1) 0 0" "func_stack_size st1 = 0"
    by (auto simp: st_def)
  from explore_loop_inv [OF l i1(1) assms(2)] obtain D where D: "explore_inv code st2 [] D {}"
    "\<forall>q < length code. explore_tab st1 ! q \<noteq> 0 \<longrightarrow> explore_tab st2 ! q \<noteq> 0 \<and> D q = D1 q" by blast
  have z: "0 < length code" "explore_tab st1 ! 0 \<noteq> 0"
    using i1(1,2) marked_nonzero [OF i1(2)] by (auto simp: explore_inv_def marked_def)
  then have "marked (explore_tab st1) 0 (D1 0)" "D1 0 \<le> 1" using i1 by (auto simp: explore_inv_def)
  with i1(2) have "int (D1 0) mod 255 = 0" by (simp add: marked_def)
  with \<open>D1 0 \<le> 1\<close> have "D1 0 = 0" by (cases "D1 0 = 1") auto
  then have d0: "D 0 = 0" "explore_tab st2 ! 0 \<noteq> 0" using D(2) z by auto
  have all: "marked (explore_tab st2) p (D p) \<and> D p \<le> unat n + 1 \<and> done_at code (explore_tab st2) (unat n) p (D p)"
    if "p < length code" "explore_tab st2 ! p \<noteq> 0" for p
    using D(1) that by (auto simp: explore_inv_def n)
  show thesis
    by (rule that [of "explore_tab st2" D])
      (use D(1) all [OF z(1) d0(2)] d0(1) all in \<open>simp_all add: explore_inv_def\<close>)
qed

text \<open>
  C11: for code accepted with a stack size below 254, in every state that the steps within the function
  reach the instruction is a valid one inside the code, finds the values it pops, and leaves at most
  \<open>stack_size\<close> values, and its jump does not leave the code at the start. Before it there are at most
  \<open>stack_size + 1\<close>: the return address that \<open>OP_gosub\<close> pushes is not counted. The bound 254 is needed, since
  the table keeps the depth modulo 255 (\<open>wrap_code_grows\<close>: a size of 255 bounds nothing).
\<close>
theorem compute_stack_size_bounds:
  assumes "compute_stack_size code room env = Some (Inr n)" "unat n < 254" "length code < 2 ^ 29"
    "(frame_step code)\<^sup>*\<^sup>* (0, 0) (p, d)"
  shows "runs_at code (unat n) p d \<and> lands_at code p \<and> d \<le> unat n + 1"
proof -
  from compute_stack_size_table [OF assms(1,3)] obtain tab D where t: "length tab = length code"
    "marked tab 0 0" "D 0 = 0" "\<And>p. p < length code \<Longrightarrow> tab ! p \<noteq> 0 \<Longrightarrow>
       marked tab p (D p) \<and> D p \<le> unat n + 1 \<and> done_at code tab (unat n) p (D p)" by blast
  have at: "marked tab p d \<Longrightarrow> d \<le> unat n + 1 \<Longrightarrow> D p = d \<and> done_at code tab (unat n) p d" for p d
  proof -
    assume m: "marked tab p d" and d: "d \<le> unat n + 1"
    have D: "marked tab p (D p)" "D p \<le> unat n + 1" "done_at code tab (unat n) p (D p)"
      using t(4) [of p] m marked_nonzero [OF m] t(1) by (auto simp: marked_def)
    then have "int (D p) mod 255 = int d mod 255" using m by (simp add: marked_def)
    then have "D p = d" using D(2) d assms(2) by simp
    then show ?thesis using D(3) by simp
  qed
  have "marked tab p d \<and> d \<le> unat n + 1"
    using assms(4)
  proof (induction rule: rtranclp_induct2)
    case refl
    then show ?case using t(2) by simp
  next
    case (step p d q e)
    then have dn: "done_at code tab (unat n) p d" using at by blast
    then have "marked tab q e" using step.hyps(2) by (simp add: done_at_def)
    moreover have "e \<le> unat n + 1"
      using step.hyps(2) dn by (cases rule: frame_step.cases) (auto simp: done_at_def runs_at_def)
    ultimately show ?case by simp
  qed
  then show ?thesis using at by (auto simp: done_at_def)
qed

section \<open>When the analysis succeeds\<close>

text \<open>
  Every state that the steps reach can run within \<open>n\<close> values, and each instruction has one depth.
\<close>

definition typed :: "u8 list \<Rightarrow> nat \<Rightarrow> (nat \<Rightarrow> nat) \<Rightarrow> bool" where
  "typed code n D \<longleftrightarrow> (\<forall>p d. (frame_step code)\<^sup>*\<^sup>* (0, 0) (p, d) \<longrightarrow> d = D p \<and> runs_at code n p d \<and> lands_at code p)"

definition typed_inv :: "u8 list \<Rightarrow> nat \<Rightarrow> (nat \<Rightarrow> nat) \<Rightarrow> stack_state \<Rightarrow> (nat \<times> nat) list \<Rightarrow> bool" where
  "typed_inv code n D st wl \<longleftrightarrow>
     length (explore_tab st) = length code \<and> parse_stack st = concat (map enc wl) \<and>
     (\<forall>(p, d) \<in> set wl. (frame_step code)\<^sup>*\<^sup>* (0, 0) (p, d) \<and> d \<le> n + 1) \<and>
     (\<forall>p < length code. explore_tab st ! p \<noteq> 0 \<longrightarrow> marked (explore_tab st) p (D p)) \<and>
     unat (func_stack_size st) \<le> n"

definition steady :: "nat \<Rightarrow> push_outcome" where "steady k = Push_room"

lemma push_typed:
  assumes inv: "typed_inv code n D st wl" and ty: "typed code n D" and n: "n \<le> 65535"
    and reach: "(frame_step code)\<^sup>*\<^sup>* (0, 0) (unat pos, d)" and d: "d \<le> n + 1"
  shows "\<exists>st' wl'. compute_stack_size_push code steady (moves st) (moves st) pos (int d) st = Some (Inr st') \<and>
    typed_inv code n D st' wl' \<and> moves st' = moves st"
proof -
  have dm: "int d mod 2 ^ 32 = int d" using d n by simp
  have lt: "unat pos < length code" and dD: "d = D (unat pos)"
    using reach ty by (auto simp: typed_def runs_at_def)
  have ltab: "length (explore_tab st) = length code" using inv by (simp add: typed_inv_def)
  show ?thesis
  proof (cases "explore_tab st ! unat pos \<noteq> 0")
    case True
    then have "marked (explore_tab st) (unat pos) d" using inv lt dD by (simp add: typed_inv_def)
    then have "uint (explore_tab st ! unat pos) = 1 + int d mod 2 ^ 32 mod 255"
      unfolding dm by (simp add: marked_def)
    then have "compute_stack_size_push code steady (moves st) (moves st) pos (int d) st = Some (Inr st)"
      using True lt by (simp add: compute_stack_size_push_def)
    then show ?thesis using inv by blast
  next
    case False
    let ?x = "(explore_tab st)[unat pos := word_of_int (1 + int d mod 2 ^ 32 mod 255)]"
    define st' where "st' = st\<lparr>explore_tab := ?x, parse_stack := enc (unat pos, d) @ parse_stack st,
      pushes := pushes st + 2\<rparr>"
    have "compute_stack_size_push code steady (moves st) (moves st) pos (int d) st = Some (Inr st')"
      using False lt by (simp add: compute_stack_size_push_def js_parse_push_val_def steady_def st'_def enc_def)
    moreover have "typed_inv code n D st' ((unat pos, d) # wl)"
      unfolding typed_inv_def
    proof (intro conjI allI impI)
      show "\<forall>(p, e)\<in>set ((unat pos, d) # wl). (frame_step code)\<^sup>*\<^sup>* (0, 0) (p, e) \<and> e \<le> n + 1"
        using inv reach d by (auto simp: typed_inv_def)
      fix p assume p: "p < length code" "explore_tab st' ! p \<noteq> 0"
      show "marked (explore_tab st') p (D p)"
      proof (cases "p = unat pos")
        case True
        then show ?thesis
          using lt ltab uint_short_len [of "int d"] dm dD by (simp add: marked_def st'_def)
      next
        case False
        then show ?thesis using p inv by (simp add: typed_inv_def marked_def st'_def)
      qed
    qed (use inv ltab in \<open>simp_all add: typed_inv_def st'_def\<close>)
    ultimately show ?thesis by (auto simp: st'_def)
  qed
qed

lemma push_both_typed:
  assumes inv: "typed_inv code n D st wl" and ty: "typed code n D" and n: "n \<le> 65535"
    and r1: "(frame_step code)\<^sup>*\<^sup>* (0, 0) (unat p1, d1)" "d1 \<le> n + 1"
    and r2: "(frame_step code)\<^sup>*\<^sup>* (0, 0) (unat p2, d2)" "d2 \<le> n + 1"
  shows "\<exists>st' wl'. push_both code steady (moves st) p1 (int d1) p2 (int d2) st = Some (Inr st') \<and>
    typed_inv code n D st' wl' \<and> moves st' = moves st"
proof -
  from push_typed [OF inv ty n r1] obtain st1 wl1 where
    1: "compute_stack_size_push code steady (moves st) (moves st) p1 (int d1) st = Some (Inr st1)"
    "typed_inv code n D st1 wl1" "moves st1 = moves st" by blast
  from push_typed [OF 1(2) ty n r2] 1 show ?thesis by (auto simp: push_both_def)
qed

lemma typed_step:
  "(frame_step code)\<^sup>*\<^sup>* (0, 0) (p, d) \<Longrightarrow> frame_step code (p, d) (q, e) \<Longrightarrow>
     (frame_step code)\<^sup>*\<^sup>* (0, 0) (q, e)"
  by (rule rtranclp.rtrancl_into_rtrancl)

lemma follow_op_typed:
  assumes inv: "typed_inv code n D st wl" and ty: "typed code n D" and n: "n \<le> 65535"
    and len: "length code < 2 ^ 29" and reach: "(frame_step code)\<^sup>*\<^sup>* (0, 0) (p, d)"
  shows "\<exists>st' wl'. follow_op code steady (moves st) (code ! p) (of_nat p + 1) (int (after_at code p d)) st
      = Some (Inr st') \<and> typed_inv code n D st' wl' \<and> moves st' = moves st"
proof -
  have run: "runs_at code n p d" "lands_at code p" using reach ty by (auto simp: typed_def)
  then have p: "p < length code" "next_at code p \<le> length code" "after_at code p d \<le> n" by (auto simp: runs_at_def)
  have upos: "unat (of_nat p + 1 :: u32) = p + 1" by (rule unat_next_u32) (use p len in simp)
  define tgt where "tgt = (of_nat p + 1 + get_u32 code (p + 1) :: u32)"
  define nxt where "nxt = (of_nat p + 1 + of_nat (op_size (opcode_info ! unat (code ! p))) - 1 :: u32)"
  have nx: "unat nxt = next_at code p"
  proof -
    have "nxt = of_nat (next_at code p)" by (simp add: nxt_def next_at_def)
    then show ?thesis using p len by (simp add: unat_of_nat_u32)
  qed
  have tg: "is_target code p (unat tgt)" if "code ! p \<in> {OP_goto, OP_if_true, OP_if_false, OP_gosub}"
  proof -
    define x where "x = int p + 1 + sint (get_u32 code (p + 1))"
    have "0 \<le> x" using run(2) that by (auto simp: lands_at_def x_def get_i32_def)
    moreover have "x < 2 ^ 32" using p len sint_range_size [of "get_u32 code (p + 1)"] by (simp add: word_size x_def)
    moreover have "tgt = word_of_int x" by (simp add: tgt_def x_def)
    ultimately have "uint tgt = x" by (simp add: uint_word_of_int)
    then show ?thesis by (simp add: is_target_def x_def get_i32_def)
  qed
  let ?d = "after_at code p d" and ?op = "code ! p"
  have le: "?d \<le> n + 1" "?d + 1 \<le> n + 1" using p by simp_all
  have rn: "(frame_step code)\<^sup>*\<^sup>* (0, 0) (unat nxt, ?d)"
    if "?op \<notin> {OP_return, OP_return_undef, OP_throw, OP_ret, OP_goto}"
    unfolding nx using reach frame_step.fall [OF that] by (rule typed_step)
  have rj: "(frame_step code)\<^sup>*\<^sup>* (0, 0) (unat tgt, ?d)" if "?op \<in> {OP_goto, OP_if_true, OP_if_false}"
    by (rule typed_step [OF reach frame_step.jump [OF that tg]]) (use that in auto)
  have rs: "(frame_step code)\<^sup>*\<^sup>* (0, 0) (unat tgt, ?d + 1)" if "?op = OP_gosub"
    by (rule typed_step [OF reach frame_step.gosub [OF that tg]]) (use that in auto)
  note F = follow_op_reads [OF p(2) upos] Let_def upos tgt_def [symmetric] nxt_def [symmetric]
  consider (stop) "?op = OP_return \<or> ?op = OP_return_undef \<or> ?op = OP_throw \<or> ?op = OP_ret"
    | (goto) "?op = OP_goto" | (cond) "?op = OP_if_true \<or> ?op = OP_if_false" | (sub) "?op = OP_gosub"
    | (plain) "?op \<notin> {OP_return, OP_return_undef, OP_throw, OP_ret, OP_goto, OP_if_true, OP_if_false, OP_gosub}"
    by auto
  then show ?thesis
  proof cases
    case stop
    then show ?thesis using inv by (auto simp: F)
  next
    case goto
    then show ?thesis unfolding F using push_typed [OF inv ty n rj le(1)] by (simp add: opcode_defs)
  next
    case cond
    then have "?op \<in> {OP_goto, OP_if_true, OP_if_false}"
      "?op \<notin> {OP_return, OP_return_undef, OP_throw, OP_ret, OP_goto}" by (auto simp: opcode_defs)
    from push_both_typed [OF inv ty n rj [OF this(1)] le(1) rn [OF this(2)] le(1)]
    show ?thesis unfolding F using cond by (auto simp: opcode_defs)
  next
    case sub
    then have "?op \<notin> {OP_return, OP_return_undef, OP_throw, OP_ret, OP_goto}" by (auto simp: opcode_defs)
    from push_both_typed [OF inv ty n rs [OF sub] le(2) rn [OF this] le(1)]
    show ?thesis unfolding F using sub gosub_other by (simp add: add.commute)
  next
    case plain
    then have "?op \<notin> {OP_return, OP_return_undef, OP_throw, OP_ret, OP_goto}" by auto
    from push_typed [OF inv ty n rn [OF this] le(1)] show ?thesis unfolding F using plain by simp
  qed
qed

lemma check_op_typed:
  assumes "runs_at code n p d" "unat m \<le> n" "n \<le> 65535" "length code < 2 ^ 29" "d \<le> n + 1"
  shows "check_op code (of_nat p) (int d) m = Some (Inr (int (after_at code p d)))"
proof -
  have p: "p < length code" and op: "code ! p \<noteq> OP_invalid" "unat (code ! p) < OP_COUNT" and
    nx: "next_at code p \<le> length code" and d: "pops_at code p \<le> d" "after_at code p d \<le> n"
    using assms(1) by (auto simp: runs_at_def)
  have up: "unat (of_nat p :: u32) = p" using p assms(4) by (intro unat_of_nat_u32) simp
  have upos: "unat (of_nat p + 1 :: u32) = p + 1" by (rule unat_next_u32) (use p assms(4) in simp)
  let ?oi = "opcode_info ! unat (code ! p)"
  have "(of_nat p + 1 + of_nat (op_size ?oi) - 1 :: u32) = of_nat (next_at code p)"
    by (simp add: next_at_def)
  then have unx: "unat (of_nat p + 1 + of_nat (op_size ?oi) - 1 :: u32) = next_at code p"
    using unat_of_nat_u32 [of "next_at code p"] nx assms(4) by simp
  define y where "y = (if op_fmt ?oi = OP_FMT_npop then get_u16 code (p + 1) else 0)"
  have y: "(if op_fmt ?oi = OP_FMT_npop then read_u16 code (p + 1) else Some 0) = Some y"
    using npop_size [OF op(2)] nx by (auto simp: y_def read_u16_def next_at_def)
  have pops: "int (n_pop ?oi) + uint y = int (pops_at code p)"
    by (simp add: pops_at_def y_def)
  have len1: "int d + (int (n_push ?oi) - int (pops_at code p)) = int (after_at code p d)"
    using d by (simp add: after_at_def)
  have mx: "\<not> int (after_at code p d) > JS_MAX_FUNC_STACK_SIZE"
    using d assms(3) by (simp add: JS_MAX_FUNC_STACK_SIZE_def)
  show ?thesis
    unfolding check_op_def up Let_def upos unx y option.case pops len1 using op nx d mx p by (simp add: opcode_rows_all)
qed

lemma explore_op_typed:
  assumes inv: "typed_inv code n D st wl" and ty: "typed code n D" and n: "n \<le> 65535"
    and len: "length code < 2 ^ 29" and ne: "wl \<noteq> []"
  shows "\<exists>st' wl'. explore_op code steady st = Some (Inr st') \<and> typed_inv code n D st' wl'"
proof -
  from ne obtain p d wl0 where wl: "wl = (p, d) # wl0" by (cases wl) auto
  have reach: "(frame_step code)\<^sup>*\<^sup>* (0, 0) (p, d)" "d \<le> n + 1" and ps: "parse_stack st = enc (p, d) @ concat (map enc wl0)"
    using inv by (auto simp: typed_inv_def wl)
  have run: "runs_at code n p d" using reach ty by (auto simp: typed_def)
  then have p: "p < length code" "after_at code p d \<le> n" by (auto simp: runs_at_def)
  have d17: "d < 2 ^ 17" using reach(2) n by simp
  have up: "unat (of_nat p :: u32) = p" using p len by (intro unat_of_nat_u32) simp
  have g2: "JS_VALUE_GET_INT (JS_NewShortInt (of_nat p)) = of_nat p" by (rule enc_value) (use p len in simp)
  have g1: "sint (JS_VALUE_GET_INT (JS_NewShortInt (of_nat d))) = int d"
    using enc_value [of d] sint_of_nat_small [of d] d17 by simp
  have m: "unat (func_stack_size st) \<le> n" using inv by (simp add: typed_inv_def)
  define st1 where "st1 = raise_size (int (after_at code p d)) (st\<lparr>parse_stack := concat (map enc wl0)\<rparr>)"
  have fs: "unat (func_stack_size st1) = max (unat (func_stack_size st)) (after_at code p d)"
    unfolding st1_def using raise_size_val [of "after_at code p d" "st\<lparr>parse_stack := concat (map enc wl0)\<rparr>"] p n by simp
  have inv1: "typed_inv code n D st1 wl0"
    using inv fs p(2) by (auto simp: typed_inv_def wl) (simp_all add: st1_def)
  have "explore_op code steady st = follow_op code steady (moves st1) (code ! p) (of_nat p + 1) (int (after_at code p d)) st1"
    using check_op_typed [OF run m n len reach(2)] p(1)
    by (simp add: explore_op_def ps enc_def g1 g2 up Let_def st1_def)
  with follow_op_typed [OF inv1 ty n len reach(1)] show ?thesis by auto
qed

lemma explore_loop_typed:
  assumes "typed_inv code n D st wl" "typed code n D" "n \<le> 65535" "length code < 2 ^ 29" "env = steady"
  shows "\<exists>st'. explore_loop code env st = Some (Inr st') \<and> unat (func_stack_size st') \<le> n"
  using assms
proof (induction code env st arbitrary: wl rule: explore_loop.induct)
  case (1 code env st)
  have len: "length (explore_tab st) = length code" using "1.prems"(1) by (simp add: typed_inv_def)
  show ?case
  proof (cases "wl = []")
    case True
    then have "parse_stack st = []" using "1.prems"(1) by (simp add: typed_inv_def)
    then show ?thesis using "1.prems"(1) len by (simp add: explore_loop.simps typed_inv_def)
  next
    case False
    from explore_op_typed [OF "1.prems"(1-4) False] obtain st1 wl1 where
      st1: "explore_op code env st = Some (Inr st1)" "typed_inv code n D st1 wl1"
      unfolding "1.prems"(5) by blast
    have ne: "parse_stack st \<noteq> []" using "1.prems"(1) False by (cases wl) (auto simp: typed_inv_def enc_def)
    from "1.IH" [OF _ ne st1(1) refl st1(2) "1.prems"(2-5)] len show ?thesis
      by (subst explore_loop.simps) (simp add: ne st1(1))
  qed
qed

lemma typed_accepted:
  assumes "typed code n D" "n \<le> 65535" "length code < 2 ^ 29"
  shows "\<exists>m. compute_stack_size code True (\<lambda>_. Push_room) = Some (Inr m) \<and> unat m \<le> n"
proof -
  have env: "(\<lambda>_. Push_room) = steady" by (simp add: steady_def fun_eq_iff)
  define st where "st = \<lparr>explore_tab = replicate (length code) 0, parse_stack = [], func_stack_size = 0,
                     moves = 0, pushes = 0\<rparr>"
  have inv: "typed_inv code n D st []" by (simp add: typed_inv_def st_def)
  have r0: "(frame_step code)\<^sup>*\<^sup>* (0, 0) (unat (0 :: u32), 0)" by simp
  from push_typed [OF inv assms(1,2) r0] obtain st1 wl1 where
    p: "compute_stack_size_push code steady 0 0 0 0 st = Some (Inr st1)" and i: "typed_inv code n D st1 wl1"
    by (auto simp: st_def)
  from explore_loop_typed [OF i assms refl] obtain st2 where
    "explore_loop code steady st1 = Some (Inr st2)" "unat (func_stack_size st2) \<le> n" by blast
  then show ?thesis
    unfolding env compute_stack_size_def Let_def st_def [symmetric] using p by simp
qed

text \<open>
  C12: code in which every instruction that the steps reach is valid, stays inside the code, finds what it
  pops, and has one depth whatever the path, is accepted as long as the parser's stack has room, with a
  stack size no greater than the depths need.
\<close>
theorem compute_stack_size_accepts:
  assumes "typed code n D" "n \<le> 65535" "length code < 2 ^ 29"
  shows "\<exists>m. compute_stack_size code True (\<lambda>_. Push_room) = Some (Inr m) \<and> unat m \<le> n"
  by (rule typed_accepted [OF assms])

section \<open>Pointers across a collection\<close>

lemma push_moves:
  "compute_stack_size_push code env a t pos n st = Some (Inr st') \<Longrightarrow> \<forall>k. env k \<noteq> Push_moved \<Longrightarrow>
   moves st' = moves st"
  by (auto simp: compute_stack_size_push_def js_parse_push_val_def Let_def
      split: if_splits sum.splits push_outcome.splits)

lemma push_safe: "compute_stack_size_push code env (moves st) (moves st) pos n st \<noteq> None"
  by (simp add: compute_stack_size_push_def Let_def split: sum.splits)

lemma push_both_safe:
  assumes "\<forall>k. env k \<noteq> Push_moved"
  shows "push_both code env (moves st) p1 n1 p2 n2 st \<noteq> None"
proof -
  obtain r where r: "compute_stack_size_push code env (moves st) (moves st) p1 n1 st = Some r"
    using push_safe by blast
  show ?thesis
  proof (cases r)
    case (Inr st1)
    with r have "compute_stack_size_push code env (moves st) (moves st) p1 n1 st = Some (Inr st1)" by simp
    from push_moves [OF this assms] have "moves st1 = moves st" .
    then have "compute_stack_size_push code env (moves st) (moves st) p2 n2 st1 \<noteq> None"
      using push_safe [of code env st1] by simp
    then show ?thesis using r Inr by (simp add: push_both_def)
  qed (simp add: push_both_def r)
qed

lemma depth_small: "explore_inv code st wl D X \<Longrightarrow> (p, d) \<in> set wl \<Longrightarrow> d < 2 ^ 17"
  using u16_bound [of "func_stack_size st"] by (fastforce simp: explore_inv_def)

lemma depth_value:
  assumes "explore_inv code st wl D X" "(p, d) \<in> set wl"
  shows "sint (JS_VALUE_GET_INT (JS_NewShortInt (of_nat d))) = int d"
  using enc_value [of d] sint_of_nat_small [of d] depth_small [OF assms] by simp

lemma check_op_returns:
  assumes p: "p < length code" and len: "length code < 2 ^ 29"
  shows "check_op code (of_nat p) (int d) m \<noteq> None"
proof -
  have up: "unat (of_nat p :: u32) = p" using p len by (intro unat_of_nat_u32) simp
  have upos: "unat (of_nat p + 1 :: u32) = p + 1" by (rule unat_next_u32) (use p len in simp)
  show ?thesis
  proof (cases "code ! p = OP_invalid \<or> OP_COUNT \<le> unat (code ! p)")
    case True
    then show ?thesis using p by (simp add: check_op_def up)
  next
    case False
    let ?oi = "opcode_info ! unat (code ! p)"
    from False have op: "unat (code ! p) < OP_COUNT" by simp
    have "(of_nat p + 1 + of_nat (op_size ?oi) - 1 :: u32) = of_nat (next_at code p)" by (simp add: next_at_def)
    moreover have "next_at code p < 2 ^ 32" using opcode_size_bounds [OF op] p len by (simp add: next_at_def)
    ultimately have nx: "unat (of_nat p + 1 + of_nat (op_size ?oi) - 1 :: u32) = next_at code p"
      by (simp only: unat_of_nat_u32)
    show ?thesis
    proof (cases "next_at code p \<le> length code")
      case le: True
      have "(if op_fmt ?oi = OP_FMT_npop then read_u16 code (p + 1) else Some 0) \<noteq> None"
        using npop_size [OF op] le by (auto simp: read_u16_def next_at_def)
      then obtain y where y: "(if op_fmt ?oi = OP_FMT_npop then read_u16 code (p + 1) else Some 0) = Some y" by blast
      show ?thesis
        unfolding check_op_def up Let_def upos nx y option.case using p False by (simp add: opcode_rows_all)
    next
      case gt: False
      show ?thesis
        unfolding check_op_def up Let_def upos nx using p False gt by (simp add: opcode_rows_all)
    qed
  qed
qed

lemma explore_op_safe:
  assumes inv: "explore_inv code st wl D {}" and len: "length code < 2 ^ 29" and ne: "wl \<noteq> []"
    and env: "\<forall>k. env k \<noteq> Push_moved"
  shows "explore_op code env st \<noteq> None"
proof -
  from ne obtain p d wl0 where wl: "wl = (p, d) # wl0" by (cases wl) auto
  have p: "p < length code" and ps: "parse_stack st = enc (p, d) @ concat (map enc wl0)"
    using inv by (auto simp: explore_inv_def wl)
  have g2: "JS_VALUE_GET_INT (JS_NewShortInt (of_nat p)) = of_nat p" by (rule enc_value) (use p len in simp)
  have up: "unat (of_nat p :: u32) = p" using p len by (intro unat_of_nat_u32) simp
  have g1: "sint (JS_VALUE_GET_INT (JS_NewShortInt (of_nat d))) = int d" by (rule depth_value [OF inv, of p]) (simp add: wl)
  have d17: "d < 2 ^ 17" by (rule depth_small [OF inv, of p]) (simp add: wl)
  obtain r where r: "check_op code (of_nat p) (int d) (func_stack_size st) = Some r" using check_op_returns [OF p len] by blast
  show ?thesis
  proof (cases r)
    case (Inl e)
    then show ?thesis using r by (simp add: explore_op_def ps enc_def g1 g2 Let_def)
  next
    case (Inr n)
    with check_op_ok [of code p d _ n] r p len d17 have nx: "next_at code p \<le> length code" by (simp add: runs_at_def)
    have upos: "unat (of_nat p + 1 :: u32) = p + 1" by (rule unat_next_u32) (use p len in simp)
    have "follow_op code env (moves st) (code ! p) (of_nat p + 1) n st1 \<noteq> None" if "moves st1 = moves st" for st1 :: stack_state
      unfolding follow_op_reads [OF nx upos] Let_def
      using push_safe [of code env st1, unfolded that] push_both_safe [OF env, of code st1, unfolded that] by simp
    then show ?thesis using r Inr by (simp add: explore_op_def ps enc_def g1 g2 up Let_def)
  qed
qed

lemma explore_loop_safe:
  assumes "explore_inv code st wl D {}" "length code < 2 ^ 29" "\<forall>k. env k \<noteq> Push_moved"
  shows "explore_loop code env st \<noteq> None"
  using assms
proof (induction code env st arbitrary: wl D rule: explore_loop.induct)
  case (1 code env st)
  have len: "length (explore_tab st) = length code" using "1.prems"(1) by (simp add: explore_inv_def)
  show ?case
  proof (cases "parse_stack st = []")
    case True
    then show ?thesis using len by (simp add: explore_loop.simps)
  next
    case False
    then have "wl \<noteq> []" using "1.prems"(1) by (auto simp: explore_inv_def)
    from explore_op_safe [OF "1.prems"(1,2) this "1.prems"(3)] obtain r where r: "explore_op code env st = Some r"
      by blast
    show ?thesis
    proof (cases r)
      case (Inl e)
      then show ?thesis using len False r by (subst explore_loop.simps) simp
    next
      case (Inr st1)
      with r have r1: "explore_op code env st = Some (Inr st1)" by simp
      from explore_op_inv [OF r1 "1.prems"(1,2)] obtain wl1 D1 where "explore_inv code st1 wl1 D1 {}" by blast
      from "1.IH" [OF _ False r1 refl this "1.prems"(2,3)] len show ?thesis
        by (subst explore_loop.simps) (simp add: False r1)
    qed
  qed
qed

text \<open>
  C23: as long as no collection moves the byte code and the table, the analysis of any bytes ends with a
  result or an error and never reads or writes outside them.
\<close>
theorem compute_stack_size_safe:
  assumes "\<forall>k. env k \<noteq> Push_moved" "length code < 2 ^ 29"
  shows "compute_stack_size code room env \<noteq> None"
proof -
  define st where "st = \<lparr>explore_tab = replicate (length code) 0, parse_stack = [], func_stack_size = 0,
                     moves = 0, pushes = 0\<rparr>"
  have inv: "explore_inv code st [] (\<lambda>_. 0) {}" by (auto simp: explore_inv_def st_def)
  have "compute_stack_size_push code env 0 0 0 0 st \<noteq> None"
    using push_safe [of code env st 0 0] by (simp add: st_def)
  then obtain r where r: "compute_stack_size_push code env 0 0 0 0 st = Some r" by blast
  show ?thesis
  proof (cases r)
    case (Inl e)
    then show ?thesis using r by (simp add: compute_stack_size_def Let_def st_def)
  next
    case (Inr st1)
    then have p: "compute_stack_size_push code env 0 0 0 (int 0) st = Some (Inr st1)" using r by simp
    from push_inv [OF p inv _ assms(2)] obtain wl1 D1 where "explore_inv code st1 wl1 D1 {}" by auto
    from explore_loop_safe [OF this assms(2,1)] show ?thesis
      using r Inr by (auto simp: compute_stack_size_def Let_def st_def split: option.splits sum.splits)
  qed
qed

text \<open>The two pushes of an entry move the byte code and the table, without filling the parser's stack.\<close>

definition moving :: "(nat \<Rightarrow> push_outcome) \<Rightarrow> nat \<Rightarrow> bool" where
  "moving env k \<longleftrightarrow> env k = Push_moved \<and> env (k + 1) \<noteq> Push_full \<or> env k = Push_room \<and> env (k + 1) = Push_moved"

lemma push_moves_iff:
  "(\<exists>st'. compute_stack_size_push code env (moves st) (moves st) pos n st = Some (Inr st') \<and> moves st' \<noteq> moves st)
     \<longleftrightarrow> unat pos < length code \<and> explore_tab st ! unat pos = 0 \<and> moving env (pushes st)"
  by (auto simp: compute_stack_size_push_def js_parse_push_val_def moving_def Let_def
      split: if_splits sum.splits push_outcome.splits)

lemma push_both_stale:
  "push_both code env (moves st) p1 n1 p2 n2 st = None \<longleftrightarrow>
     unat p1 < length code \<and> explore_tab st ! unat p1 = 0 \<and> moving env (pushes st)"
proof -
  obtain r where r: "compute_stack_size_push code env (moves st) (moves st) p1 n1 st = Some r"
    using push_safe by blast
  have "compute_stack_size_push code env (moves st) (moves st) p2 n2 st' = None \<longleftrightarrow> moves st' \<noteq> moves st" for st'
    using push_safe [of code env st'] by (cases "moves st' = moves st") (simp, simp add: compute_stack_size_push_def)
  then show ?thesis
    unfolding push_moves_iff [symmetric, where n = n1] push_both_def r by (cases r) simp_all
qed

text \<open>
  C26: the second of the two pushes of a branch uses the pointers read before the first. In any state of
  the exploration the round of an instruction that passed its checks uses memory that was moved exactly
  when the instruction is a branch or the call of a \<open>finally\<close> block, its target has not been seen, and a
  collection moves the byte code or the table while the target is pushed.
\<close>
theorem compute_stack_size_stale_pointers:
  assumes "parse_stack st = enc (p, d) @ rest" "p < length code" "length code < 2 ^ 29" "d < 2 ^ 17"
    and "check_op code (of_nat p) (int d) (func_stack_size st) = Some (Inr n)"
  shows "explore_op code env st = None \<longleftrightarrow>
    code ! p \<in> {OP_if_true, OP_if_false, OP_gosub} \<and>
    (let target = unat (of_nat p + 1 + get_u32 code (p + 1)) in
       target < length code \<and> explore_tab st ! target = 0 \<and> moving env (pushes st))"
proof -
  have g2: "JS_VALUE_GET_INT (JS_NewShortInt (of_nat p)) = of_nat p" by (rule enc_value) (use assms(2,3) in simp)
  have g1: "sint (JS_VALUE_GET_INT (JS_NewShortInt (of_nat d))) = int d"
    using enc_value [of d] sint_of_nat_small [of d] assms(4) by simp
  have up: "unat (of_nat p :: u32) = p" using assms(2,3) by (intro unat_of_nat_u32) simp
  have upos: "unat (of_nat p + 1 :: u32) = p + 1" by (rule unat_next_u32) (use assms(2,3) in simp)
  have nx: "next_at code p \<le> length code"
    using check_op_ok [OF assms(5,2,3,4)] by (simp add: runs_at_def)
  define st1 where "st1 = raise_size n (st\<lparr>parse_stack := rest\<rparr>)"
  have m: "moves st = moves st1" "explore_tab st = explore_tab st1" "pushes st = pushes st1" by (simp_all add: st1_def)
  have "explore_op code env st = follow_op code env (moves st1) (code ! p) (of_nat p + 1) n st1"
    using assms(1,5) by (simp add: explore_op_def enc_def g1 g2 up st1_def)
  then show ?thesis
    unfolding follow_op_reads [OF nx upos] Let_def m
    using push_safe [of code env st1] push_both_stale [of code env st1] by (auto simp: gosub_other opcode_defs)
qed

section \<open>Examples\<close>

text \<open>\<open>undefined; if_false L; undefined; return; L: return_undef\<close>\<close>

definition branch_code :: "u8 list" where
  "branch_code = [OP_undefined, OP_if_false, 6, 0, 0, 0, OP_undefined, OP_return, OP_return_undef]"

lemma branch_code_size: "compute_stack_size branch_code True (\<lambda>_. Push_room) = Some (Inr 1)"
  by code_simp

text \<open>The steps as a list, to compute with.\<close>

definition frame_next :: "u8 list \<Rightarrow> nat \<times> nat \<Rightarrow> (nat \<times> nat) list" where
  "frame_next code s =
     (let (p, d) = s; op = code ! p; e = after_at code p d; t = int p + 1 + get_i32 code (p + 1) in
      (if op \<in> {OP_return, OP_return_undef, OP_throw, OP_ret, OP_goto} then [] else [(next_at code p, e)]) @
      (if op \<in> {OP_goto, OP_if_true, OP_if_false} \<and> 0 \<le> t then [(nat t, e)] else []) @
      (if op = OP_gosub \<and> 0 \<le> t then [(nat t, e + 1)] else []))"

lemma frame_next: "frame_step code s t \<longleftrightarrow> t \<in> set (frame_next code s)"
proof -
  have tg: "is_target code p q \<longleftrightarrow> 0 \<le> int p + 1 + get_i32 code (p + 1) \<and> q = nat (int p + 1 + get_i32 code (p + 1))"
    for p q by (auto simp: is_target_def)
  obtain p d q e where s: "s = (p, d)" "t = (q, e)" by (cases s, cases t) auto
  show ?thesis
    unfolding s frame_step.simps [of code "(p, d)" "(q, e)"] tg frame_next_def Let_def split_conv
    by (simp add: gosub_other) blast
qed

definition good_states :: "u8 list \<Rightarrow> nat \<Rightarrow> (nat \<Rightarrow> nat) \<Rightarrow> (nat \<times> nat) list \<Rightarrow> bool" where
  "good_states code n D S \<longleftrightarrow> (0, 0) \<in> set S \<and>
     list_all (\<lambda>(p, d). d = D p \<and> runs_at code n p d \<and> lands_at code p \<and>
       list_all (\<lambda>t. t \<in> set S) (frame_next code (p, d))) S"

lemma good_states_typed: "good_states code n D S \<Longrightarrow> typed code n D"
proof -
  assume g: "good_states code n D S"
  have "s \<in> set S" if "(frame_step code)\<^sup>*\<^sup>* (0, 0) s" for s
    using that
  proof induction
    case base
    then show ?case using g by (simp add: good_states_def)
  next
    case (step s t)
    then show ?case using g by (auto simp: good_states_def list_all_iff frame_next)
  qed
  then show ?thesis using g unfolding typed_def good_states_def list_all_iff by fastforce
qed

definition branch_states :: "(nat \<times> nat) list" where
  "branch_states = [(0, 0), (1, 1), (6, 0), (8, 0), (7, 1)]"

lemma branch_code_good: "good_states branch_code 1 (\<lambda>p. if p = 1 \<or> p = 7 then 1 else 0) branch_states"
  by code_simp

theorem compute_stack_size_accepts_witness:
  "\<exists>m. compute_stack_size branch_code True (\<lambda>_. Push_room) = Some (Inr m) \<and> unat m \<le> 1"
  by (rule compute_stack_size_accepts [OF good_states_typed [OF branch_code_good]])
    (simp_all add: branch_code_def)

theorem compute_stack_size_bounds_witness:
  "runs_at branch_code 1 7 1"
proof -
  have st: "frame_step branch_code (0, 0) (1, 1)" "frame_step branch_code (1, 1) (6, 0)"
    "frame_step branch_code (6, 0) (7, 1)"
    unfolding frame_next by code_simp+
  have r: "(frame_step branch_code)\<^sup>*\<^sup>* (0, 0) (7, 1)"
    using rtranclp.rtrancl_refl st by (rule rtranclp.rtrancl_into_rtrancl [OF rtranclp.rtrancl_into_rtrancl
      [OF rtranclp.rtrancl_into_rtrancl]])
  have n: "unat (1 :: u16) < 254" "length branch_code < 2 ^ 29" by (simp_all add: branch_code_def)
  from compute_stack_size_bounds [OF branch_code_size n r] show ?thesis by simp
qed

theorem compute_stack_size_safe_witness:
  "compute_stack_size branch_code True (\<lambda>_. Push_full) \<noteq> None"
  by (rule compute_stack_size_safe) (simp_all add: branch_code_def)

theorem compute_stack_size_stale_pointers_witness:
  "explore_op branch_code (\<lambda>_. Push_moved)
     \<lparr>explore_tab = [1, 2, 0, 0, 0, 0, 0, 0, 0], parse_stack = enc (1, 1), func_stack_size = 1, moves = 0, pushes = 4\<rparr> = None"
proof -
  let ?st = "\<lparr>explore_tab = [1, 2, 0, 0, 0, 0, 0, 0, 0], parse_stack = enc (1, 1), func_stack_size = 1, moves = 0, pushes = 4\<rparr>"
  have c: "check_op branch_code (of_nat 1) (int 1) (func_stack_size ?st) = Some (Inr 0)" by code_simp
  have t: "(let target = unat (of_nat 1 + 1 + get_u32 branch_code (1 + 1) :: u32) in
      target < length branch_code \<and> explore_tab ?st ! target = 0 \<and> moving (\<lambda>_. Push_moved) (pushes ?st))"
    unfolding moving_def by code_simp
  have b: "branch_code ! 1 \<in> {OP_if_true, OP_if_false, OP_gosub}" "length branch_code = 9" by (simp_all add: branch_code_def)
  show ?thesis
    using compute_stack_size_stale_pointers [of ?st 1 1 "[]" branch_code 0 "\<lambda>_. Push_moved", OF _ _ _ _ c] b t
    by (simp del: One_nat_def)
qed

section \<open>Exception handlers\<close>

text \<open>
  The other edge of the control flow: \<open>OP_catch\<close> pushes the place of the handler, and an exception
  continues there with the exception in its place.
\<close>

definition handler_entry :: "u8 list \<Rightarrow> nat \<times> nat \<Rightarrow> nat \<times> nat \<Rightarrow> bool" where
  "handler_entry code s t \<longleftrightarrow>
     code ! fst s = OP_catch \<and> is_target code (fst s) (fst t) \<and> snd t = snd s + 1"

text \<open>\<open>catch H; drop; return_undef; H: undefined\<close> (\<open>k\<close> times) \<open>; return_undef\<close>\<close>

definition try_code :: "nat \<Rightarrow> u8 list" where
  "try_code k = [OP_catch, 6, 0, 0, 0, OP_drop, OP_return_undef] @ replicate k OP_undefined @ [OP_return_undef]"

lemma opcode_rows:
  "opcode_info ! unat OP_undefined = DEF 1 0 1 OP_FMT_none"
  "opcode_info ! unat OP_return_undef = DEF 1 0 0 OP_FMT_none"
  "opcode_info ! unat OP_catch = DEF 5 0 1 OP_FMT_label"
  "opcode_info ! unat OP_drop = DEF 1 1 0 OP_FMT_none"
  "unat OP_undefined < OP_COUNT" "unat OP_return_undef < OP_COUNT" "unat OP_catch < OP_COUNT"
  "unat OP_drop < OP_COUNT"
  by code_simp+

lemma frame_next_plain:
  "code ! p \<in> {OP_catch, OP_drop, OP_undefined} \<Longrightarrow> frame_next code (p, d) = [(next_at code p, after_at code p d)]"
  by (auto simp: frame_next_def Let_def opcode_defs)

lemma frame_next_stop: "code ! p = OP_return_undef \<Longrightarrow> frame_next code (p, d) = []"
  by (auto simp: frame_next_def Let_def opcode_defs)

lemma valid_ops: "OP_catch \<noteq> OP_invalid" "OP_drop \<noteq> OP_invalid" "OP_return_undef \<noteq> OP_invalid"
  by (simp_all add: opcode_defs)

lemma lands_plain: "code ! p \<in> {OP_catch, OP_drop, OP_undefined, OP_return_undef} \<Longrightarrow> lands_at code p"
  by (auto simp: lands_at_def opcode_defs)

lemma try_code_at:
  "length (try_code k) = 8 + k" "try_code k ! 0 = OP_catch" "try_code k ! 5 = OP_drop"
  "try_code k ! 6 = OP_return_undef" "get_i32 (try_code k) 1 = 6"
  "j < k \<Longrightarrow> try_code k ! (7 + j) = OP_undefined"
  by (simp_all add: try_code_def nth_append get_i32_def get_u32_def)

lemmas row_simps = next_at_def after_at_def pops_at_def opcode_rows DEF_def

lemma try_code_steps:
  "frame_next (try_code k) (0, 0) = [(5, 1)]" "frame_next (try_code k) (5, 1) = [(6, 0)]"
  "frame_next (try_code k) (6, 0) = []"
  "j < k \<Longrightarrow> frame_next (try_code k) (7 + j, d) = [(7 + Suc j, Suc d)]"
  using frame_next_plain [of "try_code k" 0 0] frame_next_plain [of "try_code k" 5 1]
    frame_next_stop [of "try_code k" 6 0] frame_next_plain [of "try_code k" "7 + j" d]
  by (simp_all add: try_code_at row_simps)

lemma try_code_good: "good_states (try_code k) 1 (\<lambda>p. if p = 5 then 1 else 0) [(0, 0), (5, 1), (6, 0)]"
  using lands_plain [of "try_code k" 0] lands_plain [of "try_code k" 5] lands_plain [of "try_code k" 6]
  unfolding good_states_def
  by (simp add: try_code_steps [simplified] try_code_at runs_at_def row_simps valid_ops)

text \<open>
  C24: the code of an exception handler is not analysed. For every \<open>k\<close> there is a function whose handler
  pushes \<open>k\<close> values on the exception, and which the analysis accepts with a stack size of at most 1.
\<close>
theorem handler_stack_not_counted:
  assumes "k < 2 ^ 28"
  shows "\<exists>m. compute_stack_size (try_code k) True (\<lambda>_. Push_room) = Some (Inr m) \<and> unat m \<le> 1 \<and>
    handler_entry (try_code k) (0, 0) (7, 1) \<and> (frame_step (try_code k))\<^sup>*\<^sup>* (7, 1) (7 + k, 1 + k)"
proof -
  have "(frame_step (try_code k))\<^sup>*\<^sup>* (7, 1) (7 + j, 1 + j)" if "j \<le> k" for j
    using that
  proof (induction j)
    case (Suc j)
    then have "frame_step (try_code k) (7 + j, 1 + j) (7 + Suc j, 1 + Suc j)"
      using try_code_steps(4) [of j k "1 + j"] unfolding frame_next by simp
    moreover have "(frame_step (try_code k))\<^sup>*\<^sup>* (7, 1) (7 + j, 1 + j)" using Suc by simp
    ultimately show ?case by (rule rtranclp.rtrancl_into_rtrancl [rotated])
  qed simp
  moreover have "handler_entry (try_code k) (0, 0) (7, 1)"
    using try_code_at(5) [of k] by (simp add: handler_entry_def try_code_at(2) is_target_def)
  ultimately show ?thesis
    using typed_accepted [OF good_states_typed [OF try_code_good], of k] assms
    by (auto simp: try_code_at(1))
qed

theorem handler_stack_not_counted_witness:
  "(frame_step (try_code 100))\<^sup>*\<^sup>* (7, 1) (107, 101)"
  using handler_stack_not_counted [of 100] by auto

section \<open>The limit of the table\<close>

text \<open>
  \<open>wrap_code\<close> pushes 255 values and jumps back to its start. The byte of the table cannot tell the depth
  255 from 0, so the analysis accepts it, with a stack size of 255, though its depth grows for ever.
\<close>

definition wrap_code :: "u8 list" where
  "wrap_code = replicate 255 OP_undefined @ [OP_goto, 0x00, 0xff, 0xff, 0xff]"

lemma wrap_code_at:
  "length wrap_code = 260" "p < 255 \<Longrightarrow> wrap_code ! p = OP_undefined" "wrap_code ! 255 = OP_goto"
  "get_u32 wrap_code 256 = 0xffffff00"
  by (simp_all add: wrap_code_def nth_append get_u32_def)

lemma goto_row: "opcode_info ! unat OP_goto = DEF 5 0 0 OP_FMT_label" "unat OP_goto < OP_COUNT" "OP_goto \<noteq> OP_invalid"
  "OP_undefined \<noteq> OP_invalid" by code_simp+

definition wrap_state :: "nat \<Rightarrow> stack_state" where
  "wrap_state j = \<lparr>explore_tab = map (\<lambda>i. if i \<le> j then word_of_int (1 + int i mod 2 ^ 32 mod 255) else 0) [0..<260],
     parse_stack = enc (j, j), func_stack_size = of_nat j, moves = 0, pushes = 2 * Suc j\<rparr>"

lemma wrap_runs: "p \<le> 255 \<Longrightarrow> runs_at wrap_code (Suc p) p p \<and> after_at wrap_code p p = (if p = 255 then p else Suc p) \<and>
   next_at wrap_code p \<le> 260"
proof (cases "p = 255")
  case True
  then show ?thesis by (simp add: runs_at_def wrap_code_at goto_row next_at_def after_at_def pops_at_def DEF_def)
qed (simp add: runs_at_def wrap_code_at goto_row row_simps)

lemma wrap_first: "compute_stack_size_push wrap_code (\<lambda>_. Push_room) 0 0 0 0
     \<lparr>explore_tab = replicate (length wrap_code) 0, parse_stack = [], func_stack_size = 0, moves = 0, pushes = 0\<rparr>
   = Some (Inr (wrap_state 0))"
proof -
  have t: "(replicate 260 0)[0 := 1] = map (\<lambda>i. if i \<le> 0 then word_of_int (1 + int i mod 2 ^ 32 mod 255) else (0 :: u8)) [0..<260]"
    by (rule nth_equalityI) (auto simp: nth_list_update)
  show ?thesis
    using t by (simp add: compute_stack_size_push_def js_parse_push_val_def wrap_state_def wrap_code_at enc_def)
qed

lemma wrap_round:
  assumes j: "j < 255"
  shows "explore_op wrap_code (\<lambda>_. Push_room) (wrap_state j) = Some (Inr (wrap_state (Suc j)))"
proof -
  have g2: "JS_VALUE_GET_INT (JS_NewShortInt (of_nat j)) = of_nat j" by (rule enc_value) (use j in simp)
  have g1: "sint (JS_VALUE_GET_INT (JS_NewShortInt (of_nat j))) = int j"
    using enc_value [of j] sint_of_nat_small [of j] j by simp
  then have g1': "sint (of_nat j :: u32) = int j" by (simp add: g2)
  have fj: "unat (of_nat j :: u16) = j" using j by (simp add: unat_of_nat)
  have up: "unat (of_nat j :: u32) = j" using j by (simp add: unat_of_nat)
  have upos: "unat (of_nat j + 1 :: u32) = j + 1" by (rule unat_next_u32) (use j in simp)
  have r: "runs_at wrap_code 256 j j" "after_at wrap_code j j = Suc j" "next_at wrap_code j \<le> length wrap_code"
    using wrap_runs [of j] j by (auto simp: wrap_code_at intro: runs_at_mono)
  have c: "check_op wrap_code (of_nat j) (int j) (of_nat j) = Some (Inr (int (Suc j)))"
    using check_op_typed [OF r(1), of "of_nat j"] j r(2) by (simp add: fj wrap_code_at)
  have op: "wrap_code ! j = OP_undefined" by (rule wrap_code_at(2) [OF j])
  have tab: "(map (\<lambda>i. if i \<le> j then word_of_int (1 + int i mod 2 ^ 32 mod 255) else (0 :: u8)) [0..<260])
      [Suc j := word_of_int (1 + int (Suc j) mod 2 ^ 32 mod 255)] =
    map (\<lambda>i. if i \<le> Suc j then word_of_int (1 + int i mod 2 ^ 32 mod 255) else 0) [0..<260]"
    using j by (intro nth_equalityI) (auto simp: nth_list_update le_Suc_eq simp del: of_nat_Suc)
  have nx: "(of_nat j + 1 + of_nat (op_size (opcode_info ! unat (wrap_code ! j))) - 1 :: u32) = of_nat (Suc j)"
    by (simp add: op opcode_rows DEF_def)
  have us: "unat (of_nat (Suc j) :: u32) = Suc j" by (rule unat_of_nat_u32) (use j in simp)
  have raise: "raise_size (int (Suc j)) (wrap_state j\<lparr>parse_stack := []\<rparr>) = wrap_state j\<lparr>parse_stack := [], func_stack_size := of_nat (Suc j)\<rparr>"
    using fj by (simp add: raise_size_def wrap_state_def uint_nat)
  have p: "parse_stack (wrap_state j) = enc (j, j)" "func_stack_size (wrap_state j) = of_nat j" "moves (wrap_state j) = 0"
    by (simp_all add: wrap_state_def)
  have "explore_op wrap_code (\<lambda>_. Push_room) (wrap_state j) =
      follow_op wrap_code (\<lambda>_. Push_room) 0 (wrap_code ! j) (of_nat j + 1) (int (Suc j))
        (wrap_state j\<lparr>parse_stack := [], func_stack_size := of_nat (Suc j)\<rparr>)"
    by (simp add: explore_op_def p enc_def g1' g2 c raise up Let_def del: of_nat_Suc)
  also have "\<dots> = compute_stack_size_push wrap_code (\<lambda>_. Push_room) 0 0 (of_nat (Suc j)) (int (Suc j))
        (wrap_state j\<lparr>parse_stack := [], func_stack_size := of_nat (Suc j)\<rparr>)"
    unfolding follow_op_reads [OF r(3) upos] Let_def nx by (simp add: op opcode_defs)
  also have "\<dots> = Some (Inr (wrap_state (Suc j)))"
    unfolding compute_stack_size_push_def us using j
    by (simp add: js_parse_push_val_def wrap_state_def wrap_code_at tab [symmetric] enc_def del: of_nat_Suc)
  finally show ?thesis .
qed

lemma wrap_last: "explore_op wrap_code (\<lambda>_. Push_room) (wrap_state 255) = Some (Inr (wrap_state 255\<lparr>parse_stack := []\<rparr>))"
proof -
  have g: "JS_VALUE_GET_INT (JS_NewShortInt 255) = 255" using enc_value [of 255] by simp
  have r: "runs_at wrap_code 256 255 255" "after_at wrap_code 255 255 = 255" "next_at wrap_code 255 \<le> length wrap_code"
    using wrap_runs [of 255] by (auto simp: wrap_code_at intro: runs_at_mono)
  have c: "check_op wrap_code 255 255 255 = Some (Inr 255)"
    using check_op_typed [OF r(1), of 255] r(2) by (simp add: wrap_code_at)
  have p: "parse_stack (wrap_state 255) = enc (255, 255)" "func_stack_size (wrap_state 255) = 255" "moves (wrap_state 255) = 0"
    "explore_tab (wrap_state 255) ! 0 = 1"
    by (simp_all add: wrap_state_def)
  have "explore_op wrap_code (\<lambda>_. Push_room) (wrap_state 255) =
      follow_op wrap_code (\<lambda>_. Push_room) 0 (wrap_code ! 255) 256 255 (wrap_state 255\<lparr>parse_stack := []\<rparr>)"
    by (simp add: explore_op_def p enc_def g c raise_size_def)
  also have "\<dots> = Some (Inr (wrap_state 255\<lparr>parse_stack := []\<rparr>))"
    using follow_op_reads [OF r(3), of "256"] p
    by (simp add: wrap_code_at opcode_defs compute_stack_size_push_def)
  finally show ?thesis .
qed

lemma wrap_code_accepted: "compute_stack_size wrap_code True (\<lambda>_. Push_room) = Some (Inr 255)"
proof -
  have len: "length (explore_tab (wrap_state j)) = length wrap_code" for j by (simp add: wrap_state_def wrap_code_at)
  have ne: "parse_stack (wrap_state j) \<noteq> []" for j by (simp add: wrap_state_def enc_def)
  have "explore_loop wrap_code (\<lambda>_. Push_room) (wrap_state 0) = explore_loop wrap_code (\<lambda>_. Push_room) (wrap_state j)" if "j \<le> 255" for j
    using that
  proof (induction j)
    case (Suc j)
    then show ?case using wrap_round [of j] explore_loop.simps [of wrap_code _ "wrap_state j"] len ne by simp
  qed simp
  from this [of 255] have "explore_loop wrap_code (\<lambda>_. Push_room) (wrap_state 0) =
      explore_loop wrap_code (\<lambda>_. Push_room) (wrap_state 255\<lparr>parse_stack := []\<rparr>)"
    using wrap_last explore_loop.simps [of wrap_code _ "wrap_state 255"] len ne by simp
  also have "\<dots> = Some (Inr (wrap_state 255\<lparr>parse_stack := []\<rparr>))"
    using len [of 255] by (subst explore_loop.simps) simp
  finally show ?thesis
    using wrap_first by (simp add: compute_stack_size_def wrap_state_def)
qed

theorem wrap_code_grows:
  "compute_stack_size wrap_code True (\<lambda>_. Push_room) = Some (Inr 255) \<and> (frame_step wrap_code)\<^sup>*\<^sup>* (0, 0) (0, 255 * k)"
proof (rule conjI [OF wrap_code_accepted])
  have up: "(frame_step wrap_code)\<^sup>*\<^sup>* (0, d) (j, d + j)" if "j \<le> 255" for d j
    using that
  proof (induction j)
    case (Suc j)
    have "frame_step wrap_code (j, d + j) (Suc j, d + Suc j)"
      using frame_step.fall [of wrap_code j "d + j"] Suc.prems
      by (simp add: wrap_code_at opcode_defs) (simp add: row_simps wrap_code_at)
    then show ?case using Suc by (auto intro: rtranclp.rtrancl_into_rtrancl)
  qed simp
  have "is_target wrap_code 255 0" by (simp add: is_target_def get_i32_def wrap_code_at)
  from frame_step.jump [OF _ this] have again: "frame_step wrap_code (255, d) (0, d)" for d
    by (simp add: wrap_code_at) (simp add: after_at_def pops_at_def goto_row wrap_code_at DEF_def)
  show "(frame_step wrap_code)\<^sup>*\<^sup>* (0, 0) (0, 255 * k)"
  proof (induction k)
    case (Suc k)
    have "(frame_step wrap_code)\<^sup>*\<^sup>* (0, 255 * k) (0, 255 * k + 255)"
      by (rule rtranclp.rtrancl_into_rtrancl [OF up again]) simp
    then show ?case using Suc by (simp add: add.commute)
  qed simp
qed

end
