(* ===== verification/JsEmit.thy ===== *)
theory JsEmit imports Bytecode JsAlloc "HOL-Library.Monad_Syntax" begin

text \<open>
  The code generator's output (\<open>native/mquickjs/mquickjs.c\<close>, \<open>emit_u8\<close> to \<open>emit_goto\<close> and
  \<open>define_hoisted_functions\<close>): the byte code of the current function, its line table, labels and the
  code that defines hoisted functions. The byte code and the line table are lists of bytes, the empty
  list where the code has \<open>JS_NULL\<close>; \<open>js_resize_bytes\<close> is \<open>js_resize_byte_array\<close> on their contents, and
  the outcome of its allocation is a parameter: failure, or the content of the new memory. Positions
  and lengths are natural numbers, below the largest size of a byte array. \<open>None\<close> is the parse error of
  a failed allocation, or an access outside an array.
\<close>

unbundle bit_operations_syntax

section \<open>State\<close>

record parse_state =
  source_buf :: "u8 list"
  has_col :: bool
  code_buf :: "u8 list"
  byte_code_len :: nat
  last_opcode_pos :: int
  last_pc2line_pos :: nat
  last_pc2line_source_pos :: nat
  line_buf :: "u8 list"
  pc2line_bit_len :: nat
  pc2line_source_pos :: nat
  hoisted_code_len :: nat
  resizes :: nat

type_synonym resize_env = "nat \<Rightarrow> (nat \<Rightarrow> u8) option"

text \<open>\<open>reset_parse_state\<close>, the fields of the code generator.\<close>

definition reset_parse_state :: "parse_state \<Rightarrow> parse_state" where
  "reset_parse_state s = s\<lparr>code_buf := [], byte_code_len := 0, last_opcode_pos := -1, line_buf := [],
     pc2line_bit_len := 0, pc2line_source_pos := 0, hoisted_code_len := 0\<rparr>"

definition js_resize_bytes :: "resize_env \<Rightarrow> nat \<Rightarrow> u8 list \<Rightarrow> nat \<Rightarrow> (nat \<times> u8 list) option" where
  "js_resize_bytes env k old new_size =
     (if new_size > length old then
        let n = max new_size (length old + length old div 2) in
        if int n > JS_BYTE_ARRAY_SIZE_MAX then None
        else (case env k of
            None \<Rightarrow> None
          | Some fresh \<Rightarrow> Some (k + 1, old @ map fresh [length old..<n]))
      else Some (k, old))"

section \<open>Byte code\<close>

definition emit_claim_size :: "resize_env \<Rightarrow> parse_state \<Rightarrow> nat \<Rightarrow> parse_state option" where
  "emit_claim_size env s n =
     (case js_resize_bytes env (resizes s) (code_buf s) (byte_code_len s + n) of
        None \<Rightarrow> None
      | Some (k, b) \<Rightarrow> Some (s\<lparr>code_buf := b, resizes := k\<rparr>))"

definition emit_u8 :: "resize_env \<Rightarrow> parse_state \<Rightarrow> u8 \<Rightarrow> parse_state option" where
  "emit_u8 env s v = do {
     s1 \<leftarrow> emit_claim_size env s 1;
     Some (s1\<lparr>code_buf := (code_buf s1)[byte_code_len s1 := v], byte_code_len := byte_code_len s1 + 1\<rparr>) }"

definition emit_u16 :: "resize_env \<Rightarrow> parse_state \<Rightarrow> u16 \<Rightarrow> parse_state option" where
  "emit_u16 env s v = do {
     s1 \<leftarrow> emit_claim_size env s 2;
     Some (s1\<lparr>code_buf := put_u16 (code_buf s1) (byte_code_len s1) v, byte_code_len := byte_code_len s1 + 2\<rparr>) }"

definition emit_u32 :: "resize_env \<Rightarrow> parse_state \<Rightarrow> u32 \<Rightarrow> parse_state option" where
  "emit_u32 env s v = do {
     s1 \<leftarrow> emit_claim_size env s 4;
     Some (s1\<lparr>code_buf := put_u32 (code_buf s1) (byte_code_len s1) v, byte_code_len := byte_code_len s1 + 4\<rparr>) }"

section \<open>The line table\<close>

definition pc2line_put_bits_short :: "resize_env \<Rightarrow> parse_state \<Rightarrow> nat \<Rightarrow> u32 \<Rightarrow> parse_state option" where
  "pc2line_put_bits_short env s n bits =
     (let index = pc2line_bit_len s; pos = index div 8 in
      case js_resize_bytes env (resizes s) (line_buf s) (pos + 4) of
        None \<Rightarrow> None
      | Some (k, buf) \<Rightarrow>
          let shift = 32 - index mod 8 - n;
              v = get_be32 buf pos AND NOT (push_bit shift (push_bit n 1 - 1)) OR push_bit shift bits in
          Some (s\<lparr>line_buf := put_be32 buf pos v, pc2line_bit_len := index + n, resizes := k\<rparr>))"

definition pc2line_put_bits :: "resize_env \<Rightarrow> parse_state \<Rightarrow> nat \<Rightarrow> u32 \<Rightarrow> parse_state option" where
  "pc2line_put_bits env s n bits =
     (if n > 25 then do {
        s1 \<leftarrow> pc2line_put_bits_short env s (n - 25) (drop_bit 25 bits);
        pc2line_put_bits_short env s1 25 (bits AND (push_bit 25 1 - 1)) }
      else pc2line_put_bits_short env s n bits)"

definition put_ugolomb :: "resize_env \<Rightarrow> parse_state \<Rightarrow> u32 \<Rightarrow> parse_state option" where
  "put_ugolomb env s v =
     (let v1 = v + 1; n = 32 - clz32 v1 in do {
        s1 \<leftarrow> (if n > 1 then pc2line_put_bits env s (n - 1) 0 else Some s);
        pc2line_put_bits env s1 n v1 })"

definition put_sgolomb :: "resize_env \<Rightarrow> parse_state \<Rightarrow> s32 \<Rightarrow> parse_state option" where
  "put_sgolomb env s v = put_ugolomb env s (2 * v XOR - drop_bit 31 v)"

text \<open>A byte that starts a character.\<close>

definition starts_char :: "u8 \<Rightarrow> bool" where
  "starts_char c \<longleftrightarrow> c < 0x80 \<or> c \<ge> 0xc0"

fun line_col_loop :: "u8 list \<Rightarrow> int \<Rightarrow> int \<Rightarrow> int \<times> int" where
  "line_col_loop [] l c = (l, c)"
| "line_col_loop (b # bs) l c =
     (if b = 10 then line_col_loop bs (l + 1) 0
      else if starts_char b then line_col_loop bs l (c + 1) else line_col_loop bs l c)"

text \<open>\<open>get_line_col\<close> of the \<open>len\<close> bytes from \<open>start\<close>: the line and the column.\<close>

definition get_line_col :: "u8 list \<Rightarrow> nat \<Rightarrow> nat \<Rightarrow> int \<times> int" where
  "get_line_col buf start len = line_col_loop (take len (drop start buf)) 0 0"

fun back_col :: "u8 list \<Rightarrow> nat \<Rightarrow> int \<Rightarrow> int" where
  "back_col buf 0 c = c"
| "back_col buf (Suc i) c =
     (if buf ! i = 10 then c else if starts_char (buf ! i) then back_col buf i (c + 1) else back_col buf i c)"

definition get_line_col_delta :: "u8 list \<Rightarrow> nat \<Rightarrow> nat \<Rightarrow> int \<times> int" where
  "get_line_col_delta buf pos1 pos2 =
     (if pos2 \<ge> pos1 then get_line_col buf pos1 (pos2 - pos1)
      else case get_line_col buf pos2 (pos1 - pos2) of
        (l, c) \<Rightarrow> (- l, if - l \<noteq> 0 then back_col buf pos2 0 else - c))"

definition emit_pc2line :: "resize_env \<Rightarrow> parse_state \<Rightarrow> nat \<Rightarrow> parse_state option" where
  "emit_pc2line env s pos =
     (case get_line_col_delta (source_buf s) (pc2line_source_pos s) pos of
        (line_delta, col_delta) \<Rightarrow> do {
          s1 \<leftarrow> put_sgolomb env s (word_of_int line_delta);
          s2 \<leftarrow> (if has_col s1 then
                  if line_delta = 0 then put_sgolomb env s1 (word_of_int col_delta)
                  else put_ugolomb env s1 (word_of_int col_delta)
                else Some s1);
          Some (s2\<lparr>pc2line_source_pos := pos\<rparr>) })"

section \<open>Instructions\<close>

definition emit_op_pos :: "resize_env \<Rightarrow> parse_state \<Rightarrow> u8 \<Rightarrow> nat \<Rightarrow> parse_state option" where
  "emit_op_pos env s op pos = do {
     s1 \<leftarrow> emit_pc2line env (s\<lparr>last_opcode_pos := int (byte_code_len s), last_pc2line_pos := pc2line_bit_len s,
             last_pc2line_source_pos := pc2line_source_pos s\<rparr>) pos;
     emit_u8 env s1 op }"

definition emit_op :: "resize_env \<Rightarrow> parse_state \<Rightarrow> u8 \<Rightarrow> parse_state option" where
  "emit_op env s op = emit_op_pos env s op (pc2line_source_pos s)"

definition emit_op_param :: "resize_env \<Rightarrow> parse_state \<Rightarrow> u8 \<Rightarrow> u32 \<Rightarrow> nat \<Rightarrow> parse_state option" where
  "emit_op_param env s op param pos = do {
     s1 \<leftarrow> emit_op_pos env s op pos;
     case op_fmt (opcode_info ! unat op) of
       OP_FMT_none \<Rightarrow> Some s1
     | OP_FMT_npop \<Rightarrow> emit_u16 env s1 (ucast param)
     | _ \<Rightarrow> None }"

definition emit_insert :: "resize_env \<Rightarrow> parse_state \<Rightarrow> nat \<Rightarrow> nat \<Rightarrow> parse_state option" where
  "emit_insert env s pos n = do {
     s1 \<leftarrow> emit_claim_size env s n;
     Some (s1\<lparr>code_buf := take (pos + n) (code_buf s1) @ take (byte_code_len s1 - pos) (drop pos (code_buf s1)) @
                drop (byte_code_len s1 + n) (code_buf s1),
              byte_code_len := byte_code_len s1 + n\<rparr>) }"

definition get_prev_opcode :: "parse_state \<Rightarrow> u8" where
  "get_prev_opcode s = (if last_opcode_pos s < 0 then OP_invalid else code_buf s ! nat (last_opcode_pos s))"

definition js_is_live_code :: "parse_state \<Rightarrow> bool" where
  "js_is_live_code s \<longleftrightarrow> get_prev_opcode s \<notin> {OP_return, OP_return_undef, OP_throw, OP_goto, OP_ret}"

text \<open>Called only when there is a last opcode.\<close>

definition remove_last_op :: "parse_state \<Rightarrow> parse_state" where
  "remove_last_op s = s\<lparr>byte_code_len := nat (last_opcode_pos s), pc2line_bit_len := last_pc2line_pos s,
     pc2line_source_pos := last_pc2line_source_pos s, last_opcode_pos := -1\<rparr>"

definition emit_push_short_int :: "resize_env \<Rightarrow> parse_state \<Rightarrow> s32 \<Rightarrow> parse_state option" where
  "emit_push_short_int env s v =
     (if sint v \<ge> -1 \<and> sint v \<le> 7 then emit_op env s (ucast (ucast OP_push_0 + v))
      else if v = scast (ucast v :: u8) then do { s1 \<leftarrow> emit_op env s OP_push_i8; emit_u8 env s1 (ucast v) }
      else if v = scast (ucast v :: u16) then do { s1 \<leftarrow> emit_op env s OP_push_i16; emit_u16 env s1 (ucast v) }
      else do { s1 \<leftarrow> emit_op env s OP_push_value; emit_u32 env s1 (ucast (JS_NewShortInt v)) })"

definition emit_var :: "resize_env \<Rightarrow> parse_state \<Rightarrow> u8 \<Rightarrow> nat \<Rightarrow> nat \<Rightarrow> parse_state option" where
  "emit_var env s opcode var_idx pos =
     (if opcode = OP_get_loc \<and> var_idx < 4 then emit_op_pos env s (OP_get_loc0 + of_nat var_idx) pos
      else if opcode = OP_get_loc \<and> var_idx < 256 then
        do { s1 \<leftarrow> emit_op_pos env s OP_get_loc8 pos; emit_u8 env s1 (of_nat var_idx) }
      else if opcode = OP_put_loc \<and> var_idx < 4 then emit_op_pos env s (OP_put_loc0 + of_nat var_idx) pos
      else if opcode = OP_put_loc \<and> var_idx < 256 then
        do { s1 \<leftarrow> emit_op_pos env s OP_put_loc8 pos; emit_u8 env s1 (of_nat var_idx) }
      else if opcode = OP_get_arg \<and> var_idx < 4 then emit_op_pos env s (OP_get_arg0 + of_nat var_idx) pos
      else if opcode = OP_put_arg \<and> var_idx < 4 then emit_op_pos env s (OP_put_arg0 + of_nat var_idx) pos
      else do { s1 \<leftarrow> emit_op_pos env s opcode pos; emit_u16 env s1 (of_nat var_idx) })"

section \<open>Labels\<close>

text \<open>
  A label is a short integer: the place of the last operand that refers to it, which holds the place of
  the one before, or, once the label is placed, its position with \<open>LABEL_RESOLVED_FLAG\<close>.
\<close>

definition LABEL_RESOLVED_FLAG :: s32 where "LABEL_RESOLVED_FLAG = push_bit 29 1"
definition LABEL_OFFSET_MASK :: s32 where "LABEL_OFFSET_MASK = push_bit 29 1 - 1"
definition LABEL_NONE :: JSValue where "LABEL_NONE = JS_NewShortInt (-1)"

definition label_is_none :: "JSValue \<Rightarrow> bool" where
  "label_is_none label \<longleftrightarrow> sint (JS_VALUE_GET_INT label) < 0"

definition new_label :: JSValue where "new_label = JS_NewShortInt LABEL_OFFSET_MASK"

partial_function (option) patch_label :: "nat \<Rightarrow> s32 \<Rightarrow> u8 list \<Rightarrow> u8 list option" where
  "patch_label pos label code =
     (if label = LABEL_OFFSET_MASK then Some code
      else if unat label + 3 \<ge> length code then None
      else patch_label pos (get_u32 code (unat label)) (put_u32 code (unat label) (of_nat pos - label)))"

declare patch_label.simps [code]

definition emit_label_pos :: "parse_state \<Rightarrow> JSValue \<Rightarrow> nat \<Rightarrow> (parse_state \<times> JSValue) option" where
  "emit_label_pos s plabel pos =
     (let label = JS_VALUE_GET_INT plabel in
      if label AND LABEL_RESOLVED_FLAG \<noteq> 0 then None
      else do {
        code \<leftarrow> patch_label pos label (code_buf s);
        Some (s\<lparr>code_buf := code\<rparr>, JS_NewShortInt (of_nat pos OR LABEL_RESOLVED_FLAG)) })"

definition emit_label :: "parse_state \<Rightarrow> JSValue \<Rightarrow> (parse_state \<times> JSValue) option" where
  "emit_label s plabel = do {
     (s1, l) \<leftarrow> emit_label_pos s plabel (byte_code_len s);
     Some (s1\<lparr>last_opcode_pos := -1\<rparr>, l) }"

definition emit_goto :: "resize_env \<Rightarrow> parse_state \<Rightarrow> u8 \<Rightarrow> JSValue \<Rightarrow> (parse_state \<times> JSValue) option" where
  "emit_goto env s opcode plabel = do {
     s1 \<leftarrow> emit_op env s opcode;
     let label = JS_VALUE_GET_INT plabel;
     if label AND LABEL_RESOLVED_FLAG \<noteq> 0 then do {
       s2 \<leftarrow> emit_u32 env s1 ((label AND LABEL_OFFSET_MASK) - of_nat (byte_code_len s1));
       Some (s2, plabel) }
     else do {
       s2 \<leftarrow> emit_u32 env s1 label;
       Some (s2, JS_NewShortInt (of_nat (byte_code_len s2 - 4))) } }"

section \<open>Hoisted functions\<close>

text \<open>The length of the hoisted code in groups of seven bits, the lowest first, after the line table.\<close>

function put_hoisted_len :: "resize_env \<Rightarrow> parse_state \<Rightarrow> nat \<Rightarrow> u32 \<Rightarrow> parse_state option" where
  "put_hoisted_len env s n h = do {
     s1 \<leftarrow> pc2line_put_bits env s 8 (of_nat (n mod 128) OR h);
     if n div 128 = 0 then Some s1 else put_hoisted_len env s1 (n div 128) (h OR 0x80) }"
  by pat_completeness auto
termination by (relation "measure (\<lambda>(env, s, n, h). n)") auto

declare put_hoisted_len.simps [simp del]

text \<open>
  The constant pool: \<open>Some n\<close> for the byte code of a function, whose \<open>arg_count\<close> \<open>n\<close> is the index of the
  variable of a hoisted function plus 1, and \<open>None\<close> for another value.
\<close>

fun hoist_functions ::
  "resize_env \<Rightarrow> bool \<Rightarrow> nat \<Rightarrow> nat \<Rightarrow> nat option list \<Rightarrow> parse_state \<Rightarrow> parse_state option" where
  "hoist_functions env is_eval n_args i [] s = Some s"
| "hoist_functions env is_eval n_args i (None # vals) s = hoist_functions env is_eval n_args (i + 1) vals s"
| "hoist_functions env is_eval n_args i (Some 0 # vals) s = hoist_functions env is_eval n_args (i + 1) vals s"
| "hoist_functions env is_eval n_args i (Some (Suc idx) # vals) s = do {
     s1 \<leftarrow> emit_u8 env s OP_fclosure;
     s2 \<leftarrow> emit_u16 env s1 (of_nat i);
     s3 \<leftarrow> emit_u8 env s2 (if is_eval then OP_put_var_ref_nocheck
                           else if idx < n_args then OP_put_arg else OP_put_loc);
     s4 \<leftarrow> emit_u16 env s3 (of_nat (if is_eval \<or> idx < n_args then idx else idx - n_args));
     hoist_functions env is_eval n_args (i + 1) vals s4 }"

definition define_hoisted_functions ::
  "resize_env \<Rightarrow> bool \<Rightarrow> nat \<Rightarrow> nat option list \<Rightarrow> parse_state \<Rightarrow> parse_state option" where
  "define_hoisted_functions env is_eval n_args vals s = do {
     s1 \<leftarrow> (if line_buf s \<noteq> [] then do {
              let n = nat ((- int (pc2line_bit_len s)) mod 8);
              s0 \<leftarrow> (if n \<noteq> 0 then pc2line_put_bits env s n 0 else Some s);
              put_hoisted_len env s0 (hoisted_code_len s0) 0 }
            else Some s);
     if hoisted_code_len s1 = 0 then Some s1
     else do {
       s2 \<leftarrow> emit_insert env s1 0 (hoisted_code_len s1);
       s3 \<leftarrow> hoist_functions env is_eval n_args 0 vals (s2\<lparr>byte_code_len := 0\<rparr>);
       Some (s3\<lparr>byte_code_len := byte_code_len s2\<rparr>) } }"

section \<open>Bits of a buffer\<close>

text \<open>Bit \<open>i\<close> of a buffer, the most significant bit of a byte first, and a piece of it.\<close>

definition tbit :: "u8 list \<Rightarrow> nat \<Rightarrow> bool" where
  "tbit buf i = bit (buf ! (i div 8)) (7 - i mod 8)"

definition has_bits :: "u8 list \<Rightarrow> nat \<Rightarrow> bool list \<Rightarrow> bool" where
  "has_bits buf k xs \<longleftrightarrow> k + length xs \<le> 8 * length buf \<and> (\<forall>i < length xs. tbit buf (k + i) = xs ! i)"

text \<open>The low \<open>n\<close> bits of a word, most significant first.\<close>

definition nbits :: "nat \<Rightarrow> u32 \<Rightarrow> bool list" where
  "nbits n w = map (\<lambda>i. bit w (n - 1 - i)) [0..<n]"

lemma length_nbits [simp]: "length (nbits n w) = n"
  by (simp add: nbits_def)

lemma nth_nbits: "i < n \<Longrightarrow> nbits n w ! i = bit w (n - 1 - i)"
  by (simp add: nbits_def)

lemma has_bits_append:
  "has_bits buf k (xs @ ys) \<longleftrightarrow> has_bits buf k xs \<and> has_bits buf (k + length xs) ys"
proof
  assume h: "has_bits buf k (xs @ ys)"
  then have "tbit buf (k + i) = xs ! i" if "i < length xs" for i
    using that by (simp add: has_bits_def nth_append split: if_splits)
  moreover have "tbit buf (k + length xs + i) = ys ! i" if "i < length ys" for i
  proof -
    have "tbit buf (k + (length xs + i)) = (xs @ ys) ! (length xs + i)" using h that by (simp add: has_bits_def)
    then show ?thesis by (simp add: add.assoc)
  qed
  ultimately show "has_bits buf k xs \<and> has_bits buf (k + length xs) ys"
    using h by (simp add: has_bits_def)
next
  assume h: "has_bits buf k xs \<and> has_bits buf (k + length xs) ys"
  have "tbit buf (k + i) = (xs @ ys) ! i" if "i < length xs + length ys" for i
  proof (cases "i < length xs")
    case False
    then obtain j where "i = length xs + j" by (metis add.commute le_add_diff_inverse not_less)
    then show ?thesis using h that by (simp add: has_bits_def add.assoc)
  qed (use h in \<open>simp add: has_bits_def nth_append\<close>)
  then show "has_bits buf k (xs @ ys)" using h by (simp add: has_bits_def)
qed

lemma nbits_split: "m \<le> n \<Longrightarrow> nbits n w = nbits (n - m) (drop_bit m w) @ nbits m (w AND (push_bit m 1 - 1))"
proof (rule nth_equalityI)
  assume m: "m \<le> n"
  show "length (nbits n w) = length (nbits (n - m) (drop_bit m w) @ nbits m (w AND (push_bit m 1 - 1)))"
    using m by simp
  fix i assume "i < length (nbits n w)"
  then have i: "i < n" by simp
  have mk: "(push_bit m 1 - 1 :: u32) = mask m" by (simp add: mask_eq_exp_minus_1 push_bit_of_1)
  show "nbits n w ! i = (nbits (n - m) (drop_bit m w) @ nbits m (w AND (push_bit m 1 - 1))) ! i"
  proof (cases "i < n - m")
    case True
    then have e: "m + (n - m - 1 - i) = n - 1 - i" by simp
    show ?thesis using True i by (simp add: nth_append nth_nbits bit_drop_bit_eq e)
  next
    case False
    then have e: "m - 1 - (i - (n - m)) = n - 1 - i" and l: "i - (n - m) < m" using i m by simp_all
    have "n - 1 - i < m" using False i by simp
    then have "bit (w AND mask m) (n - 1 - i) = bit w (n - 1 - i)"
      by (auto simp: bit_and_iff bit_mask_iff dest: bit_imp_le_length)
    then show ?thesis using False i l by (simp only: nth_append length_nbits if_False nth_nbits e mk)
  qed
qed

lemma u8_high: "8 \<le> n \<Longrightarrow> \<not> bit b n" for b :: u8
  by (auto dest: bit_imp_le_length)

lemma be32_bits:
  assumes "p + 3 < length buf" "j < 32"
  shows "bit (get_be32 buf p) (31 - j) = tbit buf (8 * p + j)"
proof -
  have "tbit buf (8 * p + j) = bit (buf ! (p + j div 8)) (7 - j mod 8)" by (simp add: tbit_def)
  then show ?thesis
    using nat_less_32_cases [OF assms(2)]
    by (elim disjE) (simp_all add: get_be32_def get_u32_def bswap32_def bit_simps u8_high)
qed

lemma put_be32_bits:
  assumes "p + 3 < length buf" "i < 8 * length buf"
  shows "tbit (put_be32 buf p v) i = (if 8 * p \<le> i \<and> i < 8 * p + 32 then bit v (31 - (i - 8 * p)) else tbit buf i)"
proof (cases "8 * p \<le> i \<and> i < 8 * p + 32")
  case True
  then have "tbit (put_be32 buf p v) (8 * p + (i - 8 * p)) = bit (get_be32 (put_be32 buf p v) p) (31 - (i - 8 * p))"
    using assms True by (intro be32_bits [symmetric]) (simp, linarith)
  then show ?thesis using True assms(1) by simp
next
  case False
  then have "i div 8 \<noteq> p" "i div 8 \<noteq> p + 1" "i div 8 \<noteq> p + 2" "i div 8 \<noteq> p + 3" by auto
  then show ?thesis using False by (auto simp: tbit_def put_be32_def put_u32_def)
qed

lemma resize_bytes:
  assumes "js_resize_bytes env k old n = Some (k', b)"
  shows "n \<le> length b" "length old \<le> length b" "take (length old) b = old"
  using assms by (auto simp: js_resize_bytes_def Let_def split: if_splits option.splits)

lemma resize_bits: "js_resize_bytes env k old n = Some (k', b) \<Longrightarrow> has_bits old 0 xs \<Longrightarrow> has_bits b 0 xs"
proof -
  assume r: "js_resize_bytes env k old n = Some (k', b)" and h: "has_bits old 0 xs"
  have "tbit b i = tbit old i" if "i < length xs" for i
  proof -
    have "i < length old * 8" using h that by (simp add: has_bits_def)
    then have "i div 8 < length old" by (rule less_mult_imp_div_less)
    then have "b ! (i div 8) = old ! (i div 8)"
      using resize_bytes(3) [OF r] by (metis nth_take)
    then show ?thesis by (simp add: tbit_def)
  qed
  then show ?thesis using h resize_bytes(2) [OF r] by (auto simp: has_bits_def)
qed

section \<open>What the line table writes\<close>

text \<open>Only the line table is touched, and its bits grow by \<open>xs\<close>.\<close>

definition writes :: "parse_state \<Rightarrow> bool list \<Rightarrow> parse_state \<Rightarrow> bool" where
  "writes s xs s' \<longleftrightarrow> (\<exists>b k. s' = s\<lparr>line_buf := b, pc2line_bit_len := pc2line_bit_len s + length xs, resizes := k\<rparr>) \<and>
     (\<forall>ws. length ws = pc2line_bit_len s \<longrightarrow> has_bits (line_buf s) 0 ws \<longrightarrow> has_bits (line_buf s') 0 (ws @ xs))"

lemma writes_refl: "writes s [] s"
  unfolding writes_def by (intro conjI exI [of _ "line_buf s"] exI [of _ "resizes s"]) simp_all

lemma writes_trans:
  assumes a: "writes s xs s1" and b: "writes s1 ys s2" shows "writes s (xs @ ys) s2"
proof -
  from a obtain b1 k1 where s1: "s1 = s\<lparr>line_buf := b1, pc2line_bit_len := pc2line_bit_len s + length xs, resizes := k1\<rparr>"
    by (auto simp: writes_def)
  from b obtain b2 k2 where "s2 = s1\<lparr>line_buf := b2, pc2line_bit_len := pc2line_bit_len s1 + length ys, resizes := k2\<rparr>"
    by (auto simp: writes_def)
  then have s2: "s2 = s\<lparr>line_buf := b2, pc2line_bit_len := pc2line_bit_len s + length (xs @ ys), resizes := k2\<rparr>"
    by (simp add: s1 add.assoc)
  have "has_bits (line_buf s2) 0 (ws @ xs @ ys)" if "length ws = pc2line_bit_len s" "has_bits (line_buf s) 0 ws" for ws
  proof -
    have "has_bits (line_buf s1) 0 (ws @ xs)" using a that by (simp add: writes_def)
    moreover have "length (ws @ xs) = pc2line_bit_len s1" using that by (simp add: s1)
    ultimately have "has_bits (line_buf s2) 0 ((ws @ xs) @ ys)" using b unfolding writes_def by blast
    then show ?thesis by simp
  qed
  then show ?thesis unfolding writes_def using s2 by blast
qed

lemma put_bits_short_writes:
  assumes "pc2line_put_bits_short env s n bits = Some s'" "1 \<le> n" "n \<le> 25" "unat bits < 2 ^ n"
  shows "writes s (nbits n bits) s'"
proof -
  define index where "index = pc2line_bit_len s"
  define pos where "pos = index div 8"
  define r where "r = index mod 8"
  define shift where "shift = 32 - r - n"
  from assms(1) obtain k buf where rs: "js_resize_bytes env (resizes s) (line_buf s) (pos + 4) = Some (k, buf)" and
    s': "s' = s\<lparr>line_buf := put_be32 buf pos (get_be32 buf pos AND NOT (push_bit shift (push_bit n 1 - 1)) OR push_bit shift bits),
      pc2line_bit_len := index + n, resizes := k\<rparr>"
    unfolding pc2line_put_bits_short_def Let_def index_def pos_def shift_def r_def
    by (auto split: option.splits prod.splits)
  have len: "pos + 3 < length buf" using resize_bytes(1) [OF rs] by simp
  have i8: "r < 8" by (simp add: r_def)
  then have sh: "shift + r + n = 32" using assms(2,3) by (simp add: shift_def)
  have mk: "(push_bit n 1 - 1 :: u32) = mask n" by (simp add: mask_eq_exp_minus_1 push_bit_of_1)
  define v where "v = get_be32 buf pos AND NOT (push_bit shift (mask n)) OR push_bit shift bits"
  have v: "bit v (31 - j) = (if r \<le> j \<and> j < r + n then bit bits (n - 1 - (j - r))
      else tbit buf (8 * pos + j))" if j: "j < 32" for j
  proof -
    have b: "bit v (31 - j) = ((bit (get_be32 buf pos) (31 - j) \<and>
        \<not> (shift \<le> 31 - j \<and> 31 - j - shift < n)) \<or> shift \<le> 31 - j \<and> bit bits (31 - j - shift))"
      using j by (auto simp: v_def bit_simps)
    have nb: "\<not> bit bits m" if "n \<le> m" for m using bit_unat_less [OF assms(4) that] .
    show ?thesis
    proof (cases "r \<le> j \<and> j < r + n")
      case True
      then have "shift \<le> 31 - j" "31 - j - shift = n - 1 - (j - r)"
        using sh assms(2) j by linarith+
      then show ?thesis using True b by auto
    next
      case False
      then consider "j < r" | "r + n \<le> j" by linarith
      then have "\<not> (shift \<le> 31 - j \<and> 31 - j - shift < n)"
        using sh assms(2) j by cases linarith+
      then show ?thesis using False b be32_bits [OF len j] nb by (auto simp: not_less)
    qed
  qed
  have "has_bits (line_buf s') 0 (ws @ nbits n bits)"
    if ws: "length ws = index" "has_bits (line_buf s) 0 ws" for ws
  proof -
    have hb: "has_bits buf 0 ws" by (rule resize_bits [OF rs ws(2)])
    have ix: "index = 8 * pos + r" by (simp add: pos_def r_def)
    have "tbit (put_be32 buf pos v) i = (ws @ nbits n bits) ! i" if i: "i < index + n" for i
    proof (cases "i < 8 * pos")
      case True
      then have "i < length ws" using ix ws(1) by simp
      then show ?thesis using True hb len put_be32_bits [OF len, of i v] by (simp add: has_bits_def nth_append)
    next
      case False
      then obtain j where j: "i = 8 * pos + j" by (metis add.commute le_add_diff_inverse not_less)
      have j32: "j < 32" using i j ix i8 assms(3) by linarith
      have t: "tbit (put_be32 buf pos v) i = bit v (31 - j)"
        using put_be32_bits [OF len, of i v] j j32 len by simp
      show ?thesis
      proof (cases "i < index")
        case True
        then have "\<not> r \<le> j" using j ix by linarith
        then show ?thesis using True t v [OF j32] hb ws(1) j by (simp add: has_bits_def nth_append)
      next
        case False
        then have "r \<le> j" "j < r + n" "j - r = i - index" using j ix i by linarith+
        then show ?thesis using False t v [OF j32] ws(1) i by (simp add: nth_append nth_nbits)
      qed
    qed
    moreover have "index + n \<le> 8 * length buf" using len ix i8 assms(3) by linarith
    moreover have "line_buf s' = put_be32 buf pos v" unfolding s' mk v_def by simp
    ultimately show ?thesis using ws(1) by (simp add: has_bits_def)
  qed
  then show ?thesis unfolding writes_def by (auto simp: s' index_def)
qed

lemma put_bits_writes:
  assumes "pc2line_put_bits env s n bits = Some s'" "1 \<le> n" "n \<le> 32" "unat bits < 2 ^ n"
  shows "writes s (nbits n bits) s'"
proof (cases "n > 25")
  case True
  with assms(1) obtain s1 where s1: "pc2line_put_bits_short env s (n - 25) (drop_bit 25 bits) = Some s1"
    "pc2line_put_bits_short env s1 25 (bits AND (push_bit 25 1 - 1)) = Some s'"
    by (auto simp: pc2line_put_bits_def split: Option.bind_splits)
  have mk: "(push_bit 25 1 - 1 :: u32) = mask 25" by (simp add: mask_eq_exp_minus_1)
  have "(2::nat) ^ n = 2 ^ (n - 25) * 2 ^ 25" using True by (simp only: flip: power_add) simp
  then have "unat bits div 2 ^ 25 < 2 ^ (n - 25)"
    using assms(4) by (intro less_mult_imp_div_less) (simp only:)
  then have 1: "writes s (nbits (n - 25) (drop_bit 25 bits)) s1"
    using put_bits_short_writes [OF s1(1)] True assms(3) by (simp add: unat_drop_bit)
  have "unat (bits AND mask 25) < 2 ^ 25" by (simp only: unat_and_mask) simp
  then have "writes s1 (nbits 25 (bits AND (push_bit 25 1 - 1))) s'"
    using put_bits_short_writes [OF s1(2)] unfolding mk by simp
  with 1 have "writes s (nbits (n - 25) (drop_bit 25 bits) @ nbits 25 (bits AND (push_bit 25 1 - 1))) s'"
    by (rule writes_trans)
  then show ?thesis using nbits_split [of 25 n bits] True by simp
next
  case False
  then show ?thesis using assms put_bits_short_writes by (simp add: pc2line_put_bits_def)
qed

lemma nbits_0: "nbits n 0 = replicate n False"
  by (rule nth_equalityI) (simp_all add: nth_nbits)

text \<open>The codes: the number plus 1, with as many zeros before it as it has bits after its first.\<close>

definition ugolomb :: "u32 \<Rightarrow> bool list" where
  "ugolomb v = (let n = 32 - clz32 (v + 1) in replicate (n - 1) False @ nbits n (v + 1))"

definition sgolomb :: "s32 \<Rightarrow> bool list" where
  "sgolomb v = ugolomb (2 * v XOR - drop_bit 31 v)"

lemma put_ugolomb_writes:
  assumes "put_ugolomb env s v = Some s'" "v + 1 \<noteq> 0"
  shows "writes s (ugolomb v) s'"
proof -
  define n where "n = 32 - clz32 (v + 1)"
  have n: "1 \<le> n" "n \<le> 32" "unat (v + 1) < 2 ^ n"
    using clz32_bounds [OF assms(2)] by (simp_all add: n_def)
  from assms(1) [unfolded put_ugolomb_def Let_def, folded n_def] obtain s1 where
    s1: "(if n > 1 then pc2line_put_bits env s (n - 1) 0 else Some s) = Some s1"
    "pc2line_put_bits env s1 n (v + 1) = Some s'"
    by (auto split: Option.bind_splits)
  have "writes s (replicate (n - 1) False) s1"
  proof (cases "n > 1")
    case True
    then show ?thesis
      using s1(1) n put_bits_writes [of env s "n - 1" 0 s1] by (simp add: nbits_0)
  next
    case False
    then show ?thesis using s1(1) writes_refl [of s] by simp
  qed
  moreover have "writes s1 (nbits n (v + 1)) s'" by (rule put_bits_writes [OF s1(2) n])
  ultimately show ?thesis using writes_trans by (simp add: ugolomb_def Let_def n_def)
qed

lemma put_sgolomb_writes:
  assumes "put_sgolomb env s v = Some s'" "(2 * v XOR - drop_bit 31 v) + 1 \<noteq> 0"
  shows "writes s (sgolomb v) s'"
  using put_ugolomb_writes assms by (simp add: put_sgolomb_def sgolomb_def)

end
