(* ===== verification/JsLines.thy ===== *)
theory JsLines imports JsEmit begin

text \<open>
  The line table of a function (\<open>native/mquickjs/mquickjs.c\<close>, \<open>get_bit\<close> to \<open>find_line_col\<close>): decoding of
  what \<open>JsEmit\<close> writes. For every instruction in order the table holds the change of the line and the
  column in Golomb codes; after it comes, read from the end, the length of the code of the hoisted
  functions. The lemmas show that decoding finds the line and column of the source position that each
  instruction was emitted with.
\<close>

unbundle bit_operations_syntax

section \<open>Decoding\<close>

text \<open>A read outside the buffer is \<open>None\<close>.\<close>

definition get_bit :: "u8 list \<Rightarrow> nat \<Rightarrow> u32 option" where
  "get_bit buf index =
     (if index div 8 < length buf then Some (drop_bit (7 - index mod 8) (ucast (buf ! (index div 8))) AND 1) else None)"

fun get_bits_loop :: "u8 list \<Rightarrow> nat \<Rightarrow> nat \<Rightarrow> nat \<Rightarrow> u32 \<Rightarrow> u32 option" where
  "get_bits_loop buf index n 0 v = Some v"
| "get_bits_loop buf index n (Suc k) v = do {
     b \<leftarrow> get_bit buf (index + (n - Suc k));
     get_bits_loop buf index n k (v OR push_bit k b) }"

definition get_bits_slow :: "u8 list \<Rightarrow> nat \<Rightarrow> nat \<Rightarrow> u32 option" where
  "get_bits_slow buf index n = get_bits_loop buf index n n 0"

definition get_bits :: "u8 list \<Rightarrow> nat \<Rightarrow> nat \<Rightarrow> u32 option" where
  "get_bits buf index n =
     (let pos = index div 8 in
      if n > 25 \<or> pos + 3 \<ge> length buf then get_bits_slow buf index n
      else Some (drop_bit (32 - index mod 8 - n) (get_be32 buf pos) AND (push_bit n 1 - 1)))"

text \<open>The result and the index after it; 32 zeros are an error.\<close>

fun count_zeros :: "nat \<Rightarrow> u8 list \<Rightarrow> nat \<Rightarrow> nat \<Rightarrow> (nat option \<times> nat) option" where
  "count_zeros 0 buf index i = Some (None, index)"
| "count_zeros (Suc k) buf index i = do {
     b \<leftarrow> get_bit buf index;
     if b \<noteq> 0 then Some (Some i, index + 1) else count_zeros k buf (index + 1) (i + 1) }"

definition get_ugolomb :: "u8 list \<Rightarrow> nat \<Rightarrow> (u32 \<times> nat) option" where
  "get_ugolomb buf index = do {
     r \<leftarrow> count_zeros 32 buf index 0;
     (case r of
        (None, index1) \<Rightarrow> Some (0xffffffff, index1)
      | (Some i, index1) \<Rightarrow>
          if i = 0 then Some (0, index1)
          else do {
            b \<leftarrow> get_bits buf index1 i;
            Some ((push_bit i 1 OR b) - 1, index1 + i) }) }"

definition get_sgolomb :: "u8 list \<Rightarrow> nat \<Rightarrow> (s32 \<times> nat) option" where
  "get_sgolomb buf index = do {
     (v, index1) \<leftarrow> get_ugolomb buf index;
     Some (drop_bit 1 v XOR - (v AND 1), index1) }"

fun hoisted_len_loop :: "u8 list \<Rightarrow> nat \<Rightarrow> u32 \<Rightarrow> u32" where
  "hoisted_len_loop buf 0 v = v"
| "hoisted_len_loop buf (Suc i) v =
     (let v1 = push_bit 7 v OR (ucast (buf ! i) AND 0x7f) in
      if buf ! i AND 0x80 = 0 then v1 else hoisted_len_loop buf i v1)"

definition get_pc2line_hoisted_code_len :: "u8 list \<Rightarrow> u32" where
  "get_pc2line_hoisted_code_len buf = hoisted_len_loop buf (length buf) 0"

text \<open>The line, the column and the index.\<close>

definition get_pc2line :: "s32 \<Rightarrow> s32 \<Rightarrow> u8 list \<Rightarrow> nat \<Rightarrow> bool \<Rightarrow> (s32 \<times> s32 \<times> nat) option" where
  "get_pc2line line_num col_num buf index with_col = do {
     (line_delta, index1) \<leftarrow> get_sgolomb buf index;
     let line1 = line_num + line_delta;
     if with_col then
       if line_delta = 0 then do {
         (col_delta, index2) \<leftarrow> get_sgolomb buf index1;
         Some (line1, col_num + col_delta, index2) }
       else do {
         (c, index2) \<leftarrow> get_ugolomb buf index1;
         Some (line1, c + 1, index2) }
     else Some (line1, 0, index1) }"

text \<open>
  The walk over the instructions. Opcodes beyond the table are a read outside it. The result is the line
  and the column, 0 when there is none.
\<close>

function find_loop :: "u8 list \<Rightarrow> u8 list \<Rightarrow> bool \<Rightarrow> nat \<Rightarrow> nat \<Rightarrow> s32 \<Rightarrow> s32 \<Rightarrow> nat \<Rightarrow> (s32 \<times> s32) option" where
  "find_loop code lines with_col pc pos line_num col_num index =
     (if pos < length code then do {
        (line1, col1, index1) \<leftarrow> get_pc2line line_num col_num lines index with_col;
        if pos = pc then Some (line1, col1)
        else if unat (code ! pos) \<ge> OP_COUNT then None
        else find_loop code lines with_col pc (pos + op_size (opcode_info ! unat (code ! pos))) line1 col1 index1 }
      else Some (0, 0))"
  by pat_completeness auto
termination
  by (relation "measure (\<lambda>(code, lines, h, pc, pos, l, c, i). length code - pos)")
    (auto dest!: opcode_size_bounds simp: not_le)

declare find_loop.simps [simp del]

text \<open>The fields of the function are its byte code, its line table (empty for \<open>JS_NULL\<close>) and \<open>has_column\<close>.\<close>

definition find_line_col :: "u8 list \<Rightarrow> u8 list \<Rightarrow> bool \<Rightarrow> nat \<Rightarrow> (s32 \<times> s32) option" where
  "find_line_col code lines with_col pc =
     (if lines = [] then Some (0, 0)
      else let pos = unat (get_pc2line_hoisted_code_len lines); pc1 = (if pc < pos then pos else pc) in
        find_loop code lines with_col pc1 pos 1 1 0)"

section \<open>Golomb codes\<close>

lemma get_bit_value:
  assumes "index < 8 * length buf" shows "get_bit buf index = Some (of_bool (tbit buf index))"
proof -
  have i: "index div 8 < length buf" using assms by (simp add: less_mult_imp_div_less mult.commute)
  have "drop_bit k (ucast b :: u32) AND 1 = of_bool (bit b k)" if "k < 8" for k and b :: u8
    using that by (intro bit_word_eqI) (auto simp: bit_simps)
  then show ?thesis using i by (simp add: get_bit_def tbit_def)
qed

lemma has_bits_get: "has_bits buf k xs \<Longrightarrow> i < length xs \<Longrightarrow> get_bit buf (k + i) = Some (of_bool (xs ! i))"
  by (subst get_bit_value) (auto simp: has_bits_def)

lemma get_bits_loop_value:
  assumes "has_bits buf index (nbits n w)" "k \<le> n"
  shows "get_bits_loop buf index n k v = Some (v OR (w AND mask k))"
  using assms(2)
proof (induction k arbitrary: v)
  case (Suc k)
  have b: "get_bit buf (index + (n - Suc k)) = Some (of_bool (bit w k))"
    using has_bits_get [OF assms(1), of "n - Suc k"] Suc.prems by (simp add: nth_nbits)
  have e: "v OR push_bit k (of_bool (bit w k)) OR (w AND mask k) = v OR (w AND mask (Suc k))"
    by (rule bit_word_eqI) (auto simp: bit_simps less_Suc_eq)
  show ?case unfolding get_bits_loop.simps b
    using Suc.IH [of "v OR push_bit k (of_bool (bit w k))"] Suc.prems by (simp add: e or.assoc)
qed simp

lemma get_bits_value:
  assumes "has_bits buf index (nbits n w)" "unat w < 2 ^ n" "1 \<le> n" "n \<le> 32"
  shows "get_bits buf index n = Some w"
proof -
  have wm: "w AND mask n = w"
    using assms(2,4) bit_unat_less [OF assms(2)] by (intro bit_word_eqI) (auto simp: bit_simps, meson leI)
  show ?thesis
  proof (cases "n > 25 \<or> index div 8 + 3 \<ge> length buf")
    case True
    then show ?thesis using get_bits_loop_value [OF assms(1), of n 0] wm
      by (simp add: get_bits_def get_bits_slow_def)
  next
    case False
    define p r where "p = index div 8" and "r = index mod 8"
    have ix: "index = 8 * p + r" and r8: "r < 8" by (simp_all add: p_def r_def)
    have mk: "(push_bit n 1 - 1 :: u32) = mask n" by (simp add: mask_eq_exp_minus_1 push_bit_of_1)
    have "bit (get_be32 buf p) (32 - r - n + m) = bit w m" if m: "m < n" for m
    proof -
      have e: "32 - r - n + m = 31 - (r + (n - 1 - m))" using r8 False m by linarith
      have l: "r + (n - 1 - m) < 32" using r8 False m by linarith
      have "bit (get_be32 buf p) (31 - (r + (n - 1 - m))) = tbit buf (8 * p + (r + (n - 1 - m)))"
        using False l by (intro be32_bits) (simp_all add: p_def)
      also have "\<dots> = tbit buf (index + (n - 1 - m))" by (simp add: ix add.assoc)
      also have "\<dots> = nbits n w ! (n - 1 - m)"
      proof -
        have "n - 1 - m < n" using m by simp
        then show ?thesis using assms(1) unfolding has_bits_def length_nbits by blast
      qed
      also have "\<dots> = bit w m" using m by (simp add: nth_nbits)
      finally show ?thesis unfolding e .
    qed
    then have "drop_bit (32 - r - n) (get_be32 buf p) AND mask n = w AND mask n"
      by (intro bit_word_eqI) (auto simp: bit_simps)
    then show ?thesis using False wm by (simp only: get_bits_def Let_def p_def [symmetric] r_def [symmetric] mk) simp
  qed
qed

lemma count_zeros_value:
  "has_bits buf k (replicate z False @ [True]) \<Longrightarrow> z < fuel \<Longrightarrow>
   count_zeros fuel buf k i = Some (Some (i + z), k + z + 1)"
proof (induction z arbitrary: fuel k i)
  case 0
  then obtain f where f: "fuel = Suc f" by (cases fuel) auto
  have "get_bit buf (k + 0) = Some 1" using has_bits_get [OF 0(1), of 0] by simp
  then show ?case by (simp add: f)
next
  case (Suc z)
  then obtain f where f: "fuel = Suc f" by (cases fuel) auto
  have "get_bit buf (k + 0) = Some 0" using has_bits_get [OF Suc.prems(1), of 0] by simp
  moreover have "has_bits buf (k + 1) (replicate z False @ [True])"
    using Suc.prems(1) has_bits_append [of buf k "[False]" "replicate z False @ [True]"] by simp
  ultimately show ?case using Suc.IH [of "k + 1" f "i + 1"] Suc.prems(2) by (simp add: f)
qed

lemma length_ugolomb: "length (ugolomb v) = 2 * (32 - clz32 (v + 1)) - 1"
  by (simp add: ugolomb_def Let_def)

lemma get_ugolomb_value:
  assumes "has_bits buf k (ugolomb v)" "v + 1 \<noteq> 0"
  shows "get_ugolomb buf k = Some (v, k + length (ugolomb v))"
proof -
  define m where "m = 31 - clz32 (v + 1)"
  have n: "32 - clz32 (v + 1) = Suc m" "m < 32" "2 ^ m \<le> unat (v + 1)" "unat (v + 1) < 2 ^ Suc m"
  proof -
    note c = clz32_bounds [OF assms(2)]
    show e: "32 - clz32 (v + 1) = Suc m" using c(1) by (simp add: m_def)
    show "m < 32" by (simp add: m_def)
    show "2 ^ m \<le> unat (v + 1)" using c(2) by (simp add: m_def)
    show "unat (v + 1) < 2 ^ Suc m" using c(3) unfolding e .
  qed
  have top: "bit (v + 1) m"
  proof -
    have "odd (unat (v + 1) div 2 ^ m)"
    proof -
      have "unat (v + 1) div 2 ^ m = 1" using n(3,4) by (intro div_nat_eqI) simp_all
      then show ?thesis by simp
    qed
    then have "bit (unat (v + 1)) m" by (simp add: bit_iff_odd)
    then show ?thesis by (simp add: bit_unsigned_iff)
  qed
  have nb: "nbits (Suc m) (v + 1) = True # nbits m ((v + 1) AND mask m)"
  proof (rule nth_equalityI)
    fix i assume "i < length (nbits (Suc m) (v + 1))"
    then show "nbits (Suc m) (v + 1) ! i = (True # nbits m ((v + 1) AND mask m)) ! i"
      using top n(2) by (cases i) (auto simp: nth_nbits bit_and_iff bit_mask_iff)
  qed simp
  have u: "ugolomb v = (replicate m False @ [True]) @ nbits m ((v + 1) AND mask m)"
    by (simp add: ugolomb_def n(1) nb)
  then have h: "has_bits buf k (replicate m False @ [True])" "has_bits buf (k + m + 1) (nbits m ((v + 1) AND mask m))"
    using assms(1) has_bits_append [of buf k "replicate m False @ [True]" "nbits m ((v + 1) AND mask m)"]
    by (simp_all add: add.assoc)
  have c: "count_zeros 32 buf k 0 = Some (Some m, k + m + 1)"
    using count_zeros_value [OF h(1) n(2), of 0] by simp
  have len: "length (ugolomb v) = m + 1 + m" by (simp add: u)
  show ?thesis
  proof (cases "m = 0")
    case True
    then have "unat (v + 1) = 1" using n(3,4) by simp
    then have "v + 1 = 1" unfolding word_unat_eq_iff unat_1 .
    then have "v = 0" by simp
    then show ?thesis using c True len by (simp add: get_ugolomb_def)
  next
    case False
    have lt: "unat ((v + 1) AND mask m) < 2 ^ m" by (simp add: unat_and_mask)
    have b: "get_bits buf (k + m + 1) m = Some ((v + 1) AND mask m)"
      by (rule get_bits_value [OF h(2) lt]) (use False n(2) in simp_all)
    have "push_bit m 1 OR (v + 1 AND mask m) = v + 1"
    proof (rule bit_word_eqI)
      fix j :: nat assume "j < LENGTH(32)"
      have hi: "\<not> bit (v + 1) j" if "Suc m \<le> j" using bit_unat_less [OF n(4) that] .
      show "bit (push_bit m 1 OR (v + 1 AND mask m)) j = bit (v + 1) j"
        using hi top \<open>j < LENGTH(32)\<close> by (auto simp: bit_simps not_less not_le Suc_le_eq intro: linorder_cases [of j m])
    qed
    then show ?thesis using c False b len by (simp add: get_ugolomb_def)
  qed
qed

lemma zigzag: "drop_bit 1 (2 * v XOR - drop_bit 31 v) XOR - ((2 * v XOR - drop_bit 31 v) AND 1) = v" for v :: u32
proof -
  have two: "2 * v = push_bit 1 v" by simp
  have bd: "\<not> bit (v * 2) 0" by (simp add: bit_0)
  have d: "drop_bit 31 v = of_bool (bit v 31)"
  proof (rule bit_word_eqI)
    fix n :: nat
    show "bit (drop_bit 31 v) n = bit (of_bool (bit v 31) :: u32) n"
      using bit_imp_le_length [of v "31 + n"] by (cases "n = 0") (auto simp: bit_simps)
  qed
  show ?thesis
  proof (cases "bit v 31")
    case True
    then have u: "2 * v XOR - drop_bit 31 v = NOT (push_bit 1 v)" unfolding d two by simp
    have "NOT (push_bit 1 v) AND 1 = 1" by (intro bit_word_eqI) (auto simp: bit_simps bd)
    moreover have "drop_bit 1 (NOT (push_bit 1 v)) XOR - 1 = v"
    proof (rule bit_word_eqI)
      fix n :: nat assume "n < LENGTH(32)"
      then have n: "n < 32" by simp
      then have "bit (drop_bit 1 (NOT (push_bit 1 v)) XOR - 1) n \<longleftrightarrow> \<not> (n + 1 < 32 \<and> \<not> bit v n)"
        by (simp add: bit_xor_iff bit_drop_bit_eq bit_not_iff bit_push_bit_iff del: push_bit_Suc push_bit_of_1)
      then show "bit (drop_bit 1 (NOT (push_bit 1 v)) XOR - 1) n \<longleftrightarrow> bit v n"
        using True n by (cases "n = 31") auto
    qed
    ultimately show ?thesis unfolding u by simp
  next
    case False
    then have u: "2 * v XOR - drop_bit 31 v = push_bit 1 v" unfolding d two by simp
    have "push_bit 1 v AND 1 = 0" by (simp add: and_one_eq mod_2_eq_odd)
    moreover have "drop_bit 1 (push_bit 1 v) = v"
    proof (rule bit_word_eqI)
      fix n :: nat assume "n < LENGTH(32)"
      then have "bit (drop_bit 1 (push_bit 1 v)) n \<longleftrightarrow> n + 1 < 32 \<and> bit v n"
        by (auto simp: bit_drop_bit_eq bit_push_bit_iff simp del: push_bit_Suc push_bit_of_1)
      then show "bit (drop_bit 1 (push_bit 1 v)) n \<longleftrightarrow> bit v n"
        using False \<open>n < LENGTH(32)\<close> by (cases "n = 31") auto
    qed
    ultimately show ?thesis unfolding u by simp
  qed
qed

lemma get_sgolomb_value:
  assumes "has_bits buf k (sgolomb v)" "(2 * v XOR - drop_bit 31 v) + 1 \<noteq> 0"
  shows "get_sgolomb buf k = Some (v, k + length (sgolomb v))"
  using get_ugolomb_value [OF assms(1) [unfolded sgolomb_def] assms(2)] zigzag [of v]
  by (simp add: get_sgolomb_def sgolomb_def)

section \<open>Lines and columns\<close>

text \<open>The line and the column of a source position, both from 1; a column counts characters.\<close>

definition newlines :: "u8 list \<Rightarrow> nat" where
  "newlines bs = length (filter (\<lambda>b. b = 10) bs)"

definition last_col :: "u8 list \<Rightarrow> nat" where
  "last_col bs = length (filter starts_char (takeWhile (\<lambda>b. b \<noteq> 10) (rev bs)))"

definition line_of :: "u8 list \<Rightarrow> nat \<Rightarrow> int" where
  "line_of buf pos = 1 + int (newlines (take pos buf))"

definition col_of :: "u8 list \<Rightarrow> nat \<Rightarrow> int" where
  "col_of buf pos = 1 + int (last_col (take pos buf))"

lemma newlines_append [simp]: "newlines (xs @ ys) = newlines xs + newlines ys"
  by (simp add: newlines_def)

lemma newlines_0: "newlines xs = 0 \<longleftrightarrow> 10 \<notin> set xs"
  by (auto simp: newlines_def filter_empty_conv)

lemma last_col_append:
  "last_col (xs @ ys) = (if 10 \<in> set ys then last_col ys else last_col ys + last_col xs)"
proof -
  have "takeWhile (\<lambda>b. b \<noteq> 10) (rev ys @ rev xs) =
      (if 10 \<in> set ys then takeWhile (\<lambda>b. b \<noteq> 10) (rev ys) else rev ys @ takeWhile (\<lambda>b. b \<noteq> 10) (rev xs))"
    by (auto simp: takeWhile_append)
  moreover have "last_col ys = length (filter starts_char (rev ys))" if "10 \<notin> set ys"
  proof -
    have "takeWhile (\<lambda>b. b \<noteq> 10) (rev ys) = rev ys" using that by (auto simp: takeWhile_eq_all_conv)
    then show ?thesis unfolding last_col_def by (rule arg_cong)
  qed
  ultimately show ?thesis by (auto simp: last_col_def)
qed

lemma last_col_le: "last_col xs \<le> length xs"
proof -
  have "last_col xs \<le> length (takeWhile (\<lambda>b. b \<noteq> 10) (rev xs))" unfolding last_col_def by (rule length_filter_le)
  also have "\<dots> \<le> length xs" using length_takeWhile_le [of _ "rev xs"] by simp
  finally show ?thesis .
qed

lemma newlines_le: "newlines xs \<le> length xs"
  by (simp add: newlines_def)

lemma starts_10: "starts_char 10"
  by (simp add: starts_char_def)

lemma line_col_loop_value:
  "line_col_loop bs l c = (l + int (newlines bs), (if 10 \<in> set bs then 0 else c) + int (last_col bs))"
proof (induction bs arbitrary: l c)
  case Nil
  then show ?case by (simp add: newlines_def last_col_def)
next
  case (Cons b bs)
  have n: "newlines (b # bs) = (if b = 10 then 1 else 0) + newlines bs" by (simp add: newlines_def)
  have k: "last_col (b # bs) = (if 10 \<in> set bs then last_col bs
      else last_col bs + (if b \<noteq> 10 \<and> starts_char b then 1 else 0))"
    using last_col_append [of "[b]" bs] by (simp add: last_col_def)
  show ?case by (auto simp: Cons.IH n k)
qed

lemma back_col_value: "i \<le> length buf \<Longrightarrow> back_col buf i c = c + int (last_col (take i buf))"
proof (induction i arbitrary: c)
  case 0
  then show ?case by (simp add: last_col_def)
next
  case (Suc i)
  then have t: "take (Suc i) buf = take i buf @ [buf ! i]" by (simp add: take_Suc_conv_app_nth)
  show ?case
    using Suc by (auto simp: t last_col_append) (simp_all add: last_col_def)
qed

lemma get_line_col_delta_value:
  assumes "p1 \<le> length buf" "p2 \<le> length buf"
  shows "get_line_col_delta buf p1 p2 = (line_of buf p2 - line_of buf p1,
    if line_of buf p2 = line_of buf p1 then col_of buf p2 - col_of buf p1 else col_of buf p2 - 1)"
proof -
  have seg: "take q buf = take p buf @ take (q - p) (drop p buf)" if "p \<le> q" for p q
    using that by (metis le_add_diff_inverse take_add)
  show ?thesis
  proof (cases "p2 \<ge> p1")
    case True
    define b where "b = take (p2 - p1) (drop p1 buf)"
    have t: "take p2 buf = take p1 buf @ b" using seg [OF True] by (simp add: b_def)
    have z: "newlines b = 0 \<longleftrightarrow> 10 \<notin> set b" by (rule newlines_0)
    show ?thesis using True z
      by (auto simp: get_line_col_delta_def get_line_col_def line_col_loop_value b_def [symmetric] line_of_def
          col_of_def t last_col_append)
  next
    case False
    define b where "b = take (p1 - p2) (drop p2 buf)"
    have t: "take p1 buf = take p2 buf @ b" using seg [of p2 p1] False by (simp add: b_def)
    have z: "newlines b = 0 \<longleftrightarrow> 10 \<notin> set b" by (rule newlines_0)
    show ?thesis using False z back_col_value [OF assms(2), of 0]
      by (auto simp: get_line_col_delta_def get_line_col_def line_col_loop_value b_def [symmetric] line_of_def
          col_of_def t last_col_append)
  qed
qed

lemma col_bounds: "p \<le> length buf \<Longrightarrow> 1 \<le> col_of buf p \<and> col_of buf p \<le> 1 + int (length buf)"
  using last_col_le [of "take p buf"] by (simp add: col_of_def)

lemma line_bounds: "p \<le> length buf \<Longrightarrow> 1 \<le> line_of buf p \<and> line_of buf p \<le> 1 + int (length buf)"
  using newlines_le [of "take p buf"] by (simp add: line_of_def)

section \<open>One entry of the table\<close>

definition line_bits :: "u8 list \<Rightarrow> bool \<Rightarrow> nat \<Rightarrow> nat \<Rightarrow> bool list" where
  "line_bits buf h p1 p2 = sgolomb (word_of_int (line_of buf p2 - line_of buf p1)) @
     (if \<not> h then [] else if line_of buf p2 = line_of buf p1
      then sgolomb (word_of_int (col_of buf p2 - col_of buf p1)) else ugolomb (word_of_int (col_of buf p2 - 1)))"

lemma sgolomb_range:
  assumes "- (2 ^ 31) < x" "x < 2 ^ 31" shows "(2 * word_of_int x XOR - drop_bit 31 (word_of_int x)) + 1 \<noteq> (0 :: u32)"
proof
  define v where "v = (word_of_int x :: u32)"
  assume "(2 * word_of_int x XOR - drop_bit 31 (word_of_int x)) + 1 = (0 :: u32)"
  then have "2 * v XOR - drop_bit 31 v = -1" unfolding v_def by (metis add.commute add_eq_0_iff)
  with zigzag [of v] have "v = drop_bit 1 (-1) XOR - (-1 AND 1)" by simp
  also have "\<dots> = 0x80000000" by code_simp
  finally have "sint v = - (2 ^ 31)" by simp
  moreover have "sint v = x" unfolding v_def using assms by (subst int_word_sint) simp
  ultimately show False using assms(1) by simp
qed

lemma ugolomb_range: "0 \<le> x \<Longrightarrow> x < 2 ^ 31 \<Longrightarrow> word_of_int x + 1 \<noteq> (0 :: u32)"
proof
  assume x: "0 \<le> x" "x < 2 ^ 31" and z: "word_of_int x + 1 = (0 :: u32)"
  have "uint (word_of_int (x + 1) :: u32) = x + 1" using x by (simp only: uint_word_of_int) simp
  moreover have "(word_of_int (x + 1) :: u32) = 0" using z by simp
  ultimately show False using x by simp
qed

lemma emit_pc2line_writes:
  assumes "emit_pc2line env s pos = Some s'" "pc2line_source_pos s \<le> length (source_buf s)"
    "pos \<le> length (source_buf s)" "length (source_buf s) < 2 ^ 30"
  shows "\<exists>s2. writes s (line_bits (source_buf s) (has_col s) (pc2line_source_pos s) pos) s2 \<and>
    s' = s2\<lparr>pc2line_source_pos := pos\<rparr>"
proof -
  let ?b = "source_buf s" and ?p = "pc2line_source_pos s"
  define dl where "dl = line_of ?b pos - line_of ?b ?p"
  define dc where "dc = (if dl = 0 then col_of ?b pos - col_of ?b ?p else col_of ?b pos - 1)"
  have d: "get_line_col_delta ?b ?p pos = (dl, dc)"
    using get_line_col_delta_value [OF assms(2,3)] by (simp add: dl_def dc_def)
  note bounds = line_bounds [OF assms(2)] line_bounds [OF assms(3)] col_bounds [OF assms(2)] col_bounds [OF assms(3)]
  have rl: "- (2 ^ 31) < dl" "dl < 2 ^ 31" using bounds assms(4) by (simp_all add: dl_def)
  have rc: "- (2 ^ 31) < dc" "dc < 2 ^ 31" "dl \<noteq> 0 \<Longrightarrow> 0 \<le> dc"
    using bounds assms(4) by (simp_all add: dc_def)
  from assms(1) [unfolded emit_pc2line_def d split_conv] obtain s1 s2 where
    s1: "put_sgolomb env s (word_of_int dl) = Some s1" and
    s2: "(if has_col s1 then if dl = 0 then put_sgolomb env s1 (word_of_int dc) else put_ugolomb env s1 (word_of_int dc)
          else Some s1) = Some s2" and s': "s' = s2\<lparr>pc2line_source_pos := pos\<rparr>"
    by (auto split: Option.bind_splits)
  have w1: "writes s (sgolomb (word_of_int dl)) s1" by (rule put_sgolomb_writes [OF s1 sgolomb_range [OF rl]])
  then have h: "has_col s1 = has_col s" by (auto simp: writes_def)
  define xs where "xs = (if \<not> has_col s then [] else if dl = 0 then sgolomb (word_of_int dc) else ugolomb (word_of_int dc))"
  have "writes s1 xs s2"
  proof (cases "has_col s")
    case False
    then show ?thesis using s2 h writes_refl by (simp add: xs_def)
  next
    case True
    show ?thesis
    proof (cases "dl = 0")
      case z: True
      then show ?thesis using s2 h True put_sgolomb_writes [OF _ sgolomb_range [OF rc(1,2)], of env s1 s2] by (simp add: xs_def)
    next
      case z: False
      then show ?thesis using s2 h True put_ugolomb_writes [OF _ ugolomb_range [OF rc(3) [OF z] rc(2)], of env s1 s2]
        by (simp add: xs_def)
    qed
  qed
  with w1 have "writes s (sgolomb (word_of_int dl) @ xs) s2" by (rule writes_trans)
  moreover have "sgolomb (word_of_int dl) @ xs = line_bits ?b (has_col s) ?p pos"
    by (simp add: line_bits_def xs_def dl_def dc_def)
  ultimately show ?thesis using s' by auto
qed

lemma get_pc2line_value:
  assumes "has_bits lines k (line_bits buf h p1 p2)" "p1 \<le> length buf" "p2 \<le> length buf" "length buf < 2 ^ 30"
  shows "get_pc2line (word_of_int (line_of buf p1)) (word_of_int (if h then col_of buf p1 else c)) lines k h =
    Some (word_of_int (line_of buf p2), word_of_int (if h then col_of buf p2 else 0), k + length (line_bits buf h p1 p2))"
proof -
  define dl where "dl = line_of buf p2 - line_of buf p1"
  note bounds = line_bounds [OF assms(2)] line_bounds [OF assms(3)] col_bounds [OF assms(2)] col_bounds [OF assms(3)]
  have rl: "- (2 ^ 31) < dl" "dl < 2 ^ 31" using bounds assms(4) by (simp_all add: dl_def)
  have h1: "has_bits lines k (sgolomb (word_of_int dl))"
    using assms(1) by (simp add: line_bits_def has_bits_append dl_def)
  note g1 = get_sgolomb_value [OF h1 sgolomb_range [OF rl]]
  have z: "word_of_int dl = (0 :: u32) \<longleftrightarrow> dl = 0"
  proof
    assume "word_of_int dl = (0 :: u32)"
    then have "sint (word_of_int dl :: u32) = 0" by simp
    moreover have "sint (word_of_int dl :: u32) = dl" using rl by (subst int_word_sint) simp
    ultimately show "dl = 0" by simp
  qed simp
  have l2: "(word_of_int (line_of buf p1) + word_of_int dl :: u32) = word_of_int (line_of buf p2)"
    by (simp add: dl_def)
  show ?thesis
  proof (cases h)
    case False
    then show ?thesis using g1 l2 by (simp add: get_pc2line_def line_bits_def dl_def)
  next
    case True
    show ?thesis
    proof (cases "dl = 0")
      case d0: True
      have rc: "- (2 ^ 31) < col_of buf p2 - col_of buf p1" "col_of buf p2 - col_of buf p1 < 2 ^ 31"
        using bounds assms(4) by simp_all
      have h2: "has_bits lines (k + length (sgolomb (word_of_int dl))) (sgolomb (word_of_int (col_of buf p2 - col_of buf p1)))"
        using assms(1) True d0 by (simp add: line_bits_def has_bits_append dl_def)
      show ?thesis using g1 l2 get_sgolomb_value [OF h2 sgolomb_range [OF rc]] True d0 z
        by (simp add: get_pc2line_def line_bits_def dl_def add.assoc)
    next
      case d0: False
      have rc: "0 \<le> col_of buf p2 - 1" "col_of buf p2 - 1 < 2 ^ 31" using bounds assms(4) by simp_all
      have h2: "has_bits lines (k + length (sgolomb (word_of_int dl))) (ugolomb (word_of_int (col_of buf p2 - 1)))"
        using assms(1) True d0 by (simp add: line_bits_def has_bits_append dl_def)
      show ?thesis using g1 l2 get_ugolomb_value [OF h2 ugolomb_range [OF rc]] True d0 z
        by (simp add: get_pc2line_def line_bits_def dl_def add.assoc)
    qed
  qed
qed

end
