(* ===== verification/JsLineTable.thy ===== *)
theory JsLineTable imports JsLines begin

text \<open>
  A whole function: the instructions the code generator emits, with labels and operands patched and
  instructions taken back, the end of its line table with the code of the hoisted functions, and the
  lookup of a program counter, which finds the line and the column of the source position of its
  instruction.
\<close>

unbundle bit_operations_syntax

section \<open>Emitting bytes\<close>

text \<open>The bytes \<open>bs\<close> are added to the byte code, and nothing else changes.\<close>

definition appends :: "parse_state \<Rightarrow> u8 list \<Rightarrow> parse_state \<Rightarrow> bool" where
  "appends s bs s' \<longleftrightarrow> (\<exists>b k. s' = s\<lparr>code_buf := b, byte_code_len := byte_code_len s + length bs, resizes := k\<rparr> \<and>
     take (byte_code_len s + length bs) b = take (byte_code_len s) (code_buf s) @ bs \<and>
     byte_code_len s + length bs \<le> length b)"

lemma claim_size:
  assumes "emit_claim_size env s n = Some s'" "byte_code_len s \<le> length (code_buf s)"
  shows "\<exists>b k. s' = s\<lparr>code_buf := b, resizes := k\<rparr> \<and> byte_code_len s + n \<le> length b \<and>
    take (length (code_buf s)) b = code_buf s"
  using assms resize_bytes by (auto simp: emit_claim_size_def split: option.splits)

lemma appendsI:
  "s' = s\<lparr>code_buf := b, byte_code_len := byte_code_len s + n, resizes := k\<rparr> \<Longrightarrow>
   take (byte_code_len s + n) b = take (byte_code_len s) (code_buf s) @ bs \<Longrightarrow> length bs = n \<Longrightarrow>
   byte_code_len s + n \<le> length b \<Longrightarrow> appends s bs s'"
  unfolding appends_def by blast

lemma emit_u8_appends:
  assumes "emit_u8 env s v = Some s'" "byte_code_len s \<le> length (code_buf s)"
  shows "appends s [v] s'"
proof -
  from assms(1) obtain s1 where c: "emit_claim_size env s 1 = Some s1" and
    s': "s' = s1\<lparr>code_buf := (code_buf s1)[byte_code_len s1 := v], byte_code_len := byte_code_len s1 + 1\<rparr>"
    by (auto simp: emit_u8_def split: Option.bind_splits)
  from claim_size [OF c assms(2)] obtain b k where s1: "s1 = s\<lparr>code_buf := b, resizes := k\<rparr>" and
    b: "byte_code_len s + 1 \<le> length b" "take (length (code_buf s)) b = code_buf s" by blast
  have "take (byte_code_len s) b = take (byte_code_len s) (code_buf s)"
    using b(2) assms(2) by (metis min.absorb1 take_take)
  then have "take (byte_code_len s + 1) (b[byte_code_len s := v]) = take (byte_code_len s) (code_buf s) @ [v]"
    using b(1) by (simp add: take_Suc_conv_app_nth)
  then show ?thesis
    by (rule appendsI [where k = k, rotated]) (use b(1) in \<open>simp_all add: s' s1\<close>)
qed

lemma take_put:
  "i + 2 \<le> length b \<Longrightarrow> take (i + 2) (b[i := x, i + 1 := y]) = take i b @ [x, y]"
  "i + 4 \<le> length b \<Longrightarrow> take (i + 4) (b[i := x, i + 1 := y, i + 2 := z, i + 3 := w]) = take i b @ [x, y, z, w]"
proof -
  assume i: "i + 2 \<le> length b"
  have "take (i + 2) (b[i := x, i + 1 := y]) = take i (b[i := x, i + 1 := y]) @ take 2 (drop i (b[i := x, i + 1 := y]))"
    by (rule take_add)
  moreover have "take 2 (drop i (b[i := x, i + 1 := y])) = [x, y]"
    using i by (intro nth_equalityI) (auto simp: less_2_cases_iff)
  ultimately show "take (i + 2) (b[i := x, i + 1 := y]) = take i b @ [x, y]" by simp
next
  assume i: "i + 4 \<le> length b"
  let ?c = "b[i := x, i + 1 := y, i + 2 := z, i + 3 := w]"
  have "take (i + 4) ?c = take i ?c @ take 4 (drop i ?c)" by (rule take_add)
  moreover have "take 4 (drop i ?c) = [x, y, z, w]"
  proof (rule nth_equalityI)
    fix j assume "j < length (take 4 (drop i ?c))"
    then have "j < 4" by simp
    then consider "j = 0" | "j = 1" | "j = 2" | "j = 3" by linarith
    then show "take 4 (drop i ?c) ! j = [x, y, z, w] ! j" using i by cases simp_all
  qed (use i in simp)
  ultimately show "take (i + 4) ?c = take i b @ [x, y, z, w]" by simp
qed

lemma emit_u16_appends:
  assumes "emit_u16 env s v = Some s'" "byte_code_len s \<le> length (code_buf s)"
  shows "appends s [ucast v, ucast (drop_bit 8 v)] s'"
proof -
  let ?n = "byte_code_len s"
  from assms(1) obtain s1 where c: "emit_claim_size env s 2 = Some s1" and
    s': "s' = s1\<lparr>code_buf := put_u16 (code_buf s1) (byte_code_len s1) v, byte_code_len := byte_code_len s1 + 2\<rparr>"
    by (auto simp: emit_u16_def split: Option.bind_splits)
  from claim_size [OF c assms(2)] obtain b k where s1: "s1 = s\<lparr>code_buf := b, resizes := k\<rparr>" and
    b: "?n + 2 \<le> length b" "take (length (code_buf s)) b = code_buf s" by blast
  have "take ?n b = take ?n (code_buf s)" using b(2) assms(2) by (metis min.absorb1 take_take)
  then have "take (?n + 2) (put_u16 b ?n v) = take ?n (code_buf s) @ [ucast v, ucast (drop_bit 8 v)]"
    using take_put(1) [OF b(1)] by (simp only: put_u16_def)
  then show ?thesis
    by (rule appendsI [where k = k, rotated]) (use b(1) in \<open>simp_all add: s' s1\<close>)
qed

lemma emit_u32_appends:
  assumes "emit_u32 env s v = Some s'" "byte_code_len s \<le> length (code_buf s)"
  shows "appends s [ucast v, ucast (drop_bit 8 v), ucast (drop_bit 16 v), ucast (drop_bit 24 v)] s'"
proof -
  let ?n = "byte_code_len s"
  from assms(1) obtain s1 where c: "emit_claim_size env s 4 = Some s1" and
    s': "s' = s1\<lparr>code_buf := put_u32 (code_buf s1) (byte_code_len s1) v, byte_code_len := byte_code_len s1 + 4\<rparr>"
    by (auto simp: emit_u32_def split: Option.bind_splits)
  from claim_size [OF c assms(2)] obtain b k where s1: "s1 = s\<lparr>code_buf := b, resizes := k\<rparr>" and
    b: "?n + 4 \<le> length b" "take (length (code_buf s)) b = code_buf s" by blast
  have "take ?n b = take ?n (code_buf s)" using b(2) assms(2) by (metis min.absorb1 take_take)
  then have "take (?n + 4) (put_u32 b ?n v) =
      take ?n (code_buf s) @ [ucast v, ucast (drop_bit 8 v), ucast (drop_bit 16 v), ucast (drop_bit 24 v)]"
    using take_put(2) [OF b(1)] by (simp only: put_u32_def)
  then show ?thesis
    by (rule appendsI [where k = k, rotated]) (use b(1) in \<open>simp_all add: s' s1\<close>)
qed

section \<open>A sequence of instructions\<close>

type_synonym instr = "u8 \<times> nat"

definition instr_size :: "instr \<Rightarrow> nat" where
  "instr_size i = op_size (opcode_info ! unat (fst i))"

definition start_of :: "instr list \<Rightarrow> nat \<Rightarrow> nat" where
  "start_of is n = sum_list (map instr_size (take n is))"

text \<open>The operand of an instruction, \<open>k\<close> bytes.\<close>

inductive operand :: "resize_env \<Rightarrow> parse_state \<Rightarrow> nat \<Rightarrow> parse_state \<Rightarrow> bool" for env where
  none: "operand env s 0 s"
| u8: "emit_u8 env s v = Some s' \<Longrightarrow> operand env s 1 s'"
| u16: "emit_u16 env s w = Some s' \<Longrightarrow> operand env s 2 s'"
| u32: "emit_u32 env s x = Some s' \<Longrightarrow> operand env s 4 s'"

text \<open>
  What the parser does with the generator: it emits instructions with their operands, takes the last one
  back, and overwrites operands (when it places a label) or other fields of the state.
\<close>

inductive generates :: "resize_env \<Rightarrow> parse_state \<Rightarrow> instr list \<Rightarrow> parse_state \<Rightarrow> bool" for env s0 where
  start: "generates env s0 [] (reset_parse_state s0)"
| emit: "generates env s0 is s \<Longrightarrow> emit_op_pos env s op pos = Some s1 \<Longrightarrow> operand env s1 k s2 \<Longrightarrow>
    unat op < OP_COUNT \<Longrightarrow> op_size (opcode_info ! unat op) = 1 + k \<Longrightarrow> pos \<le> length (source_buf s) \<Longrightarrow>
    generates env s0 (is @ [(op, pos)]) s2"
| undo: "generates env s0 is s \<Longrightarrow> emit_op_pos env s op pos = Some s1 \<Longrightarrow> operand env s1 k s2 \<Longrightarrow>
    pos \<le> length (source_buf s) \<Longrightarrow> generates env s0 is (remove_last_op s2)"
| patch: "generates env s0 is s \<Longrightarrow> length code = length (code_buf s) \<Longrightarrow>
    \<forall>j < length is. code ! start_of is j = code_buf s ! start_of is j \<Longrightarrow>
    generates env s0 is (s\<lparr>code_buf := code, last_opcode_pos := p, hoisted_code_len := h\<rparr>)"

text \<open>The line table of a sequence of instructions, from source position \<open>p\<close>.\<close>

fun table_bits :: "u8 list \<Rightarrow> bool \<Rightarrow> nat \<Rightarrow> instr list \<Rightarrow> bool list" where
  "table_bits buf h p [] = []"
| "table_bits buf h p (i # is) = line_bits buf h p (snd i) @ table_bits buf h (snd i) is"

definition last_pos :: "instr list \<Rightarrow> nat" where
  "last_pos is = (if is = [] then 0 else snd (last is))"

lemma last_pos_snoc [simp]: "last_pos (is @ [i]) = snd i"
  by (simp add: last_pos_def)

lemma table_bits_snoc:
  "table_bits buf h p (is @ [i]) = table_bits buf h p is @ line_bits buf h (if is = [] then p else snd (last is)) (snd i)"
  by (induction "is" arbitrary: p) auto

definition table_ok :: "parse_state \<Rightarrow> instr list \<Rightarrow> parse_state \<Rightarrow> bool" where
  "table_ok s0 is s \<longleftrightarrow> source_buf s = source_buf s0 \<and> has_col s = has_col s0 \<and>
     has_bits (line_buf s) 0 (table_bits (source_buf s0) (has_col s0) 0 is) \<and>
     pc2line_bit_len s = length (table_bits (source_buf s0) (has_col s0) 0 is) \<and>
     pc2line_source_pos s = last_pos is \<and> byte_code_len s = start_of is (length is) \<and>
     byte_code_len s \<le> length (code_buf s) \<and>
     (\<forall>j < length is. code_buf s ! start_of is j = fst (is ! j)) \<and>
     (\<forall>i \<in> set is. unat (fst i) < OP_COUNT \<and> snd i \<le> length (source_buf s0))"

lemma start_of_snoc: "start_of (is @ [i]) n = (if n \<le> length is then start_of is n else start_of is (length is) + instr_size i)"
  by (simp add: start_of_def)

lemma start_of_mono: "m \<le> n \<Longrightarrow> start_of is m \<le> start_of is n"
proof -
  assume "m \<le> n"
  then have "take n is = take m is @ take (n - m) (drop m is)" by (metis le_add_diff_inverse take_add)
  then show ?thesis by (simp add: start_of_def)
qed

lemma start_of_less:
  assumes "j < length is" "\<forall>i \<in> set is. unat (fst i) < OP_COUNT"
  shows "start_of is j < start_of is (Suc j)"
proof -
  have "1 \<le> instr_size (is ! j)"
    using assms opcode_size_bounds by (simp add: instr_size_def)
  moreover have "start_of is (Suc j) = start_of is j + instr_size (is ! j)"
    using assms(1) by (simp add: start_of_def take_Suc_conv_app_nth)
  ultimately show ?thesis by simp
qed

lemma start_of_below:
  "j < length is \<Longrightarrow> \<forall>i \<in> set is. unat (fst i) < OP_COUNT \<Longrightarrow> start_of is j < start_of is (length is)"
  using start_of_less start_of_mono [of "Suc j" "length is" "is"] by (metis Suc_leI less_le_trans)

text \<open>The effect of one instruction with its operand.\<close>

lemma emit_op_pos_effect:
  assumes "emit_op_pos env s op pos = Some s'" "byte_code_len s \<le> length (code_buf s)"
    "pc2line_source_pos s \<le> length (source_buf s)" "pos \<le> length (source_buf s)" "length (source_buf s) < 2 ^ 30"
  shows "\<exists>s2. writes (s\<lparr>last_opcode_pos := int (byte_code_len s), last_pc2line_pos := pc2line_bit_len s,
             last_pc2line_source_pos := pc2line_source_pos s\<rparr>)
      (line_bits (source_buf s) (has_col s) (pc2line_source_pos s) pos) s2 \<and>
    appends (s2\<lparr>pc2line_source_pos := pos\<rparr>) [op] s'"
proof -
  let ?s = "s\<lparr>last_opcode_pos := int (byte_code_len s), last_pc2line_pos := pc2line_bit_len s,
             last_pc2line_source_pos := pc2line_source_pos s\<rparr>"
  from assms(1) obtain s1 where s1: "emit_pc2line env ?s pos = Some s1" "emit_u8 env s1 op = Some s'"
    by (auto simp: emit_op_pos_def split: Option.bind_splits)
  from emit_pc2line_writes [OF s1(1)] assms(3-5) obtain s2 where
    s2: "writes ?s (line_bits (source_buf s) (has_col s) (pc2line_source_pos s) pos) s2"
    "s1 = s2\<lparr>pc2line_source_pos := pos\<rparr>" by auto
  have "byte_code_len s1 \<le> length (code_buf s1)" using s2 assms(2) by (auto simp: writes_def)
  from emit_u8_appends [OF s1(2) this] s2 show ?thesis by auto
qed

lemma operand_appends:
  "operand env s k s' \<Longrightarrow> byte_code_len s \<le> length (code_buf s) \<Longrightarrow> \<exists>bs. length bs = k \<and> appends s bs s'"
proof (induction rule: operand.induct)
  case (none s)
  then show ?case unfolding appends_def
    by (intro exI [of _ "[]"] exI [of _ "code_buf s"] exI [of _ "resizes s"] conjI) simp_all
next
  case (u8 s v s')
  from emit_u8_appends [OF this] show ?case by (intro exI conjI) (auto simp: numeral_eq_Suc)
next
  case (u16 s v s')
  from emit_u16_appends [OF this] show ?case by (intro exI conjI) (auto simp: numeral_eq_Suc)
next
  case (u32 s v s')
  from emit_u32_appends [OF this] show ?case by (intro exI conjI) (auto simp: numeral_eq_Suc)
qed

lemma appends_trans:
  assumes "appends s xs s1" "appends s1 ys s2" shows "appends s (xs @ ys) s2"
proof -
  from assms(1) obtain b1 k1 where 1: "s1 = s\<lparr>code_buf := b1, byte_code_len := byte_code_len s + length xs, resizes := k1\<rparr>"
    "take (byte_code_len s + length xs) b1 = take (byte_code_len s) (code_buf s) @ xs" by (auto simp: appends_def)
  from assms(2) obtain b2 k2 where 2: "s2 = s1\<lparr>code_buf := b2, byte_code_len := byte_code_len s1 + length ys, resizes := k2\<rparr>"
    "take (byte_code_len s1 + length ys) b2 = take (byte_code_len s1) (code_buf s1) @ ys"
    "byte_code_len s1 + length ys \<le> length b2" by (auto simp: appends_def)
  show ?thesis
    by (rule appendsI [where b = b2 and n = "length xs + length ys" and k = k2]) (use 1 2 in \<open>simp_all add: add.assoc\<close>)
qed

lemma appends_nth:
  assumes "appends s bs s'" "byte_code_len s \<le> length (code_buf s)"
  shows "j < byte_code_len s \<Longrightarrow> code_buf s' ! j = code_buf s ! j"
    "j < length bs \<Longrightarrow> code_buf s' ! (byte_code_len s + j) = bs ! j"
    "byte_code_len s' \<le> length (code_buf s')" "byte_code_len s' = byte_code_len s + length bs"
proof -
  let ?n = "byte_code_len s"
  from assms(1) obtain b k where s': "s' = s\<lparr>code_buf := b, byte_code_len := ?n + length bs, resizes := k\<rparr>" and
    t: "take (?n + length bs) b = take ?n (code_buf s) @ bs" and l: "?n + length bs \<le> length b"
    by (auto simp: appends_def)
  have nth: "b ! i = (take ?n (code_buf s) @ bs) ! i" if "i < ?n + length bs" for i
    unfolding t [symmetric] using that by simp
  show "j < ?n \<Longrightarrow> code_buf s' ! j = code_buf s ! j" using nth [of j] assms(2) by (simp add: s' nth_append)
  show "j < length bs \<Longrightarrow> code_buf s' ! (?n + j) = bs ! j" using nth [of "?n + j"] assms(2) by (simp add: s' nth_append)
  show "byte_code_len s' \<le> length (code_buf s')" "byte_code_len s' = ?n + length bs" using l by (simp_all add: s')
qed

lemma table_ok_start: "table_ok s0 [] (reset_parse_state s0)"
  by (simp add: table_ok_def reset_parse_state_def last_pos_def start_of_def has_bits_def)

lemma emit_fields:
  assumes "emit_op_pos env s op pos = Some s1" "operand env s1 k s2" "table_ok s0 is s"
    "pos \<le> length (source_buf s0)" "length (source_buf s0) < 2 ^ 30"
  shows "source_buf s2 = source_buf s0 \<and> has_col s2 = has_col s0 \<and>
    has_bits (line_buf s2) 0 (table_bits (source_buf s0) (has_col s0) 0 (is @ [(op, pos)])) \<and>
    pc2line_bit_len s2 = length (table_bits (source_buf s0) (has_col s0) 0 (is @ [(op, pos)])) \<and>
    pc2line_source_pos s2 = pos \<and> byte_code_len s2 = start_of is (length is) + 1 + k \<and>
    byte_code_len s2 \<le> length (code_buf s2) \<and>
    (\<forall>j < length is. code_buf s2 ! start_of is j = fst (is ! j)) \<and>
    code_buf s2 ! start_of is (length is) = op \<and>
    last_opcode_pos s2 = int (byte_code_len s) \<and> last_pc2line_pos s2 = pc2line_bit_len s \<and>
    last_pc2line_source_pos s2 = pc2line_source_pos s"
proof -
  let ?b = "source_buf s0" and ?h = "has_col s0"
  have t: "source_buf s = ?b" "has_col s = ?h" "has_bits (line_buf s) 0 (table_bits ?b ?h 0 is)"
    "pc2line_bit_len s = length (table_bits ?b ?h 0 is)" "pc2line_source_pos s = last_pos is"
    "byte_code_len s = start_of is (length is)" "byte_code_len s \<le> length (code_buf s)"
    "\<And>j. j < length is \<Longrightarrow> code_buf s ! start_of is j = fst (is ! j)"
    "\<forall>i \<in> set is. unat (fst i) < OP_COUNT \<and> snd i \<le> length ?b"
    using assms(3) by (simp_all add: table_ok_def)
  have lp: "last_pos is \<le> length ?b" using t(9) by (auto simp: last_pos_def)
  from emit_op_pos_effect [OF assms(1) t(7)] t(1,2,5) lp assms(4,5) obtain sl where
    w: "writes (s\<lparr>last_opcode_pos := int (byte_code_len s), last_pc2line_pos := pc2line_bit_len s,
             last_pc2line_source_pos := pc2line_source_pos s\<rparr>) (line_bits ?b ?h (last_pos is) pos) sl" and
    a: "appends (sl\<lparr>pc2line_source_pos := pos\<rparr>) [op] s1" by auto
  let ?s = "sl\<lparr>pc2line_source_pos := pos\<rparr>"
  have sl: "byte_code_len sl = byte_code_len s" "code_buf sl = code_buf s" "source_buf sl = ?b" "has_col sl = ?h"
    "pc2line_bit_len sl = pc2line_bit_len s + length (line_bits ?b ?h (last_pos is) pos)"
    "last_opcode_pos sl = int (byte_code_len s)" "last_pc2line_pos sl = pc2line_bit_len s"
    "last_pc2line_source_pos sl = pc2line_source_pos s"
    using w t(1,2) by (auto simp: writes_def)
  have "byte_code_len ?s \<le> length (code_buf ?s)" using t(7) sl by simp
  from operand_appends [OF assms(2) appends_nth(3) [OF a this]] obtain bs where
    bs: "length bs = k" "appends s1 bs s2" by blast
  have a2: "appends ?s (op # bs) s2" using appends_trans [OF a bs(2)] by simp
  note n = appends_nth [OF a2 \<open>byte_code_len ?s \<le> length (code_buf ?s)\<close>]
  have tb: "table_bits ?b ?h 0 (is @ [(op, pos)]) = table_bits ?b ?h 0 is @ line_bits ?b ?h (last_pos is) pos"
    by (simp add: table_bits_snoc last_pos_def)
  have hb: "has_bits (line_buf sl) 0 (table_bits ?b ?h 0 (is @ [(op, pos)]))"
    unfolding tb using w t(3,4) by (simp add: writes_def)
  have keep: "source_buf s2 = source_buf ?s" "has_col s2 = has_col ?s" "line_buf s2 = line_buf ?s"
    "pc2line_bit_len s2 = pc2line_bit_len ?s" "pc2line_source_pos s2 = pos" "last_opcode_pos s2 = last_opcode_pos ?s"
    "last_pc2line_pos s2 = last_pc2line_pos ?s" "last_pc2line_source_pos s2 = last_pc2line_source_pos ?s"
    using a2 by (auto simp: appends_def)
  have old: "code_buf s2 ! start_of is j = fst (is ! j)" if "j < length is" for j
    using n(1) [of "start_of is j"] start_of_below [OF that] t(6,8,9) that sl by simp
  have new: "code_buf s2 ! start_of is (length is) = op" using n(2) [of 0] t(6) sl by simp
  show ?thesis
    using keep sl hb tb t old new n(3,4) bs(1) by simp
qed

lemma generates_ok:
  assumes "generates env s0 is s" "length (source_buf s0) < 2 ^ 30"
  shows "table_ok s0 is s"
  using assms(1)
proof (induction rule: generates.induct)
  case start
  show ?case by (rule table_ok_start)
next
  case (emit "is" s op pos s1 k s2)
  have src: "pos \<le> length (source_buf s0)" using emit by (simp add: table_ok_def)
  from emit_fields [OF emit.hyps(2,3) emit.IH src assms(2)] have e:
    "source_buf s2 = source_buf s0" "has_col s2 = has_col s0"
    "has_bits (line_buf s2) 0 (table_bits (source_buf s0) (has_col s0) 0 (is @ [(op, pos)]))"
    "pc2line_bit_len s2 = length (table_bits (source_buf s0) (has_col s0) 0 (is @ [(op, pos)]))"
    "pc2line_source_pos s2 = pos" "byte_code_len s2 = start_of is (length is) + 1 + k"
    "byte_code_len s2 \<le> length (code_buf s2)"
    "\<forall>j < length is. code_buf s2 ! start_of is j = fst (is ! j)" "code_buf s2 ! start_of is (length is) = op" by blast+
  have "code_buf s2 ! start_of (is @ [(op, pos)]) j = fst ((is @ [(op, pos)]) ! j)" if "j < Suc (length is)" for j
    using that e(8,9) by (cases "j = length is") (simp_all add: start_of_snoc nth_append)
  moreover have "instr_size (op, pos) = 1 + k" using emit.hyps(5) by (simp add: instr_size_def)
  ultimately show ?case
    using e emit src by (auto simp: table_ok_def start_of_snoc)
next
  case (undo "is" s op pos s1 k s2)
  have src: "pos \<le> length (source_buf s0)" using undo by (simp add: table_ok_def)
  from emit_fields [OF undo.hyps(2,3) undo.IH src assms(2)] have e:
    "source_buf s2 = source_buf s0" "has_col s2 = has_col s0"
    "has_bits (line_buf s2) 0 (table_bits (source_buf s0) (has_col s0) 0 (is @ [(op, pos)]))"
    "byte_code_len s2 = start_of is (length is) + 1 + k" "byte_code_len s2 \<le> length (code_buf s2)"
    "\<forall>j < length is. code_buf s2 ! start_of is j = fst (is ! j)"
    "last_opcode_pos s2 = int (byte_code_len s)" "last_pc2line_pos s2 = pc2line_bit_len s"
    "last_pc2line_source_pos s2 = pc2line_source_pos s" by blast+
  have "has_bits (line_buf s2) 0 (table_bits (source_buf s0) (has_col s0) 0 is)"
    using e(3) by (simp add: table_bits_snoc has_bits_append)
  then show ?case using undo.IH e by (auto simp: table_ok_def remove_last_op_def)
next
  case (patch "is" s code p h)
  then show ?case by (auto simp: table_ok_def)
qed

section \<open>The lookup\<close>

lemma find_loop_value:
  assumes "has_bits lines k (table_bits buf hc p is)" "p \<le> length buf" "length buf < 2 ^ 30"
    "\<forall>j < length is. code ! (pos + start_of is j) = fst (is ! j)" "pos + start_of is (length is) \<le> length code"
    "\<forall>i \<in> set is. unat (fst i) < OP_COUNT \<and> snd i \<le> length buf" "i < length is"
  shows "find_loop code lines hc (pos + start_of is i) pos (word_of_int (line_of buf p))
      (word_of_int (if hc then col_of buf p else c)) k =
    Some (word_of_int (line_of buf (snd (is ! i))), word_of_int (if hc then col_of buf (snd (is ! i)) else 0))"
  using assms
proof (induction "is" arbitrary: p k pos c i)
  case (Cons x "is")
  have x: "unat (fst x) < OP_COUNT" "snd x \<le> length buf" using Cons.prems(6) by simp_all
  have h: "has_bits lines k (line_bits buf hc p (snd x))"
    "has_bits lines (k + length (line_bits buf hc p (snd x))) (table_bits buf hc (snd x) is)"
    using Cons.prems(1) by (simp_all add: has_bits_append)
  note g = get_pc2line_value [OF h(1) Cons.prems(2) x(2) Cons.prems(3), of c]
  have st: "start_of (x # is) (Suc j) = instr_size x + start_of is j" for j by (simp add: start_of_def)
  have s0: "start_of (x # is) 0 = 0" by (simp add: start_of_def)
  have sz: "1 \<le> instr_size x" using opcode_size_bounds [OF x(1)] by (simp add: instr_size_def)
  have op: "code ! pos = fst x" using Cons.prems(4) s0 by (metis add_0_right length_greater_0_conv list.distinct(1) nth_Cons_0)
  have lt: "pos < length code" using Cons.prems(5) sz st [of "length is"] by simp
  show ?case
  proof (cases i)
    case 0
    then show ?thesis by (subst find_loop.simps) (simp add: lt g s0)
  next
    case (Suc j)
    have ne: "pos \<noteq> pos + start_of (x # is) i" using sz st Suc by simp
    have pc: "pos + start_of (x # is) i = (pos + instr_size x) + start_of is j" using st Suc by simp
    have "find_loop code lines hc (pos + instr_size x + start_of is j) (pos + instr_size x)
        (word_of_int (line_of buf (snd x))) (word_of_int (if hc then col_of buf (snd x) else 0))
        (k + length (line_bits buf hc p (snd x))) =
      Some (word_of_int (line_of buf (snd (is ! j))), word_of_int (if hc then col_of buf (snd (is ! j)) else 0))"
    proof (rule Cons.IH [OF h(2) x(2) Cons.prems(3)])
      show "\<forall>j<length is. code ! (pos + instr_size x + start_of is j) = fst (is ! j)"
      proof (intro allI impI)
        fix j assume "j < length is"
        then have "code ! (pos + start_of (x # is) (Suc j)) = fst ((x # is) ! Suc j)" using Cons.prems(4) by simp
        then show "code ! (pos + instr_size x + start_of is j) = fst (is ! j)" by (simp add: st add.assoc)
      qed
      show "pos + instr_size x + start_of is (length is) \<le> length code"
        using Cons.prems(5) st [of "length is"] by simp
    qed (use Cons.prems(6,7) Suc in simp_all)
    moreover have "start_of (x # is) (Suc j) \<noteq> 0" "\<not> OP_COUNT \<le> unat (fst x)" using st sz x(1) by simp_all
    ultimately show ?thesis
      by (subst find_loop.simps) (simp add: lt g op ne pc [symmetric] Suc instr_size_def [symmetric])
  qed
qed simp

section \<open>The length of the hoisted code\<close>

text \<open>The groups of seven bits, the lowest first; all but the first are marked.\<close>

fun groups :: "nat \<Rightarrow> u32 \<Rightarrow> u32 list" where
  "groups n h = (of_nat (n mod 128) OR h) # (if n div 128 = 0 then [] else groups (n div 128) (h OR 0x80))"

declare groups.simps [simp del]

definition group_bits :: "u32 list \<Rightarrow> bool list" where
  "group_bits gs = concat (map (nbits 8) gs)"

lemma group_value: "h \<in> {0, 0x80} \<Longrightarrow> unat ((of_nat (n mod 128) :: u32) OR h) < 2 ^ 8"
proof -
  assume h: "h \<in> {0, 0x80}"
  have m: "unat (of_nat (n mod 128) :: u32) = n mod 128" by (simp add: unat_of_nat)
  then have "(of_nat (n mod 128) :: u32) < 2 ^ 8" by (simp add: word_less_nat_alt)
  moreover have "h < 2 ^ 8" using h by auto
  ultimately have "of_nat (n mod 128) OR h < (2 :: u32) ^ 8" using not_bit_of_less_exp [of "of_nat (n mod 128) :: u32" 8] not_bit_of_less_exp [of h 8]
    by (intro less_exp_of_not_bit) (auto simp: bit_or_iff)
  then show ?thesis by (simp add: word_less_nat_alt)
qed

lemma put_hoisted_len_writes:
  "put_hoisted_len env s n h = Some s' \<Longrightarrow> h \<in> {0, 0x80} \<Longrightarrow> writes s (group_bits (groups n h)) s'"
proof (induction env s n h arbitrary: s' rule: put_hoisted_len.induct)
  case (1 env s n h)
  from "1.prems"(1) obtain s1 where s1: "pc2line_put_bits env s 8 (of_nat (n mod 128) OR h) = Some s1"
    "(if n div 128 = 0 then Some s1 else put_hoisted_len env s1 (n div 128) (h OR 0x80)) = Some s'"
    by (subst (asm) put_hoisted_len.simps) (auto split: Option.bind_splits)
  have w: "writes s (nbits 8 (of_nat (n mod 128) OR h)) s1"
    by (rule put_bits_writes [OF s1(1)]) (use group_value [OF "1.prems"(2), of n] in simp_all)
  show ?case
  proof (cases "n div 128 = 0")
    case True
    then show ?thesis using w s1(2) by (simp add: groups.simps [of n] group_bits_def)
  next
    case False
    have h: "h OR 0x80 \<in> {0, 0x80 :: u32}" using "1.prems"(2) by auto
    have "put_hoisted_len env s1 (n div 128) (h OR 0x80) = Some s'" using s1(2) False by simp
    from "1.IH" [OF s1(1) False this h] have "writes s1 (group_bits (groups (n div 128) (h OR 0x80))) s'" .
    from writes_trans [OF w this] show ?thesis using False by (simp add: groups.simps [of n] group_bits_def)
  qed
qed

lemma hoisted_len_loop_append: "i \<le> length xs \<Longrightarrow> hoisted_len_loop (xs @ ys) i v = hoisted_len_loop xs i v"
  by (induction i arbitrary: v) (simp_all add: nth_append Let_def)

lemma shift7: "push_bit 7 v OR (ucast b AND 0x7f) = v * 128 + (ucast b AND 0x7f)" for v :: u32 and b :: u8
proof -
  have m: "(0x7f :: u32) = mask 7" by (simp add: mask_eq_exp_minus_1)
  have "unat (ucast b AND 0x7f :: u32) < 2 ^ 7" unfolding m unat_and_mask by simp
  from or_push_bit_add [OF this, of v] show ?thesis by (simp add: or.commute add.commute push_bit_eq_mult)
qed

lemma bit_masks:
  "bit (0x7f :: u32) j \<longleftrightarrow> j < 7" "bit (0x80 :: u32) j \<longleftrightarrow> j = 7" "bit (0x80 :: u8) j \<longleftrightarrow> j = 7"
proof -
  have "(0x7f :: u32) = mask 7" "(0x80 :: u32) = push_bit 7 1" "(0x80 :: u8) = push_bit 7 1"
    by (simp_all add: mask_eq_exp_minus_1)
  then show "bit (0x7f :: u32) j \<longleftrightarrow> j < 7" "bit (0x80 :: u32) j \<longleftrightarrow> j = 7" "bit (0x80 :: u8) j \<longleftrightarrow> j = 7"
    by (auto simp only: bit_mask_iff bit_push_bit_iff bit_1_iff) auto
qed

lemma group_byte:
  fixes n :: nat and h :: u32
  assumes "h \<in> {0, 0x80}"
  defines "g \<equiv> (ucast ((of_nat (n mod 128) :: u32) OR h) :: u8)"
  shows "ucast g AND 0x7f = (of_nat (n mod 128) :: u32)" "g AND 0x80 = 0 \<longleftrightarrow> h = 0"
proof -
  have m: "unat (of_nat (n mod 128) :: u32) < 2 ^ 7" by (simp add: unat_of_nat)
  have nb: "\<not> bit (of_nat (n mod 128) :: u32) j" if "7 \<le> j" for j using bit_unat_less [OF m that] .
  show "ucast g AND 0x7f = (of_nat (n mod 128) :: u32)"
  proof (rule bit_word_eqI)
    fix j :: nat assume "j < LENGTH(32)"
    have g: "bit g j \<longleftrightarrow> j < 8 \<and> bit (of_nat (n mod 128) OR h) j" for j by (simp add: g_def bit_unsigned_iff)
    have "bit (ucast g AND (0x7f :: u32)) j \<longleftrightarrow> j < 7 \<and> bit (of_nat (n mod 128) OR h) j"
      using g [of j] unfolding bit_and_iff bit_masks by (auto simp: bit_unsigned_iff)
    also have "\<dots> \<longleftrightarrow> j < 7 \<and> bit (of_nat (n mod 128) :: u32) j"
      using assms(1) bit_masks(2) [of j] by (auto simp: bit_or_iff)
    also have "\<dots> \<longleftrightarrow> bit (of_nat (n mod 128) :: u32) j" by (metis leI nb)
    finally show "bit (ucast g AND (0x7f :: u32)) j \<longleftrightarrow> bit (of_nat (n mod 128) :: u32) j" .
  qed
  show "g AND 0x80 = 0 \<longleftrightarrow> h = 0"
  proof -
    have b: "bit (g AND 0x80) j \<longleftrightarrow> j = 7 \<and> bit g 7" for j unfolding bit_and_iff bit_masks by auto
    have "g AND 0x80 = 0 \<longleftrightarrow> \<not> bit g 7"
    proof
      assume z: "g AND 0x80 = 0"
      show "\<not> bit g 7" using b [of 7] unfolding z by simp
    next
      assume "\<not> bit g 7"
      then show "g AND 0x80 = 0" using b by (intro bit_word_eqI) simp
    qed
    also have "bit g 7 \<longleftrightarrow> bit h 7" unfolding g_def using nb by (simp add: bit_unsigned_iff bit_or_iff)
    also have "\<not> bit h 7 \<longleftrightarrow> h = 0" using assms(1) bit_masks(2) [of 7] by auto
    finally show ?thesis .
  qed
qed

lemma hoisted_len_groups_marked:
  "hoisted_len_loop (pre @ map ucast (groups n 0x80)) (length pre + length (groups n 0x80)) v =
   hoisted_len_loop pre (length pre) (v * 128 ^ length (groups n 0x80) + of_nat n)"
proof (induction n arbitrary: pre v rule: less_induct)
  case (less n)
  let ?g = "ucast ((of_nat (n mod 128) :: u32) OR 0x80) :: u8"
  note gb = group_byte [of "0x80" n, simplified]
  have last: "hoisted_len_loop (pre @ [?g]) (Suc (length pre)) w = hoisted_len_loop pre (length pre) (w * 128 + of_nat (n mod 128))" for w
    using hoisted_len_loop_append [of "length pre" pre "[?g]"] gb shift7 [of w ?g] by (simp add: Let_def nth_append)
  show ?case
  proof (cases "n div 128 = 0")
    case True
    then have "n mod 128 = n" by simp
    then show ?thesis using last [of v] True by (simp add: groups.simps [of n])
  next
    case False
    define r where "r = n div 128"
    have gs: "groups n 0x80 = (of_nat (n mod 128) OR 0x80) # groups r 0x80"
      using False by (simp add: groups.simps [of n] r_def)
    have "hoisted_len_loop ((pre @ [?g]) @ map ucast (groups r 0x80)) (length (pre @ [?g]) + length (groups r 0x80)) v =
        hoisted_len_loop (pre @ [?g]) (length (pre @ [?g])) (v * 128 ^ length (groups r 0x80) + of_nat r)"
      using False by (intro less.IH) (simp add: r_def)
    also have "\<dots> = hoisted_len_loop pre (length pre) ((v * 128 ^ length (groups r 0x80) + of_nat r) * 128 + of_nat (n mod 128))"
      using last by simp
    also have "(v * 128 ^ length (groups r 0x80) + of_nat r) * 128 + of_nat (n mod 128) =
        v * 128 ^ length (groups n 0x80) + of_nat (r * 128 + n mod 128)"
      by (simp add: gs algebra_simps)
    also have "r * 128 + n mod 128 = n" by (simp add: r_def)
    finally show ?thesis by (simp add: gs)
  qed
qed

lemma hoisted_len_groups:
  "get_pc2line_hoisted_code_len (pre @ map ucast (groups n 0)) = of_nat n"
proof -
  let ?g = "ucast (of_nat (n mod 128) :: u32) :: u8"
  note gb = group_byte [of 0 n, simplified]
  have last: "hoisted_len_loop (pre @ [?g]) (Suc (length pre)) w = w * 128 + of_nat (n mod 128)" for w
    using gb shift7 [of w ?g] by (simp add: Let_def nth_append)
  show ?thesis
  proof (cases "n div 128 = 0")
    case True
    then have "n mod 128 = n" by simp
    then show ?thesis using last [of 0] True
      by (simp add: get_pc2line_hoisted_code_len_def groups.simps [of n])
  next
    case False
    then have gs: "groups n 0 = of_nat (n mod 128) # groups (n div 128) 0x80" by (simp add: groups.simps [of n])
    have "get_pc2line_hoisted_code_len (pre @ map ucast (groups n 0)) = of_nat (n div 128) * 128 + of_nat (n mod 128)"
      using hoisted_len_groups_marked [of "pre @ [?g]" "n div 128" 0] last
      by (simp add: get_pc2line_hoisted_code_len_def gs)
    also have "\<dots> = of_nat (n div 128 * 128 + n mod 128)" by (simp only: of_nat_add of_nat_mult) simp
    finally show ?thesis by simp
  qed
qed

section \<open>The code of the hoisted functions\<close>

definition hoisted_count :: "nat option list \<Rightarrow> nat" where
  "hoisted_count vals = length (filter (\<lambda>v. v \<noteq> None \<and> v \<noteq> Some 0) vals)"

lemma emit_u8_room:
  "byte_code_len s + 1 \<le> length (code_buf s) \<Longrightarrow>
   emit_u8 env s v = Some (s\<lparr>code_buf := (code_buf s)[byte_code_len s := v], byte_code_len := byte_code_len s + 1\<rparr>)"
  by (simp add: emit_u8_def emit_claim_size_def js_resize_bytes_def)

lemma emit_u16_room:
  "byte_code_len s + 2 \<le> length (code_buf s) \<Longrightarrow>
   emit_u16 env s v = Some (s\<lparr>code_buf := put_u16 (code_buf s) (byte_code_len s) v, byte_code_len := byte_code_len s + 2\<rparr>)"
  by (simp add: emit_u16_def emit_claim_size_def js_resize_bytes_def)

lemma hoist_one:
  assumes "byte_code_len s + 6 \<le> length (code_buf s)"
  obtains c where "do { s1 \<leftarrow> emit_u8 env s a; s2 \<leftarrow> emit_u16 env s1 b; s3 \<leftarrow> emit_u8 env s2 d; emit_u16 env s3 e } =
      Some (s\<lparr>code_buf := c, byte_code_len := byte_code_len s + 6\<rparr>)"
    "length c = length (code_buf s)" "drop (byte_code_len s + 6) c = drop (byte_code_len s + 6) (code_buf s)"
proof -
  let ?n = "byte_code_len s"
  define c where "c = put_u16 ((put_u16 ((code_buf s)[?n := a]) (?n + 1) b)[?n + 3 := d]) (?n + 4) e"
  show thesis
  proof (rule that [of c])
    show "length c = length (code_buf s)" by (simp add: c_def)
    show "drop (?n + 6) c = drop (?n + 6) (code_buf s)" by (simp add: c_def put_u16_def)
    show "do { s1 \<leftarrow> emit_u8 env s a; s2 \<leftarrow> emit_u16 env s1 b; s3 \<leftarrow> emit_u8 env s2 d; emit_u16 env s3 e } =
      Some (s\<lparr>code_buf := c, byte_code_len := ?n + 6\<rparr>)"
      using assms by (simp add: emit_u8_room emit_u16_room c_def eval_nat_numeral)
  qed
qed

lemma hoist_functions_effect:
  assumes "byte_code_len s + 6 * hoisted_count vals \<le> length (code_buf s)"
  shows "\<exists>c. hoist_functions env ev na i vals s =
      Some (s\<lparr>code_buf := c, byte_code_len := byte_code_len s + 6 * hoisted_count vals\<rparr>) \<and>
    length c = length (code_buf s) \<and>
    drop (byte_code_len s + 6 * hoisted_count vals) c = drop (byte_code_len s + 6 * hoisted_count vals) (code_buf s)"
  using assms
proof (induction env ev na i vals s rule: hoist_functions.induct)
  case (1 env ev na i s)
  have "s = s\<lparr>code_buf := code_buf s, byte_code_len := byte_code_len s\<rparr>" by simp
  then show ?case by (intro exI [of _ "code_buf s"]) (simp add: hoisted_count_def)
next
  case (4 env ev na i idx vals s)
  have n: "hoisted_count (Some (Suc idx) # vals) = Suc (hoisted_count vals)" by (simp add: hoisted_count_def)
  have r: "byte_code_len s + 6 \<le> length (code_buf s)" using "4.prems" n by simp
  let ?op = "if ev then OP_put_var_ref_nocheck else if idx < na then OP_put_arg else OP_put_loc"
  let ?ix = "of_nat (if ev \<or> idx < na then idx else idx - na) :: u16"
  from hoist_one [OF r, where a = OP_fclosure and b = "of_nat i" and d = ?op and e = ?ix and env = env] obtain c where
    c: "do { s1 \<leftarrow> emit_u8 env s OP_fclosure; s2 \<leftarrow> emit_u16 env s1 (of_nat i); s3 \<leftarrow> emit_u8 env s2 ?op;
          emit_u16 env s3 ?ix } = Some (s\<lparr>code_buf := c, byte_code_len := byte_code_len s + 6\<rparr>)"
      "length c = length (code_buf s)" "drop (byte_code_len s + 6) c = drop (byte_code_len s + 6) (code_buf s)" .
  let ?s = "s\<lparr>code_buf := c, byte_code_len := byte_code_len s + 6\<rparr>"
  from c(1) obtain s1 s2 s3 where st: "emit_u8 env s OP_fclosure = Some s1" "emit_u16 env s1 (of_nat i) = Some s2"
    "emit_u8 env s2 ?op = Some s3" "emit_u16 env s3 ?ix = Some ?s"
    by (auto split: Option.bind_splits)
  have eq: "hoist_functions env ev na i (Some (Suc idx) # vals) s = hoist_functions env ev na (i + 1) vals ?s"
    using st by simp
  have "byte_code_len ?s + 6 * hoisted_count vals \<le> length (code_buf ?s)" using "4.prems" n c(2) by simp
  from "4.IH" [OF st this] obtain c' where
    c': "hoist_functions env ev na (i + 1) vals ?s = Some (?s\<lparr>code_buf := c', byte_code_len := byte_code_len ?s + 6 * hoisted_count vals\<rparr>)"
    "length c' = length (code_buf ?s)"
    "drop (byte_code_len ?s + 6 * hoisted_count vals) c' = drop (byte_code_len ?s + 6 * hoisted_count vals) (code_buf ?s)"
    by blast
  have "drop (byte_code_len s + 6 + 6 * hoisted_count vals) c = drop (byte_code_len s + 6 + 6 * hoisted_count vals) (code_buf s)"
    using arg_cong [OF c(3), of "drop (6 * hoisted_count vals)"] by (simp add: add_ac)
  then show ?case unfolding eq using c' c(2) n by (intro exI [of _ c']) (simp add: add_ac)
qed (simp_all add: hoisted_count_def)

lemma line_bits_nonempty:
  assumes "p1 \<le> length buf" "p2 \<le> length buf" "length buf < 2 ^ 30"
  shows "line_bits buf h p1 p2 \<noteq> []"
proof -
  let ?x = "line_of buf p2 - line_of buf p1"
  have "- (2 ^ 31) < ?x" "?x < 2 ^ 31" using line_bounds [OF assms(1)] line_bounds [OF assms(2)] assms(3) by simp_all
  from clz32_bounds(1) [OF sgolomb_range [OF this]]
  have "0 < length (sgolomb (word_of_int ?x))" unfolding sgolomb_def length_ugolomb by simp
  then show ?thesis by (simp add: line_bits_def)
qed

lemma define_hoisted_effect:
  assumes "define_hoisted_functions env ev na vals s = Some s'" "table_ok s0 is s" "is \<noteq> []"
    "hoisted_code_len s = 6 * hoisted_count vals" "length (source_buf s0) < 2 ^ 30"
  defines "h \<equiv> hoisted_code_len s"
  shows "byte_code_len s' = h + byte_code_len s \<and> byte_code_len s' \<le> length (code_buf s') \<and>
    (\<forall>j < byte_code_len s. code_buf s' ! (h + j) = code_buf s ! j) \<and>
    (\<exists>n. let bits = table_bits (source_buf s0) (has_col s0) 0 is @ replicate n False @ group_bits (groups h 0) in
      has_bits (line_buf s') 0 bits \<and> pc2line_bit_len s' = length bits \<and>
      8 dvd length (table_bits (source_buf s0) (has_col s0) 0 is) + n)"
proof -
  let ?t = "table_bits (source_buf s0) (has_col s0) 0 is"
  have t: "has_bits (line_buf s) 0 ?t" "pc2line_bit_len s = length ?t" "byte_code_len s \<le> length (code_buf s)"
    using assms(2) by (simp_all add: table_ok_def)
  have ne: "line_buf s \<noteq> []"
  proof
    assume "line_buf s = []"
    with t(1) have "?t = []" by (simp add: has_bits_def)
    moreover obtain x xs where x: "is = x # xs" using assms(3) by (cases "is") auto
    moreover have "snd x \<le> length (source_buf s0)" using assms(2) x by (simp add: table_ok_def)
    ultimately show False using line_bits_nonempty [of 0 "source_buf s0" "snd x"] assms(5) by simp
  qed
  define n where "n = nat ((- int (pc2line_bit_len s)) mod 8)"
  from assms(1) ne obtain s0' s1 where p: "(if n \<noteq> 0 then pc2line_put_bits env s n 0 else Some s) = Some s0'"
    "put_hoisted_len env s0' (hoisted_code_len s0') 0 = Some s1" and
    rest: "(if hoisted_code_len s1 = 0 then Some s1
       else do {
         s2 \<leftarrow> emit_insert env s1 0 (hoisted_code_len s1);
         s3 \<leftarrow> hoist_functions env ev na 0 vals (s2\<lparr>byte_code_len := 0\<rparr>);
         Some (s3\<lparr>byte_code_len := byte_code_len s2\<rparr>) }) = Some s'"
    unfolding define_hoisted_functions_def Let_def n_def by (auto split: Option.bind_splits if_splits)
  have n8: "n < 8" and dv: "8 dvd length ?t + n"
  proof -
    show "n < 8" by (simp add: n_def)
    have "int (length ?t + n) = int (length ?t) + (- int (length ?t)) mod 8" by (simp add: n_def t(2))
    then have "int 8 dvd int (length ?t + n)" by (simp add: dvd_eq_mod_eq_0 mod_simps)
    then show "8 dvd length ?t + n" by (simp only: int_dvd_int_iff)
  qed
  have w0: "writes s (replicate n False) s0'"
  proof (cases "n = 0")
    case True
    then show ?thesis using p(1) writes_refl [of s] by simp
  next
    case False
    then show ?thesis using p(1) put_bits_writes [of env s n 0 s0'] n8 by (simp add: nbits_0)
  qed
  have h0: "hoisted_code_len s0' = h" using w0 by (auto simp: writes_def h_def)
  have "writes s0' (group_bits (groups h 0)) s1" by (rule put_hoisted_len_writes) (use p(2) h0 in simp_all)
  with w0 have w: "writes s (replicate n False @ group_bits (groups h 0)) s1" by (rule writes_trans)
  let ?bits = "?t @ replicate n False @ group_bits (groups h 0)"
  have b1: "has_bits (line_buf s1) 0 ?bits" "pc2line_bit_len s1 = length ?bits" "code_buf s1 = code_buf s"
    "byte_code_len s1 = byte_code_len s" "hoisted_code_len s1 = h"
    using w t(1,2) by (auto simp: writes_def h_def)
  have lines: "\<exists>n. let bits = ?t @ replicate n False @ group_bits (groups h 0) in
      has_bits (line_buf s') 0 bits \<and> pc2line_bit_len s' = length bits \<and> 8 dvd length ?t + n"
    if "line_buf s' = line_buf s1" "pc2line_bit_len s' = pc2line_bit_len s1"
    using that b1(1,2) dv by (intro exI [of _ n]) (simp add: Let_def)
  show ?thesis
  proof (cases "h = 0")
    case True
    then have "s' = s1" using rest b1(5) by simp
    then show ?thesis using lines b1 t(3) True by simp
  next
    case False
    with rest b1(5) obtain s2 s3 where s2: "emit_insert env s1 0 h = Some s2" and
      s3: "hoist_functions env ev na 0 vals (s2\<lparr>byte_code_len := 0\<rparr>) = Some s3" and
      s': "s' = s3\<lparr>byte_code_len := byte_code_len s2\<rparr>"
      by (auto split: Option.bind_splits)
    from s2 obtain sc where sc: "emit_claim_size env s1 h = Some sc" and
      s2d: "s2 = sc\<lparr>code_buf := take h (code_buf sc) @ take (byte_code_len sc) (code_buf sc) @
                drop (byte_code_len sc + h) (code_buf sc), byte_code_len := byte_code_len sc + h\<rparr>"
      by (auto simp: emit_insert_def split: Option.bind_splits)
    from claim_size [OF sc] t(3) b1(3,4) obtain b k where scd: "sc = s1\<lparr>code_buf := b, resizes := k\<rparr>" and
      b: "byte_code_len s + h \<le> length b" "take (length (code_buf s)) b = code_buf s" by auto
    let ?m = "byte_code_len s"
    have bm: "b ! j = code_buf s ! j" if "j < ?m" for j
      using b(2) that t(3) by (metis less_le_trans nth_take)
    define c2 where "c2 = take h b @ take ?m b @ drop (?m + h) b"
    have c2: "length c2 = length b" "\<And>j. j < ?m \<Longrightarrow> c2 ! (h + j) = code_buf s ! j"
      using b(1) bm by (simp_all add: c2_def nth_append)
    have s2e: "code_buf s2 = c2" "byte_code_len s2 = ?m + h" "line_buf s2 = line_buf s1" "pc2line_bit_len s2 = pc2line_bit_len s1"
      by (simp_all add: s2d scd c2_def b1)
    have "byte_code_len (s2\<lparr>byte_code_len := 0\<rparr>) + 6 * hoisted_count vals \<le> length (code_buf (s2\<lparr>byte_code_len := 0\<rparr>))"
      using b(1) c2(1) s2e(1) assms(4) by (simp add: h_def)
    from hoist_functions_effect [OF this, of env ev na 0] s3 obtain c3 where
      c3: "s3 = s2\<lparr>code_buf := c3, byte_code_len := h\<rparr>" "length c3 = length c2" "drop h c3 = drop h c2"
      using s2e(1) assms(4) by (auto simp: h_def)
    have "c3 ! (h + j) = c2 ! (h + j)" if "j < ?m" for j
      using arg_cong [OF c3(3), of "\<lambda>xs. xs ! j"] that c3(2) c2(1) b(1) by simp
    then show ?thesis using lines s2e c2 c3 b(1) by (simp add: s')
  qed
qed

lemma byte_of_bits:
  assumes "has_bits buf (8 * p) (nbits 8 g)" shows "buf ! p = ucast g"
proof (rule bit_word_eqI)
  fix j :: nat assume "j < LENGTH(8)"
  then have j: "j < 8" by simp
  define m where "m = 7 - j"
  have m: "m < 8" "7 - m = j" using j by (simp_all add: m_def)
  then have "m < length (nbits 8 g)" by simp
  then have "tbit buf (8 * p + m) = nbits 8 g ! m" using assms unfolding has_bits_def by blast
  then have "bit (buf ! p) j = bit g j" using m by (simp add: tbit_def nth_nbits)
  then show "bit (buf ! p) j = bit (ucast g :: u8) j" using j by (simp add: bit_unsigned_iff)
qed

lemma bytes_of_groups:
  "has_bits buf (8 * p) (group_bits gs) \<Longrightarrow> take (length gs) (drop p buf) = map ucast gs"
proof (induction gs arbitrary: p)
  case (Cons g gs)
  then have h: "has_bits buf (8 * p) (nbits 8 g)" "has_bits buf (8 * (p + 1)) (group_bits gs)"
    using has_bits_append [of buf "8 * p" "nbits 8 g" "group_bits gs"]
    by (simp_all add: group_bits_def add.commute)
  have "p < length buf" using h(1) by (simp add: has_bits_def)
  then show ?case using byte_of_bits [OF h(1)] Cons.IH [OF h(2)] by (simp add: Cons_nth_drop_Suc [symmetric])
qed simp

lemma has_bits_take:
  "has_bits buf 0 xs \<Longrightarrow> length xs = 8 * n \<Longrightarrow> has_bits (take n buf) 0 xs"
proof -
  assume h: "has_bits buf 0 xs" and n: "length xs = 8 * n"
  have "tbit (take n buf) i = tbit buf i" if "i < length xs" for i
  proof -
    have "i < n * 8" using that n by simp
    then have "i div 8 < n" by (rule less_mult_imp_div_less)
    then show ?thesis by (simp add: tbit_def)
  qed
  then show ?thesis using h n by (simp add: has_bits_def)
qed

lemma length_group_bits: "length (group_bits gs) = 8 * length gs"
  by (induction gs) (simp_all add: group_bits_def)

lemma unat_of_nat_u32': "n < 2 ^ 32 \<Longrightarrow> unat (of_nat n :: u32) = n"
  by (simp add: unat_of_nat)

text \<open>
  C10: whatever the sequence of instructions, operands, patches and instructions taken back, the finished
  function's table gives for the counter of each instruction the line and the column of the source
  position it was emitted with. The byte code and the table are those \<open>js_parse_local_functions\<close>
  shrinks to their lengths.
\<close>
theorem line_table_roundtrip:
  assumes "generates env s0 is s" "is \<noteq> []" "length (source_buf s0) < 2 ^ 30"
    "define_hoisted_functions env ev na vals s = Some s'"
    "hoisted_code_len s = 6 * hoisted_count vals" "hoisted_code_len s < 2 ^ 32" "i < length is"
  shows "find_line_col (take (byte_code_len s') (code_buf s')) (take ((pc2line_bit_len s' + 7) div 8) (line_buf s'))
      (has_col s0) (hoisted_code_len s + start_of is i) =
    Some (word_of_int (line_of (source_buf s0) (snd (is ! i))),
      word_of_int (if has_col s0 then col_of (source_buf s0) (snd (is ! i)) else 0))"
proof -
  let ?b = "source_buf s0" and ?hc = "has_col s0" and ?h = "hoisted_code_len s"
  have ok: "table_ok s0 is s" by (rule generates_ok [OF assms(1,3)])
  let ?t = "table_bits ?b ?hc 0 is"
  from define_hoisted_effect [OF assms(4) ok assms(2,5,3)] obtain n where
    c: "byte_code_len s' = ?h + byte_code_len s" "byte_code_len s' \<le> length (code_buf s')"
      "\<forall>j < byte_code_len s. code_buf s' ! (?h + j) = code_buf s ! j" and
    l: "has_bits (line_buf s') 0 (?t @ replicate n False @ group_bits (groups ?h 0))"
      "pc2line_bit_len s' = length (?t @ replicate n False @ group_bits (groups ?h 0))" "8 dvd length ?t + n"
    unfolding Let_def by blast
  from l(3) obtain q where q: "length ?t + n = 8 * q" by (elim dvdE)
  define m where "m = q + length (groups ?h 0)"
  have bl: "pc2line_bit_len s' = 8 * m" using l(2) q by (simp add: m_def length_group_bits)
  define lines where "lines = take m (line_buf s')"
  have lines: "take ((pc2line_bit_len s' + 7) div 8) (line_buf s') = lines" by (simp add: bl lines_def)
  have hb: "has_bits lines 0 (?t @ replicate n False @ group_bits (groups ?h 0))"
    unfolding lines_def by (rule has_bits_take [OF l(1)]) (use l(2) bl in simp)
  then have ht: "has_bits lines 0 ?t" and hg: "has_bits lines (8 * q) (group_bits (groups ?h 0))"
    using has_bits_append [of lines 0 "?t @ replicate n False" "group_bits (groups ?h 0)"] q
    by (simp_all add: has_bits_append)
  have len: "length lines = m"
    using l(1,2) bl by (simp add: lines_def has_bits_def)
  have "lines = take q lines @ take (length (groups ?h 0)) (drop q lines)"
    by (simp add: len m_def)
  then have "lines = take q lines @ map ucast (groups ?h 0)" unfolding bytes_of_groups [OF hg] .
  then have hl: "unat (get_pc2line_hoisted_code_len lines) = ?h"
    using hoisted_len_groups [of "take q lines" ?h] unat_of_nat_u32' [OF assms(6)] by metis
  have ne: "lines \<noteq> []" using len m_def by (auto simp: groups.simps [of ?h])
  have t: "byte_code_len s = start_of is (length is)" "\<forall>j < length is. code_buf s ! start_of is j = fst (is ! j)"
    "\<forall>i \<in> set is. unat (fst i) < OP_COUNT \<and> snd i \<le> length ?b"
    using ok by (simp_all add: table_ok_def)
  let ?code = "take (byte_code_len s') (code_buf s')"
  have ops: "\<forall>j < length is. ?code ! (?h + start_of is j) = fst (is ! j)"
    using c(1,3) t start_of_below [of _ "is"] by simp
  have cl: "?h + start_of is (length is) \<le> length ?code" using c(1,2) t(1) by simp
  have b0: "line_of ?b 0 = 1" "col_of ?b 0 = 1" by (simp_all add: line_of_def col_of_def newlines_def last_col_def)
  have i1: "(if ?hc then col_of ?b 0 else 1) = 1" using b0 by simp
  show ?thesis
    unfolding lines
    using find_loop_value [OF ht le0 assms(3) ops cl t(3) assms(7), where c = 1, unfolded i1 b0] ne hl
    by (simp add: find_line_col_def Let_def)
qed

text \<open>A line feed and \<open>g\<close>: one instruction, emitted at \<open>g\<close>, and one hoisted function.\<close>

definition small_state ::
  "u8 list \<Rightarrow> nat \<Rightarrow> u8 list \<Rightarrow> nat \<Rightarrow> nat \<Rightarrow> nat \<Rightarrow> nat \<Rightarrow> nat \<Rightarrow> parse_state" where
  "small_state code n lines bits sp p h k = \<lparr>source_buf = [10, 103], has_col = False, code_buf = code,
     byte_code_len = n, last_opcode_pos = (if p = 0 then -1 else 0), last_pc2line_pos = 0,
     last_pc2line_source_pos = 0, line_buf = lines, pc2line_bit_len = bits, pc2line_source_pos = sp,
     hoisted_code_len = h, resizes = k\<rparr>"

definition dirty_memory :: resize_env where "dirty_memory k = Some (\<lambda>_. 0xaa)"

lemma small_bits:
  "pc2line_put_bits dirty_memory (small_state [] 0 [] 0 0 1 0 0) 1 0 =
    Some (small_state [] 0 [0x2a, 0xaa, 0xaa, 0xaa] 1 0 1 0 1)"
  "pc2line_put_bits dirty_memory (small_state [] 0 [0x2a, 0xaa, 0xaa, 0xaa] 1 0 1 0 1) 2 3 =
    Some (small_state [] 0 [0x6a, 0xaa, 0xaa, 0xaa] 3 0 1 0 1)"
  "pc2line_put_bits dirty_memory (small_state [28] 1 [0x6a, 0xaa, 0xaa, 0xaa] 3 1 1 6 2) 5 0 =
    Some (small_state [28] 1 [0x60, 0xaa, 0xaa, 0xaa] 8 1 1 6 2)"
  "pc2line_put_bits dirty_memory (small_state [28] 1 [0x60, 0xaa, 0xaa, 0xaa] 8 1 1 6 2) 8 6 =
    Some (small_state [28] 1 [0x60, 6, 0xaa, 0xaa, 0xaa, 0xaa] 16 1 1 6 3)"
  by code_simp+

lemma small_emit:
  "emit_op_pos dirty_memory (small_state [] 0 [] 0 0 0 0 0) OP_return 1 =
    Some (small_state [28] 1 [0x6a, 0xaa, 0xaa, 0xaa] 3 1 1 0 2)"
proof -
  have z: "32 - clz32 3 = 2" "(2::nat) - 1 = 1" "(2::u32) + 1 = 3" "2 * (1::s32) XOR - drop_bit 31 1 = 2" "(word_of_int 1 :: s32) = 1"
    "get_line_col_delta [10, 103] 0 1 = (1, 0)"
    by code_simp+
  have f: "source_buf (small_state c n l b sp p h k) = [10, 103]" "\<not> has_col (small_state c n l b sp p h k)"
    "pc2line_source_pos (small_state c n l b sp p h k) = sp" for c n l b sp p h k
    by (simp_all add: small_state_def)
  have s: "(small_state [] 0 [] 0 0 0 0 0)\<lparr>last_opcode_pos := int (byte_code_len (small_state [] 0 [] 0 0 0 0 0)),
      last_pc2line_pos := pc2line_bit_len (small_state [] 0 [] 0 0 0 0 0),
      last_pc2line_source_pos := pc2line_source_pos (small_state [] 0 [] 0 0 0 0 0)\<rparr> = small_state [] 0 [] 0 0 1 0 0"
    by (simp add: small_state_def)
  have "put_sgolomb dirty_memory (small_state [] 0 [] 0 0 1 0 0) 1 =
      Some (small_state [] 0 [0x6a, 0xaa, 0xaa, 0xaa] 3 0 1 0 1)"
    unfolding put_sgolomb_def put_ugolomb_def Let_def z by (simp add: small_bits del: One_nat_def)
  then have "emit_pc2line dirty_memory (small_state [] 0 [] 0 0 1 0 0) 1 =
      Some ((small_state [] 0 [0x6a, 0xaa, 0xaa, 0xaa] 3 0 1 0 1)\<lparr>pc2line_source_pos := 1\<rparr>)"
    by (simp add: emit_pc2line_def f z del: One_nat_def)
  moreover have "emit_u8 dirty_memory ((small_state [] 0 [0x6a, 0xaa, 0xaa, 0xaa] 3 0 1 0 1)\<lparr>pc2line_source_pos := 1\<rparr>)
      OP_return = Some (small_state [28] 1 [0x6a, 0xaa, 0xaa, 0xaa] 3 1 1 0 2)"
    by code_simp
  ultimately show ?thesis
    unfolding emit_op_pos_def s by simp
qed

lemma small_hoisted:
  "define_hoisted_functions dirty_memory False 0 [Some 1] (small_state [28] 1 [0x6a, 0xaa, 0xaa, 0xaa] 3 1 1 6 2) =
    Some (small_state [3, 0, 0, 45, 0, 0, 28] 7 [0x60, 6, 0xaa, 0xaa, 0xaa, 0xaa] 16 1 1 6 4)"
proof -
  have f: "line_buf (small_state c n l b sp p h k) = l" "pc2line_bit_len (small_state c n l b sp p h k) = b"
    "hoisted_code_len (small_state c n l b sp p h k) = h" for c n l b sp p h k
    by (simp_all add: small_state_def)
  have "put_hoisted_len dirty_memory (small_state [28] 1 [0x60, 0xaa, 0xaa, 0xaa] 8 1 1 6 2) 6 0 =
      Some (small_state [28] 1 [0x60, 6, 0xaa, 0xaa, 0xaa, 0xaa] 16 1 1 6 3)"
    by (simp add: put_hoisted_len.simps small_bits del: One_nat_def)
  moreover have "emit_insert dirty_memory (small_state [28] 1 [0x60, 6, 0xaa, 0xaa, 0xaa, 0xaa] 16 1 1 6 3) 0 6 =
      Some (small_state [28, 0xaa, 0xaa, 0xaa, 0xaa, 0xaa, 28] 7 [0x60, 6, 0xaa, 0xaa, 0xaa, 0xaa] 16 1 1 6 4)"
    by code_simp
  moreover have "hoist_functions dirty_memory False 0 0 [Some 1]
      ((small_state [28, 0xaa, 0xaa, 0xaa, 0xaa, 0xaa, 28] 7 [0x60, 6, 0xaa, 0xaa, 0xaa, 0xaa] 16 1 1 6 4)\<lparr>byte_code_len := 0\<rparr>) =
      Some (small_state [3, 0, 0, 45, 0, 0, 28] 6 [0x60, 6, 0xaa, 0xaa, 0xaa, 0xaa] 16 1 1 6 4)"
    by code_simp
  ultimately show ?thesis
    by (simp add: define_hoisted_functions_def Let_def f small_bits del: One_nat_def) (simp add: small_state_def)
qed

lemma small_generates:
  "generates dirty_memory (small_state [] 0 [] 0 0 0 0 0) [(OP_return, 1)] (small_state [28] 1 [0x6a, 0xaa, 0xaa, 0xaa] 3 1 1 6 2)"
proof -
  have r: "reset_parse_state (small_state [] 0 [] 0 0 0 0 0) = small_state [] 0 [] 0 0 0 0 0"
    by (simp add: reset_parse_state_def small_state_def)
  have a: "unat OP_return < OP_COUNT" "op_size (opcode_info ! unat OP_return) = 1 + 0"
    "1 \<le> length (source_buf (small_state [] 0 [] 0 0 0 0 0))"
    by code_simp+
  have "generates dirty_memory (small_state [] 0 [] 0 0 0 0 0) ([] @ [(OP_return, 1)])
      (small_state [28] 1 [0x6a, 0xaa, 0xaa, 0xaa] 3 1 1 0 2)"
    using generates.emit [OF generates.start [where ?s0.0 = "small_state [] 0 [] 0 0 0 0 0"], unfolded r, OF small_emit operand.none a] .
  from generates.patch [OF this refl, of 6 0] show ?thesis
    by (simp add: small_state_def)
qed

theorem line_table_roundtrip_witness:
  "find_line_col [3, 0, 0, 45, 0, 0, 28] [0x60, 6] False 6 = Some (2, 0)"
proof -
  have h: "length (source_buf (small_state [] 0 [] 0 0 0 0 0)) < 2 ^ 30"
    "hoisted_code_len (small_state [28] 1 [0x6a, 0xaa, 0xaa, 0xaa] 3 1 1 6 2) = 6 * hoisted_count [Some 1]"
    "hoisted_code_len (small_state [28] 1 [0x6a, 0xaa, 0xaa, 0xaa] 3 1 1 6 2) < 2 ^ 32"
    by (simp_all add: small_state_def hoisted_count_def)
  have e: "line_of [10, 103] 1 = 2" by code_simp
  have p: "start_of [(OP_return, 1)] 0 = 0" by code_simp
  from line_table_roundtrip [OF small_generates _ h(1) small_hoisted h(2,3), of 0] show ?thesis
    by (simp add: small_state_def e p del: One_nat_def)
qed

end
