(* ===== verification/JsLabels.thy ===== *)
theory JsLabels imports JsLineTable begin

text \<open>
  Labels of the code generator: the operands that refer to a label that is not placed yet form a list
  threaded through the byte code, and placing the label turns each of them into the distance to it.
\<close>

unbundle bit_operations_syntax

section \<open>The list of a label\<close>

text \<open>The operands at the places \<open>qs\<close>, the last one first, are the list that starts at \<open>label\<close>.\<close>

fun chain :: "u8 list \<Rightarrow> s32 \<Rightarrow> nat list \<Rightarrow> bool" where
  "chain code label [] \<longleftrightarrow> label = LABEL_OFFSET_MASK"
| "chain code label (q # qs) \<longleftrightarrow> label = of_nat q \<and> q < 2 ^ 29 - 1 \<and> q + 4 \<le> length code \<and>
     (\<forall>r \<in> set qs. r + 4 \<le> q) \<and> chain code (get_u32 code q) qs"

lemma u32_of_bytes: "get_u32 code q = get_u32 code' q"
  if "\<And>j. j < 4 \<Longrightarrow> code ! (q + j) = code' ! (q + j)"
  using that [of 0] that [of 1] that [of 2] that [of 3] by (simp add: get_u32_def)

lemma chain_cong:
  "chain code label qs \<Longrightarrow> length code \<le> length code' \<Longrightarrow>
   (\<And>q j. q \<in> set qs \<Longrightarrow> j < 4 \<Longrightarrow> code' ! (q + j) = code ! (q + j)) \<Longrightarrow> chain code' label qs"
proof (induction qs arbitrary: label)
  case (Cons q qs)
  have "get_u32 code' q = get_u32 code q" using Cons.prems(3) [of q] by (intro u32_of_bytes) simp
  moreover have "chain code' (get_u32 code q) qs" using Cons.prems by (intro Cons.IH) simp_all
  ultimately show ?case using Cons.prems(1,2) by simp
qed simp

lemma chain_take:
  "chain code label qs \<Longrightarrow> \<forall>q \<in> set qs. q + 4 \<le> n \<Longrightarrow> n \<le> length code \<Longrightarrow> chain (take n code) label qs"
proof (induction qs arbitrary: label)
  case (Cons q qs)
  have "get_u32 (take n code) q = get_u32 code q" using Cons.prems(2) by (intro u32_of_bytes) simp
  then show ?case using Cons by simp
qed simp

lemma put_u32_other: "j < q \<or> q + 4 \<le> j \<Longrightarrow> put_u32 code q v ! j = code ! j"
  by (auto simp: put_u32_def nth_list_update)

lemma place_not_mask: "q < 2 ^ 29 - 1 \<Longrightarrow> (of_nat q :: s32) \<noteq> LABEL_OFFSET_MASK"
proof
  assume q: "q < 2 ^ 29 - 1" and e: "(of_nat q :: s32) = LABEL_OFFSET_MASK"
  have "unat (of_nat q :: s32) = q" using q by (simp add: unat_of_nat)
  moreover have "unat LABEL_OFFSET_MASK = 2 ^ 29 - 1" by (simp add: LABEL_OFFSET_MASK_def)
  ultimately show False using q e by simp
qed

text \<open>Placing the label ends, and gives every operand of the list the distance.\<close>

lemma patch_label_value:
  assumes "chain code label qs"
  shows "\<exists>code'. patch_label pos label code = Some code' \<and> length code' = length code \<and>
    (\<forall>q \<in> set qs. get_u32 code' q = of_nat pos - of_nat q) \<and>
    (\<forall>j. (\<forall>q \<in> set qs. j < q \<or> q + 4 \<le> j) \<longrightarrow> code' ! j = code ! j)"
  using assms
proof (induction qs arbitrary: code label)
  case Nil
  then show ?case by (simp add: patch_label.simps)
next
  case (Cons q qs)
  have q: "label = of_nat q" "q < 2 ^ 29 - 1" "q + 4 \<le> length code" "\<forall>r \<in> set qs. r + 4 \<le> q"
    "chain code (get_u32 code q) qs" using Cons.prems by simp_all
  have uq: "unat label = q" using q(1,2) by (simp add: unat_of_nat)
  let ?c = "put_u32 code q (of_nat pos - label)"
  have "chain ?c (get_u32 code q) qs"
    by (rule chain_cong [OF q(5)]) (use q(4) in \<open>auto intro!: put_u32_other\<close>)
  from Cons.IH [OF this] obtain code' where c': "patch_label pos (get_u32 code q) ?c = Some code'"
    "length code' = length ?c" "\<forall>q \<in> set qs. get_u32 code' q = of_nat pos - of_nat q"
    "\<forall>j. (\<forall>q \<in> set qs. j < q \<or> q + 4 \<le> j) \<longrightarrow> code' ! j = ?c ! j" by blast
  have step: "patch_label pos label code = Some code'"
    using c'(1) q(3) uq place_not_mask [OF q(2)] q(1) by (subst patch_label.simps) simp
  have "code' ! (q + j) = ?c ! (q + j)" if "j < 4" for j
  proof -
    have "\<forall>r \<in> set qs. q + j < r \<or> r + 4 \<le> q + j" using q(4) by (auto intro: trans_le_add1)
    then show ?thesis using c'(4) by blast
  qed
  then have "get_u32 code' q = get_u32 ?c q" by (intro u32_of_bytes) simp
  also have "\<dots> = of_nat pos - of_nat q" using q(1,3) by simp
  finally have "\<forall>r \<in> set (q # qs). get_u32 code' r = of_nat pos - of_nat r" using c'(3) by simp
  moreover have "code' ! j = code ! j" if "\<forall>r \<in> set (q # qs). j < r \<or> r + 4 \<le> j" for j
    using c'(4) that put_u32_other [of j q code] by simp
  ultimately show ?case using step c'(2) by auto
qed

text \<open>
  A jump to a label that is not placed joins its list; the operand is the last four bytes.
\<close>

lemma resolved_bit: "label = LABEL_OFFSET_MASK \<or> label = of_nat q \<and> q < 2 ^ 29 - 1 \<Longrightarrow> label AND LABEL_RESOLVED_FLAG = 0"
proof -
  assume "label = LABEL_OFFSET_MASK \<or> label = of_nat q \<and> q < 2 ^ 29 - 1"
  then have "unat label < 2 ^ 29"
    by (auto simp: LABEL_OFFSET_MASK_def unat_of_nat)
  then have "\<not> bit label 29" using bit_unat_less [of label 29 29] by simp
  then show ?thesis unfolding LABEL_RESOLVED_FLAG_def
    by (intro bit_word_eqI) (auto simp: bit_and_iff bit_push_bit_iff bit_1_iff simp del: push_bit_of_1)
qed

lemma chain_head: "chain code label qs \<Longrightarrow> label AND LABEL_RESOLVED_FLAG = 0"
  using resolved_bit by (cases qs) auto

section \<open>Jumps\<close>

lemma put_short_frame:
  "pc2line_put_bits_short env s n b = Some s' \<Longrightarrow> code_buf s' = code_buf s \<and> byte_code_len s' = byte_code_len s"
  by (auto simp: pc2line_put_bits_short_def Let_def split: option.splits prod.splits)

lemma put_bits_frame:
  "pc2line_put_bits env s n b = Some s' \<Longrightarrow> code_buf s' = code_buf s \<and> byte_code_len s' = byte_code_len s"
  by (auto simp: pc2line_put_bits_def dest!: put_short_frame split: if_splits Option.bind_splits)

lemma put_ugolomb_frame:
  "put_ugolomb env s v = Some s' \<Longrightarrow> code_buf s' = code_buf s \<and> byte_code_len s' = byte_code_len s"
  by (auto simp: put_ugolomb_def Let_def dest!: put_bits_frame split: if_splits Option.bind_splits)

lemma emit_pc2line_frame:
  "emit_pc2line env s pos = Some s' \<Longrightarrow> code_buf s' = code_buf s \<and> byte_code_len s' = byte_code_len s"
  by (auto simp: emit_pc2line_def put_sgolomb_def dest!: put_ugolomb_frame split: if_splits Option.bind_splits prod.splits)

lemma emit_op_code:
  assumes "emit_op env s op = Some s'" "byte_code_len s \<le> length (code_buf s)"
  shows "byte_code_len s' = byte_code_len s + 1" "byte_code_len s' \<le> length (code_buf s')"
    "j < byte_code_len s \<Longrightarrow> code_buf s' ! j = code_buf s ! j" "code_buf s' ! byte_code_len s = op"
proof -
  from assms(1) obtain s1 where s1: "code_buf s1 = code_buf s" "byte_code_len s1 = byte_code_len s" "emit_u8 env s1 op = Some s'"
    by (auto simp: emit_op_def emit_op_pos_def dest!: emit_pc2line_frame split: Option.bind_splits)
  note a = appends_nth [OF emit_u8_appends [OF s1(3)]]
  show "byte_code_len s' = byte_code_len s + 1" "byte_code_len s' \<le> length (code_buf s')"
    "j < byte_code_len s \<Longrightarrow> code_buf s' ! j = code_buf s ! j" "code_buf s' ! byte_code_len s = op"
    using a(1) [of j] a(2) [of 0] a(3,4) s1(1,2) assms(2) by simp_all
qed

lemma emit_u32_code:
  assumes "emit_u32 env s v = Some s'" "byte_code_len s \<le> length (code_buf s)"
  shows "byte_code_len s' = byte_code_len s + 4" "byte_code_len s' \<le> length (code_buf s')"
    "j < byte_code_len s \<Longrightarrow> code_buf s' ! j = code_buf s ! j" "get_u32 (code_buf s') (byte_code_len s) = v"
proof -
  note ap = emit_u32_appends [OF assms]
  note a = appends_nth [OF ap assms(2)]
  show "byte_code_len s' = byte_code_len s + 4" "byte_code_len s' \<le> length (code_buf s')"
    "j < byte_code_len s \<Longrightarrow> code_buf s' ! j = code_buf s ! j"
    using a(1) [of j] a(3,4) by (simp_all add: numeral_eq_Suc)
  have "get_u32 (code_buf s') (byte_code_len s) = get_u32 [ucast v, ucast (drop_bit 8 v), ucast (drop_bit 16 v), ucast (drop_bit 24 v)] 0"
    using a(2) [of 0] a(2) [of 1] a(2) [of 2] a(2) [of 3] by (simp add: get_u32_def)
  also have "\<dots> = v" by (rule u32_eqI) (simp_all add: get_u32_def bit_simps)
  finally show "get_u32 (code_buf s') (byte_code_len s) = v" .
qed

lemma label_value: "q < 2 ^ 29 - 1 \<Longrightarrow> JS_VALUE_GET_INT (JS_NewShortInt (of_nat q)) = of_nat q"
proof -
  assume q: "q < 2 ^ 29 - 1"
  have "sint (of_nat q :: s32) = int q" by (rule sint_of_nat_small) (use q in simp)
  then show ?thesis
    using short_int_value [of "of_nat q"] q by (simp add: JS_SHORTINT_MIN_def JS_SHORTINT_MAX_def)
qed

lemma emit_goto_chain:
  assumes "emit_goto env s op l = Some (s', l')" "chain (code_buf s) (JS_VALUE_GET_INT l) qs"
    "\<forall>q \<in> set qs. q + 4 \<le> byte_code_len s" "byte_code_len s \<le> length (code_buf s)" "byte_code_len s + 1 < 2 ^ 29 - 1"
  shows "chain (code_buf s') (JS_VALUE_GET_INT l') ((byte_code_len s + 1) # qs)"
    "byte_code_len s' = byte_code_len s + 5" "byte_code_len s' \<le> length (code_buf s')"
    "j < byte_code_len s \<Longrightarrow> code_buf s' ! j = code_buf s ! j"
proof -
  let ?n = "byte_code_len s" and ?l = "JS_VALUE_GET_INT l"
  have nr: "?l AND LABEL_RESOLVED_FLAG = 0" by (rule chain_head [OF assms(2)])
  from assms(1) nr obtain s1 where s1: "emit_op env s op = Some s1" and s2: "emit_u32 env s1 ?l = Some s'" and
    l': "l' = JS_NewShortInt (of_nat (byte_code_len s' - 4))"
    by (auto simp: emit_goto_def Let_def split: Option.bind_splits)
  note c1 = emit_op_code [OF s1 assms(4)] note c2 = emit_u32_code [OF s2 c1(2)]
  show len: "byte_code_len s' = ?n + 5" "byte_code_len s' \<le> length (code_buf s')" using c1(1) c2(1,2) by simp_all
  show nth: "j < ?n \<Longrightarrow> code_buf s' ! j = code_buf s ! j" for j using c1(1,3) c2(3) by simp
  have "chain (code_buf s') ?l qs"
  proof (rule chain_cong [OF chain_take])
    show "chain (code_buf s) ?l qs" "\<forall>q \<in> set qs. q + 4 \<le> ?n" "?n \<le> length (code_buf s)" by fact+
    show "length (take ?n (code_buf s)) \<le> length (code_buf s')" using len by simp
    fix q j :: nat assume "q \<in> set qs" "j < 4"
    then have "q + j < ?n" using assms(3) by fastforce
    then show "code_buf s' ! (q + j) = take ?n (code_buf s) ! (q + j)" using nth by simp
  qed
  moreover have "get_u32 (code_buf s') (?n + 1) = ?l" using c2(4) c1(1) by simp
  moreover have "JS_VALUE_GET_INT l' = of_nat (?n + 1)" using label_value [OF assms(5)] len(1) by (simp add: l')
  ultimately show "chain (code_buf s') (JS_VALUE_GET_INT l') ((?n + 1) # qs)"
    using assms(3,5) len by auto
qed

text \<open>
  The life of a label in the parser: it starts with no operand, a jump adds one, and the code in between
  appends to the byte code and leaves the operands of the label alone.
\<close>

inductive label_life :: "resize_env \<Rightarrow> parse_state \<Rightarrow> JSValue \<Rightarrow> nat list \<Rightarrow> bool" for env where
  create: "byte_code_len s \<le> length (code_buf s) \<Longrightarrow> label_life env s new_label []"
| jump: "label_life env s l qs \<Longrightarrow> emit_goto env s op l = Some (s', l') \<Longrightarrow> byte_code_len s + 1 < 2 ^ 29 - 1 \<Longrightarrow>
    label_life env s' l' ((byte_code_len s + 1) # qs)"
| other: "label_life env s l qs \<Longrightarrow> byte_code_len s \<le> byte_code_len s' \<Longrightarrow> byte_code_len s' \<le> length (code_buf s') \<Longrightarrow>
    (\<And>q j. q \<in> set qs \<Longrightarrow> j < 4 \<Longrightarrow> code_buf s' ! (q + j) = code_buf s ! (q + j)) \<Longrightarrow> label_life env s' l qs"

lemma label_life_chain:
  "label_life env s l qs \<Longrightarrow> chain (code_buf s) (JS_VALUE_GET_INT l) qs \<and> (\<forall>q \<in> set qs. q + 4 \<le> byte_code_len s) \<and>
    byte_code_len s \<le> length (code_buf s)"
proof (induction rule: label_life.induct)
  case (create s)
  have "JS_VALUE_GET_INT new_label = LABEL_OFFSET_MASK" by code_simp
  then show ?case using create by simp
next
  case (jump s l qs op s' l')
  then have c: "chain (code_buf s) (JS_VALUE_GET_INT l) qs" "\<forall>q \<in> set qs. q + 4 \<le> byte_code_len s"
    "byte_code_len s \<le> length (code_buf s)" by simp_all
  note g = emit_goto_chain [OF jump.hyps(2) c jump.hyps(3)]
  show ?case using g(1-3) c(2) by auto
next
  case (other s l qs s')
  then have c: "chain (code_buf s) (JS_VALUE_GET_INT l) qs" "\<forall>q \<in> set qs. q + 4 \<le> byte_code_len s"
    "byte_code_len s \<le> length (code_buf s)" by simp_all
  have n: "\<forall>q \<in> set qs. q + 4 \<le> byte_code_len s'" using c(2) other.hyps(2) by fastforce
  have "chain (code_buf s') (JS_VALUE_GET_INT l) qs"
  proof (rule chain_cong [OF chain_take [OF c]])
    show "length (take (byte_code_len s) (code_buf s)) \<le> length (code_buf s')" using other.hyps(2,3) c(3) by simp
    fix q j :: nat assume q: "q \<in> set qs" "j < 4"
    then have "q + j < byte_code_len s" using c(2) by fastforce
    then show "code_buf s' ! (q + j) = take (byte_code_len s) (code_buf s) ! (q + j)" using other.hyps(4) [OF q] by simp
  qed
  then show ?case using n other.hyps(3) by simp
qed

lemma distance_value: "sint (of_nat p - of_nat q :: s32) = int p - int q" if "p < 2 ^ 30" "q < 2 ^ 30"
proof -
  have "signed_take_bit 31 (int p - int q) = int p - int q"
    by (rule signed_take_bit_int_eq_self) (use that in simp_all)
  moreover have "(of_nat p - of_nat q :: s32) = word_of_int (int p - int q)" by simp
  ultimately show ?thesis by (simp add: signed_of_int del: of_int_diff)
qed

lemma resolved_label:
  assumes "p < 2 ^ 29"
  shows "JS_VALUE_GET_INT (JS_NewShortInt (of_nat p OR LABEL_RESOLVED_FLAG)) AND LABEL_RESOLVED_FLAG \<noteq> 0"
    "JS_VALUE_GET_INT (JS_NewShortInt (of_nat p OR LABEL_RESOLVED_FLAG)) AND LABEL_OFFSET_MASK = of_nat p"
proof -
  let ?l = "of_nat p OR LABEL_RESOLVED_FLAG :: s32"
  have u: "unat (of_nat p :: s32) = p" using assms by (simp add: unat_of_nat)
  have low: "i < 29" if "bit (of_nat p :: s32) i" for i
    using bit_unat_less [of "of_nat p :: s32" 29 i] u assms that by (cases "i < 29") simp_all
  have m: "push_bit 29 1 - 1 = (mask 29 :: s32)" by (simp add: mask_eq_exp_minus_1)
  have a: "?l AND LABEL_OFFSET_MASK = of_nat p" unfolding LABEL_RESOLVED_FLAG_def LABEL_OFFSET_MASK_def m
  proof (rule bit_word_eqI)
    fix i assume "i < LENGTH(32)"
    show "bit ((of_nat p OR push_bit 29 1) AND (mask 29 :: s32)) i = bit (of_nat p :: s32) i"
      using low [of i] unfolding bit_and_iff bit_or_iff bit_push_bit_iff bit_mask_iff bit_1_iff by auto
  qed
  have b: "?l AND LABEL_RESOLVED_FLAG = LABEL_RESOLVED_FLAG"
    by (rule bit_word_eqI) (auto simp: bit_and_iff bit_or_iff)
  have "unat (of_nat p OR push_bit 29 1 :: s32) = unat (of_nat p :: s32) + unat (1 :: s32) * 2 ^ 29"
    by (rule unat_or_push_bit; unfold u) (use assms in simp_all)
  then have "unat ?l = p + 2 ^ 29" unfolding u LABEL_RESOLVED_FLAG_def by simp
  then have "?l = of_nat (p + 2 ^ 29)" by (metis of_nat_unat ucast_id)
  then have "sint ?l = int p + 2 ^ 29" using sint_of_nat_small [of "p + 2 ^ 29"] assms by simp
  then have "JS_VALUE_GET_INT (JS_NewShortInt ?l) = ?l"
    using assms short_int_value [of ?l] by (simp add: JS_SHORTINT_MIN_def JS_SHORTINT_MAX_def)
  then show "JS_VALUE_GET_INT (JS_NewShortInt ?l) AND LABEL_RESOLVED_FLAG \<noteq> 0"
    "JS_VALUE_GET_INT (JS_NewShortInt ?l) AND LABEL_OFFSET_MASK = of_nat p"
    using a b by (simp_all add: LABEL_RESOLVED_FLAG_def)
qed

text \<open>
  C22: placing a label ends, and afterwards every jump to it lands on it: the operand of each jump the
  parser emitted to the label is, as \<open>JS_Call\<close> adds it to the place it is read from, the distance to the
  end of the code at that time, the other bytes are what they were, and the next instruction is not
  merged with what precedes the label.
\<close>
theorem emit_label_jumps:
  assumes "label_life env s l qs" "byte_code_len s < 2 ^ 29"
  shows "\<exists>s' l'. emit_label s l = Some (s', l') \<and> byte_code_len s' = byte_code_len s \<and> last_opcode_pos s' = -1 \<and>
    (\<forall>q \<in> set qs. int q + sint (get_u32 (code_buf s') q) = int (byte_code_len s)) \<and>
    (\<forall>j. (\<forall>q \<in> set qs. j < q \<or> q + 4 \<le> j) \<longrightarrow> code_buf s' ! j = code_buf s ! j)"
proof -
  from label_life_chain [OF assms(1)] have c: "chain (code_buf s) (JS_VALUE_GET_INT l) qs"
    "\<forall>q \<in> set qs. q + 4 \<le> byte_code_len s" by simp_all
  from patch_label_value [OF c(1), of "byte_code_len s"] obtain code where
    p: "patch_label (byte_code_len s) (JS_VALUE_GET_INT l) (code_buf s) = Some code"
    "\<forall>q \<in> set qs. get_u32 code q = of_nat (byte_code_len s) - of_nat q"
    "\<forall>j. (\<forall>q \<in> set qs. j < q \<or> q + 4 \<le> j) \<longrightarrow> code ! j = code_buf s ! j" by blast
  have "int q + sint (get_u32 code q) = int (byte_code_len s)" if "q \<in> set qs" for q
    using p(2) that distance_value [of "byte_code_len s" q] c(2) assms(2) by fastforce
  then show ?thesis
    using p(1,3) chain_head [OF c(1)] by (simp add: emit_label_def emit_label_pos_def Let_def)
qed

text \<open>A forward jump at the start of the code, of an empty source.\<close>

lemma small_op:
  "emit_op dirty_memory (small_state [] 0 [] 0 0 0 0 0) OP_goto = Some (small_state [54] 1 [0xaa, 0xaa, 0xaa, 0xaa] 1 0 1 0 2)"
proof -
  have z: "32 - clz32 1 = 1" "(0::u32) + 1 = 1" "2 * (0::s32) XOR - drop_bit 31 0 = 0" "(word_of_int 0 :: s32) = 0"
    "get_line_col_delta [10, 103] 0 0 = (0, 0)"
    by code_simp+
  have f: "source_buf (small_state c n l b sp p h k) = [10, 103]" "\<not> has_col (small_state c n l b sp p h k)"
    "pc2line_source_pos (small_state c n l b sp p h k) = sp" for c n l b sp p h k
    by (simp_all add: small_state_def)
  have s: "(small_state [] 0 [] 0 0 0 0 0)\<lparr>last_opcode_pos := int (byte_code_len (small_state [] 0 [] 0 0 0 0 0)),
      last_pc2line_pos := pc2line_bit_len (small_state [] 0 [] 0 0 0 0 0),
      last_pc2line_source_pos := pc2line_source_pos (small_state [] 0 [] 0 0 0 0 0)\<rparr> = small_state [] 0 [] 0 0 1 0 0"
    by (simp add: small_state_def)
  have b: "pc2line_put_bits dirty_memory (small_state [] 0 [] 0 0 1 0 0) 1 1 =
      Some (small_state [] 0 [0xaa, 0xaa, 0xaa, 0xaa] 1 0 1 0 1)"
    by code_simp
  have "put_sgolomb dirty_memory (small_state [] 0 [] 0 0 1 0 0) 0 =
      Some (small_state [] 0 [0xaa, 0xaa, 0xaa, 0xaa] 1 0 1 0 1)"
    unfolding put_sgolomb_def put_ugolomb_def Let_def z by (simp add: b del: One_nat_def)
  then have "emit_pc2line dirty_memory (small_state [] 0 [] 0 0 1 0 0) 0 =
      Some ((small_state [] 0 [0xaa, 0xaa, 0xaa, 0xaa] 1 0 1 0 1)\<lparr>pc2line_source_pos := 0\<rparr>)"
    by (simp add: emit_pc2line_def f z del: One_nat_def)
  moreover have "emit_u8 dirty_memory ((small_state [] 0 [0xaa, 0xaa, 0xaa, 0xaa] 1 0 1 0 1)\<lparr>pc2line_source_pos := 0\<rparr>)
      OP_goto = Some (small_state [54] 1 [0xaa, 0xaa, 0xaa, 0xaa] 1 0 1 0 2)"
    by code_simp
  ultimately show ?thesis
    unfolding emit_op_def emit_op_pos_def s unfolding f(3) by (simp del: One_nat_def)
qed

lemma small_goto:
  "emit_goto dirty_memory (small_state [] 0 [] 0 0 0 0 0) OP_goto new_label =
    Some (small_state [54, 255, 255, 255, 31] 5 [0xaa, 0xaa, 0xaa, 0xaa] 1 0 1 0 3, 2)"
proof -
  have n: "JS_VALUE_GET_INT new_label = LABEL_OFFSET_MASK" "LABEL_OFFSET_MASK AND LABEL_RESOLVED_FLAG = 0" by code_simp+
  have u: "emit_u32 dirty_memory (small_state [54] 1 [0xaa, 0xaa, 0xaa, 0xaa] 1 0 1 0 2) LABEL_OFFSET_MASK =
      Some (small_state [54, 255, 255, 255, 31] 5 [0xaa, 0xaa, 0xaa, 0xaa] 1 0 1 0 3)" by code_simp
  have l: "JS_NewShortInt (of_nat (byte_code_len (small_state [54, 255, 255, 255, 31] 5 [0xaa, 0xaa, 0xaa, 0xaa] 1 0 1 0 3) - 4)) = 2"
    by code_simp
  show ?thesis by (simp add: emit_goto_def small_op n u l Let_def del: One_nat_def)
qed

theorem emit_label_jumps_witness:
  "\<exists>s' l'. emit_label (small_state [54, 255, 255, 255, 31] 5 [0xaa, 0xaa, 0xaa, 0xaa] 1 0 1 0 3) 2 = Some (s', l') \<and>
    1 + sint (get_u32 (code_buf s') 1) = 5"
proof -
  have c: "label_life dirty_memory (small_state [] 0 [] 0 0 0 0 0) new_label []"
    by (rule label_life.create) (simp add: small_state_def)
  have "label_life dirty_memory (small_state [54, 255, 255, 255, 31] 5 [0xaa, 0xaa, 0xaa, 0xaa] 1 0 1 0 3) 2 [1]"
    using label_life.jump [OF c small_goto] by (simp add: small_state_def)
  from emit_label_jumps [OF this] show ?thesis by (fastforce simp: small_state_def)
qed

text \<open>
  C25: a jump back to a placed label lands on it too, and leaves the label as it is.
\<close>
theorem emit_goto_placed:
  assumes "emit_label s l = Some (s1, l1)" "byte_code_len s < 2 ^ 29"
    "emit_goto env s2 op l1 = Some (s3, l3)" "byte_code_len s2 \<le> length (code_buf s2)" "byte_code_len s2 + 1 < 2 ^ 30"
  shows "l3 = l1 \<and> byte_code_len s3 = byte_code_len s2 + 5 \<and> code_buf s3 ! byte_code_len s2 = op \<and>
    int (byte_code_len s2 + 1) + sint (get_u32 (code_buf s3) (byte_code_len s2 + 1)) = int (byte_code_len s)"
proof -
  let ?p = "byte_code_len s"
  have l1: "l1 = JS_NewShortInt (of_nat ?p OR LABEL_RESOLVED_FLAG)"
    using assms(1) by (auto simp: emit_label_def emit_label_pos_def Let_def split: Option.bind_splits if_splits)
  note r = resolved_label [OF assms(2), folded l1]
  from assms(3) r obtain t where t: "emit_op env s2 op = Some t"
    "emit_u32 env t (of_nat ?p - of_nat (byte_code_len t)) = Some s3" "l3 = l1"
    by (auto simp: emit_goto_def Let_def split: Option.bind_splits)
  note c = emit_op_code [OF t(1) assms(4)]
  note d = emit_u32_code [OF t(2) c(2)]
  have "sint (get_u32 (code_buf s3) (byte_code_len s2 + 1)) = int ?p - int (byte_code_len s2 + 1)"
    using d(4) c(1) distance_value [of ?p "byte_code_len s2 + 1"] assms(2,5) by simp
  moreover have "code_buf s3 ! byte_code_len s2 = op" using d(3) [of "byte_code_len s2"] c(1,4) by simp
  ultimately show ?thesis using t(3) c(1) d(1) by simp
qed

text \<open>A label placed at the start of the code, and a jump to it.\<close>

theorem emit_goto_placed_witness:
  "emit_goto dirty_memory (small_state [] 0 [] 0 0 0 0 0) OP_goto 1073741824 =
      Some (small_state [54, 255, 255, 255, 255] 5 [0xaa, 0xaa, 0xaa, 0xaa] 1 0 1 0 3, 1073741824) \<and>
    1 + sint (get_u32 [54, 255, 255, 255, 255] 1) = 0"
proof -
  have n: "JS_VALUE_GET_INT new_label = LABEL_OFFSET_MASK" "LABEL_OFFSET_MASK AND LABEL_RESOLVED_FLAG = 0"
    "JS_NewShortInt LABEL_RESOLVED_FLAG = 1073741824"
    "JS_VALUE_GET_INT 1073741824 AND LABEL_RESOLVED_FLAG \<noteq> 0"
    "JS_VALUE_GET_INT 1073741824 AND LABEL_OFFSET_MASK = 0"
    by code_simp+
  have l: "emit_label (small_state [] 0 [] 0 0 0 0 0) new_label =
      Some ((small_state [] 0 [] 0 0 0 0 0)\<lparr>last_opcode_pos := -1\<rparr>, 1073741824)"
    by (simp add: emit_label_def emit_label_pos_def Let_def n patch_label.simps) (simp add: small_state_def n)
  have u: "emit_u32 dirty_memory (small_state [54] 1 [0xaa, 0xaa, 0xaa, 0xaa] 1 0 1 0 2) (- 1) =
      Some (small_state [54, 255, 255, 255, 255] 5 [0xaa, 0xaa, 0xaa, 0xaa] 1 0 1 0 3)"
    by code_simp
  have b: "byte_code_len (small_state [54] 1 [0xaa, 0xaa, 0xaa, 0xaa] 1 0 1 0 2) = 1" by (simp add: small_state_def)
  have g: "emit_goto dirty_memory (small_state [] 0 [] 0 0 0 0 0) OP_goto 1073741824 =
      Some (small_state [54, 255, 255, 255, 255] 5 [0xaa, 0xaa, 0xaa, 0xaa] 1 0 1 0 3, 1073741824)"
    by (simp add: emit_goto_def small_op n u b Let_def del: One_nat_def)
  have "1 + sint (get_u32 [54, 255, 255, 255, 255] 1) = 0"
    using emit_goto_placed [OF l _ g, THEN conjunct2, THEN conjunct2, THEN conjunct2] by (simp add: small_state_def)
  with g show ?thesis ..
qed

end
