(* ===== verification/Spec2Isabelle.thy ===== *)
theory Spec2Isabelle imports Ref_Store Kmp_Buf Run_State JsAtoms JsProps DtoaInteger JsWtf8 Shim_Numbers Shim_Files JsSort JsStack JsLabels begin

text \<open>
  Verification development for mquickjs-kmp, a library that embeds the JavaScript engine MicroQuickJS in
  Kotlin programs.

  The program. \<open>native/mquickjs/\<close> is the engine: values, a heap with a compacting collector, strings,
  property tables, a one pass compiler to byte code, an interpreter and the builtin objects.
  \<open>native/shim/mquickjs_kmp.c\<close> is the shim, the only part the Kotlin side calls (through
  \<open>native/jni/mquickjs_jni.c\<close> or Kotlin/Native): it owns one engine per \<open>kmpjs_engine\<close>, converts values,
  keeps the objects of the host alive in a table of counted references, copies results to byte buffers
  that live until the next call, runs and interrupts scripts, and compiles and loads byte code. Host
  functions run inside a call of the engine and may call the shim again.

  The theories and the code they model, from the bottom up. Paths are under \<open>src/native/\<close>; a definition
  has the name of the function or macro it models, and the loops and branches a long function is split
  into have names of their own.

  Base: \<open>Prelude\<close> has the word types and the facts on words, bits and lists that several theories use.
  \<open>Cutils\<close> is \<open>mquickjs/cutils.h\<close> and \<open>cutils.c\<close> (bit scans, unaligned access, byte order, C strings) and
  \<open>Utf8\<close> the UTF-8 coder there: decoding undoes encoding, and only shortest forms are accepted.

  Values and heap (\<open>mquickjs/mquickjs.h\<close>, \<open>mquickjs_priv.h\<close>, \<open>mquickjs.c\<close>): \<open>JsValue\<close> is the tagged word, its
  constructors and class tests. \<open>Float64\<close> is IEEE doubles as bit patterns, with the software comparison
  and conversion routines the engine has, shown equal to a definition on exact values, and the boxing of
  numbers as short floats. \<open>JsHeap\<close> is the memory blocks, the allocator, shrinking and freeing: blocks tile
  the heap after every operation. \<open>JsAlloc\<close> is boxed numbers, the conversion to a number, byte arrays and
  value arrays.

  Strings (\<open>mquickjs.c\<close>): \<open>JsString\<close> converts between UTF-16 positions and byte positions with the position
  cache, \<open>JsStringOps\<close> has comparison, concatenation, substrings and character access over it, and \<open>JsWtf8\<close>
  gives the bytes their meaning as UTF-16 units and shows that the byte comparison is the comparison of
  units. \<open>JsAtoms\<close> is the sorted table of unique strings.

  Numbers as text (\<open>mquickjs/dtoa.c\<close>): \<open>Mp\<close> is the multiple precision arithmetic, \<open>DtoaInt\<close> printing of
  integers, \<open>Dtoa\<close> printing and parsing of doubles in every format and base, and \<open>DtoaInteger\<close> shows that
  an integer printed and parsed is the same double.

  Objects (\<open>mquickjs.c\<close>): \<open>JsProps\<close> is the hash tables of properties: lookup, creation, growth, rehashing,
  compaction and deletion, shown to refine a map from keys to properties. \<open>JsSort\<close> is \<open>rqsort_idx\<close> and
  \<open>Array.prototype.sort\<close>, with comparison functions that run script.

  Compiler output (\<open>mquickjs.c\<close>, \<open>mquickjs_opcode.h\<close>): \<open>Bytecode\<close> is the instruction table. \<open>JsEmit\<close> emits
  instructions, labels and the line table, \<open>JsLines\<close> reads the line table back, \<open>JsLineTable\<close> joins the two
  (every program counter finds the line and column it was emitted with) and \<open>JsLabels\<close> shows that jumps
  land on their labels. \<open>JsStack\<close> is the analysis that computes the stack size of a function: it stays
  inside the code, and bounds the depth for sizes below 254, with exactly the gaps that are shown there
  (the return address of a \<open>finally\<close> block, exception handlers, the size 255, a collection between two pushes).

  The shim (\<open>shim/mquickjs_kmp.c\<close>, \<open>mquickjs_kmp.h\<close>): \<open>Handle_Store\<close> is the interface a table of counted
  handles has for its host, \<open>Ref_Table\<close> the slots, generations and root list of the code, and \<open>Ref_Store\<close>
  the proof that the one provides the other. \<open>Kmp_Buf\<close> is the byte buffer, \<open>Run_State\<close> the state word that
  interrupts and nested runs race on, with every interleaving of the engine thread and interrupting
  threads as a step relation. \<open>Shim\<close> is every operation of the shim over these. \<open>Shim_Reports\<close> shows that
  every operation returns and what it reports, \<open>Shim_Refs\<close> that a host call balances the references, by
  double entry against what the host and the engine say they hold, \<open>Shim_Numbers\<close> that scalars keep their
  meaning across the boundary, over the engine's own boxing of numbers, and \<open>Shim_Files\<close> that compiled files
  are checked and that a loaded program is one new reference.

  How state and errors are modelled. A C struct is a record, a block of the heap a constructor of
  \<open>mblock\<close> with the fields of its struct, and memory a map from addresses to blocks; functions that
  change state return the new one. Machine integers are words of their width wherever they can wrap;
  pointers and lengths that stay below the size of the memory are natural numbers. \<open>None\<close> is an abort, a
  failed assertion or an access the C code must not make; exceptions of the engine are values, as in the
  code. What the model cannot contain is an argument of the definitions: \<open>js_env\<close> is the collector and
  the construction of error objects as the allocator sees them, \<open>js_api\<close> the engine as the shim sees it,
  \<open>sort_env\<close> the calls of comparison functions, \<open>resize_env\<close> the memory that growing a byte array gives.
  A property that relies on one of them states what it relies on as a hypothesis, and has a witness with
  a concrete one.

  Interfaces. \<open>handle_store\<close> (what lookups return after each operation, that handles are fresh) is
  interpreted on the slot table as \<open>rt\<close>; \<open>three_way\<close> (comparison functions and bisection) on the comparison
  of texts as \<open>text_order\<close>; \<open>index_ops\<close> and its extension \<open>ordered_ops\<close> (the comparison and exchange a heap
  sort by indices relies on) on the sort of strings as \<open>sort_strings\<close> and on a user's comparison function as
  \<open>sort_user\<close>.

  Loops and bounds. Loops are recursive functions with proved termination, so no property depends on
  fuel, with these exceptions. The search of a property chain and the walk over the heap take the number
  of entries or blocks as a bound; for well formed tables and heaps a property shows that it is enough.
  \<open>count_zeros\<close> of the line table stops after 32 bits because the code does. Placing a label follows a list
  in the byte code that could be cyclic in arbitrary code, and is a partial function; \<open>emit_label_jumps\<close>
  shows that it ends for labels the generator built. Positions in byte code are below 2 to the 29, the
  range of a label, and source positions below 2 to the 30.

  Not modelled. The lexer and parser proper and the interpreter loop \<open>JS_Call\<close>: each is one mutually
  dependent state machine over the whole heap; the development has what they call and treats a call of
  the interpreter as an argument. Regular expressions, JSON, and most builtin functions. The standard
  library image, its generator \<open>mquickjs_build.c\<close> and its tables \<open>mqjs_stdlib.c\<close>, which run at build time.
  \<open>libm.c\<close> and the software floating point templates are vendored, and the templates are not compiled in
  any build of the repository. \<open>mqjs.c\<close>, \<open>example.c\<close> and \<open>readline.c\<close> are the upstream command line program.
  The Java bindings, the compiler tool \<open>kmpjsc.c\<close> and the Kotlin sources only marshal calls to the shim.
\<close>

end
